(* ===== verification/Prelude.thy ===== *)
theory Prelude
  imports Main "HOL-Library.Word" "HOL-Library.Char_ord" "HOL-Library.List_Lexorder"
    "HOL-Library.Sublist"
begin

text \<open>
  The vocabulary every component shares.

  A Go string or byte slice is a HOL \<^typ>\<open>string\<close>: \<^typ>\<open>char\<close> is an eight bit byte, and
  the order on \<^typ>\<open>string\<close> of \<^theory_text>\<open>List_Lexorder\<close> and \<^theory_text>\<open>Char_ord\<close> is the
  byte-wise lexicographic order that Pebble keeps its keys in.  A \<open>uint32\<close> is a 32 bit word, a
  \<open>uint64\<close> a 64 bit word; an \<open>int64\<close> (a millisecond time or a duration) and an \<open>int32\<close>
  (a delivery count) are \<^typ>\<open>int\<close>, with the range stated wherever it matters.  A Go error
  return is the left summand of a sum.
\<close>

section \<open>Types\<close>

type_synonym bytes = string
type_synonym u32 = "32 word"
type_synonym u64 = "64 word"
type_synonym ms = int

named_theorems key_simps \<open>unfolding and cancellation rules for the key codec\<close>
named_theorems kv_simps \<open>how the store operations act on a lookup\<close>

section \<open>Results\<close>

definition is_ok :: "'e + 'a \<Rightarrow> bool" where
  "is_ok r \<longleftrightarrow> (case r of Inl _ \<Rightarrow> False | Inr _ \<Rightarrow> True)"

lemma is_ok_simps [simp]: "is_ok (Inr x)" "\<not> is_ok (Inl e)"
  by (simp_all add: is_ok_def)

lemma is_okE: "is_ok r \<Longrightarrow> (\<And>x. r = Inr x \<Longrightarrow> thesis) \<Longrightarrow> thesis"
  by (cases r) auto

text \<open>The early return on an error that a Go call is followed by.\<close>

fun ebind :: "'e + 'a \<Rightarrow> ('a \<Rightarrow> 'e + 'b) \<Rightarrow> 'e + 'b" where
  "ebind (Inl e) f = Inl e"
| "ebind (Inr x) f = f x"

lemma ebind_Inr: "ebind m f = Inr y \<longleftrightarrow> (\<exists>x. m = Inr x \<and> f x = Inr y)"
  by (cases m) auto

lemma ebind_Inl: "ebind m f = Inl e \<longleftrightarrow> m = Inl e \<or> (\<exists>x. m = Inr x \<and> f x = Inl e)"
  by (cases m) auto

text \<open>
  The same for a call that also changes the state: a Go method that returns an error, called in
  sequence.  On an error the state is the one the failing call left.
\<close>

definition sbind ::
    "('s \<Rightarrow> ('e + 'a) \<times> 's) \<Rightarrow> ('a \<Rightarrow> 's \<Rightarrow> ('e + 'b) \<times> 's) \<Rightarrow> 's \<Rightarrow> ('e + 'b) \<times> 's" where
  "sbind m f s = (case m s of (Inl e, s') \<Rightarrow> (Inl e, s') | (Inr x, s') \<Rightarrow> f x s')"

definition sret :: "'a \<Rightarrow> 's \<Rightarrow> ('e + 'a) \<times> 's" where
  "sret x s = (Inr x, s)"

definition sfail :: "'e \<Rightarrow> 's \<Rightarrow> ('e + 'a) \<times> 's" where
  "sfail e s = (Inl e, s)"

text \<open>A call that only reads.\<close>

definition slift :: "('s \<Rightarrow> 'e + 'a) \<Rightarrow> 's \<Rightarrow> ('e + 'a) \<times> 's" where
  "slift r s = (r s, s)"

definition sget :: "('s \<Rightarrow> 'a) \<Rightarrow> 's \<Rightarrow> ('e + 'a) \<times> 's" where
  "sget f s = (Inr (f s), s)"

text \<open>A change of memory that cannot fail.\<close>

definition smod :: "('s \<Rightarrow> 's) \<Rightarrow> 's \<Rightarrow> ('e + unit) \<times> 's" where
  "smod f s = (Inr (), f s)"

lemmas seq_defs = sbind_def sret_def sfail_def slift_def sget_def smod_def

text \<open>What a call preserves, whatever it returns.\<close>

definition keeps :: "('s \<Rightarrow> bool) \<Rightarrow> ('s \<Rightarrow> ('e + 'a) \<times> 's) \<Rightarrow> bool" where
  "keeps P m \<longleftrightarrow> (\<forall>s r s'. P s \<longrightarrow> m s = (r, s') \<longrightarrow> P s')"

lemma keepsI: "(\<And>s r s'. P s \<Longrightarrow> m s = (r, s') \<Longrightarrow> P s') \<Longrightarrow> keeps P m"
  by (auto simp: keeps_def)

lemma keepsD: "keeps P m \<Longrightarrow> m s = (r, s') \<Longrightarrow> P s \<Longrightarrow> P s'"
  by (auto simp: keeps_def)

lemma sbind_ok: "sbind m f s = (Inr y, s') \<longleftrightarrow> (\<exists>x t. m s = (Inr x, t) \<and> f x t = (Inr y, s'))"
  by (auto simp: sbind_def split: prod.splits sum.splits)

lemma sbind_cases:
  assumes "sbind m f s = (r, s')"
  obtains (fail) e where "m s = (Inl e, s')" "r = Inl e"
    | (ok) x t where "m s = (Inr x, t)" "f x t = (r, s')"
  using assms by (auto simp: sbind_def split: prod.splits sum.splits)

lemma keeps_sbind [intro]: "keeps P m \<Longrightarrow> (\<And>x. keeps P (f x)) \<Longrightarrow> keeps P (sbind m f)"
  by (rule keepsI, erule sbind_cases) (auto dest: keepsD)

lemma keeps_simple [intro, simp]: "keeps P (sret x)" "keeps P (sfail e)" "keeps P (slift g)" "keeps P (sget h)"
  by (simp_all add: keeps_def sret_def sfail_def slift_def sget_def)

lemma keeps_smod [intro]: "(\<And>s. P s \<Longrightarrow> P (f s)) \<Longrightarrow> keeps P (smod f)"
  by (simp add: keeps_def smod_def)

lemma keeps_if [intro]: "keeps P m \<Longrightarrow> keeps P n \<Longrightarrow> keeps P (if b then m else n)"
  by simp

text \<open>How the state before a call is related to the state after it, whatever the call returns.\<close>

definition moves :: "('s \<Rightarrow> 's \<Rightarrow> bool) \<Rightarrow> ('s \<Rightarrow> ('e + 'a) \<times> 's) \<Rightarrow> bool" where
  "moves R m \<longleftrightarrow> (\<forall>s r s'. m s = (r, s') \<longrightarrow> R s s')"

lemma movesI: "(\<And>s r s'. m s = (r, s') \<Longrightarrow> R s s') \<Longrightarrow> moves R m"
  by (auto simp: moves_def)

lemma movesD: "moves R m \<Longrightarrow> m s = (r, s') \<Longrightarrow> R s s'"
  by (auto simp: moves_def)

lemma moves_sbind: "transp R \<Longrightarrow> moves R m \<Longrightarrow> (\<And>x. moves R (f x)) \<Longrightarrow> moves R (sbind m f)"
  by (rule movesI, erule sbind_cases) (auto dest: movesD transpD)

lemma moves_simple: "reflp R \<Longrightarrow> moves R (sret x) \<and> moves R (sfail e) \<and> moves R (slift g) \<and> moves R (sget h)"
  by (simp add: moves_def sret_def sfail_def slift_def sget_def reflpD)

lemma moves_keeps: "moves R m \<Longrightarrow> (\<And>s s'. R s s' \<Longrightarrow> P s \<Longrightarrow> P s') \<Longrightarrow> keeps P m"
  unfolding moves_def keeps_def by blast

section \<open>Byte strings\<close>

text \<open>Go's \<open>bytes.IndexByte\<close>: everything before and after the first occurrence of a byte.\<close>

fun cut_byte :: "char \<Rightarrow> bytes \<Rightarrow> (bytes \<times> bytes) option" where
  "cut_byte c [] = None"
| "cut_byte c (x # xs) =
     (if x = c then Some ([], xs)
      else (case cut_byte c xs of None \<Rightarrow> None | Some (a, b) \<Rightarrow> Some (x # a, b)))"

text \<open>Go's \<open>bytes.CutPrefix\<close>.\<close>

fun cut_prefix :: "bytes \<Rightarrow> bytes \<Rightarrow> bytes option" where
  "cut_prefix [] k = Some k"
| "cut_prefix (p # ps) [] = None"
| "cut_prefix (p # ps) (x # xs) = (if p = x then cut_prefix ps xs else None)"

lemma cut_byte_append [key_simps]: "c \<notin> set a \<Longrightarrow> cut_byte c (a @ c # b) = Some (a, b)"
  by (induction a) auto

lemma cut_byte_inj:
  "(c::char) \<notin> set a \<Longrightarrow> c \<notin> set b \<Longrightarrow> a @ c # x = b @ c # y \<longleftrightarrow> a = b \<and> x = y"
  by (metis cut_byte_append option.inject prod.inject)

lemma cut_byte_SomeD: "cut_byte c s = Some (a, b) \<Longrightarrow> s = a @ c # b \<and> c \<notin> set a"
proof (induction s arbitrary: a)
  case (Cons x xs)
  then show ?case by (fastforce split: if_splits option.splits)
qed simp

lemma cut_byte_None: "cut_byte c s = None \<longleftrightarrow> c \<notin> set s"
  by (induction s) (auto split: option.splits)

lemma cut_prefix_Some: "cut_prefix p k = Some r \<longleftrightarrow> k = p @ r"
  by (induction p k rule: cut_prefix.induct) auto

lemma cut_prefix_append [key_simps]: "cut_prefix p (p @ r) = Some r"
  by (simp add: cut_prefix_Some)

lemma cut_prefix_None: "cut_prefix p k = None \<longleftrightarrow> \<not> prefix p k"
  by (induction p k rule: cut_prefix.induct) auto

section \<open>The byte order\<close>

lemma string_append_less: "(p::string) @ a < p @ b \<longleftrightarrow> a < b"
  by (induction p) auto

lemma string_append_le: "(p::string) @ a \<le> p @ b \<longleftrightarrow> a \<le> b"
  by (induction p) auto

lemma string_less_append: "(a::string) < b \<Longrightarrow> length a = length b \<Longrightarrow> a @ c < b @ d"
proof (induction a arbitrary: b)
  case Nil
  then show ?case by simp
next
  case (Cons x a)
  then show ?case by (cases b) auto
qed

lemma string_append_same_length:
  "length a = length b \<Longrightarrow>
    ((a::string) @ c < b @ d \<longleftrightarrow> a < b \<or> (a = b \<and> c < d))"
proof (induction a arbitrary: b)
  case Nil
  then show ?case by simp
next
  case (Cons x a)
  then show ?case by (cases b) auto
qed

lemma below_bound_prefix: "(p::string) \<le> k \<Longrightarrow> k < p @ x \<Longrightarrow> prefix p k"
proof (induction p arbitrary: k)
  case (Cons c p)
  then show ?case by (cases k) auto
qed simp

lemma string_le_append [simp]: "(a::string) \<le> a @ b"
  using string_append_le [of a "[]" b] by simp

lemma string_not_append_less [simp]: "\<not> (a::string) @ b < a"
  using string_le_append [of a b] by (simp add: not_less)

section \<open>Big endian integers\<close>

text \<open>
  \<^verbatim>\<open>encoding/binary\<close>'s \<open>BigEndian.PutUint32/64\<close> and \<open>Uint32/64\<close>, on the integer a word
  stands for.
\<close>

fun be_bytes :: "nat \<Rightarrow> int \<Rightarrow> bytes" where
  "be_bytes 0 v = []"
| "be_bytes (Suc n) v = be_bytes n (v div 256) @ [char_of (v mod 256)]"

definition be_val :: "bytes \<Rightarrow> int" where
  "be_val s = foldl (\<lambda>acc c. acc * 256 + of_char c) 0 s"

lemma length_be_bytes [simp]: "length (be_bytes n v) = n"
  by (induction n arbitrary: v) auto

lemma be_val_Nil [simp]: "be_val [] = 0"
  by (simp add: be_val_def)

lemma be_val_snoc: "be_val (s @ [c]) = be_val s * 256 + of_char c"
  by (simp add: be_val_def)

lemma of_char_int_bounds: "0 \<le> (of_char c :: int)" "(of_char c :: int) < 256"
proof -
  have eq: "of_char c mod 256 = (of_char c :: int)" by simp
  show "0 \<le> (of_char c :: int)" using pos_mod_sign [of 256 "of_char c"] by (simp only: eq)
  show "(of_char c :: int) < 256" using pos_mod_bound [of 256 "of_char c"] by (simp only: eq)
qed

lemma be_val_bytes: "be_val (be_bytes n v) = v mod 256 ^ n"
proof (induction n arbitrary: v)
  case 0
  then show ?case by simp
next
  case (Suc n)
  have "be_val (be_bytes (Suc n) v) = (v div 256) mod 256 ^ n * 256 + v mod 256"
    by (simp add: be_val_snoc Suc.IH)
  also have "\<dots> = v mod (256 * 256 ^ n)"
    by (subst zmod_zmult2_eq) simp_all
  finally show ?case by simp
qed

lemma be_val_nonneg: "0 \<le> be_val s"
proof (induction s rule: rev_induct)
  case (snoc c s)
  then show ?case using of_char_int_bounds(1) [of c] by (simp add: be_val_snoc)
qed simp

lemma be_val_less: "be_val s < 256 ^ length s"
proof (induction s rule: rev_induct)
  case (snoc c s)
  have "be_val (s @ [c]) < be_val s * 256 + 256"
    using of_char_int_bounds(2) [of c] by (simp add: be_val_snoc)
  also have "\<dots> = (be_val s + 1) * 256" by simp
  also have "\<dots> \<le> 256 ^ length s * 256" using snoc.IH by simp
  finally show ?case by simp
qed simp

lemma be_bytes_val: "be_bytes (length s) (be_val s) = s"
proof (induction s rule: rev_induct)
  case (snoc c s)
  have "(be_val s * 256 + of_char c) div 256 = be_val s"
    and "(be_val s * 256 + of_char c) mod 256 = of_char c"
    using of_char_int_bounds [of c] by simp_all
  then show ?case using snoc.IH
    by (simp only: be_val_snoc length_append list.size be_bytes.simps add_0_right add_Suc_right) simp
qed simp

lemma int_of_char: "int (of_char c) = of_char c"
  by (cases c) (simp add: of_char_def)

lemma char_less_int: "x < y \<longleftrightarrow> (of_char x :: int) < of_char y"
  by (simp add: less_char_def flip: int_of_char)

lemma char_le_int: "x \<le> y \<longleftrightarrow> (of_char x :: int) \<le> of_char y"
  by (simp add: less_eq_char_def flip: int_of_char)

lemma char_eq_intI: "(of_char x :: int) \<le> of_char y \<Longrightarrow> (of_char y :: int) \<le> of_char x \<Longrightarrow> x = y"
  using of_char_eq_iff [where 'a = int, of x y] by linarith

lemma char_of_less:
  assumes "0 \<le> v" "v < 256" "0 \<le> w" "w < (256::int)"
  shows "((char_of v :: char) < char_of w) \<longleftrightarrow> v < w"
  using assms by (simp add: char_less_int)

lemma be_bytes_less:
  assumes "0 \<le> v" "0 \<le> w" "v < 256 ^ n" "w < 256 ^ n"
  shows "be_bytes n v < be_bytes n w \<longleftrightarrow> v < w"
  using assms
proof (induction n arbitrary: v w)
  case 0
  then show ?case by simp
next
  case (Suc n)
  have IH: "be_bytes n (v div 256) < be_bytes n (w div 256) \<longleftrightarrow> v div 256 < w div 256"
    using Suc.prems by (intro Suc.IH) auto
  have inj: "be_bytes n (v div 256) = be_bytes n (w div 256) \<longleftrightarrow> v div 256 = w div 256"
  proof
    assume "be_bytes n (v div 256) = be_bytes n (w div 256)"
    then have "be_val (be_bytes n (v div 256)) = be_val (be_bytes n (w div 256))" by simp
    moreover have "(v div 256) < 256 ^ n" "(w div 256) < 256 ^ n"
      using Suc.prems by auto
    ultimately show "v div 256 = w div 256"
      using Suc.prems by (simp add: be_val_bytes)
  qed simp
  have "((char_of (v mod 256) :: char) < char_of (w mod 256)) \<longleftrightarrow> v mod 256 < w mod 256"
    by (rule char_of_less) simp_all
  then have "be_bytes (Suc n) v < be_bytes (Suc n) w \<longleftrightarrow>
      v div 256 < w div 256 \<or> (v div 256 = w div 256 \<and> v mod 256 < w mod 256)"
    by (simp add: string_append_same_length IH inj)
  also have "\<dots> \<longleftrightarrow> v < w"
  proof -
    have "v = 256 * (v div 256) + v mod 256" "w = 256 * (w div 256) + w mod 256"
      "0 \<le> v mod 256" "v mod 256 < 256" "0 \<le> w mod 256" "w mod 256 < 256"
      by simp_all
    then show ?thesis by linarith
  qed
  finally show ?case .
qed

lemma be_bytes_inj:
  assumes "0 \<le> v" "0 \<le> w" "v < 256 ^ n" "w < 256 ^ n"
  shows "be_bytes n v = be_bytes n w \<longleftrightarrow> v = w"
proof
  assume "be_bytes n v = be_bytes n w"
  then have "be_val (be_bytes n v) = be_val (be_bytes n w)" by simp
  then show "v = w" using assms by (simp add: be_val_bytes)
qed simp

end
