(* ===== verification/Keys.thy ===== *)
theory Keys
  imports Prelude
begin

text \<open>
  The key schema of \<^verbatim>\<open>internal/store/keys.go\<close>: every builder, every parser and the scan
  bounds.  A name (topic, group) may be any byte string here; \<open>name_ok\<close> is what the
  registry's name check gives the codec, no slash in a name, and every law that needs it says so.
  A \<open>panic\<close> of the source (\<open>GetU64\<close> on a wrong length) is \<^term>\<open>None\<close>.  The
  locale \<open>key_codec\<close> is what the components that scan a key family rely on; it is
  interpreted for each of the six parsed families at the end of the theory.
\<close>

section \<open>Fixed width integers\<close>

definition put_u64 :: "u64 \<Rightarrow> bytes" where
  "put_u64 v = be_bytes 8 (uint v)"

definition get_u64 :: "bytes \<Rightarrow> u64 option" where
  "get_u64 b = (if length b \<noteq> 8 then None else Some (word_of_int (be_val b)))"

definition put_u32 :: "u32 \<Rightarrow> bytes" where
  "put_u32 v = be_bytes 4 (uint v)"

definition be_u32 :: "bytes \<Rightarrow> u32" where
  "be_u32 b = word_of_int (be_val b)"

definition be_u64 :: "bytes \<Rightarrow> u64" where
  "be_u64 b = word_of_int (be_val b)"

text \<open>The conversions \<open>uint64(ms)\<close> and \<open>int64(u)\<close>.\<close>

definition u64_of_i64 :: "ms \<Rightarrow> u64" where
  "u64_of_i64 v = word_of_int v"

definition i64_of_u64 :: "u64 \<Rightarrow> ms" where
  "i64_of_u64 w = sint w"

definition i64_range :: "int \<Rightarrow> bool" where
  "i64_range v \<longleftrightarrow> - (2 ^ 63) \<le> v \<and> v < 2 ^ 63"

lemma length_put [simp]: "length (put_u64 v) = 8" "length (put_u32 w) = 4"
  by (simp_all add: put_u64_def put_u32_def)

lemma u64_bounds: "0 \<le> uint (v::u64)" "uint (v::u64) < 256 ^ 8"
  using uint_lt2p [of v] by simp_all

lemma u32_bounds: "0 \<le> uint (v::u32)" "uint (v::u32) < 256 ^ 4"
  using uint_lt2p [of v] by simp_all

lemma get_put_u64 [simp]: "get_u64 (put_u64 v) = Some v"
  using u64_bounds [of v] by (simp add: get_u64_def put_u64_def be_val_bytes)

lemma be_put [simp]: "be_u64 (put_u64 v) = v" "be_u32 (put_u32 w) = w"
  using u64_bounds [of v] u32_bounds [of w]
  by (simp_all add: be_u64_def be_u32_def put_u64_def put_u32_def be_val_bytes)

lemma put_u64_be: "length b = 8 \<Longrightarrow> put_u64 (be_u64 b) = b"
  using be_val_less [of b] be_val_nonneg [of b] be_bytes_val [of b]
  by (simp add: put_u64_def be_u64_def uint_word_of_int)

lemma put_u32_be: "length b = 4 \<Longrightarrow> put_u32 (be_u32 b) = b"
  using be_val_less [of b] be_val_nonneg [of b] be_bytes_val [of b]
  by (simp add: put_u32_def be_u32_def uint_word_of_int)

lemma get_u64_iff: "get_u64 b = Some v \<longleftrightarrow> b = put_u64 v"
proof
  assume "get_u64 b = Some v"
  then have "length b = 8" "v = be_u64 b" by (auto simp: get_u64_def be_u64_def split: if_splits)
  then show "b = put_u64 v" by (simp add: put_u64_be)
qed simp

lemma put_u64_less [key_simps]: "put_u64 a < put_u64 b \<longleftrightarrow> a < b"
  unfolding put_u64_def word_less_def using u64_bounds by (intro be_bytes_less) auto

lemma put_u64_inj [key_simps]: "put_u64 a = put_u64 b \<longleftrightarrow> a = b"
  by (metis be_put(1))

lemma put_u32_inj [key_simps]: "put_u32 a = put_u32 b \<longleftrightarrow> a = b"
  by (metis be_put(2))

lemma put_u32_less [key_simps]: "put_u32 a < put_u32 b \<longleftrightarrow> a < b"
  unfolding put_u32_def word_less_def using u32_bounds by (intro be_bytes_less) auto

lemma i64_u64 [simp]: "i64_range v \<Longrightarrow> i64_of_u64 (u64_of_i64 v) = v"
  by (simp add: i64_range_def i64_of_u64_def u64_of_i64_def int_word_sint mod_pos_pos_trivial)

lemma u64_i64 [simp]: "u64_of_i64 (i64_of_u64 w) = w"
  by (simp add: i64_of_u64_def u64_of_i64_def)

lemma i64_range_of [simp]: "i64_range (i64_of_u64 w)"
  using sint_range_size [of w] by (simp add: i64_range_def i64_of_u64_def word_size)

lemma u64_of_i64_less [key_simps]:
  assumes "0 \<le> a" "0 \<le> b" "a < 2 ^ 64" "b < 2 ^ 64"
  shows "u64_of_i64 a < u64_of_i64 b \<longleftrightarrow> a < b"
  using assms by (simp add: u64_of_i64_def word_less_def uint_word_of_int)

section \<open>Key builders\<close>

definition topic_meta_prefix :: bytes where "topic_meta_prefix = ''meta/topic/''"
definition group_meta_prefix :: bytes where "group_meta_prefix = ''meta/group/''"
definition msg_prefix :: bytes where "msg_prefix = ''msg/''"
definition alloc_prefix :: bytes where "alloc_prefix = ''alloc/''"
definition cursor_prefix_c :: bytes where "cursor_prefix_c = ''cursor/''"
definition inflight_prefix_c :: bytes where "inflight_prefix_c = ''inflight/''"
definition key_idx_prefix_c :: bytes where "key_idx_prefix_c = ''keyidx/''"
definition delay_prefix :: bytes where "delay_prefix = ''delay/''"
definition metric_prefix :: bytes where "metric_prefix = ''metric/''"
definition half_prefix :: bytes where "half_prefix = ''half/''"
definition half_idx_prefix :: bytes where "half_idx_prefix = ''halfidx/''"

lemmas prefix_defs = topic_meta_prefix_def group_meta_prefix_def msg_prefix_def alloc_prefix_def
  cursor_prefix_c_def inflight_prefix_c_def key_idx_prefix_c_def delay_prefix_def metric_prefix_def
  half_prefix_def half_idx_prefix_def

definition drop_tail :: "nat \<Rightarrow> bytes \<Rightarrow> bytes" where
  "drop_tail n k = take (length k - n) k"

definition msg_key :: "bytes \<Rightarrow> u32 \<Rightarrow> u64 \<Rightarrow> bytes" where
  "msg_key topic q off = msg_prefix @ topic @ ''/'' @ put_u32 q @ put_u64 off"

definition msg_queue_prefix :: "bytes \<Rightarrow> u32 \<Rightarrow> bytes" where
  "msg_queue_prefix topic q = drop_tail 8 (msg_key topic q 0)"

definition alloc_key :: "bytes \<Rightarrow> u32 \<Rightarrow> bytes" where
  "alloc_key topic q = alloc_prefix @ topic @ ''/'' @ put_u32 q"

definition cursor_key :: "bytes \<Rightarrow> bytes \<Rightarrow> u32 \<Rightarrow> bytes" where
  "cursor_key grp topic q = cursor_prefix_c @ grp @ ''/'' @ topic @ ''/'' @ put_u32 q"

definition inflight_key :: "bytes \<Rightarrow> bytes \<Rightarrow> u32 \<Rightarrow> u64 \<Rightarrow> bytes" where
  "inflight_key grp topic q off =
     inflight_prefix_c @ grp @ ''/'' @ topic @ ''/'' @ put_u32 q @ put_u64 off"

definition inflight_prefix :: "bytes \<Rightarrow> bytes \<Rightarrow> u32 \<Rightarrow> bytes" where
  "inflight_prefix grp topic q = drop_tail 8 (inflight_key grp topic q 0)"

definition topic_meta_key :: "bytes \<Rightarrow> bytes" where
  "topic_meta_key topic = topic_meta_prefix @ topic"

definition group_meta_key :: "bytes \<Rightarrow> bytes" where
  "group_meta_key grp = group_meta_prefix @ grp"

definition delay_key :: "ms \<Rightarrow> u64 \<Rightarrow> bytes" where
  "delay_key due sq = delay_prefix @ put_u64 (u64_of_i64 due) @ put_u64 sq"

text \<open>\<open>nowMs + 1\<close> is int64 arithmetic; the wrap at \<open>MaxInt64\<close> is written out.\<close>

definition i64_succ :: "ms \<Rightarrow> ms" where
  "i64_succ v = i64_of_u64 (u64_of_i64 v + 1)"

definition delay_scan_upper_bound :: "ms \<Rightarrow> bytes" where
  "delay_scan_upper_bound now = delay_key (i64_succ now) 0"

definition delay_alloc_key :: bytes where
  "delay_alloc_key = ''delayalloc''"

definition half_key :: "ms \<Rightarrow> bytes \<Rightarrow> bytes" where
  "half_key next_check tx = half_prefix @ put_u64 (u64_of_i64 next_check) @ tx"

definition half_scan_upper_bound :: "ms \<Rightarrow> bytes" where
  "half_scan_upper_bound now = half_key (i64_succ now) []"

definition half_idx_key :: "bytes \<Rightarrow> bytes" where
  "half_idx_key tx = half_idx_prefix @ tx"

definition key_idx_key :: "bytes \<Rightarrow> bytes \<Rightarrow> ms \<Rightarrow> u32 \<Rightarrow> u64 \<Rightarrow> bytes" where
  "key_idx_key topic key store_ms q off =
     key_idx_prefix_c @ topic @ ''/'' @ key @ ''/'' @ put_u64 (u64_of_i64 store_ms) @
       put_u32 q @ put_u64 off"

definition key_idx_key_prefix :: "bytes \<Rightarrow> bytes \<Rightarrow> bytes" where
  "key_idx_key_prefix topic key = drop_tail 20 (key_idx_key topic key 0 0 0)"

definition handle_secret_key :: bytes where
  "handle_secret_key = ''meta/handle_secret''"

definition key_idx_topic_prefix :: "bytes \<Rightarrow> bytes" where
  "key_idx_topic_prefix topic = key_idx_prefix_c @ topic @ ''/''"

definition cursor_prefix :: bytes where
  "cursor_prefix = cursor_prefix_c"

definition cursor_group_prefix :: "bytes \<Rightarrow> bytes" where
  "cursor_group_prefix grp = cursor_prefix_c @ grp @ ''/''"

definition inflight_all_prefix :: bytes where
  "inflight_all_prefix = inflight_prefix_c"

definition inflight_group_prefix :: "bytes \<Rightarrow> bytes" where
  "inflight_group_prefix grp = inflight_prefix_c @ grp @ ''/''"

definition metric_key :: "ms \<Rightarrow> bytes" where
  "metric_key ts = metric_prefix @ put_u64 (u64_of_i64 ts)"

section \<open>The upper bound of a prefix\<close>

text \<open>The loop runs from the last byte to the first; the argument is the rest, reversed.\<close>

fun upper_bound_rev :: "bytes \<Rightarrow> bytes option" where
  "upper_bound_rev [] = None"
| "upper_bound_rev (c # cs) =
     (if of_char c < (255::int) then Some (rev (char_of (of_char c + 1 :: int) # cs))
      else upper_bound_rev cs)"

definition prefix_upper_bound :: "bytes \<Rightarrow> bytes option" where
  "prefix_upper_bound pfx = upper_bound_rev (rev pfx)"

section \<open>Parsers\<close>

datatype key_error = BadPrefix bytes | BadShape bytes

definition parse_msg_key :: "bytes \<Rightarrow> key_error + bytes \<times> u32 \<times> u64" where
  "parse_msg_key k =
     (case cut_prefix msg_prefix k of
        None \<Rightarrow> Inl (BadPrefix k)
      | Some rest \<Rightarrow>
          (case cut_byte CHR ''/'' rest of
             None \<Rightarrow> Inl (BadShape k)
           | Some (topic, bin) \<Rightarrow>
               if length bin \<noteq> 12 then Inl (BadShape k)
               else Inr (topic, be_u32 (take 4 bin), be_u64 (drop 4 bin))))"

definition parse_inflight_key :: "bytes \<Rightarrow> key_error + bytes \<times> bytes \<times> u32 \<times> u64" where
  "parse_inflight_key k =
     (case cut_prefix inflight_prefix_c k of
        None \<Rightarrow> Inl (BadPrefix k)
      | Some rest \<Rightarrow>
          (case cut_byte CHR ''/'' rest of
             None \<Rightarrow> Inl (BadShape k)
           | Some (grp, rest2) \<Rightarrow>
               (case cut_byte CHR ''/'' rest2 of
                  None \<Rightarrow> Inl (BadShape k)
                | Some (topic, bin) \<Rightarrow>
                    if length bin \<noteq> 12 then Inl (BadShape k)
                    else Inr (grp, topic, be_u32 (take 4 bin), be_u64 (drop 4 bin)))))"

definition parse_cursor_key :: "bytes \<Rightarrow> key_error + bytes \<times> bytes \<times> u32" where
  "parse_cursor_key k =
     (case cut_prefix cursor_prefix_c k of
        None \<Rightarrow> Inl (BadPrefix k)
      | Some rest \<Rightarrow>
          (case cut_byte CHR ''/'' rest of
             None \<Rightarrow> Inl (BadShape k)
           | Some (grp, rest2) \<Rightarrow>
               (case cut_byte CHR ''/'' rest2 of
                  None \<Rightarrow> Inl (BadShape k)
                | Some (topic, bin) \<Rightarrow>
                    if length bin \<noteq> 4 then Inl (BadShape k)
                    else Inr (grp, topic, be_u32 bin))))"

definition parse_cursor_topic_queue :: "bytes \<Rightarrow> key_error + bytes \<times> u32" where
  "parse_cursor_topic_queue k =
     (case parse_cursor_key k of Inl e \<Rightarrow> Inl e | Inr (_, topic, q) \<Rightarrow> Inr (topic, q))"

definition parse_delay_key :: "bytes \<Rightarrow> key_error + ms \<times> u64" where
  "parse_delay_key k =
     (case cut_prefix delay_prefix k of
        None \<Rightarrow> Inl (BadPrefix k)
      | Some rest \<Rightarrow>
          if length rest \<noteq> 16 then Inl (BadPrefix k)
          else Inr (i64_of_u64 (be_u64 (take 8 rest)), be_u64 (drop 8 rest)))"

definition parse_half_key :: "bytes \<Rightarrow> key_error + ms \<times> bytes" where
  "parse_half_key k =
     (case cut_prefix half_prefix k of
        None \<Rightarrow> Inl (BadPrefix k)
      | Some rest \<Rightarrow>
          if length rest \<le> 8 then Inl (BadPrefix k)
          else Inr (i64_of_u64 (be_u64 (take 8 rest)), drop 8 rest))"

text \<open>The fixed tail of an index key is found from the end, since the user's key may hold '/'.\<close>

definition parse_key_idx_key :: "bytes \<Rightarrow> key_error + bytes \<times> bytes \<times> ms \<times> u32 \<times> u64" where
  "parse_key_idx_key k =
     (case cut_prefix key_idx_prefix_c k of
        None \<Rightarrow> Inl (BadPrefix k)
      | Some rest0 \<Rightarrow>
          (case cut_byte CHR ''/'' rest0 of
             None \<Rightarrow> Inl (BadShape k)
           | Some (topic, rest) \<Rightarrow>
               if length rest < 1 + 20 \<or> rest ! (length rest - 21) \<noteq> CHR ''/''
               then Inl (BadShape k)
               else (let key = take (length rest - 21) rest; bin = drop (length rest - 20) rest
                     in Inr (topic, key, i64_of_u64 (be_u64 (take 8 bin)),
                             be_u32 (take 4 (drop 8 bin)), be_u64 (drop 12 bin)))))"

definition parse_key_idx_queue_id :: "bytes \<Rightarrow> key_error + u32" where
  "parse_key_idx_queue_id k =
     (case cut_prefix key_idx_prefix_c k of
        None \<Rightarrow> Inl (BadPrefix k)
      | Some rest \<Rightarrow>
          if length rest < 1 + 20 \<or> rest ! (length rest - 21) \<noteq> CHR ''/''
          then Inl (BadShape k)
          else Inr (be_u32 (take 4 (drop (length rest - 12) rest))))"

definition parse_metric_key :: "bytes \<Rightarrow> key_error + ms" where
  "parse_metric_key k =
     (if cut_prefix metric_prefix k = None \<or> length k \<noteq> length metric_prefix + 8
      then Inl (BadPrefix k)
      else (case get_u64 (drop (length metric_prefix) k) of
              None \<Rightarrow> Inl (BadShape k) | Some v \<Rightarrow> Inr (i64_of_u64 v)))"

section \<open>What the builders look like\<close>

lemma drop_tail_append [key_simps]: "length b = n \<Longrightarrow> drop_tail n (a @ b) = a"
  by (simp add: drop_tail_def)

lemma msg_queue_prefix_eq [key_simps]:
  "msg_queue_prefix t q = msg_prefix @ t @ ''/'' @ put_u32 q"
  unfolding msg_queue_prefix_def msg_key_def
  using drop_tail_append [of "put_u64 0" 8 "msg_prefix @ t @ ''/'' @ put_u32 q"] by simp

lemma inflight_prefix_eq [key_simps]:
  "inflight_prefix g t q = inflight_prefix_c @ g @ ''/'' @ t @ ''/'' @ put_u32 q"
  unfolding inflight_prefix_def inflight_key_def
  using drop_tail_append [of "put_u64 0" 8 "inflight_prefix_c @ g @ ''/'' @ t @ ''/'' @ put_u32 q"]
  by simp

lemma key_idx_key_prefix_eq [key_simps]:
  "key_idx_key_prefix t k = key_idx_prefix_c @ t @ ''/'' @ k @ ''/''"
  unfolding key_idx_key_prefix_def key_idx_key_def
  using drop_tail_append [of "put_u64 (u64_of_i64 0) @ put_u32 0 @ put_u64 0" 20
      "key_idx_prefix_c @ t @ ''/'' @ k @ ''/''"] by simp

lemma msg_key_prefix: "msg_key t q off = msg_queue_prefix t q @ put_u64 off"
  by (simp add: msg_key_def key_simps)

lemma inflight_key_prefix: "inflight_key g t q off = inflight_prefix g t q @ put_u64 off"
  by (simp add: inflight_key_def key_simps)

section \<open>The upper bound is the exact end of the prefix range\<close>

lemma upper_bound_rev_append:
  assumes "upper_bound_rev (rev p) = Some u"
  shows "(p \<le> k \<and> k < u) \<longleftrightarrow> prefix p k"
  using assms
proof (induction p arbitrary: u rule: rev_induct)
  case Nil
  then show ?case by simp
next
  case (snoc c p)
  show ?case
  proof (cases "of_char c < (255::int)")
    case True
    then have u: "u = p @ [char_of (of_char c + 1 :: int)]" using snoc.prems by simp
    show ?thesis unfolding u
    proof (induction p arbitrary: k)
      case Nil
      have bound: "of_char c + 1 < (256::int)" using True by simp
      have le: "(c \<le> x \<and> x < char_of (of_char c + 1 :: int)) \<longleftrightarrow> x = c" for x :: char
        using bound of_char_int_bounds [of c]
        by (auto simp: char_less_int char_le_int intro: char_eq_intI)
      show ?case
      proof (cases k)
        case (Cons x xs)
        have "(c \<le> x \<and> x < char_of (of_char c + 1 :: int)) \<longleftrightarrow> x = c" by (rule le)
        moreover have "\<not> char_of (of_char c + 1 :: int) = c"
          using le [of c] by auto
        ultimately show ?thesis using Cons by (cases xs) (auto simp: le_less)
      qed simp
    next
      case (Cons x p)
      show ?case
      proof (cases k)
        case (Cons y ys)
        then show ?thesis using Cons.IH [of ys] by (cases "x = y") auto
      qed simp
    qed
  next
    case False
    then have "of_char c = (255::int)" using of_char_int_bounds(2) [of c] by simp
    have "upper_bound_rev (rev p) = Some u" using snoc.prems False by simp
    from snoc.IH [OF this] have IH: "(p \<le> k \<and> k < u) \<longleftrightarrow> prefix p k" .
    have c: "c \<le> x \<longleftrightarrow> x = c" for x :: char
    proof
      assume "c \<le> x"
      then have "(of_char c :: int) \<le> of_char x" by (simp only: char_le_int)
      moreover have "(of_char x :: int) \<le> of_char c"
        using of_char_int_bounds(2) [of x] \<open>of_char c = 255\<close> by linarith
      ultimately show "x = c" by (intro char_eq_intI)
    qed simp
    have "prefix p k" if "p @ [c] \<le> k" "k < u"
      using IH that string_le_append [of p "[c]"] by (meson order_trans)
    moreover have "p @ [c] \<le> p @ r \<longleftrightarrow> prefix (p @ [c]) (p @ r)" for r
    proof (cases r)
      case Nil
      then show ?thesis using string_append_le [of p "[c]" "[]"] by simp
    next
      case (Cons a l)
      then show ?thesis using c [of a] by (auto simp: string_append_le)
    qed
    ultimately show ?thesis using IH append_prefixD [of p "[c]" k]
      by (metis prefix_def)
  qed
qed


theorem prefix_upper_bound_exact:
  "prefix_upper_bound p = Some u \<Longrightarrow> (p \<le> k \<and> k < u) \<longleftrightarrow> prefix p k"
  unfolding prefix_upper_bound_def by (rule upper_bound_rev_append)

lemma upper_bound_rev_some: "\<exists>c\<in>set p. of_char c < (255::int) \<Longrightarrow> upper_bound_rev p \<noteq> None"
  by (induction p) auto

lemma prefix_upper_bound_some:
  "\<exists>c\<in>set p. of_char c < (255::int) \<Longrightarrow> prefix_upper_bound p \<noteq> None"
  unfolding prefix_upper_bound_def by (rule upper_bound_rev_some) simp

section \<open>The codec laws\<close>

definition name_ok :: "bytes \<Rightarrow> bool" where
  "name_ok s \<longleftrightarrow> CHR ''/'' \<notin> set s"

text \<open>
  What a component that scans a key family needs of it: a valid key parses back to its fields,
  and a byte string that parses is the key of its fields.
\<close>

locale key_codec =
  fixes enc :: "'a \<Rightarrow> bytes"
    and parse :: "bytes \<Rightarrow> 'e + 'a"
    and ok :: "'a \<Rightarrow> bool"
  assumes parse_enc: "ok x \<Longrightarrow> parse (enc x) = Inr x"
    and parse_sound: "parse k = Inr x \<Longrightarrow> ok x \<and> enc x = k"
begin

lemma enc_inj: "ok x \<Longrightarrow> ok y \<Longrightarrow> enc x = enc y \<longleftrightarrow> x = y"
  using parse_enc by (metis sum.inject(2))

lemma parse_iff: "parse k = Inr x \<longleftrightarrow> ok x \<and> enc x = k"
  using parse_enc parse_sound by blast

lemma parse_inj: "parse k = Inr x \<Longrightarrow> parse l = Inr x \<Longrightarrow> k = l"
  using parse_sound by blast

end

lemma tail_split:
  assumes "length b = m + n"
  shows "b = take m b @ drop m b" "length (take m b) = m" "length (drop m b) = n"
  using assms by simp_all

lemma parse_msg_key_enc: "name_ok t \<Longrightarrow> parse_msg_key (msg_key t q off) = Inr (t, q, off)"
  by (simp add: parse_msg_key_def msg_key_def name_ok_def key_simps)

lemma parse_msg_key_sound:
  assumes "parse_msg_key k = Inr (t, q, off)"
  shows "name_ok t \<and> msg_key t q off = k"
proof -
  obtain bin where k: "k = msg_prefix @ t @ CHR ''/'' # bin" "CHR ''/'' \<notin> set t"
    and b: "length bin = 4 + 8" "q = be_u32 (take 4 bin)" "off = be_u64 (drop 4 bin)"
    using assms
    by (auto simp: parse_msg_key_def cut_prefix_Some dest!: cut_byte_SomeD
        split: option.splits if_splits)
  then show ?thesis
    by (simp add: msg_key_def name_ok_def put_u32_be put_u64_be tail_split(2,3) [OF b(1)])
qed

lemma parse_inflight_key_enc:
  "name_ok g \<Longrightarrow> name_ok t \<Longrightarrow> parse_inflight_key (inflight_key g t q off) = Inr (g, t, q, off)"
  by (simp add: parse_inflight_key_def inflight_key_def name_ok_def key_simps)

lemma parse_inflight_key_sound:
  assumes "parse_inflight_key k = Inr (g, t, q, off)"
  shows "(name_ok g \<and> name_ok t) \<and> inflight_key g t q off = k"
proof -
  obtain bin where k: "k = inflight_prefix_c @ g @ CHR ''/'' # t @ CHR ''/'' # bin"
      "CHR ''/'' \<notin> set g" "CHR ''/'' \<notin> set t"
    and b: "length bin = 4 + 8" "q = be_u32 (take 4 bin)" "off = be_u64 (drop 4 bin)"
    using assms
    by (auto simp: parse_inflight_key_def cut_prefix_Some dest!: cut_byte_SomeD
        split: option.splits if_splits)
  then show ?thesis
    by (simp add: inflight_key_def name_ok_def put_u32_be put_u64_be tail_split(2,3) [OF b(1)])
qed

lemma parse_cursor_key_enc:
  "name_ok g \<Longrightarrow> name_ok t \<Longrightarrow> parse_cursor_key (cursor_key g t q) = Inr (g, t, q)"
  by (simp add: parse_cursor_key_def cursor_key_def name_ok_def key_simps)

lemma parse_cursor_key_sound:
  assumes "parse_cursor_key k = Inr (g, t, q)"
  shows "(name_ok g \<and> name_ok t) \<and> cursor_key g t q = k"
proof -
  obtain bin where "k = cursor_prefix_c @ g @ CHR ''/'' # t @ CHR ''/'' # bin"
      "CHR ''/'' \<notin> set g" "CHR ''/'' \<notin> set t" "length bin = 4" "q = be_u32 bin"
    using assms
    by (auto simp: parse_cursor_key_def cut_prefix_Some dest!: cut_byte_SomeD
        split: option.splits if_splits)
  then show ?thesis by (simp add: cursor_key_def name_ok_def put_u32_be)
qed

lemma parse_delay_key_enc: "i64_range due \<Longrightarrow> parse_delay_key (delay_key due sq) = Inr (due, sq)"
  by (simp add: parse_delay_key_def delay_key_def key_simps)

lemma parse_delay_key_sound:
  assumes "parse_delay_key k = Inr (due, sq)"
  shows "i64_range due \<and> delay_key due sq = k"
proof -
  obtain bin where "k = delay_prefix @ bin" and b: "length bin = 8 + 8"
      "due = i64_of_u64 (be_u64 (take 8 bin))" "sq = be_u64 (drop 8 bin)"
    using assms
    by (auto simp: parse_delay_key_def cut_prefix_Some split: option.splits if_splits)
  then show ?thesis by (simp add: delay_key_def put_u64_be tail_split(2,3) [OF b(1)])
qed

lemma parse_half_key_enc:
  "i64_range c \<Longrightarrow> tx \<noteq> [] \<Longrightarrow> parse_half_key (half_key c tx) = Inr (c, tx)"
  by (simp add: parse_half_key_def half_key_def key_simps)

lemma parse_half_key_sound:
  assumes "parse_half_key k = Inr (c, tx)"
  shows "(i64_range c \<and> tx \<noteq> []) \<and> half_key c tx = k"
proof -
  obtain bin where "k = half_prefix @ bin" and b: "8 < length bin"
      "c = i64_of_u64 (be_u64 (take 8 bin))" "tx = drop 8 bin"
    using assms
    by (auto simp: parse_half_key_def cut_prefix_Some split: option.splits if_splits)
  then show ?thesis by (simp add: half_key_def put_u64_be)
qed

lemma parse_metric_key_enc: "i64_range ts \<Longrightarrow> parse_metric_key (metric_key ts) = Inr ts"
  by (simp add: parse_metric_key_def metric_key_def key_simps)

lemma parse_metric_key_sound:
  assumes "parse_metric_key k = Inr ts"
  shows "i64_range ts \<and> metric_key ts = k"
proof -
  obtain bin v where "k = metric_prefix @ bin" "get_u64 bin = Some v" "ts = i64_of_u64 v"
    using assms
    by (auto simp: parse_metric_key_def cut_prefix_None prefix_def split: option.splits if_splits)
  then show ?thesis by (simp add: metric_key_def get_u64_iff)
qed

text \<open>An index key holds an arbitrary user key, so the split is from the right.\<close>

lemma parse_key_idx_key_enc:
  assumes "name_ok t" "i64_range m"
  shows "parse_key_idx_key (key_idx_key t k m q off) = Inr (t, k, m, q, off)"
proof -
  let ?tl = "put_u64 (u64_of_i64 m) @ put_u32 q @ put_u64 off"
  have nth: "(k @ CHR ''/'' # ?tl) ! length k = CHR ''/''" by (rule nth_append_length)
  have len: "length (k @ CHR ''/'' # ?tl) = length k + 21" by simp
  show ?thesis
    using assms nth
    by (simp add: parse_key_idx_key_def key_idx_key_def name_ok_def key_simps Let_def)
qed

lemma parse_key_idx_key_sound:
  assumes "parse_key_idx_key k = Inr (t, u, m, q, off)"
  shows "(name_ok t \<and> i64_range m) \<and> key_idx_key t u m q off = k"
proof -
  obtain rest where k: "k = key_idx_prefix_c @ t @ CHR ''/'' # rest" "CHR ''/'' \<notin> set t"
    and r: "21 \<le> length rest" "rest ! (length rest - 21) = CHR ''/''"
    and u: "u = take (length rest - 21) rest"
    and f: "m = i64_of_u64 (be_u64 (take 8 (drop (length rest - 20) rest)))"
      "q = be_u32 (take 4 (drop 8 (drop (length rest - 20) rest)))"
      "off = be_u64 (drop 12 (drop (length rest - 20) rest))"
    using assms
    by (auto simp: parse_key_idx_key_def cut_prefix_Some Let_def dest!: cut_byte_SomeD
        split: option.splits if_splits)
  define bin where "bin = drop (length rest - 20) rest"
  have lb: "length bin = 20" using r by (simp add: bin_def)
  have "rest = u @ CHR ''/'' # bin"
  proof -
    have "Suc (length rest - 21) = length rest - 20" using r by simp
    then show ?thesis
      using id_take_nth_drop [of "length rest - 21" rest] r by (simp add: u bin_def)
  qed
  moreover have "bin = put_u64 (u64_of_i64 m) @ put_u32 q @ put_u64 off"
  proof -
    have "bin = take 8 bin @ take 4 (drop 8 bin) @ drop 12 bin"
      using append_take_drop_id [of 8 bin] append_take_drop_id [of 4 "drop 8 bin"] by simp
    moreover have "put_u64 (u64_of_i64 m) = take 8 bin" "put_u32 q = take 4 (drop 8 bin)"
      "put_u64 off = drop 12 bin"
      using lb by (simp_all add: f put_u64_be put_u32_be flip: bin_def)
    ultimately show ?thesis by simp
  qed
  moreover have "i64_range m" by (simp add: f)
  ultimately show ?thesis using k by (simp add: key_idx_key_def name_ok_def)
qed


interpretation msgk: key_codec "\<lambda>(t, q, off). msg_key t q off" parse_msg_key
    "\<lambda>(t, q, off). name_ok t"
  by unfold_locales (auto simp: parse_msg_key_enc dest: parse_msg_key_sound)

interpretation infk: key_codec "\<lambda>(g, t, q, off). inflight_key g t q off" parse_inflight_key
    "\<lambda>(g, t, q, off). name_ok g \<and> name_ok t"
  by unfold_locales (auto simp: parse_inflight_key_enc dest: parse_inflight_key_sound)

interpretation curk: key_codec "\<lambda>(g, t, q). cursor_key g t q" parse_cursor_key
    "\<lambda>(g, t, q). name_ok g \<and> name_ok t"
  by unfold_locales (auto simp: parse_cursor_key_enc dest: parse_cursor_key_sound)

interpretation delk: key_codec "\<lambda>(due, sq). delay_key due sq" parse_delay_key
    "\<lambda>(due, sq). i64_range due"
  by unfold_locales (auto simp: parse_delay_key_enc dest: parse_delay_key_sound)

interpretation halfk: key_codec "\<lambda>(c, tx). half_key c tx" parse_half_key
    "\<lambda>(c, tx). i64_range c \<and> tx \<noteq> []"
  by unfold_locales (auto simp: parse_half_key_enc dest: parse_half_key_sound)

interpretation kidx: key_codec "\<lambda>(t, u, m, q, off). key_idx_key t u m q off" parse_key_idx_key
    "\<lambda>(t, u, m, q, off). name_ok t \<and> i64_range m"
  by unfold_locales (auto simp: parse_key_idx_key_enc dest: parse_key_idx_key_sound)

interpretation metk: key_codec metric_key parse_metric_key i64_range
  by unfold_locales (auto simp: parse_metric_key_enc dest: parse_metric_key_sound)

text \<open>The two short parsers agree with the full ones wherever those succeed.\<close>

lemma parse_cursor_topic_queue_enc:
  "name_ok g \<Longrightarrow> name_ok t \<Longrightarrow> parse_cursor_topic_queue (cursor_key g t q) = Inr (t, q)"
  by (simp add: parse_cursor_topic_queue_def parse_cursor_key_enc)

lemma parse_key_idx_queue_id_enc:
  "parse_key_idx_queue_id (key_idx_key t k m q off) = Inr q"
proof -
  define rest where "rest = t @ CHR ''/'' # k @ CHR ''/'' # put_u64 (u64_of_i64 m) @ put_u32 q @ put_u64 off"
  have r1: "rest = (t @ CHR ''/'' # k) @ CHR ''/'' # (put_u64 (u64_of_i64 m) @ put_u32 q @ put_u64 off)"
    by (simp add: rest_def)
  have r2: "rest = (t @ CHR ''/'' # k @ CHR ''/'' # put_u64 (u64_of_i64 m)) @ (put_u32 q @ put_u64 off)"
    by (simp add: rest_def)
  have len: "length rest = length t + length k + 22" by (simp add: rest_def)
  have "rest ! (length rest - 21) = CHR ''/''"
    unfolding len by (subst r1) (simp add: nth_append)
  moreover have "drop (length rest - 12) rest = put_u32 q @ put_u64 off"
    unfolding len by (subst r2) (simp del: append_assoc)
  moreover have "key_idx_key t k m q off = key_idx_prefix_c @ rest"
    by (simp add: key_idx_key_def rest_def)
  ultimately show ?thesis
    by (simp add: parse_key_idx_queue_id_def cut_prefix_append len)
qed

section \<open>Order: one queue's keys are ordered as its offsets\<close>

locale offset_family =
  fixes key :: "u64 \<Rightarrow> bytes"
    and pfx :: bytes
  assumes key_pfx: "key off = pfx @ put_u64 off"
    and bounded: "prefix_upper_bound pfx \<noteq> None"
begin

lemma key_less: "key a < key b \<longleftrightarrow> a < b"
  by (simp add: key_pfx string_append_less key_simps)

lemma key_le: "key a \<le> key b \<longleftrightarrow> a \<le> b"
  using key_less [of b a] by (simp add: not_less [symmetric])

lemma key_eq: "key a = key b \<longleftrightarrow> a = b"
  by (simp add: key_pfx key_simps)

lemma key_in_prefix: "pfx \<le> key off"
  by (simp add: key_pfx)

lemma key_below: "prefix_upper_bound pfx = Some u \<Longrightarrow> key off < u"
  using prefix_upper_bound_exact [of pfx u "key off"] by (simp add: key_pfx)

lemma prefix_below: "prefix_upper_bound pfx = Some u \<Longrightarrow> key lo \<le> k \<Longrightarrow> k < u \<Longrightarrow> prefix pfx k"
  using prefix_upper_bound_exact [of pfx u k] key_in_prefix [of lo] by (meson order_trans)

lemma from_offset:
  "prefix_upper_bound pfx = Some u \<Longrightarrow> (key lo \<le> key off \<and> key off < u) \<longleftrightarrow> lo \<le> off"
  by (simp add: key_le key_below)

end

interpretation msgq: offset_family "msg_key t q" "msg_queue_prefix t q" for t q
proof
  show "msg_key t q off = msg_queue_prefix t q @ put_u64 off" for off
    by (rule msg_key_prefix)
  show "prefix_upper_bound (msg_queue_prefix t q) \<noteq> None"
    by (rule prefix_upper_bound_some) (simp add: msg_queue_prefix_eq msg_prefix_def)
qed

interpretation infq: offset_family "inflight_key g t q" "inflight_prefix g t q" for g t q
proof
  show "inflight_key g t q off = inflight_prefix g t q @ put_u64 off" for off
    by (rule inflight_key_prefix)
  show "prefix_upper_bound (inflight_prefix g t q) \<noteq> None"
    by (rule prefix_upper_bound_some) (simp add: inflight_prefix_eq inflight_prefix_c_def)
qed

section \<open>Order: the due scans take exactly what is due\<close>

lemma u64_of_i64_succ: "u64_of_i64 (i64_succ v) = u64_of_i64 v + 1"
  by (simp add: i64_succ_def)

lemma i64_succ_eq: "i64_range v \<Longrightarrow> v < 2 ^ 63 - 1 \<Longrightarrow> i64_succ v = v + 1"
proof -
  assume "i64_range v" "v < 2 ^ 63 - 1"
  then have "i64_range (v + 1)" by (auto simp: i64_range_def)
  moreover have "u64_of_i64 v + 1 = u64_of_i64 (v + 1)" by (simp add: u64_of_i64_def)
  ultimately show ?thesis by (simp add: i64_succ_def)
qed

lemma put_ms_less [key_simps]:
  assumes "0 \<le> a" "0 \<le> b" "a < 2 ^ 63" "b < 2 ^ 63"
  shows "put_u64 (u64_of_i64 a) < put_u64 (u64_of_i64 b) \<longleftrightarrow> a < b"
  using assms by (simp add: key_simps)

lemma u64_of_i64_inj: "i64_range a \<Longrightarrow> i64_range b \<Longrightarrow> u64_of_i64 a = u64_of_i64 b \<longleftrightarrow> a = b"
  by (metis i64_u64)

lemma ms_prefix_less:
  assumes "0 \<le> a" "0 \<le> b" "a < 2 ^ 63" "b < 2 ^ 63"
  shows "put_u64 (u64_of_i64 a) @ l < put_u64 (u64_of_i64 b) @ m \<longleftrightarrow>
    a < b \<or> (a = b \<and> l < m)"
proof -
  have "put_u64 (u64_of_i64 a) = put_u64 (u64_of_i64 b) \<longleftrightarrow> a = b"
    using u64_of_i64_inj [of a b] assms by (simp add: put_u64_inj i64_range_def)
  then show ?thesis
    using assms by (auto simp: string_append_same_length put_ms_less)
qed

lemma delay_key_less:
  assumes "0 \<le> a" "0 \<le> b" "a < 2 ^ 63" "b < 2 ^ 63"
  shows "delay_key a m < delay_key b n \<longleftrightarrow> a < b \<or> (a = b \<and> m < n)"
  using assms
  by (auto simp: delay_key_def string_append_less ms_prefix_less key_simps)

lemma half_key_less:
  assumes "0 \<le> a" "0 \<le> b" "a < 2 ^ 63" "b < 2 ^ 63"
  shows "half_key a x < half_key b y \<longleftrightarrow> a < b \<or> (a = b \<and> x < y)"
  using assms by (auto simp: half_key_def string_append_less ms_prefix_less)

lemma delay_scan_exact:
  assumes "0 \<le> due" "due < 2 ^ 63" "0 \<le> now" "now < 2 ^ 63 - 1"
  shows "(delay_prefix \<le> delay_key due sq \<and> delay_key due sq < delay_scan_upper_bound now) \<longleftrightarrow>
    due \<le> now"
proof -
  have "i64_succ now = now + 1" using assms by (intro i64_succ_eq) (auto simp: i64_range_def)
  then have "delay_key due sq < delay_scan_upper_bound now \<longleftrightarrow> due \<le> now"
    using assms delay_key_less [of due "now + 1" sq 0] by (auto simp: delay_scan_upper_bound_def)
  moreover have "delay_prefix \<le> delay_key due sq" by (simp add: delay_key_def)
  ultimately show ?thesis by simp
qed

lemma half_scan_exact:
  assumes "0 \<le> c" "c < 2 ^ 63" "0 \<le> now" "now < 2 ^ 63 - 1"
  shows "(half_prefix \<le> half_key c tx \<and> half_key c tx < half_scan_upper_bound now) \<longleftrightarrow> c \<le> now"
proof -
  have "i64_succ now = now + 1" using assms by (intro i64_succ_eq) (auto simp: i64_range_def)
  then have "half_key c tx < half_scan_upper_bound now \<longleftrightarrow> c \<le> now"
    using assms half_key_less [of c "now + 1" tx "[]"] by (auto simp: half_scan_upper_bound_def)
  moreover have "half_prefix \<le> half_key c tx" by (simp add: half_key_def)
  ultimately show ?thesis by simp
qed

section \<open>The families do not overlap\<close>

definition families :: "bytes list" where
  "families = [topic_meta_prefix, group_meta_prefix, msg_prefix, alloc_prefix, cursor_prefix_c,
     inflight_prefix_c, key_idx_prefix_c, delay_prefix, metric_prefix, half_prefix,
     half_idx_prefix, delay_alloc_key, handle_secret_key]"

lemma families_no_prefix_all:
  "\<forall>p\<in>set families. \<forall>r\<in>set families. p \<noteq> r \<longrightarrow> \<not> prefix p r"
  by (simp add: families_def prefix_defs delay_alloc_key_def handle_secret_key_def)

lemma families_no_prefix:
  "p \<in> set families \<Longrightarrow> r \<in> set families \<Longrightarrow> p \<noteq> r \<Longrightarrow> \<not> prefix p r"
  using families_no_prefix_all by blast

lemma families_apart:
  "p \<in> set families \<Longrightarrow> r \<in> set families \<Longrightarrow> p \<noteq> r \<Longrightarrow> p @ x \<noteq> r @ y"
  using families_no_prefix by (metis prefixI prefix_same_cases)

section \<open>Properties\<close>

text \<open>Every key parser inverts its builder exactly: it accepts a byte string just when that
  string is the key of valid fields, and returns those fields.\<close>

theorem key_codecs_exact:
  "(parse_msg_key k = Inr (t, q, off) \<longleftrightarrow> name_ok t \<and> msg_key t q off = k) \<and>
   (parse_inflight_key k = Inr (g, t, q, off) \<longleftrightarrow> (name_ok g \<and> name_ok t) \<and> inflight_key g t q off = k) \<and>
   (parse_cursor_key k = Inr (g, t, q) \<longleftrightarrow> (name_ok g \<and> name_ok t) \<and> cursor_key g t q = k) \<and>
   (parse_delay_key k = Inr (due, sq) \<longleftrightarrow> i64_range due \<and> delay_key due sq = k) \<and>
   (parse_half_key k = Inr (due, tx) \<longleftrightarrow> (i64_range due \<and> tx \<noteq> []) \<and> half_key due tx = k) \<and>
   (parse_key_idx_key k = Inr (t, u, due, q, off) \<longleftrightarrow>
      (name_ok t \<and> i64_range due) \<and> key_idx_key t u due q off = k) \<and>
   (parse_metric_key k = Inr due \<longleftrightarrow> i64_range due \<and> metric_key due = k)"
  using msgk.parse_iff [of k "(t, q, off)"] infk.parse_iff [of k "(g, t, q, off)"]
    curk.parse_iff [of k "(g, t, q)"] delk.parse_iff [of k "(due, sq)"]
    halfk.parse_iff [of k "(due, tx)"] kidx.parse_iff [of k "(t, u, due, q, off)"]
    metk.parse_iff [of k due]
  by (simp del: not_Cons_self2)

text \<open>C33: the scan of the delay staging area, and that of the half messages, meet exactly the
  entries whose time has come, whatever their sequence number or transaction.\<close>

theorem due_scans_exact:
  assumes "0 \<le> due" "due < 2 ^ 63" "0 \<le> now" "now < 2 ^ 63 - 1"
  shows "(delay_prefix \<le> delay_key due sq \<and> delay_key due sq < delay_scan_upper_bound now \<longleftrightarrow> due \<le> now) \<and>
    (half_prefix \<le> half_key due tx \<and> half_key due tx < half_scan_upper_bound now \<longleftrightarrow> due \<le> now)"
  using delay_scan_exact [OF assms] half_scan_exact [OF assms] by simp

theorem due_scans_exact_witness:
  "(delay_prefix \<le> delay_key 1000 7 \<and> delay_key 1000 7 < delay_scan_upper_bound 1000 \<longleftrightarrow> (1000::int) \<le> 1000) \<and>
    (half_prefix \<le> half_key 1000 ''T'' \<and> half_key 1000 ''T'' < half_scan_upper_bound 1000 \<longleftrightarrow> (1000::int) \<le> 1000)"
  by (rule due_scans_exact) simp_all

text \<open>No key of one family is a key of another, so a scan or a range delete over one
  family's prefix cannot meet the entries of another.\<close>

theorem key_families_disjoint:
  assumes "p \<in> set families" "r \<in> set families" "p \<noteq> r"
  shows "p @ x \<noteq> r @ y \<and> \<not> prefix p (r @ y)"
  using families_apart [OF assms] by (metis prefix_def)

theorem key_families_disjoint_witness:
  "half_prefix @ ''1'' \<noteq> half_idx_prefix @ ''1'' \<and> \<not> prefix half_prefix (half_idx_prefix @ ''1'')"
  by (rule key_families_disjoint) (simp_all add: families_def half_prefix_def half_idx_prefix_def)

end
