(* ===== verification/Store.thy ===== *)
theory Store
  imports Keys
begin

text \<open>
  \<^verbatim>\<open>internal/store/store.go\<close>: the key value store, its write batches, the single write
  entry, the scan loop and the read view.  Pebble itself is third party code.  What the source
  relies on is its documented behaviour, a map ordered by the bytes of the key, which the model
  writes as an association list with strictly increasing keys; its physical batch encoding is
  the parameter \<open>unrepr\<close> (or \<open>reader\<close>).  Whether an I/O call fails is a parameter as
  well, so every error return of the source is a branch.
\<close>

section \<open>Ordered association lists\<close>

type_synonym ('k, 'v) omap = "('k \<times> 'v) list"

definition kv_ok :: "('k::linorder, 'v) omap \<Rightarrow> bool" where
  "kv_ok m \<longleftrightarrow> sorted_wrt (<) (map fst m)"

definition kv_get :: "('k, 'v) omap \<Rightarrow> 'k \<Rightarrow> 'v option" where
  "kv_get m k = map_of m k"

fun kv_set :: "'k::linorder \<Rightarrow> 'v \<Rightarrow> ('k, 'v) omap \<Rightarrow> ('k, 'v) omap" where
  "kv_set k v [] = [(k, v)]"
| "kv_set k v ((a, b) # m) =
     (if k < a then (k, v) # (a, b) # m
      else if k = a then (k, v) # m else (a, b) # kv_set k v m)"

definition kv_del :: "'k \<Rightarrow> ('k, 'v) omap \<Rightarrow> ('k, 'v) omap" where
  "kv_del k m = filter (\<lambda>(a, _). a \<noteq> k) m"

definition in_range :: "'k::linorder \<Rightarrow> 'k option \<Rightarrow> 'k \<Rightarrow> bool" where
  "in_range lo hi k \<longleftrightarrow> lo \<le> k \<and> (case hi of None \<Rightarrow> True | Some h \<Rightarrow> k < h)"

definition kv_del_range :: "'k::linorder \<Rightarrow> 'k \<Rightarrow> ('k, 'v) omap \<Rightarrow> ('k, 'v) omap" where
  "kv_del_range lo hi m = filter (\<lambda>(a, _). \<not> (lo \<le> a \<and> a < hi)) m"

definition kv_range :: "'k::linorder \<Rightarrow> 'k option \<Rightarrow> ('k, 'v) omap \<Rightarrow> ('k \<times> 'v) list" where
  "kv_range lo hi m = filter (\<lambda>(a, _). in_range lo hi a) m"

lemma kv_get_Nil [kv_simps]: "kv_get [] k = None"
  by (simp add: kv_get_def)

lemma kv_get_set [kv_simps]: "kv_get (kv_set k v m) a = (if a = k then Some v else kv_get m a)"
  by (induction k v m rule: kv_set.induct) (auto simp: kv_get_def)

lemma kv_get_filter: "kv_get (filter (\<lambda>(a, _). P a) m) k = (if P k then kv_get m k else None)"
  by (induction m) (auto simp: kv_get_def)

lemma kv_get_del [kv_simps]: "kv_get (kv_del k m) a = (if a = k then None else kv_get m a)"
  by (simp add: kv_del_def kv_get_filter)

lemma kv_get_del_range [kv_simps]:
  "kv_get (kv_del_range lo hi m) k = (if lo \<le> k \<and> k < hi then None else kv_get m k)"
  by (simp add: kv_del_range_def kv_get_filter)

lemma kv_get_range: "kv_get (kv_range lo hi m) k = (if in_range lo hi k then kv_get m k else None)"
  by (simp add: kv_range_def kv_get_filter)

lemma keys_kv_set: "set (map fst (kv_set k v m)) = insert k (set (map fst m))"
  by (induction k v m rule: kv_set.induct) auto

lemma kv_ok_Nil [simp]: "kv_ok []"
  by (simp add: kv_ok_def)

lemma kv_ok_set [simp]: "kv_ok m \<Longrightarrow> kv_ok (kv_set k v m)"
proof (induction k v m rule: kv_set.induct)
  case (2 k v a b m)
  then show ?case
    using keys_kv_set [of k v m] by (auto simp: kv_ok_def)
qed (simp add: kv_ok_def)

lemma kv_ok_filter: "kv_ok m \<Longrightarrow> kv_ok (filter P m)"
proof (induction m)
  case (Cons p m)
  then show ?case by (auto simp: kv_ok_def)
qed simp

lemma kv_ok_del [simp]: "kv_ok m \<Longrightarrow> kv_ok (kv_del k m)"
  by (simp add: kv_del_def kv_ok_filter)

lemma kv_ok_del_range [simp]: "kv_ok m \<Longrightarrow> kv_ok (kv_del_range lo hi m)"
  by (simp add: kv_del_range_def kv_ok_filter)

lemma kv_ok_range [simp]: "kv_ok m \<Longrightarrow> kv_ok (kv_range lo hi m)"
  by (simp add: kv_range_def kv_ok_filter)

lemma kv_ok_distinct: "kv_ok m \<Longrightarrow> distinct (map fst m)"
  by (simp add: kv_ok_def strict_sorted_iff)

lemma kv_mem: "kv_ok m \<Longrightarrow> (k, v) \<in> set m \<longleftrightarrow> kv_get m k = Some v"
  by (simp add: kv_get_def kv_ok_distinct)

lemma kv_range_mem:
  "kv_ok m \<Longrightarrow> (k, v) \<in> set (kv_range lo hi m) \<longleftrightarrow> kv_get m k = Some v \<and> in_range lo hi k"
  by (simp add: kv_mem kv_get_range)

lemma kv_ext: "kv_ok m \<Longrightarrow> kv_ok n \<Longrightarrow> (\<And>k. kv_get m k = kv_get n k) \<Longrightarrow> m = n"
proof -
  assume ok: "kv_ok m" "kv_ok n" and eq: "\<And>k. kv_get m k = kv_get n k"
  have "set m = set n"
    using kv_mem [OF ok(1)] kv_mem [OF ok(2)] eq by (metis subrelI subset_antisym)
  moreover have "map fst m = map fst n"
    using ok \<open>set m = set n\<close> by (intro strict_sorted_equal) (simp_all add: kv_ok_def)
  moreover have "inj_on fst (set m)"
    using kv_ok_distinct [OF ok(1)] by (simp add: distinct_map)
  ultimately show "m = n"
    using map_inj_on [of fst m n] by simp
qed

text \<open>
  The laws a client of an ordered map rests on: the store's, and those of the Go maps of the
  registry and the producer.
\<close>

locale ordered_map =
  fixes get :: "'m \<Rightarrow> 'k::linorder \<Rightarrow> 'v option"
    and put :: "'k \<Rightarrow> 'v \<Rightarrow> 'm \<Rightarrow> 'm"
    and del :: "'k \<Rightarrow> 'm \<Rightarrow> 'm"
    and range :: "'k \<Rightarrow> 'k option \<Rightarrow> 'm \<Rightarrow> ('k \<times> 'v) list"
    and inv :: "'m \<Rightarrow> bool"
  assumes get_put: "get (put k v m) = (get m)(k \<mapsto> v)"
    and get_del: "get (del k m) = (get m)(k := None)"
    and inv_put: "inv m \<Longrightarrow> inv (put k v m)"
    and inv_del: "inv m \<Longrightarrow> inv (del k m)"
    and range_mem: "inv m \<Longrightarrow> (k, v) \<in> set (range lo hi m) \<longleftrightarrow> get m k = Some v \<and> in_range lo hi k"
    and range_sorted: "inv m \<Longrightarrow> sorted_wrt (<) (map fst (range lo hi m))"
begin

lemma range_put_same:
  "inv m \<Longrightarrow> in_range lo hi k \<Longrightarrow> (k, v) \<in> set (range lo hi (put k v m))"
  by (simp add: range_mem inv_put get_put)

lemma range_del: "inv m \<Longrightarrow> k \<notin> fst ` set (range lo hi (del k m))"
  by (force simp: range_mem inv_del get_del)

lemma range_empty_iff:
  "inv m \<Longrightarrow> range lo hi m = [] \<longleftrightarrow> (\<forall>k. in_range lo hi k \<longrightarrow> get m k = None)"
proof -
  assume i: "inv m"
  have "range lo hi m = [] \<longleftrightarrow> (\<forall>k v. (k, v) \<notin> set (range lo hi m))"
    by (metis empty_set equals0I list.set_intros(1) neq_Nil_conv old.prod.exhaust empty_iff)
  then show ?thesis using i by (auto simp: range_mem)
qed

lemma range_ext:
  assumes "inv m" "inv n" "\<And>k. in_range lo hi k \<Longrightarrow> get m k = get n k"
  shows "range lo hi m = range lo hi n"
proof (rule kv_ext)
  show "kv_ok (range lo hi m)" "kv_ok (range lo hi n)"
    using assms range_sorted by (simp_all add: kv_ok_def)
  then show "kv_get (range lo hi m) k = kv_get (range lo hi n) k" for k
    using assms kv_mem [of "range lo hi m" k] kv_mem [of "range lo hi n" k]
    by (metis option.exhaust range_mem)
qed

end

interpretation okv: ordered_map kv_get kv_set kv_del kv_range kv_ok
proof
  show "kv_ok m \<Longrightarrow> sorted_wrt (<) (map fst (kv_range lo hi m))" for lo hi and m :: "('a, 'b) omap"
    using kv_ok_range [of m lo hi] by (simp add: kv_ok_def)
qed (auto simp: kv_simps kv_range_mem fun_eq_iff)

section \<open>Errors and the environment\<close>

text \<open>
  One constructor per error the modelled components return; an error that the source wraps
  with more context is the inner one.
\<close>

datatype err =
    ErrGet bytes | ErrIter bytes | ErrViewClosed | ErrCommit | ErrWait | ErrBatchRepr
  | ErrNotLeader | ErrForward | ErrBarrier
  | ErrKey key_error | ErrPanic
  | ErrEmptyInput | ErrUnknownFormat char nat | ErrV1Short nat | ErrV1MetaLen nat nat | ErrJson
  | ErrBadName bytes | ErrTopicNotFound bytes | ErrGroupNotFound bytes | ErrQueuesZero
  | ErrRetention int
  | ErrBodySize nat | ErrDueNotPositive int | ErrBatchEmpty | ErrBatchTopic | ErrBatchKind
  | ErrRecallTooLate | ErrRecallNotFound | ErrRecallTopicMismatch
  | ErrEncodingName bytes | ErrCancelled
  | ErrNoFamily bytes | ErrScanBudget int | ErrChunkFull | ErrChunkHead nat | ErrChunkLen nat nat
  | ErrDescriptor nat | ErrFetchRequest nat | ErrFetchCursor nat nat | ErrFetchGroup u32
  | ErrFetchUnknown u64 | ErrFetchResponse nat | ErrCursorStuck bytes bytes | ErrTooManyChunks
  | ErrTooManyBytes int | ErrControl | ErrMarshal | ErrDecode bytes
  | ErrGroupsChanged u32 u32 | ErrNoBootGen

section \<open>Batches\<close>

datatype batch_op = BSet bytes bytes | BDelete bytes | BDeleteRange bytes bytes

type_synonym batch = "batch_op list"
type_synonym kv = "(bytes, bytes) omap"

definition new_batch :: batch where
  "new_batch = []"

definition bset :: "bytes \<Rightarrow> bytes \<Rightarrow> batch \<Rightarrow> batch" where
  "bset k v b = b @ [BSet k v]"

definition bdelete :: "bytes \<Rightarrow> batch \<Rightarrow> batch" where
  "bdelete k b = b @ [BDelete k]"

definition bdelete_range :: "bytes \<Rightarrow> bytes \<Rightarrow> batch \<Rightarrow> batch" where
  "bdelete_range lo hi b = b @ [BDeleteRange lo hi]"

text \<open>\<open>DeleteRange(p, PrefixUpperBound(p))\<close>; a nil upper end deletes nothing.\<close>

definition bdelete_prefix :: "bytes \<Rightarrow> batch \<Rightarrow> batch" where
  "bdelete_prefix p b =
     bdelete_range p (case prefix_upper_bound p of None \<Rightarrow> [] | Some u \<Rightarrow> u) b"

fun apply_op :: "kv \<Rightarrow> batch_op \<Rightarrow> kv" where
  "apply_op m (BSet k v) = kv_set k v m"
| "apply_op m (BDelete k) = kv_del k m"
| "apply_op m (BDeleteRange lo hi) = kv_del_range lo hi m"

definition apply_batch :: "batch \<Rightarrow> kv \<Rightarrow> kv" where
  "apply_batch b m = foldl apply_op m b"

fun op_hits :: "batch_op \<Rightarrow> bytes \<Rightarrow> bool" where
  "op_hits (BSet k v) a = (a = k)"
| "op_hits (BDelete k) a = (a = k)"
| "op_hits (BDeleteRange lo hi) a = (lo \<le> a \<and> a < hi)"

lemma apply_batch_Nil [kv_simps]: "apply_batch [] m = m" "apply_batch new_batch m = m"
  by (simp_all add: apply_batch_def new_batch_def)

lemma apply_batch_Cons: "apply_batch (x # b) m = apply_batch b (apply_op m x)"
  by (simp add: apply_batch_def)

lemma apply_batch_append: "apply_batch (b @ c) m = apply_batch c (apply_batch b m)"
  by (simp add: apply_batch_def)

lemma apply_bset [kv_simps]: "apply_batch (bset k v b) m = kv_set k v (apply_batch b m)"
  by (simp add: apply_batch_def bset_def)

lemma apply_bdelete [kv_simps]: "apply_batch (bdelete k b) m = kv_del k (apply_batch b m)"
  by (simp add: apply_batch_def bdelete_def)

lemma apply_bdelete_range [kv_simps]:
  "apply_batch (bdelete_range lo hi b) m = kv_del_range lo hi (apply_batch b m)"
  by (simp add: apply_batch_def bdelete_range_def)

lemma kv_ok_apply_op [simp]: "kv_ok m \<Longrightarrow> kv_ok (apply_op m x)"
  by (cases x) simp_all

lemma kv_ok_apply [simp]: "kv_ok m \<Longrightarrow> kv_ok (apply_batch b m)"
  by (induction b arbitrary: m) (simp_all add: apply_batch_Cons apply_batch_Nil)

lemma apply_op_frame: "\<not> op_hits x k \<Longrightarrow> kv_get (apply_op m x) k = kv_get m k"
  by (cases x) (auto simp: kv_simps)

lemma apply_batch_frame:
  "(\<And>x. x \<in> set b \<Longrightarrow> \<not> op_hits x k) \<Longrightarrow> kv_get (apply_batch b m) k = kv_get m k"
  by (induction b arbitrary: m) (simp_all add: apply_batch_Cons apply_batch_Nil apply_op_frame)

lemma kv_get_delete_prefix [kv_simps]:
  assumes "prefix_upper_bound p \<noteq> None"
  shows "kv_get (apply_batch (bdelete_prefix p b) m) k =
    (if prefix p k then None else kv_get (apply_batch b m) k)"
  using assms prefix_upper_bound_exact [of p _ k]
  by (auto simp: bdelete_prefix_def kv_simps split: option.splits)


text \<open>The physical form of a batch: \<open>unrepr\<close> is Pebble's decoder, failing on bad bytes.\<close>

definition new_batch_from_repr :: "(bytes \<Rightarrow> batch option) \<Rightarrow> bytes \<Rightarrow> err + batch" where
  "new_batch_from_repr unrepr data =
     (case unrepr data of None \<Rightarrow> Inl ErrBatchRepr | Some b \<Rightarrow> Inr b)"

definition merge_repr :: "(bytes \<Rightarrow> batch option) \<Rightarrow> bytes \<Rightarrow> batch \<Rightarrow> err + batch" where
  "merge_repr unrepr data b =
     (case unrepr data of None \<Rightarrow> Inl ErrBatchRepr | Some tmp \<Rightarrow> Inr (b @ tmp))"

fun op_key :: "batch_op \<Rightarrow> bytes" where
  "op_key (BSet k v) = k"
| "op_key (BDelete k) = k"
| "op_key (BDeleteRange lo hi) = lo"

text \<open>
  The reader yields the operations one by one and may fail after any of them: \<open>reader\<close>
  gives what it yields and whether it then fails, \<^term>\<open>None\<close> for a nil reader.
\<close>

fun touches_loop :: "batch_op list \<Rightarrow> bool \<Rightarrow> bytes \<Rightarrow> err + bool" where
  "touches_loop [] bad pfx = (if bad then Inl ErrBatchRepr else Inr False)"
| "touches_loop (x # xs) bad pfx =
     (if prefix pfx (op_key x) then Inr True else touches_loop xs bad pfx)"

definition batch_touches_prefix ::
    "(bytes \<Rightarrow> (batch_op list \<times> bool) option) \<Rightarrow> bytes \<Rightarrow> bytes \<Rightarrow> err + bool" where
  "batch_touches_prefix reader repr pfx =
     (case reader repr of None \<Rightarrow> Inr False | Some (ops, bad) \<Rightarrow> touches_loop ops bad pfx)"

section \<open>Reading\<close>

text \<open>
  Go's \<open>Scan\<close>: the callback gets the key and the value, changes what it has captured
  (\<open>'s\<close>) and says whether to go on; \<open>limit <= 0\<close> is no limit.
\<close>

type_synonym 's callback = "'s \<Rightarrow> bytes \<Rightarrow> bytes \<Rightarrow> (err + bool) \<times> 's"

fun scan_loop ::
    "(err + unit) \<Rightarrow> int \<Rightarrow> int \<Rightarrow> 's callback \<Rightarrow> (bytes \<times> bytes) list \<Rightarrow> 's \<Rightarrow> (err + unit) \<times> 's"
  where
  "scan_loop at_end limit n fn [] s = (at_end, s)"
| "scan_loop at_end limit n fn ((k, v) # rest) s =
     (case fn s k v of
        (Inl e, s') \<Rightarrow> (Inl e, s')
      | (Inr cont, s') \<Rightarrow>
          if \<not> cont then (Inr (), s')
          else if 0 < limit \<and> limit \<le> n + 1 then (Inr (), s')
          else scan_loop at_end limit (n + 1) fn rest s')"

datatype outcome = Refused | Durable | WaitFailed bool

datatype fwd = FwdAppend u32 bytes | FwdApply u32 batch

text \<open>
  What the node's surroundings decide: the I/O failures of Pebble, the outcome of a commit
  (refused when it is ordered; ordered and durable; ordered, with the wait for durability
  failing, after which the batch may or may not be visible), the router, and the peers' answers
  to forwarded calls.
\<close>

record env =
  rd_fail :: "bytes \<Rightarrow> bool"
  it_open_fail :: "bytes \<Rightarrow> bool"
  it_end_fail :: "bytes \<Rightarrow> bool"
  commit :: "u32 \<Rightarrow> batch \<Rightarrow> outcome"
  group_for_queue :: "bytes \<Rightarrow> u32 \<Rightarrow> u32"
  is_leader :: "u32 \<Rightarrow> bool"
  read_barrier :: "u32 \<Rightarrow> err option"
  fwd_append :: "u32 \<Rightarrow> bytes \<Rightarrow> err + u32 \<times> u64"
  fwd_apply :: "u32 \<Rightarrow> batch \<Rightarrow> err option"

record node =
  db :: kv
  sent :: "fwd list"

definition st_get :: "env \<Rightarrow> 'z node_scheme \<Rightarrow> bytes \<Rightarrow> err + bytes option" where
  "st_get E s k = (if rd_fail E k then Inl (ErrGet k) else Inr (kv_get (db s) k))"

text \<open>
  \<open>Store.Scan\<close> asks the iterator for its error only when it runs off the end: a callback
  that stops, or the limit, returns nil at once.  \<open>ReadView.Scan\<close> asks in both cases.
\<close>

definition st_scan ::
    "env \<Rightarrow> 'z node_scheme \<Rightarrow> bytes \<Rightarrow> bytes option \<Rightarrow> int \<Rightarrow> 's callback \<Rightarrow> 's \<Rightarrow> (err + unit) \<times> 's" where
  "st_scan E s lower upper limit fn acc =
     (if it_open_fail E lower then (Inl (ErrIter lower), acc)
      else scan_loop (if it_end_fail E lower then Inl (ErrIter lower) else Inr ()) limit 0 fn
             (kv_range lower upper (db s)) acc)"

record read_view =
  snap :: kv
  closed :: bool

definition new_read_view :: "'z node_scheme \<Rightarrow> read_view" where
  "new_read_view s = \<lparr>snap = db s, closed = False\<rparr>"

definition view_get :: "env \<Rightarrow> read_view \<Rightarrow> bytes \<Rightarrow> err + bytes option" where
  "view_get E v k =
     (if closed v then Inl ErrViewClosed
      else if rd_fail E k then Inl (ErrGet k) else Inr (kv_get (snap v) k))"

definition view_close :: "read_view \<Rightarrow> read_view" where
  "view_close v = v\<lparr>closed := True\<rparr>"


definition view_scan ::
    "env \<Rightarrow> read_view \<Rightarrow> bytes \<Rightarrow> bytes option \<Rightarrow> int \<Rightarrow> 's callback \<Rightarrow> 's \<Rightarrow> (err + unit) \<times> 's" where
  "view_scan E v lower upper limit fn acc =
     (if closed v then (Inl ErrViewClosed, acc)
      else if it_open_fail E lower then (Inl (ErrIter lower), acc)
      else (case scan_loop (Inr ()) limit 0 fn (kv_range lower upper (snap v)) acc of
              (Inl e, acc') \<Rightarrow> (Inl e, acc')
            | (Inr (), acc') \<Rightarrow> (if it_end_fail E lower then Inl (ErrIter lower) else Inr (), acc')))"

section \<open>Writing\<close>

text \<open>
  \<open>ApplyAsync\<close> orders the batch and returns the pending wait; \<open>Wait\<close> is asked outside
  the caller's lock.  \<open>Apply\<close> is both.
\<close>

datatype pending = Pending "err option"

definition set_db :: "kv \<Rightarrow> 'z node_scheme \<Rightarrow> 'z node_scheme" where
  "set_db m s = s\<lparr>db := m\<rparr>"

definition rep_apply_async ::
    "env \<Rightarrow> u32 \<Rightarrow> batch \<Rightarrow> 'z node_scheme \<Rightarrow> (err + pending) \<times> 'z node_scheme" where
  "rep_apply_async E g b s =
     (case commit E g b of
        Refused \<Rightarrow> (Inl ErrCommit, s)
      | Durable \<Rightarrow> (Inr (Pending None), set_db (apply_batch b (db s)) s)
      | WaitFailed visible \<Rightarrow>
          (Inr (Pending (Some ErrWait)),
           if visible then set_db (apply_batch b (db s)) s else s))"

fun pending_wait :: "pending \<Rightarrow> err + unit" where
  "pending_wait (Pending None) = Inr ()"
| "pending_wait (Pending (Some e)) = Inl e"

definition rep_apply ::
    "env \<Rightarrow> u32 \<Rightarrow> batch \<Rightarrow> 'z node_scheme \<Rightarrow> (err + unit) \<times> 'z node_scheme" where
  "rep_apply E g b s =
     (case rep_apply_async E g b s of
        (Inl e, s') \<Rightarrow> (Inl e, s')
      | (Inr p, s') \<Rightarrow> (pending_wait p, s'))"

section \<open>Replication\<close>

definition meta_group :: u32 where
  "meta_group = 0"

text \<open>
  \<open>ApplyOrForward\<close>: commit here when this node leads the group, else send the batch bytes to
  the leader.  A forwarded batch changes nothing on this node; it is recorded in \<open>sent\<close>.
\<close>

definition apply_or_forward ::
    "env \<Rightarrow> u32 \<Rightarrow> batch \<Rightarrow> 'z node_scheme \<Rightarrow> (err + unit) \<times> 'z node_scheme" where
  "apply_or_forward E g b s =
     (if is_leader E g then rep_apply E g b s
      else (let s' = s\<lparr>sent := sent s @ [FwdApply g b]\<rparr>
            in case fwd_apply E g b of Some e \<Rightarrow> (Inl e, s) | None \<Rightarrow> (Inr (), s')))"

definition forward_append ::
    "env \<Rightarrow> u32 \<Rightarrow> bytes \<Rightarrow> 'z node_scheme \<Rightarrow> (err + u32 \<times> u64) \<times> 'z node_scheme" where
  "forward_append E g raw s =
     (case fwd_append E g raw of
        Inl e \<Rightarrow> (Inl e, s)
      | Inr r \<Rightarrow> (Inr r, s\<lparr>sent := sent s @ [FwdAppend g raw]\<rparr>))"

text \<open>\<open>StandaloneRouter\<close> and a faultless disk: the single node deployment.\<close>

definition standalone :: env where
  "standalone = \<lparr>rd_fail = (\<lambda>_. False), it_open_fail = (\<lambda>_. False), it_end_fail = (\<lambda>_. False),
     commit = (\<lambda>_ _. Durable), group_for_queue = (\<lambda>_ _. meta_group), is_leader = (\<lambda>_. True),
     read_barrier = (\<lambda>_. None), fwd_append = (\<lambda>_ _. Inl ErrForward),
     fwd_apply = (\<lambda>_ _. Some ErrForward)\<rparr>"

lemma db_set_db [simp]: "db (set_db m s) = m" "sent (set_db m s) = sent s"
  by (simp_all add: set_db_def)

lemma set_db_id [simp]: "set_db (db s) s = s"
  by (simp add: set_db_def)

text \<open>The store changes by the whole batch or not at all.\<close>

lemma rep_apply_async_db:
  "rep_apply_async E g b s = (r, s') \<Longrightarrow> s' = s \<or> s' = set_db (apply_batch b (db s)) s"
  by (auto simp: rep_apply_async_def split: outcome.splits if_splits)

lemma rep_apply_db:
  "rep_apply E g b s = (r, s') \<Longrightarrow> s' = s \<or> s' = set_db (apply_batch b (db s)) s"
  by (auto simp: rep_apply_def split: prod.splits sum.splits dest: rep_apply_async_db)

lemma rep_apply_ok:
  "rep_apply E g b s = (Inr u, s') \<Longrightarrow> s' = set_db (apply_batch b (db s)) s"
  by (auto simp: rep_apply_def rep_apply_async_def split: outcome.splits if_splits)

lemma rep_apply_async_ok:
  "rep_apply_async E g b s = (Inr p, s') \<Longrightarrow> pending_wait p = Inr () \<Longrightarrow>
    s' = set_db (apply_batch b (db s)) s"
  by (auto simp: rep_apply_async_def split: outcome.splits if_splits)

lemma rep_apply_async_err: "rep_apply_async E g b s = (Inl e, s') \<Longrightarrow> s' = s"
  by (auto simp: rep_apply_async_def split: outcome.splits if_splits)

lemma apply_or_forward_db:
  "apply_or_forward E g b s = (r, s') \<Longrightarrow> db s' = db s \<or> db s' = apply_batch b (db s)"
  by (auto simp: apply_or_forward_def Let_def split: if_splits option.splits dest: rep_apply_db)

lemma apply_or_forward_ok:
  "apply_or_forward E g b s = (Inr u, s') \<Longrightarrow> is_leader E g \<Longrightarrow>
    s' = set_db (apply_batch b (db s)) s"
  by (auto simp: apply_or_forward_def dest: rep_apply_ok)

lemma apply_or_forward_kv_ok:
  "apply_or_forward E g b s = (r, s') \<Longrightarrow> kv_ok (db s) \<Longrightarrow> kv_ok (db s')"
  by (auto dest: apply_or_forward_db)

lemma rep_apply_kv_ok: "rep_apply E g b s = (r, s') \<Longrightarrow> kv_ok (db s) \<Longrightarrow> kv_ok (db s')"
  by (auto dest!: rep_apply_db)

lemma rep_apply_standalone: "rep_apply standalone g b s = (Inr (), set_db (apply_batch b (db s)) s)"
  by (simp add: rep_apply_def rep_apply_async_def standalone_def)

lemma apply_or_forward_standalone:
  "apply_or_forward standalone g b s = (Inr (), set_db (apply_batch b (db s)) s)"
proof -
  have "is_leader standalone g" by (simp add: standalone_def)
  then show ?thesis by (simp add: apply_or_forward_def rep_apply_standalone)
qed

section \<open>Laws of the scan\<close>

text \<open>
  An invariant of the callback over the entries of the range is an invariant of the scan: the
  client's proof obligation speaks of one entry that is in the store.
\<close>

lemma scan_loop_inv:
  assumes "P s" "scan_loop at_end limit n fn kvs s = (r, s')"
    and "\<And>s k v r s'. P s \<Longrightarrow> (k, v) \<in> set kvs \<Longrightarrow> fn s k v = (r, s') \<Longrightarrow> P s'"
  shows "P s'"
  using assms
proof (induction at_end limit n fn kvs s rule: scan_loop.induct)
  case (2 at_end limit n fn k v rest s)
  obtain r1 s1 where f: "fn s k v = (r1, s1)" by (cases "fn s k v")
  have p1: "P s1" using "2.prems"(1,3) f by (meson list.set_intros(1))
  show ?case
  proof (cases "r1 = Inr True \<and> \<not> (0 < limit \<and> limit \<le> n + 1)")
    case True
    then show ?thesis
      using "2.prems"(2) f by (intro "2.IH" [OF f [symmetric]]) (auto intro: p1 "2.prems"(3))
  next
    case False
    then show ?thesis using "2.prems"(2) f p1 by (auto split: sum.splits if_splits)
  qed
qed simp

lemma st_scan_inv:
  assumes "P acc" "st_scan E s lo hi limit fn acc = (r, acc')" "kv_ok (db s)"
    and "\<And>a k v r a'. P a \<Longrightarrow> kv_get (db s) k = Some v \<Longrightarrow> in_range lo hi k \<Longrightarrow>
      fn a k v = (r, a') \<Longrightarrow> P a'"
  shows "P acc'"
proof (cases "it_open_fail E lo")
  case True
  then show ?thesis using assms(1,2) by (simp add: st_scan_def)
next
  case False
  then obtain at_end where l: "scan_loop at_end limit 0 fn (kv_range lo hi (db s)) acc = (r, acc')"
    using assms(2) by (simp add: st_scan_def split: if_splits)
  show ?thesis
  proof (rule scan_loop_inv [where P = P, OF assms(1) l])
    fix a k v r a'
    assume "P a" "(k, v) \<in> set (kv_range lo hi (db s))" "fn a k v = (r, a')"
    then show "P a'" using assms(4) kv_range_mem [OF assms(3)] by blast
  qed
qed

section \<open>Scans as runs over a prefix of the range\<close>

lemma scan_run_from:
  assumes "scan_loop at_end limit n fn rest s = (Inr u, s')" "kvs = pre @ rest" "P pre s"
    and "\<And>ys k v zs s c s1. kvs = ys @ (k, v) # zs \<Longrightarrow> P ys s \<Longrightarrow> fn s k v = (Inr c, s1) \<Longrightarrow>
      (if c then P (ys @ [(k, v)]) s1 else Q (ys @ [(k, v)]) s1)"
  shows "\<exists>ys zs. kvs = ys @ zs \<and> (P ys s' \<or> Q ys s')"
  using assms(1-3)
proof (induction rest arbitrary: "pre" n s)
  case Nil
  then show ?case by (intro exI [of _ kvs] exI [of _ "[]"]) simp
next
  case (Cons e rest)
  obtain k v where e: "e = (k, v)" by (cases e)
  obtain c s1 where f: "fn s k v = (Inr c, s1)"
    using Cons.prems(1) by (auto simp: e split: prod.splits sum.splits)
  have kvs: "kvs = pre @ (k, v) # rest" using Cons.prems(2) by (simp add: e)
  note step = assms(4) [OF kvs Cons.prems(3) f]
  have at: "kvs = (pre @ [(k, v)]) @ rest" using kvs by simp
  show ?case
  proof (cases "c \<and> \<not> (0 < limit \<and> limit \<le> n + 1)")
    case True
    then have "scan_loop at_end limit (n + 1) fn rest s1 = (Inr u, s')"
      using Cons.prems(1) f by (simp add: e split: if_splits)
    then show ?thesis using Cons.IH [OF _ at] step True by simp
  next
    case False
    then have "s' = s1" using Cons.prems(1) f by (auto simp: e split: if_splits)
    then show ?thesis using at step by (metis (full_types))
  qed
qed

lemma scan_run:
  assumes "st_scan E s lo hi limit fn acc = (Inr u, acc')" "P [] acc"
    and "\<And>ys k v zs a c a1. kv_range lo hi (db s) = ys @ (k, v) # zs \<Longrightarrow> P ys a \<Longrightarrow> fn a k v = (Inr c, a1) \<Longrightarrow>
      (if c then P (ys @ [(k, v)]) a1 else Q (ys @ [(k, v)]) a1)"
  shows "\<exists>ys zs. kv_range lo hi (db s) = ys @ zs \<and> (P ys acc' \<or> Q ys acc')"
proof -
  obtain at_end where l: "scan_loop at_end limit 0 fn (kv_range lo hi (db s)) acc = (Inr u, acc')"
    using assms(1) by (simp add: st_scan_def split: if_splits)
  show ?thesis
    by (rule scan_run_from [OF l, where P = P and pre = "[]"]) (use assms(2,3) in auto)
qed

lemma scan_run_all:
  assumes "st_scan E s lo hi limit fn acc = (Inr u, acc')" "P [] acc" "limit \<le> 0"
    and "\<And>ys k v zs a c a1. kv_range lo hi (db s) = ys @ (k, v) # zs \<Longrightarrow> P ys a \<Longrightarrow> fn a k v = (Inr c, a1) \<Longrightarrow>
      c \<and> P (ys @ [(k, v)]) a1"
  shows "P (kv_range lo hi (db s)) acc'"
proof -
  obtain at_end where l: "scan_loop at_end limit 0 fn (kv_range lo hi (db s)) acc = (Inr u, acc')"
    using assms(1) by (simp add: st_scan_def split: if_splits)
  have "P (ys @ rest) acc'"
    if "scan_loop at_end limit n fn rest a = (Inr u, acc')" "P ys a" "kv_range lo hi (db s) = ys @ rest" for n rest a ys
    using that
  proof (induction rest arbitrary: ys n a)
    case (Cons e rest)
    obtain k v where e: "e = (k, v)" by (cases e)
    obtain c a1 where f: "fn a k v = (Inr c, a1)"
      using Cons.prems(1) by (auto simp: e split: prod.splits sum.splits)
    have kvs: "kv_range lo hi (db s) = ys @ (k, v) # rest" using Cons.prems(3) by (simp add: e)
    have "c \<and> P (ys @ [(k, v)]) a1" by (rule assms(4) [OF kvs Cons.prems(2) f])
    then show ?case
      using Cons.IH [of "n + 1" a1 "ys @ [(k, v)]"] Cons.prems(1,3) f assms(3) by (auto simp: e)
  qed simp
  from this [OF l assms(2)] show ?thesis by simp
qed

lemma apply_batch_local: "kv_get d' k = kv_get d k \<Longrightarrow> kv_get (apply_batch b d') k = kv_get (apply_batch b d) k"
proof (induction b arbitrary: d d')
  case (Cons x b)
  have "kv_get (apply_op d' x) k = kv_get (apply_op d x) k"
    using Cons.prems by (cases x) (simp_all add: kv_simps)
  then show ?case using Cons.IH [of "apply_op d' x" "apply_op d x"] by (simp add: apply_batch_Cons)
qed (simp add: kv_simps)

section \<open>Scan bounds\<close>

lemma upper_bound_none:
  "upper_bound_rev (rev p) = None \<Longrightarrow> \<forall>c \<in> set p. of_char c = (255::int)"
proof (induction p rule: rev_induct)
  case (snoc c p)
  then show ?case using of_char_int_bounds(2) [of c] by (auto split: if_splits)
qed simp

lemma top_bytes_le:
  "\<forall>c \<in> set p. of_char c = (255::int) \<Longrightarrow> p \<le> k \<longleftrightarrow> prefix p k"
proof (induction p arbitrary: k)
  case (Cons c p)
  show ?case
  proof (cases k)
    case (Cons x xs)
    have "\<not> c < x"
      using Cons.prems of_char_int_bounds(2) [of x] by (auto simp: char_less_int)
    then show ?thesis using Cons Cons.IH [of xs] Cons.prems by auto
  qed simp
qed simp

lemma in_range_prefix: "in_range p (prefix_upper_bound p) k \<longleftrightarrow> prefix p k"
proof (cases "prefix_upper_bound p")
  case None
  then show ?thesis
    using top_bytes_le [OF upper_bound_none, of p k]
    by (simp add: in_range_def prefix_upper_bound_def)
next
  case (Some u)
  then show ?thesis using prefix_upper_bound_exact [OF Some, of k] by (simp add: in_range_def)
qed

lemma in_range_msg:
  assumes "name_ok t" "name_ok t'"
  shows "in_range (msg_key t q lo) (prefix_upper_bound (msg_queue_prefix t q)) (msg_key t' q' off) \<longleftrightarrow>
    t' = t \<and> q' = q \<and> lo \<le> off"
proof -
  obtain u where u: "prefix_upper_bound (msg_queue_prefix t q) = Some u"
    using msgq.bounded [of t q] by auto
  show ?thesis
  proof (cases "prefix (msg_queue_prefix t q) (msg_key t' q' off)")
    case True
    then obtain zs where "t' @ CHR ''/'' # put_u32 q' @ put_u64 off = t @ CHR ''/'' # put_u32 q @ zs"
      by (auto simp: msg_key_prefix [of t'] msg_queue_prefix_eq prefix_def)
    then have "t' = t \<and> put_u32 q' @ put_u64 off = put_u32 q @ zs"
      using assms by (simp add: cut_byte_inj name_ok_def)
    then have "t' = t \<and> q' = q" by (simp add: put_u32_inj)
    then show ?thesis using msgq.from_offset [OF u, of lo off] by (simp add: in_range_def u)
  next
    case False
    then have "\<not> (t' = t \<and> q' = q)" by (auto simp: msg_key_prefix)
    moreover have "\<not> in_range (msg_key t q lo) (Some u) (msg_key t' q' off)"
      using False msgq.prefix_below [OF u] by (auto simp: in_range_def)
    ultimately show ?thesis by (auto simp: u)
  qed
qed

section \<open>Properties\<close>

text \<open>Scanning from a prefix to its computed upper bound yields, in key order, exactly the
  entries with that prefix: for every prefix, the ones with no upper bound included.\<close>

theorem prefix_scan_exact:
  "kv_range p (prefix_upper_bound p) m = filter (\<lambda>(k, _). prefix p k) m"
  by (simp add: kv_range_def in_range_prefix)

text \<open>The scan of a queue from a cursor meets a stored message exactly when it is a message
  of that topic and queue at or after the cursor: no other queue's message, not even that of a
  topic whose name extends this one's.\<close>

theorem queue_scan_exact:
  assumes "name_ok t" "name_ok t'"
  shows "in_range (msg_key t q lo) (prefix_upper_bound (msg_queue_prefix t q)) (msg_key t' q' off) \<longleftrightarrow>
    t' = t \<and> q' = q \<and> lo \<le> off"
  by (rule in_range_msg [OF assms])

theorem queue_scan_exact_witness:
  "in_range (msg_key ''orders'' 1 5) (prefix_upper_bound (msg_queue_prefix ''orders'' 1)) (msg_key ''orders'' 1 9)
    \<longleftrightarrow> ''orders'' = ''orders'' \<and> (1::u32) = 1 \<and> (5::u64) \<le> 9"
  by (rule queue_scan_exact) (simp_all add: name_ok_def)

end
