(* ===== verification/GoStd.thy ===== *)
theory GoStd
  imports Prelude
begin

text \<open>
  What the components use of Go's standard library: ASCII classes, \<open>strings.TrimSpace\<close>,
  \<open>strings.Split\<close>, \<open>strings.EqualFold\<close>, and \<open>strconv\<close>'s \<open>ParseInt\<close>,
  \<open>ParseUint\<close>, \<open>FormatInt\<close>/\<open>FormatUint\<close> and \<open>ParseFloat\<close> with the IEEE
  double that it returns.
\<close>

section \<open>Bytes and strings\<close>

definition code :: "char \<Rightarrow> nat" where
  "code c = of_char c"

definition is_digit :: "char \<Rightarrow> bool" where
  "is_digit c \<longleftrightarrow> CHR ''0'' \<le> c \<and> c \<le> CHR ''9''"

definition is_upper :: "char \<Rightarrow> bool" where
  "is_upper c \<longleftrightarrow> CHR ''A'' \<le> c \<and> c \<le> CHR ''Z''"

definition is_lower :: "char \<Rightarrow> bool" where
  "is_lower c \<longleftrightarrow> CHR ''a'' \<le> c \<and> c \<le> CHR ''z''"

definition to_lower :: "char \<Rightarrow> char" where
  "to_lower c = (if is_upper c then char_of (code c + 32) else c)"

definition to_upper :: "char \<Rightarrow> char" where
  "to_upper c = (if is_lower c then char_of (code c - 32) else c)"

text \<open>
  The UTF-8 encodings of the code points for which \<open>unicode.IsSpace\<close> holds.  A prefix (or
  suffix) of a string decodes to one of these code points exactly when it is one of these byte
  sequences.
\<close>

definition space_encodings :: "bytes list" where
  "space_encodings =
     [[CHR '' ''], [CHR 0x09], [CHR 0x0A], [CHR 0x0B], [CHR 0x0C], [CHR 0x0D],
      [CHR 0xC2, CHR 0x85], [CHR 0xC2, CHR 0xA0], [CHR 0xE1, CHR 0x9A, CHR 0x80],
      [CHR 0xE2, CHR 0x80, CHR 0xA8], [CHR 0xE2, CHR 0x80, CHR 0xA9],
      [CHR 0xE2, CHR 0x80, CHR 0xAF], [CHR 0xE2, CHR 0x81, CHR 0x9F],
      [CHR 0xE3, CHR 0x80, CHR 0x80]] @
     map (\<lambda>n. [CHR 0xE2, CHR 0x80, char_of (n :: nat)]) [0x80 ..< 0x8B]"

definition strip_one :: "bytes list \<Rightarrow> bytes \<Rightarrow> bytes option" where
  "strip_one ws s =
     (case find (\<lambda>w. prefix w s) ws of None \<Rightarrow> None | Some w \<Rightarrow> Some (drop (length w) s))"

function trim_left_with :: "bytes list \<Rightarrow> bytes \<Rightarrow> bytes" where
  "trim_left_with ws s =
     (case strip_one ws s of
        None \<Rightarrow> s
      | Some r \<Rightarrow> if length r < length s then trim_left_with ws r else s)"
  by pat_completeness auto
termination
  by (relation "measure (\<lambda>(ws, s). length s)") auto

declare trim_left_with.simps [simp del]

definition trim_space :: "bytes \<Rightarrow> bytes" where
  "trim_space s =
     rev (trim_left_with (map rev space_encodings) (rev (trim_left_with space_encodings s)))"

text \<open>\<open>strings.Split(s, "||")\<close>; \<open>cur\<close> is the piece being read, reversed.\<close>

fun split_bars :: "bytes \<Rightarrow> bytes \<Rightarrow> bytes list" where
  "split_bars cur [] = [rev cur]"
| "split_bars cur [c] = [rev (c # cur)]"
| "split_bars cur (c # d # s) =
     (if c = CHR ''|'' \<and> d = CHR ''|'' then rev cur # split_bars [] s
      else split_bars (c # cur) (d # s))"

text \<open>
  \<open>strings.EqualFold\<close> against an ASCII word: simple folding identifies the ASCII cases and,
  beyond ASCII, the long s (U+017F) with s and the Kelvin sign (U+212A) with k.
\<close>

fun fold_ascii :: "bytes \<Rightarrow> bytes" where
  "fold_ascii [] = []"
| "fold_ascii (a # s) =
     (case s of
        b # t \<Rightarrow>
          if a = CHR 0xC5 \<and> b = CHR 0xBF then CHR ''s'' # fold_ascii t
          else (case t of
                  c # u \<Rightarrow>
                    if a = CHR 0xE2 \<and> b = CHR 0x84 \<and> c = CHR 0xAA then CHR ''k'' # fold_ascii u
                    else to_lower a # fold_ascii s
                | [] \<Rightarrow> to_lower a # fold_ascii s)
      | [] \<Rightarrow> [to_lower a])"

definition equal_fold :: "bytes \<Rightarrow> bytes \<Rightarrow> bool" where
  "equal_fold s t \<longleftrightarrow> fold_ascii s = fold_ascii t"

section \<open>Integers\<close>

definition digit_val :: "char \<Rightarrow> nat" where
  "digit_val c = code c - 48"

definition dec_val :: "bytes \<Rightarrow> nat" where
  "dec_val s = foldl (\<lambda>acc c. acc * 10 + digit_val c) 0 s"

definition digits_of :: "bytes \<Rightarrow> nat option" where
  "digits_of s = (if s = [] \<or> \<not> list_all is_digit s then None else Some (dec_val s))"

text \<open>\<open>ParseUint(s, 10, bits)\<close> and \<open>ParseInt(s, 10, bits)\<close>; an error is \<^term>\<open>None\<close>.\<close>

definition parse_uint :: "nat \<Rightarrow> bytes \<Rightarrow> nat option" where
  "parse_uint bits s =
     (case digits_of s of None \<Rightarrow> None | Some n \<Rightarrow> if n < 2 ^ bits then Some n else None)"

definition parse_int :: "nat \<Rightarrow> bytes \<Rightarrow> int option" where
  "parse_int bits s =
     (let (neg, ds) = (case s of [] \<Rightarrow> (False, [])
                       | c # r \<Rightarrow> if c = CHR ''-'' then (True, r)
                                  else if c = CHR ''+'' then (False, r) else (False, s))
      in case digits_of ds of
           None \<Rightarrow> None
         | Some n \<Rightarrow>
             if neg then (if n \<le> 2 ^ (bits - 1) then Some (- int n) else None)
             else if n < 2 ^ (bits - 1) then Some (int n) else None)"

fun fmt_nat :: "nat \<Rightarrow> bytes" where
  "fmt_nat n = (if n < 10 then [char_of (48 + n)] else fmt_nat (n div 10) @ [char_of (48 + n mod 10)])"

declare fmt_nat.simps [simp del]

definition fmt_int :: "int \<Rightarrow> bytes" where
  "fmt_int i = (if i < 0 then CHR ''-'' # fmt_nat (nat (- i)) else fmt_nat (nat i))"

lemma code_char_of: "n < 256 \<Longrightarrow> code (char_of n) = n"
  by (simp add: code_def)

lemma is_digit_code: "is_digit c \<longleftrightarrow> 48 \<le> code c \<and> code c \<le> 57"
  by (simp add: is_digit_def code_def less_eq_char_def)

lemma dec_val_snoc: "dec_val (s @ [c]) = dec_val s * 10 + digit_val c"
  by (simp add: dec_val_def)

lemma fmt_nat_digits: "list_all is_digit (fmt_nat n) \<and> fmt_nat n \<noteq> [] \<and> dec_val (fmt_nat n) = n"
proof (induction n rule: fmt_nat.induct)
  case (1 n)
  show ?case
  proof (cases "n < 10")
    case True
    then show ?thesis
      by (simp add: fmt_nat.simps [of n] is_digit_code code_char_of dec_val_def digit_val_def)
  next
    case False
    then show ?thesis
      using "1.IH"
      by (simp add: fmt_nat.simps [of n] is_digit_code code_char_of dec_val_snoc digit_val_def)
  qed
qed

lemma digits_of_fmt [simp]: "digits_of (fmt_nat n) = Some n"
  using fmt_nat_digits [of n] by (simp add: digits_of_def)

lemma parse_uint_fmt: "n < 2 ^ bits \<Longrightarrow> parse_uint bits (fmt_nat n) = Some n"
  by (simp add: parse_uint_def)

lemma fmt_nat_hd:
  obtains c r where "fmt_nat n = c # r" "is_digit c" "c \<noteq> CHR ''-''" "c \<noteq> CHR ''+''"
proof -
  obtain c r where "fmt_nat n = c # r" using fmt_nat_digits [of n] by (cases "fmt_nat n") auto
  moreover from this have "is_digit c" using fmt_nat_digits [of n] by simp
  ultimately show thesis by (intro that [of c r]) (auto simp: is_digit_def)
qed

lemma parse_int_fmt:
  assumes "- (2 ^ (bits - 1)) \<le> i" "i < 2 ^ (bits - 1)"
  shows "parse_int bits (fmt_int i) = Some i"
proof (cases "i < 0")
  case True
  then have "nat (- i) \<le> 2 ^ (bits - 1)" using assms by (simp add: nat_le_iff)
  then show ?thesis using True by (simp add: parse_int_def fmt_int_def)
next
  case False
  then have "nat i < 2 ^ (bits - 1)" using assms by (simp add: nat_less_iff)
  moreover obtain c r where "fmt_nat (nat i) = c # r" "c \<noteq> CHR ''-''" "c \<noteq> CHR ''+''"
    by (rule fmt_nat_hd)
  ultimately show ?thesis
    using False digits_of_fmt [of "nat i"] by (simp add: parse_int_def fmt_int_def)
qed

lemma int_pow2: "n < 2 ^ k \<longleftrightarrow> int n < 2 ^ k" "n \<le> 2 ^ k \<longleftrightarrow> int n \<le> 2 ^ k"
  using of_nat_less_iff [of n "2 ^ k", where 'a = int] of_nat_le_iff [of n "2 ^ k", where 'a = int]
  by (simp_all del: of_nat_less_iff of_nat_le_iff)

lemma parse_int_range:
  assumes "parse_int bits s = Some i"
  shows "- (2 ^ (bits - 1)) \<le> i \<and> i < 2 ^ (bits - 1)"
proof -
  have pos: "(0::int) < 2 ^ (bits - 1)" by simp
  from assms obtain n where "(i = - int n \<and> n \<le> 2 ^ (bits - 1)) \<or> (i = int n \<and> n < 2 ^ (bits - 1))"
    by (auto simp: parse_int_def Let_def split: if_splits list.splits option.splits)
  then show ?thesis using pos int_pow2 [of n "bits - 1"] by (elim disjE) linarith+
qed

section \<open>Doubles\<close>

text \<open>
  A double is NaN, an infinity (with its sign bit), or the dyadic rational \<open>m * 2^e\<close>; the
  two zeros are one value, which every comparison of the source treats alike.
\<close>

datatype f64 = FNaN | FInf bool | FFin int int

definition fin_scale :: "int \<Rightarrow> int \<Rightarrow> int \<Rightarrow> int" where
  "fin_scale m e e0 = m * 2 ^ nat (e - e0)"

fun f_less :: "f64 \<Rightarrow> f64 \<Rightarrow> bool" where
  "f_less FNaN y = False"
| "f_less x FNaN = False"
| "f_less (FInf a) (FInf b) = (a \<and> \<not> b)"
| "f_less (FInf a) (FFin m e) = a"
| "f_less (FFin m e) (FInf b) = (\<not> b)"
| "f_less (FFin m e) (FFin n f) =
     (let e0 = min e f in fin_scale m e e0 < fin_scale n f e0)"

fun f_eq :: "f64 \<Rightarrow> f64 \<Rightarrow> bool" where
  "f_eq FNaN y = False"
| "f_eq x FNaN = False"
| "f_eq (FInf a) (FInf b) = (a = b)"
| "f_eq (FInf a) (FFin m e) = False"
| "f_eq (FFin m e) (FInf b) = False"
| "f_eq (FFin m e) (FFin n f) =
     (let e0 = min e f in fin_scale m e e0 = fin_scale n f e0)"

function bit_len :: "int \<Rightarrow> int" where
  "bit_len n = (if n \<le> 0 then 0 else 1 + bit_len (n div 2))"
  by pat_completeness auto
termination
  by (relation "measure nat") auto

declare bit_len.simps [simp del]

text \<open>
  The double nearest to \<open>num / den\<close> (ties to even), for \<open>0 < num\<close>, \<open>0 < den\<close>; overflow is
  \<^term>\<open>None\<close>.  With \<open>L = bit_len num - bit_len den\<close> the quotient lies between \<open>2^(L-1)\<close>
  and \<open>2^(L+1)\<close>, so its 53 bit significand has exponent \<open>L - 53\<close> or \<open>L - 52\<close>; no
  exponent is below \<open>-1074\<close>, and a value of \<open>2^1024\<close> or more is out of range.
\<close>

definition scaled :: "int \<Rightarrow> int \<Rightarrow> int \<Rightarrow> int \<times> int" where
  "scaled num den k =
     (if 0 \<le> k then (num, den * 2 ^ nat k) else (num * 2 ^ nat (- k), den))"

definition round_even :: "int \<Rightarrow> int \<Rightarrow> int" where
  "round_even a b =
     (let q = a div b; r = a mod b
      in if 2 * r < b then q else if b < 2 * r then q + 1 else if even q then q else q + 1)"

definition round_f64 :: "int \<Rightarrow> int \<Rightarrow> f64 option" where
  "round_f64 num den =
     (let l = bit_len num - bit_len den;
          k0 = l - 53;
          k1 = (case scaled num den k0 of (a, b) \<Rightarrow> if a < b * 2 ^ 53 then k0 else k0 + 1);
          k = max k1 (- 1074)
      in case scaled num den k of
           (a, b) \<Rightarrow>
             let q = round_even a b
             in if 971 < k \<or> (k = 971 \<and> q = 2 ^ 53) then None else Some (FFin q k))"

definition f64_sign :: "bool \<Rightarrow> f64 \<Rightarrow> f64" where
  "f64_sign neg x = (case x of FFin m e \<Rightarrow> FFin (if neg then - m else m) e | _ \<Rightarrow> x)"

text \<open>\<open>float64(i)\<close> for an int64.\<close>

definition f64_of_int :: "int \<Rightarrow> f64" where
  "f64_of_int i =
     (if i = 0 then FFin 0 0
      else (case round_f64 \<bar>i\<bar> 1 of
              None \<Rightarrow> FInf (i < 0) | Some x \<Rightarrow> f64_sign (i < 0) x))"

section \<open>ParseFloat\<close>

text \<open>The digits of \<open>readFloat\<close>: the significand, the digits after the point, what it saw.\<close>

record scan_num =
  sn_mant :: int
  sn_frac :: int
  sn_dot :: bool
  sn_digits :: bool
  sn_under :: bool

definition hex_val :: "char \<Rightarrow> nat option" where
  "hex_val c =
     (if is_digit c then Some (digit_val c)
      else let l = to_lower c
           in if CHR ''a'' \<le> l \<and> l \<le> CHR ''f'' then Some (code l - 87) else None)"

fun read_mant :: "bool \<Rightarrow> scan_num \<Rightarrow> bytes \<Rightarrow> scan_num \<times> bytes" where
  "read_mant hex a [] = (a, [])"
| "read_mant hex a (c # s) =
     (if c = CHR ''_'' then read_mant hex (a\<lparr>sn_under := True\<rparr>) s
      else if c = CHR ''.'' then
        (if sn_dot a then (a, c # s) else read_mant hex (a\<lparr>sn_dot := True\<rparr>) s)
      else (case (if hex then hex_val c else if is_digit c then Some (digit_val c) else None) of
              None \<Rightarrow> (a, c # s)
            | Some d \<Rightarrow>
                read_mant hex
                  (a\<lparr>sn_mant := sn_mant a * (if hex then 16 else 10) + int d,
                     sn_frac := (if sn_dot a then sn_frac a + 1 else sn_frac a),
                     sn_digits := True\<rparr>) s))"

fun read_exp :: "int \<Rightarrow> bool \<Rightarrow> bytes \<Rightarrow> int \<times> bool \<times> bytes" where
  "read_exp e u [] = (e, u, [])"
| "read_exp e u (c # s) =
     (if c = CHR ''_'' then read_exp e True s
      else if is_digit c then read_exp (if e < 10000 then e * 10 + int (digit_val c) else e) u s
      else (e, u, c # s))"

text \<open>\<open>underscoreOK\<close>: an underscore stands between digits, or after a base prefix.\<close>

fun under_loop :: "bool \<Rightarrow> char \<Rightarrow> bytes \<Rightarrow> bool" where
  "under_loop hex i [] = (i \<noteq> CHR ''_'')"
| "under_loop hex i (c # s) =
     (if is_digit c \<or> (hex \<and> hex_val c \<noteq> None) then under_loop hex CHR ''0'' s
      else if c = CHR ''_'' then (if i \<noteq> CHR ''0'' then False else under_loop hex CHR ''_'' s)
      else if i = CHR ''_'' then False else under_loop hex CHR ''!'' s)"

definition underscore_ok :: "bytes \<Rightarrow> bool" where
  "underscore_ok s0 =
     (let s = (case s0 of c # r \<Rightarrow> if c = CHR ''-'' \<or> c = CHR ''+'' then r else s0 | [] \<Rightarrow> [])
      in case s of
           a # b # r \<Rightarrow>
             if a = CHR ''0'' \<and> to_lower b \<in> {CHR ''b'', CHR ''o'', CHR ''x''}
             then under_loop (to_lower b = CHR ''x'') CHR ''0'' r
             else under_loop False CHR ''^'' s
         | _ \<Rightarrow> under_loop False CHR ''^'' s)"

definition mk_float :: "bool \<Rightarrow> bool \<Rightarrow> int \<Rightarrow> int \<Rightarrow> f64 option" where
  "mk_float neg hex m e =
     (if m = 0 then Some (FFin 0 0)
      else let b = (if hex then 2 else 10 :: int)
           in map_option (f64_sign neg)
                (if 0 \<le> e then round_f64 (m * b ^ nat e) 1 else round_f64 m (b ^ nat (- e))))"

definition split_sign :: "bytes \<Rightarrow> bool \<times> bytes" where
  "split_sign s =
     (case s of c # r \<Rightarrow> if c = CHR ''-'' then (True, r) else if c = CHR ''+'' then (False, r)
                         else (False, s)
      | [] \<Rightarrow> (False, []))"

definition special_float :: "bytes \<Rightarrow> f64 option" where
  "special_float s =
     (let (neg, r) = split_sign s; l = map to_lower r
      in if l = ''inf'' \<or> l = ''infinity'' then Some (FInf neg)
         else if map to_lower s = ''nan'' then Some FNaN else None)"

definition parse_float :: "bytes \<Rightarrow> f64 option" where
  "parse_float s =
     (case special_float s of
        Some x \<Rightarrow> Some x
      | None \<Rightarrow>
          (let (neg, r0) = split_sign s;
               hex = (case r0 of a # b # _ # _ \<Rightarrow> a = CHR ''0'' \<and> to_lower b = CHR ''x'' | _ \<Rightarrow> False);
               r1 = (if hex then drop 2 r0 else r0);
               (a, r2) = read_mant hex
                  \<lparr>sn_mant = 0, sn_frac = 0, sn_dot = False, sn_digits = False, sn_under = False\<rparr> r1;
               ech = (if hex then CHR ''p'' else CHR ''e'');
               fe = (if hex then 4 * sn_frac a else sn_frac a)
           in if \<not> sn_digits a then None
              else (case r2 of
                      [] \<Rightarrow>
                        if hex \<or> (sn_under a \<and> \<not> underscore_ok s) then None
                        else mk_float neg hex (sn_mant a) (- fe)
                    | c # r3 \<Rightarrow>
                        if to_lower c \<noteq> ech then None
                        else (let (eneg, r4) = split_sign r3
                              in case r4 of
                                   [] \<Rightarrow> None
                                 | d # _ \<Rightarrow>
                                     if \<not> is_digit d then None
                                     else (let (e, u, r5) = read_exp 0 (sn_under a) r4
                                           in if r5 \<noteq> [] \<or> (u \<and> \<not> underscore_ok s) then None
                                              else mk_float neg hex (sn_mant a)
                                                ((if eneg then - e else e) - fe))))))"

lemma f_eq_sym: "f_eq x y = f_eq y x"
  by (cases x; cases y) (auto simp: Let_def min.commute)

lemma f_less_not_eq: "f_less x y \<Longrightarrow> \<not> f_eq x y"
  by (cases x; cases y) (auto simp: Let_def)

lemma f_trichotomy: "x \<noteq> FNaN \<Longrightarrow> y \<noteq> FNaN \<Longrightarrow> f_less x y \<or> f_eq x y \<or> f_less y x"
  by (cases x; cases y) (auto simp: Let_def min.commute)

lemma f_less_asym: "f_less x y \<Longrightarrow> \<not> f_less y x"
  by (cases x; cases y) (auto simp: Let_def min.commute)

section \<open>Durations\<close>

text \<open>\<open>Duration.Milliseconds\<close>, which truncates towards zero.\<close>

definition milliseconds :: "int \<Rightarrow> int" where
  "milliseconds d = (if 0 \<le> d then d div 1000000 else - ((- d) div 1000000))"

end
