(* ===== verification/Types.thy ===== *)
theory Types
  imports Store GoStd
begin

text \<open>
  The message model of \<^verbatim>\<open>internal/core/types.go\<close>.  A Go map is an ordered association
  list (its iteration order is never relied on by the source except through
  \<open>encoding/json\<close>, which sorts the keys); a nil slice and an empty one are the same list.
\<close>

record body_digest =
  bd_type :: bytes
  bd_checksum :: bytes

record message =
  m_id :: bytes
  m_topic :: bytes
  m_queue_id :: u32
  m_offset :: u64
  m_tag :: bytes
  m_keys :: "bytes list"
  m_group :: bytes
  m_props :: "(bytes, bytes) omap"
  m_body :: bytes
  m_body_encoding :: bytes
  m_body_digest :: "body_digest option"
  m_born_at :: ms
  m_born_host :: bytes
  m_store_at :: ms
  m_deliver_at :: ms
  m_trace :: bytes
  m_transactional :: bool
  m_attempt :: int

text \<open>The Go zero value.\<close>

definition message0 :: message where
  "message0 = \<lparr>m_id = [], m_topic = [], m_queue_id = 0, m_offset = 0, m_tag = [], m_keys = [],
     m_group = [], m_props = [], m_body = [], m_body_encoding = [], m_body_digest = None,
     m_born_at = 0, m_born_host = [], m_store_at = 0, m_deliver_at = 0, m_trace = [],
     m_transactional = False, m_attempt = 0\<rparr>"

record inflight =
  if_expire :: ms
  if_attempts :: int
  if_ordered :: bool
  if_owner :: bytes
  if_renew_until :: ms

definition inflight0 :: inflight where
  "inflight0 = \<lparr>if_expire = 0, if_attempts = 0, if_ordered = False, if_owner = [],
     if_renew_until = 0\<rparr>"

definition hex_digit :: "nat \<Rightarrow> char" where
  "hex_digit n = (if n < 10 then char_of (48 + n) else char_of (87 + n))"

definition hex_encode :: "bytes \<Rightarrow> bytes" where
  "hex_encode b = concat (map (\<lambda>c. [hex_digit (code c div 16), hex_digit (code c mod 16)]) b)"

text \<open>\<open>NewMessageID\<close>, of the sixteen random bytes it draws.\<close>

definition new_message_id :: "bytes \<Rightarrow> bytes" where
  "new_message_id rnd = map to_upper (hex_encode rnd)"

lemma length_new_message_id: "length (new_message_id rnd) = 2 * length rnd"
  by (induction rnd) (simp_all add: new_message_id_def hex_encode_def)

definition max_i64 :: int where "max_i64 = 2 ^ 63 - 1"

end
