(* ===== verification/Sql_Lex.thy ===== *)
theory Sql_Lex
  imports Types
begin

text \<open>
  The lexer of the SQL92 filter language, \<^verbatim>\<open>internal/core/deliver/sql92_token.go\<close>.  The
  source walks an index over the expression; the model walks the suffix and carries the 1-based
  column of its first byte, so that \<open>expr[i]\<close> is the head of the suffix and \<open>i + 1\<close> the
  column.
\<close>

datatype tok_kind = TEOF | TIdent | TNumber | TString | TKeyword | TOp | TLParen | TRParen | TComma

record token =
  tk_kind :: tok_kind
  tk_text :: bytes
  tk_col :: nat

datatype syn_reason =
    ExpectEnd | DepthLimit | ExpectRParen | ExpectPrimary | BothIdents | ExpectPredicate
  | ExpectNull | NotInBetweenOnly | BetweenAnd | InParen | InEmpty | InSeparator | NeedIdent
  | LeftMustBeIdent | ExpectOperator | ExpectConstant | BadNumber

datatype sql_error =
    LexNumber nat bytes
  | LexChar nat char
  | LexBangEq nat
  | LexUnclosed nat
  | SynErr nat syn_reason
  | OutOfFuel
  | ExprTooLong nat
  | TooDeep | StringOrder | NullCompare bytes | BoolOrder | InTooMany nat | InMixed | InNull
  | BetweenMixed | BetweenNotNumber
  | TagEmpty bytes | UnknownKind nat

definition sql_keywords :: "bytes list" where
  "sql_keywords = [''AND'', ''OR'', ''NOT'', ''BETWEEN'', ''IN'', ''IS'', ''NULL'', ''TRUE'', ''FALSE'']"

definition is_ident_start :: "char \<Rightarrow> bool" where
  "is_ident_start c \<longleftrightarrow> c = CHR ''_'' \<or> is_lower c \<or> is_upper c"

definition is_ident_part :: "char \<Rightarrow> bool" where
  "is_ident_part c \<longleftrightarrow> is_ident_start c \<or> is_digit c"

definition is_num_char :: "char \<Rightarrow> bool" where
  "is_num_char c \<longleftrightarrow> is_digit c \<or> c = CHR ''.''"

definition is_space :: "char \<Rightarrow> bool" where
  "is_space c \<longleftrightarrow> c = CHR '' '' \<or> c = CHR 0x09 \<or> c = CHR 0x0A \<or> c = CHR 0x0D"

definition quote :: char where
  "quote = CHR 0x27"

text \<open>
  The body of a string constant: its text with doubled quotes undone, the number of bytes read
  including the closing quote, and the rest; \<^term>\<open>None\<close> when it is not closed.
\<close>

fun scan_string :: "bytes \<Rightarrow> (bytes \<times> nat \<times> bytes) option" where
  "scan_string [] = None"
| "scan_string [c] = (if c = quote then Some ([], 1, []) else None)"
| "scan_string (c # d # s) =
     (if c = quote then
        (if d = quote then
           (case scan_string s of None \<Rightarrow> None | Some (t, n, r) \<Rightarrow> Some (quote # t, n + 2, r))
         else Some ([], 1, d # s))
      else (case scan_string (d # s) of None \<Rightarrow> None | Some (t, n, r) \<Rightarrow> Some (c # t, n + 1, r)))"

lemma scan_string_length: "scan_string s = Some (t, n, r) \<Longrightarrow> length s = n + length r \<and> 0 < n"
  by (induction s arbitrary: t n r rule: scan_string.induct)
    (auto split: if_splits option.splits)

text \<open>
  One turn of the scan loop at a byte: the token it appends (none for white space), the column
  after it and the rest of the expression.
\<close>

definition tok_at :: "tok_kind \<Rightarrow> bytes \<Rightarrow> nat \<Rightarrow> nat \<Rightarrow> bytes \<Rightarrow> sql_error + token option \<times> nat \<times> bytes" where
  "tok_at k t col n r = Inr (Some \<lparr>tk_kind = k, tk_text = t, tk_col = col\<rparr>, col + n, r)"

definition lex_number :: "char \<Rightarrow> nat \<Rightarrow> bytes \<Rightarrow> sql_error + token option \<times> nat \<times> bytes" where
  "lex_number c col s =
     (let text = c # takeWhile is_num_char s
      in if parse_float text = None then Inl (LexNumber col text)
         else tok_at TNumber text col (length text) (dropWhile is_num_char s))"

definition lex_word :: "char \<Rightarrow> nat \<Rightarrow> bytes \<Rightarrow> sql_error + token option \<times> nat \<times> bytes" where
  "lex_word c col s =
     (let text = c # takeWhile is_ident_part s; upper = map to_upper text;
          r = dropWhile is_ident_part s
      in if upper \<in> set sql_keywords then tok_at TKeyword upper col (length text) r
         else tok_at TIdent text col (length text) r)"

definition lex_rel :: "char \<Rightarrow> nat \<Rightarrow> bytes \<Rightarrow> sql_error + token option \<times> nat \<times> bytes" where
  "lex_rel c col s =
     (case s of
        [] \<Rightarrow> tok_at TOp [c] col 1 s
      | d # r \<Rightarrow>
          if d = CHR ''='' then tok_at TOp [c, d] col 2 r
          else if c = CHR ''<'' \<and> d = CHR ''>'' then tok_at TOp [c, d] col 2 r
          else tok_at TOp [c] col 1 s)"

definition lex_one :: "char \<Rightarrow> nat \<Rightarrow> bytes \<Rightarrow> sql_error + token option \<times> nat \<times> bytes" where
  "lex_one c col s =
     (if is_space c then Inr (None, col + 1, s)
      else if c = CHR ''('' then tok_at TLParen [c] col 1 s
      else if c = CHR '')'' then tok_at TRParen [c] col 1 s
      else if c = CHR '','' then tok_at TComma [c] col 1 s
      else if c = CHR ''='' then tok_at TOp [c] col 1 s
      else if c = CHR ''<'' \<or> c = CHR ''>'' then lex_rel c col s
      else if c = CHR ''-'' then
        (case s of
           d # _ \<Rightarrow> if is_digit d then lex_number c col s else Inl (LexChar col c)
         | [] \<Rightarrow> Inl (LexChar col c))
      else if is_digit c then lex_number c col s
      else if c = quote then
        (case scan_string s of
           None \<Rightarrow> Inl (LexUnclosed col)
         | Some (t, n, r) \<Rightarrow> tok_at TString t col (1 + n) r)
      else if is_ident_start c then lex_word c col s
      else if c = CHR ''!'' then
        (case s of
           d # _ \<Rightarrow> if d = CHR ''='' then Inl (LexBangEq col) else Inl (LexChar col c)
         | [] \<Rightarrow> Inl (LexChar col c))
      else Inl (LexChar col c))"

lemma tail_length: "length (takeWhile P s) + length (dropWhile P s) = length s"
  by (metis length_append takeWhile_dropWhile_id)

text \<open>What a turn yields: it moves on by what it reads, and its token is well formed.\<close>

definition sql_ops :: "bytes list" where
  "sql_ops = [''='', ''<>'', ''>'', ''>='', ''<'', ''<='']"

definition tok_ok :: "token \<Rightarrow> bool" where
  "tok_ok t \<longleftrightarrow> tk_kind t \<noteq> TEOF \<and>
     (tk_kind t = TNumber \<longrightarrow> parse_float (tk_text t) \<noteq> None) \<and>
     (tk_kind t = TKeyword \<longrightarrow> tk_text t \<in> set sql_keywords) \<and>
     (tk_kind t = TOp \<longrightarrow> tk_text t \<in> set sql_ops)"

definition turn_ok :: "nat \<Rightarrow> nat \<Rightarrow> sql_error + token option \<times> nat \<times> bytes \<Rightarrow> bool" where
  "turn_ok col len r \<longleftrightarrow>
     (case r of Inl _ \<Rightarrow> True
      | Inr (t, col', rest) \<Rightarrow> col < col' \<and> col' + length rest = col + len \<and>
          (case t of None \<Rightarrow> True | Some t \<Rightarrow> tk_col t = col \<and> tok_ok t))"

lemma turn_ok_Inl [simp]: "turn_ok col len (Inl e)"
  by (simp add: turn_ok_def)

lemma turn_ok_tok:
  "turn_ok col len (tok_at k t col n r) \<longleftrightarrow> 0 < n \<and> n + length r = len \<and> k \<noteq> TEOF \<and>
     (k = TNumber \<longrightarrow> parse_float t \<noteq> None) \<and> (k = TKeyword \<longrightarrow> t \<in> set sql_keywords) \<and>
     (k = TOp \<longrightarrow> t \<in> set sql_ops)"
  by (auto simp: turn_ok_def tok_at_def tok_ok_def)

lemma lex_number_ok: "turn_ok col (Suc (length s)) (lex_number c col s)"
  using tail_length [of is_num_char s] by (auto simp: lex_number_def Let_def turn_ok_tok)

lemma lex_word_ok: "turn_ok col (Suc (length s)) (lex_word c col s)"
  using tail_length [of is_ident_part s] by (auto simp: lex_word_def Let_def turn_ok_tok)

lemma lex_rel_ok:
  "c = CHR ''<'' \<or> c = CHR ''>'' \<Longrightarrow> turn_ok col (Suc (length s)) (lex_rel c col s)"
  by (auto simp: lex_rel_def turn_ok_tok sql_ops_def split: list.splits)

lemma lex_one_ok: "turn_ok col (Suc (length s)) (lex_one c col s)"
proof -
  have str: "turn_ok col (Suc (length s)) (case scan_string s of
           None \<Rightarrow> Inl (LexUnclosed col)
         | Some (t, n, r) \<Rightarrow> tok_at TString t col (1 + n) r)"
    by (auto simp: turn_ok_tok split: option.split dest: scan_string_length)
  have ws: "turn_ok col (Suc (length s)) (Inr (None, col + 1, s))"
    by (simp add: turn_ok_def)
  have minus: "turn_ok col (Suc (length s)) (case s of
           d # _ \<Rightarrow> if is_digit d then lex_number c col s else Inl (LexChar col c)
         | [] \<Rightarrow> Inl (LexChar col c))"
    using lex_number_ok [of col s c] by (cases s) auto
  have bang: "turn_ok col (Suc (length s)) (case s of
           d # _ \<Rightarrow> if d = CHR ''='' then Inl (LexBangEq col) else Inl (LexChar col c)
         | [] \<Rightarrow> Inl (LexChar col c))"
    by (cases s) auto
  show ?thesis
    unfolding lex_one_def
    using str ws minus bang by (simp add: lex_number_ok lex_word_ok lex_rel_ok turn_ok_tok sql_ops_def)
qed

function lex_loop :: "nat \<Rightarrow> bytes \<Rightarrow> sql_error + token list" where
  "lex_loop col [] = Inr [\<lparr>tk_kind = TEOF, tk_text = [], tk_col = col\<rparr>]"
| "lex_loop col (c # s) =
     (case lex_one c col s of
        Inl e \<Rightarrow> Inl e
      | Inr (t, col', rest) \<Rightarrow>
          (case lex_loop col' rest of
             Inl e \<Rightarrow> Inl e
           | Inr ts \<Rightarrow> Inr ((case t of None \<Rightarrow> [] | Some t \<Rightarrow> [t]) @ ts)))"
  by pat_completeness auto
termination
proof (relation "measure (\<lambda>(col, s). length s)")
  fix col c s r t p col' rest
  assume "lex_one c col s = Inr r" "(t, p) = r" "(col', rest) = p"
  then show "((col', rest), (col, c # s)) \<in> measure (\<lambda>(col, s). length s)"
    using lex_one_ok [of col s c] by (auto simp: turn_ok_def)
qed simp

definition lex :: "bytes \<Rightarrow> sql_error + token list" where
  "lex expr = lex_loop 1 expr"

section \<open>Shape of the token stream\<close>

text \<open>
  A token stream is well formed from a column when it ends in the only EOF, one past the end of
  the text, its columns increase, and every token is well formed.
\<close>

fun stream_ok :: "nat \<Rightarrow> nat \<Rightarrow> token list \<Rightarrow> bool" where
  "stream_ok col end_col [] = False"
| "stream_ok col end_col [t] = (tk_kind t = TEOF \<and> tk_col t = end_col \<and> col \<le> end_col)"
| "stream_ok col end_col (t # u # ts) =
     (tok_ok t \<and> col \<le> tk_col t \<and> stream_ok (tk_col t + 1) end_col (u # ts))"

lemma stream_ok_mono: "stream_ok col e ts \<Longrightarrow> col' \<le> col \<Longrightarrow> stream_ok col' e ts"
  by (cases ts rule: remdups_adj.cases) auto

lemma stream_ok_Cons: "stream_ok col' e ts \<Longrightarrow> tk_col t < col' \<Longrightarrow> tok_ok t \<Longrightarrow> stream_ok (tk_col t) e (t # ts)"
  using stream_ok_mono [of col' e ts "Suc (tk_col t)"] by (cases ts) auto

lemma lex_loop_stream: "lex_loop col s = Inr ts \<Longrightarrow> stream_ok col (col + length s) ts"
proof (induction col s arbitrary: ts rule: lex_loop.induct)
  case (1 col)
  then show ?case by auto
next
  case (2 col c s)
  then obtain t col' rest ts' where one: "lex_one c col s = Inr (t, col', rest)"
    and rec: "lex_loop col' rest = Inr ts'"
    and ts: "ts = (case t of None \<Rightarrow> [] | Some t \<Rightarrow> [t]) @ ts'"
    by (auto split: sum.splits)
  have ok: "turn_ok col (Suc (length s)) (Inr (t, col', rest))"
    using lex_one_ok [of col s c] one by simp
  have IH: "stream_ok col' (col' + length rest) ts'"
    using "2.IH" [OF one refl refl rec] .
  show ?case
  proof (cases t)
    case None
    then show ?thesis using IH ok ts stream_ok_mono [of col' _ ts' col] by (simp add: turn_ok_def)
  next
    case (Some u)
    then show ?thesis
      using IH ok ts stream_ok_Cons [of col' "col' + length rest" ts' u] by (simp add: turn_ok_def)
  qed
qed

theorem lex_stream: "lex expr = Inr ts \<Longrightarrow> stream_ok 1 (length expr + 1) ts"
  unfolding lex_def using lex_loop_stream [of 1 expr ts] by simp

end
