(* ===== verification/Sql_Parse.thy ===== *)
theory Sql_Parse
  imports Sql_Lex
begin

text \<open>
  The parser and the build-time checks of the SQL92 filter language,
  \<^verbatim>\<open>internal/core/deliver/sql92_parse.go\<close>.

  The source's parser holds the token slice, a position that never passes the last token, and
  the depth of open parentheses.  The model threads the tokens that remain (their head is the
  current token) and passes the depth down, since the source restores it on the way back.  The
  mutual recursion carries fuel; \<open>8 * (length tokens + 1)\<close> is always enough
  (\<open>parse_fuel\<close> in \<^verbatim>\<open>Sql_Grammar.thy\<close>), so \<^const>\<open>OutOfFuel\<close> is never returned.

  The grammar it accepts, and the proofs, are in \<^verbatim>\<open>Sql_Grammar.thy\<close>.
\<close>

section \<open>Syntax trees\<close>

datatype sconst = CNum f64 "int option" | CStr bytes | CBool bool | CNull

datatype ast =
    OrNode ast ast
  | AndNode ast ast
  | NotNode ast
  | CmpNode bytes bytes sconst
  | BetweenNode bytes sconst sconst bool
  | InNode bytes "sconst list" bool
  | IsNullNode bytes bool

datatype const_kind = KNum | KStr | KBool | KNull

fun kind_of :: "sconst \<Rightarrow> const_kind" where
  "kind_of (CNum _ _) = KNum"
| "kind_of (CStr _) = KStr"
| "kind_of (CBool _) = KBool"
| "kind_of CNull = KNull"

definition max_expr_bytes :: nat where "max_expr_bytes = 1024"
definition max_ast_depth :: nat where "max_ast_depth = 16"
definition max_in_elems :: nat where "max_in_elems = 64"

section \<open>The token cursor\<close>

text \<open>The source's token slice is never empty; the first equation is out of its reach.\<close>

fun peek :: "token list \<Rightarrow> token" where
  "peek [] = \<lparr>tk_kind = TEOF, tk_text = [], tk_col = 0\<rparr>"
| "peek (t # ts) = t"

fun advance :: "token list \<Rightarrow> token list" where
  "advance (t # u # ts) = u # ts"
| "advance ts = ts"

definition is_kw :: "bytes \<Rightarrow> token \<Rightarrow> bool" where
  "is_kw w t \<longleftrightarrow> tk_kind t = TKeyword \<and> tk_text t = w"

definition syn_err :: "token \<Rightarrow> syn_reason \<Rightarrow> sql_error + 'a" where
  "syn_err t r = Inl (SynErr (tk_col t) r)"

lemma syn_err_neq [simp]: "syn_err t r \<noteq> Inr x" "syn_err t r \<noteq> Inl OutOfFuel"
  by (simp_all add: syn_err_def)

section \<open>Predicates\<close>

definition parse_constant :: "token list \<Rightarrow> sql_error + sconst \<times> token list" where
  "parse_constant ts =
     (let t = peek ts in
      case tk_kind t of
        TNumber \<Rightarrow>
          (case parse_int 64 (tk_text t) of
             Some i \<Rightarrow> Inr (CNum (f64_of_int i) (Some i), advance ts)
           | None \<Rightarrow>
               (case parse_float (tk_text t) of
                  None \<Rightarrow> syn_err t BadNumber
                | Some f \<Rightarrow> Inr (CNum f None, advance ts)))
      | TString \<Rightarrow> Inr (CStr (tk_text t), advance ts)
      | TKeyword \<Rightarrow>
          (if tk_text t = ''TRUE'' then Inr (CBool True, advance ts)
           else if tk_text t = ''FALSE'' then Inr (CBool False, advance ts)
           else if tk_text t = ''NULL'' then Inr (CNull, advance ts)
           else syn_err t ExpectConstant)
      | _ \<Rightarrow> syn_err t ExpectConstant)"

definition flip_op :: "bytes \<Rightarrow> bytes" where
  "flip_op opr =
     (if opr = ''<'' then ''>'' else if opr = ''>'' then ''<''
      else if opr = ''<='' then ''>='' else if opr = ''>='' then ''<='' else opr)"

definition parse_is_null :: "bytes \<Rightarrow> token list \<Rightarrow> sql_error + ast \<times> token list" where
  "parse_is_null ident ts =
     (let ts = advance ts;
          negated = is_kw ''NOT'' (peek ts);
          ts = (if negated then advance ts else ts)
      in if is_kw ''NULL'' (peek ts) then Inr (IsNullNode ident negated, advance ts)
         else syn_err (peek ts) ExpectNull)"

definition parse_between :: "bytes \<Rightarrow> bool \<Rightarrow> token list \<Rightarrow> sql_error + ast \<times> token list" where
  "parse_between ident negated ts =
     ebind (parse_constant ts) (\<lambda>(lo, ts).
       if is_kw ''AND'' (peek ts) then
         ebind (parse_constant (advance ts)) (\<lambda>(hi, ts).
           Inr (BetweenNode ident lo hi negated, ts))
       else syn_err (peek ts) BetweenAnd)"

text \<open>A constant is never the last token, so reading one and a comma consumes.\<close>

lemma parse_constant_SomeD:
  "parse_constant ts = Inr (v, rest) \<Longrightarrow>
     rest = advance ts \<and> tk_kind (peek ts) \<in> {TNumber, TString, TKeyword}"
  by (auto simp: parse_constant_def Let_def split: tok_kind.splits option.splits if_splits)

lemma length_advance: "length (advance ts) \<le> length ts"
  by (cases ts rule: advance.cases) auto

lemma advance_twice:
  "tk_kind (peek (advance ts)) \<noteq> tk_kind (peek ts) \<Longrightarrow> length (advance (advance ts)) < length ts"
  using length_advance [of "tl ts"] by (cases ts rule: advance.cases) auto

function in_loop :: "bytes \<Rightarrow> bool \<Rightarrow> sconst list \<Rightarrow> token list \<Rightarrow> sql_error + ast \<times> token list" where
  "in_loop ident negated vals ts =
     (case parse_constant ts of
        Inl e \<Rightarrow> Inl e
      | Inr (v, rest) \<Rightarrow>
          (if tk_kind (peek rest) = TComma then
             in_loop ident negated (vals @ [v]) (advance rest)
           else if tk_kind (peek rest) = TRParen then
             Inr (InNode ident (vals @ [v]) negated, advance rest)
           else syn_err (peek rest) InSeparator))"
  by pat_completeness auto
termination
proof (relation "measure (\<lambda>(_, _, _, ts). length ts)")
  fix ident negated vals ts r v rest
  assume "parse_constant ts = Inr r" "(v, rest) = r" and c: "tk_kind (peek rest) = TComma"
  then have r: "rest = advance ts" "tk_kind (peek ts) \<in> {TNumber, TString, TKeyword}"
    using parse_constant_SomeD [of ts v rest] by auto
  then show "((ident, negated, vals @ [v], advance rest), ident, negated, vals, ts)
      \<in> measure (\<lambda>(_, _, _, ts). length ts)"
    using advance_twice [of ts] c by auto
qed simp

declare in_loop.simps [simp del]

definition parse_in :: "bytes \<Rightarrow> bool \<Rightarrow> token list \<Rightarrow> sql_error + ast \<times> token list" where
  "parse_in ident negated ts =
     (if tk_kind (peek ts) \<noteq> TLParen then syn_err (peek ts) InParen
      else let ts = advance ts in
        if tk_kind (peek ts) = TRParen then syn_err (peek ts) InEmpty
        else in_loop ident negated [] ts)"

definition parse_not_in_between :: "bytes \<Rightarrow> token list \<Rightarrow> sql_error + ast \<times> token list" where
  "parse_not_in_between ident ts =
     (let ts = advance ts in
      if is_kw ''IN'' (peek ts) then parse_in ident True (advance ts)
      else if is_kw ''BETWEEN'' (peek ts) then parse_between ident True (advance ts)
      else syn_err (peek ts) NotInBetweenOnly)"

definition parse_ident_form :: "token list \<Rightarrow> sql_error + ast \<times> token list" where
  "parse_ident_form ts =
     (let ident = tk_text (peek ts); ts = advance ts; nxt = peek ts in
      if tk_kind nxt = TOp then
        (let ts = advance ts in
         if tk_kind (peek ts) = TIdent then syn_err (peek ts) BothIdents
         else ebind (parse_constant ts) (\<lambda>(v, ts). Inr (CmpNode ident (tk_text nxt) v, ts)))
      else if is_kw ''IS'' nxt then parse_is_null ident ts
      else if is_kw ''NOT'' nxt then parse_not_in_between ident ts
      else if is_kw ''BETWEEN'' nxt then parse_between ident False (advance ts)
      else if is_kw ''IN'' nxt then parse_in ident False (advance ts)
      else syn_err nxt ExpectPredicate)"

definition parse_const_left :: "token list \<Rightarrow> sql_error + ast \<times> token list" where
  "parse_const_left ts =
     ebind (parse_constant ts) (\<lambda>(v, ts).
       let nxt = peek ts in
       if tk_kind nxt = TOp then
         (let ts = advance ts in
          if tk_kind (peek ts) \<noteq> TIdent then syn_err (peek ts) NeedIdent
          else Inr (CmpNode (tk_text (peek ts)) (flip_op (tk_text nxt)) v, advance ts))
       else if is_kw ''IS'' nxt \<or> is_kw ''BETWEEN'' nxt \<or> is_kw ''IN'' nxt then
         syn_err nxt LeftMustBeIdent
       else syn_err nxt ExpectOperator)"

section \<open>Expressions\<close>

function (sequential) parse_or :: "nat \<Rightarrow> nat \<Rightarrow> token list \<Rightarrow> sql_error + ast \<times> token list"
  and or_loop :: "nat \<Rightarrow> nat \<Rightarrow> ast \<Rightarrow> token list \<Rightarrow> sql_error + ast \<times> token list"
  and parse_and :: "nat \<Rightarrow> nat \<Rightarrow> token list \<Rightarrow> sql_error + ast \<times> token list"
  and and_loop :: "nat \<Rightarrow> nat \<Rightarrow> ast \<Rightarrow> token list \<Rightarrow> sql_error + ast \<times> token list"
  and parse_not :: "nat \<Rightarrow> nat \<Rightarrow> token list \<Rightarrow> sql_error + ast \<times> token list"
  and parse_primary :: "nat \<Rightarrow> nat \<Rightarrow> token list \<Rightarrow> sql_error + ast \<times> token list" where
  "parse_or 0 d ts = Inl OutOfFuel"
| "parse_or (Suc n) d ts = ebind (parse_and n d ts) (\<lambda>(l, ts). or_loop n d l ts)"
| "or_loop 0 d l ts = Inl OutOfFuel"
| "or_loop (Suc n) d l ts =
     (if is_kw ''OR'' (peek ts) then
        ebind (parse_and n d (advance ts)) (\<lambda>(r, ts). or_loop n d (OrNode l r) ts)
      else Inr (l, ts))"
| "parse_and 0 d ts = Inl OutOfFuel"
| "parse_and (Suc n) d ts = ebind (parse_not n d ts) (\<lambda>(l, ts). and_loop n d l ts)"
| "and_loop 0 d l ts = Inl OutOfFuel"
| "and_loop (Suc n) d l ts =
     (if is_kw ''AND'' (peek ts) then
        ebind (parse_not n d (advance ts)) (\<lambda>(r, ts). and_loop n d (AndNode l r) ts)
      else Inr (l, ts))"
| "parse_not 0 d ts = Inl OutOfFuel"
| "parse_not (Suc n) d ts =
     (if is_kw ''NOT'' (peek ts) then
        ebind (parse_primary n d (advance ts)) (\<lambda>(a, ts). Inr (NotNode a, ts))
      else parse_primary n d ts)"
| "parse_primary 0 d ts = Inl OutOfFuel"
| "parse_primary (Suc n) d ts =
     (let t = peek ts in
      case tk_kind t of
        TLParen \<Rightarrow>
          (if max_ast_depth \<le> d then syn_err t DepthLimit
           else ebind (parse_or n (d + 1) (advance ts)) (\<lambda>(a, ts).
             if tk_kind (peek ts) = TRParen then Inr (a, advance ts)
             else syn_err (peek ts) ExpectRParen))
      | TIdent \<Rightarrow> parse_ident_form ts
      | TNumber \<Rightarrow> parse_const_left ts
      | TString \<Rightarrow> parse_const_left ts
      | TKeyword \<Rightarrow>
          (if tk_text t = ''TRUE'' \<or> tk_text t = ''FALSE'' then parse_const_left ts
           else syn_err t ExpectPrimary)
      | _ \<Rightarrow> syn_err t ExpectPrimary)"
  by pat_completeness auto
termination
  by (relation "measure (case_sum (case_sum (\<lambda>(n, _). n) (case_sum (\<lambda>(n, _). n) (\<lambda>(n, _). n)))
        (case_sum (\<lambda>(n, _). n) (case_sum (\<lambda>(n, _). n) (\<lambda>(n, _). n))))") auto

definition parse_sql :: "bytes \<Rightarrow> sql_error + ast" where
  "parse_sql expr =
     ebind (lex expr) (\<lambda>toks.
       ebind (parse_or (8 * (length toks + 1)) 0 toks) (\<lambda>(a, rest).
         if tk_kind (peek rest) = TEOF then Inr a else syn_err (peek rest) ExpectEnd))"

section \<open>Build-time checks\<close>

definition is_order_op :: "bytes \<Rightarrow> bool" where
  "is_order_op opr \<longleftrightarrow> opr = ''>'' \<or> opr = ''>='' \<or> opr = ''<'' \<or> opr = ''<=''"

fun validate :: "ast \<Rightarrow> nat \<Rightarrow> sql_error + unit" where
  "validate (OrNode l r) depth =
     (if max_ast_depth < depth then Inl TooDeep
      else ebind (validate l (depth + 1)) (\<lambda>_. validate r (depth + 1)))"
| "validate (AndNode l r) depth =
     (if max_ast_depth < depth then Inl TooDeep
      else ebind (validate l (depth + 1)) (\<lambda>_. validate r (depth + 1)))"
| "validate (NotNode a) depth =
     (if max_ast_depth < depth then Inl TooDeep else validate a (depth + 1))"
| "validate (CmpNode ident opr v) depth =
     (if max_ast_depth < depth then Inl TooDeep
      else if kind_of v = KStr \<and> is_order_op opr then Inl StringOrder
      else if kind_of v = KNull then Inl (NullCompare ident)
      else if kind_of v = KBool \<and> is_order_op opr then Inl BoolOrder
      else Inr ())"
| "validate (InNode ident vals negated) depth =
     (if max_ast_depth < depth then Inl TooDeep
      else if max_in_elems < length vals then Inl (InTooMany (length vals))
      else if \<not> list_all (\<lambda>v. kind_of v = kind_of (hd vals)) (tl vals) then Inl InMixed
      else if list_ex (\<lambda>v. kind_of v = KNull) vals then Inl InNull
      else Inr ())"
| "validate (BetweenNode ident lo hi negated) depth =
     (if max_ast_depth < depth then Inl TooDeep
      else if kind_of lo \<noteq> kind_of hi then Inl BetweenMixed
      else if kind_of lo \<noteq> KNum then Inl BetweenNotNumber
      else Inr ())"
| "validate (IsNullNode ident negated) depth =
     (if max_ast_depth < depth then Inl TooDeep else Inr ())"

definition build_sql_filter :: "bytes \<Rightarrow> sql_error + ast" where
  "build_sql_filter expr =
     (if max_expr_bytes < length expr then Inl (ExprTooLong (length expr))
      else ebind (parse_sql expr) (\<lambda>root. ebind (validate root 1) (\<lambda>_. Inr root)))"

end
