(* ===== verification/Sql_Grammar.thy ===== *)
theory Sql_Grammar
  imports Sql_Parse
begin

text \<open>
  The grammar of the filter language, as the comments of
  \<^verbatim>\<open>internal/core/deliver/sql92_parse.go\<close> give it, is an inductive relation between token
  sequences and syntax trees.  The parser is proved sound and complete for it, never to run out
  of fuel, and what \<open>buildSQLFilter\<close> accepts to be within the language's limits.
\<close>

section \<open>The grammar\<close>

text \<open>
  What a token denotes as a constant, and the token sequences of each non-terminal.  \<open>g_or d ts a\<close>
  says that \<open>ts\<close> is an expression for \<open>a\<close> inside \<open>d\<close> open parentheses.  The tails of OR and
  AND carry the tree read so far, as the comments' repetition brackets do.
\<close>

definition const_tok :: "token \<Rightarrow> sconst \<Rightarrow> bool" where
  "const_tok t v \<longleftrightarrow>
     (tk_kind t = TNumber \<and>
        (case parse_int 64 (tk_text t) of
           Some i \<Rightarrow> v = CNum (f64_of_int i) (Some i)
         | None \<Rightarrow> (\<exists>f. parse_float (tk_text t) = Some f \<and> v = CNum f None))) \<or>
     (tk_kind t = TString \<and> v = CStr (tk_text t)) \<or>
     (is_kw ''TRUE'' t \<and> v = CBool True) \<or> (is_kw ''FALSE'' t \<and> v = CBool False) \<or>
     (is_kw ''NULL'' t \<and> v = CNull)"

inductive g_list :: "token list \<Rightarrow> sconst list \<Rightarrow> bool" where
  last_elem: "const_tok c v \<Longrightarrow> tk_kind r = TRParen \<Longrightarrow> g_list [c, r] [v]"
| more_elems: "const_tok c v \<Longrightarrow> tk_kind m = TComma \<Longrightarrow> g_list ts vs \<Longrightarrow> g_list (c # m # ts) (v # vs)"

inductive g_pred :: "token list \<Rightarrow> ast \<Rightarrow> bool" where
  cmp: "tk_kind i = TIdent \<Longrightarrow> tk_kind q = TOp \<Longrightarrow> const_tok c v \<Longrightarrow>
    g_pred [i, q, c] (CmpNode (tk_text i) (tk_text q) v)"
| cmp_left: "tk_kind i = TIdent \<Longrightarrow> tk_kind q = TOp \<Longrightarrow> const_tok c v \<Longrightarrow> v \<noteq> CNull \<Longrightarrow>
    g_pred [c, q, i] (CmpNode (tk_text i) (flip_op (tk_text q)) v)"
| is_null: "tk_kind i = TIdent \<Longrightarrow> is_kw ''IS'' k \<Longrightarrow> is_kw ''NULL'' z \<Longrightarrow>
    g_pred [i, k, z] (IsNullNode (tk_text i) False)"
| is_not_null: "tk_kind i = TIdent \<Longrightarrow> is_kw ''IS'' k \<Longrightarrow> is_kw ''NOT'' n \<Longrightarrow> is_kw ''NULL'' z \<Longrightarrow>
    g_pred [i, k, n, z] (IsNullNode (tk_text i) True)"
| between: "tk_kind i = TIdent \<Longrightarrow> is_kw ''BETWEEN'' k \<Longrightarrow> const_tok c lo \<Longrightarrow> is_kw ''AND'' a \<Longrightarrow>
    const_tok e hi \<Longrightarrow> g_pred [i, k, c, a, e] (BetweenNode (tk_text i) lo hi False)"
| not_between: "tk_kind i = TIdent \<Longrightarrow> is_kw ''NOT'' n \<Longrightarrow> is_kw ''BETWEEN'' k \<Longrightarrow> const_tok c lo \<Longrightarrow>
    is_kw ''AND'' a \<Longrightarrow> const_tok e hi \<Longrightarrow>
    g_pred [i, n, k, c, a, e] (BetweenNode (tk_text i) lo hi True)"
| in_list: "tk_kind i = TIdent \<Longrightarrow> is_kw ''IN'' k \<Longrightarrow> tk_kind l = TLParen \<Longrightarrow> g_list ts vs \<Longrightarrow>
    g_pred (i # k # l # ts) (InNode (tk_text i) vs False)"
| not_in_list: "tk_kind i = TIdent \<Longrightarrow> is_kw ''NOT'' n \<Longrightarrow> is_kw ''IN'' k \<Longrightarrow> tk_kind l = TLParen \<Longrightarrow>
    g_list ts vs \<Longrightarrow> g_pred (i # n # k # l # ts) (InNode (tk_text i) vs True)"

inductive g_or :: "nat \<Rightarrow> token list \<Rightarrow> ast \<Rightarrow> bool"
  and g_or_tail :: "nat \<Rightarrow> ast \<Rightarrow> token list \<Rightarrow> ast \<Rightarrow> bool"
  and g_and :: "nat \<Rightarrow> token list \<Rightarrow> ast \<Rightarrow> bool"
  and g_and_tail :: "nat \<Rightarrow> ast \<Rightarrow> token list \<Rightarrow> ast \<Rightarrow> bool"
  and g_not :: "nat \<Rightarrow> token list \<Rightarrow> ast \<Rightarrow> bool"
  and g_prim :: "nat \<Rightarrow> token list \<Rightarrow> ast \<Rightarrow> bool" where
  g_or: "g_and d ts l \<Longrightarrow> g_or_tail d l us a \<Longrightarrow> g_or d (ts @ us) a"
| or_end: "g_or_tail d l [] l"
| or_more: "is_kw ''OR'' k \<Longrightarrow> g_and d ts r \<Longrightarrow> g_or_tail d (OrNode l r) us a \<Longrightarrow>
    g_or_tail d l (k # ts @ us) a"
| g_and: "g_not d ts l \<Longrightarrow> g_and_tail d l us a \<Longrightarrow> g_and d (ts @ us) a"
| and_end: "g_and_tail d l [] l"
| and_more: "is_kw ''AND'' k \<Longrightarrow> g_not d ts r \<Longrightarrow> g_and_tail d (AndNode l r) us a \<Longrightarrow>
    g_and_tail d l (k # ts @ us) a"
| g_not: "is_kw ''NOT'' k \<Longrightarrow> g_prim d ts a \<Longrightarrow> g_not d (k # ts) (NotNode a)"
| g_plain: "g_prim d ts a \<Longrightarrow> g_not d ts a"
| g_paren: "tk_kind l = TLParen \<Longrightarrow> d < max_ast_depth \<Longrightarrow> g_or (d + 1) ts a \<Longrightarrow>
    tk_kind r = TRParen \<Longrightarrow> g_prim d (l # ts @ [r]) a"
| g_leaf: "g_pred ts a \<Longrightarrow> g_prim d ts a"

text \<open>The streams the lexer yields: the last token, and no other, is the end of input.\<close>

definition eof_last :: "token list \<Rightarrow> bool" where
  "eof_last ts \<longleftrightarrow> ts \<noteq> [] \<and> tk_kind (last ts) = TEOF \<and> list_all (\<lambda>t. tk_kind t \<noteq> TEOF) (butlast ts)"

lemma eof_last_Cons [simp]:
  "eof_last (t # ts) \<longleftrightarrow> (ts = [] \<and> tk_kind t = TEOF) \<or> (tk_kind t \<noteq> TEOF \<and> eof_last ts)"
  by (cases ts) (auto simp: eof_last_def)

lemma eof_last_Nil [simp]: "\<not> eof_last []"
  by (simp add: eof_last_def)

lemma eof_last_neq: "eof_last ts \<Longrightarrow> ts \<noteq> []"
  by auto

lemma advance_Cons [simp]: "ts \<noteq> [] \<Longrightarrow> advance (t # ts) = ts"
  by (cases ts) auto

lemma eof_last_step:
  "eof_last ts \<Longrightarrow> tk_kind (peek ts) \<noteq> TEOF \<Longrightarrow> ts = peek ts # advance ts \<and> eof_last (advance ts)"
  by (cases ts rule: advance.cases) auto

lemma eof_last_stepE:
  assumes "eof_last ts" "tk_kind (peek ts) \<noteq> TEOF"
  obtains t us where "ts = t # us" "eof_last us" "advance ts = us" "peek ts = t"
  using assms by (cases ts rule: advance.cases) auto

lemma is_kw_kind: "is_kw w t \<Longrightarrow> tk_kind t = TKeyword"
  by (simp add: is_kw_def)

lemma eof_last_kw:
  "eof_last ts \<Longrightarrow> is_kw w (peek ts) \<Longrightarrow> ts = peek ts # advance ts \<and> eof_last (advance ts)"
  using eof_last_step is_kw_kind by fastforce

section \<open>Predicates\<close>

text \<open>
  \<open>consumes P ts r\<close>: a successful result has read a prefix of the tokens that is \<open>P\<close>
  of the tree, and left the end of input in place.
\<close>

definition consumes :: "(token list \<Rightarrow> 'a \<Rightarrow> bool) \<Rightarrow> token list \<Rightarrow> sql_error + 'a \<times> token list \<Rightarrow> bool" where
  "consumes P ts r \<longleftrightarrow>
     (\<forall>a rest. r = Inr (a, rest) \<longrightarrow> (\<exists>u. ts = u @ rest \<and> eof_last rest \<and> P u a))"

lemma consumes_Inl [simp]: "consumes P ts (Inl e)" "consumes P ts (syn_err t r)"
  by (simp_all add: consumes_def)

lemma consumesD: "consumes P ts (Inr (a, rest)) \<Longrightarrow> \<exists>u. ts = u @ rest \<and> eof_last rest \<and> P u a"
  by (simp add: consumes_def)

lemma consumes_bind:
  assumes "consumes P ts m"
    and "\<And>u a rest. ts = u @ rest \<Longrightarrow> eof_last rest \<Longrightarrow> P u a \<Longrightarrow> consumes (\<lambda>v. Q (u @ v)) rest (f (a, rest))"
  shows "consumes Q ts (ebind m f)"
proof (cases m)
  case (Inr p)
  obtain a rest where p: "p = (a, rest)" by (cases p)
  obtain u where u: "ts = u @ rest" "eof_last rest" "P u a"
    using assms(1) consumesD [of P ts a rest] by (auto simp: Inr p)
  show ?thesis
    using assms(2) [OF u] u by (auto simp: Inr p consumes_def)
qed simp

lemma consumes_tok:
  "eof_last ts \<Longrightarrow> tk_kind (peek ts) \<noteq> TEOF \<Longrightarrow>
     consumes (\<lambda>u. P (peek ts # u)) (advance ts) r \<Longrightarrow> consumes P ts r"
  using eof_last_step [of ts] unfolding consumes_def by (metis append_Cons)

lemma consumes_Cons: "consumes (\<lambda>u. P (t # u)) us r \<Longrightarrow> consumes P (t # us) r"
  unfolding consumes_def by (metis append_Cons)

lemma consumes_kw:
  "eof_last ts \<Longrightarrow> is_kw w (peek ts) \<Longrightarrow>
     consumes (\<lambda>u. P (peek ts # u)) (advance ts) r \<Longrightarrow> consumes P ts r"
  by (rule consumes_tok) (auto simp: is_kw_kind)

lemma consumes_Inr: "eof_last ts \<Longrightarrow> P [] a \<Longrightarrow> consumes P ts (Inr (a, ts))"
  by (simp add: consumes_def)

lemma consumes_mono: "consumes P ts r \<Longrightarrow> (\<And>u a. P u a \<Longrightarrow> Q u a) \<Longrightarrow> consumes Q ts r"
  unfolding consumes_def by blast

lemma const_tok_parse: "ts \<noteq> [] \<Longrightarrow> const_tok c v \<Longrightarrow> parse_constant (c # ts) = Inr (v, ts)"
  by (auto simp: const_tok_def parse_constant_def is_kw_def split: option.splits)

lemma parse_constant_consumes:
  assumes "eof_last ts"
  shows "consumes (\<lambda>u v. \<exists>c. u = [c] \<and> const_tok c v) ts (parse_constant ts)"
proof -
  { fix v rest assume p: "parse_constant ts = Inr (v, rest)"
    have a: "rest = advance ts" "tk_kind (peek ts) \<in> {TNumber, TString, TKeyword}"
      using parse_constant_SomeD [OF p] by auto
    have t: "ts = peek ts # rest" "eof_last rest"
      using eof_last_step [OF assms] a by auto
    have "const_tok (peek ts) v"
      using p by (auto simp: const_tok_def parse_constant_def is_kw_def Let_def
          split: option.splits tok_kind.splits if_splits)
    then have "\<exists>u. ts = u @ rest \<and> eof_last rest \<and> (\<exists>c. u = [c] \<and> const_tok c v)"
      using t by (metis append_Cons append_Nil) }
  then show ?thesis by (auto simp: consumes_def)
qed

lemma between_consumes:
  assumes "eof_last ts"
  shows "consumes (\<lambda>u a. \<exists>c k e lo hi. u = [c, k, e] \<and> const_tok c lo \<and> is_kw ''AND'' k \<and>
           const_tok e hi \<and> a = BetweenNode ident lo hi neg) ts (parse_between ident neg ts)"
  unfolding parse_between_def
proof (rule consumes_bind [OF parse_constant_consumes [OF assms]], clarsimp)
  fix c lo rest
  assume r: "eof_last rest" "const_tok c lo" and k: "is_kw ''AND'' (peek rest)"
  have a: "eof_last (advance rest)" using eof_last_kw [OF r(1) k] by simp
  show "consumes (\<lambda>v a. \<exists>k e. v = [k, e] \<and> (\<exists>lo. const_tok c lo \<and> is_kw ''AND'' k \<and>
          (\<exists>hi. const_tok e hi \<and> a = BetweenNode ident lo hi neg))) rest
        (ebind (parse_constant (advance rest)) (\<lambda>(hi, ts). Inr (BetweenNode ident lo hi neg, ts)))"
    by (rule consumes_kw [OF r(1) k], rule consumes_bind [OF parse_constant_consumes])
      (use a r k in \<open>auto intro!: consumes_Inr\<close>)
qed

lemma in_loop_consumes:
  "eof_last ts \<Longrightarrow> consumes (\<lambda>u a. \<exists>vs. g_list u vs \<and> a = InNode ident (vals @ vs) neg) ts
     (in_loop ident neg vals ts)"
proof (induction ident neg vals ts rule: in_loop.induct)
  case (1 ident neg vals ts)
  show ?case
  proof (cases "parse_constant ts")
    case (Inl e)
    then show ?thesis by (simp add: in_loop.simps)
  next
    case (Inr p)
    obtain v rest where p: "p = (v, rest)" by (cases p)
    obtain c where c: "ts = c # rest" "eof_last rest" "const_tok c v"
      using consumesD [of _ ts v rest] parse_constant_consumes [OF "1.prems"] by (fastforce simp: Inr p)
    consider (comma) "tk_kind (peek rest) = TComma" | (paren) "tk_kind (peek rest) = TRParen"
      | (other) "tk_kind (peek rest) \<noteq> TComma" "tk_kind (peek rest) \<noteq> TRParen" by auto
    then show ?thesis
    proof cases
      case comma
      obtain m us where m: "rest = m # us" "eof_last us" "advance rest = us" "peek rest = m"
        using eof_last_stepE [OF c(2)] comma by auto
      have IH: "consumes (\<lambda>u a. \<exists>vs. g_list u vs \<and> a = InNode ident ((vals @ [v]) @ vs) neg)
          us (in_loop ident neg (vals @ [v]) us)"
        using "1.IH" [of p v rest] Inr p comma m by simp
      have "consumes (\<lambda>u a. \<exists>vs. g_list (c # m # u) vs \<and> a = InNode ident (vals @ vs) neg)
          us (in_loop ident neg (vals @ [v]) us)"
        by (rule consumes_mono [OF IH]) (use more_elems [OF c(3)] comma m in force)
      then have "consumes (\<lambda>u a. \<exists>vs. g_list u vs \<and> a = InNode ident (vals @ vs) neg) (c # m # us)
          (in_loop ident neg (vals @ [v]) us)"
        by (auto simp: consumes_def)
      then show ?thesis
        unfolding in_loop.simps [of ident neg vals ts] using c m comma Inr p by simp
    next
      case paren
      obtain m us where m: "rest = m # us" "eof_last us" "advance rest = us" "peek rest = m"
        using eof_last_stepE [OF c(2)] paren by auto
      show ?thesis
        unfolding in_loop.simps [of ident neg vals ts] consumes_def
        using c m paren Inr p last_elem [OF c(3), of m] by (auto intro!: exI [of _ "[c, m]"])
    next
      case other
      then show ?thesis using Inr p by (simp add: in_loop.simps)
    qed
  qed
qed

lemma in_consumes:
  assumes "eof_last ts"
  shows "consumes (\<lambda>u a. \<exists>l us vs. u = l # us \<and> tk_kind l = TLParen \<and> g_list us vs \<and>
           a = InNode ident vs neg) ts (parse_in ident neg ts)"
proof (cases "tk_kind (peek ts) = TLParen")
  case True
  have a: "eof_last (advance ts)"
    using eof_last_step [OF assms] True by auto
  have l: "consumes (\<lambda>u a. \<exists>vs. g_list u vs \<and> a = InNode ident ([] @ vs) neg) (advance ts)
      (in_loop ident neg [] (advance ts))" by (rule in_loop_consumes [OF a])
  show ?thesis
    by (rule consumes_tok [OF assms])
      (use True in \<open>auto simp: parse_in_def Let_def intro!: consumes_mono [OF l]\<close>)
qed (simp add: parse_in_def)

lemma kw_neq: "is_kw w t \<Longrightarrow> is_kw w' t \<longleftrightarrow> w' = w"
  by (auto simp: is_kw_def)

lemma null_consumes:
  assumes "eof_last ts" "\<And>z. is_kw ''NULL'' z \<Longrightarrow> P [z] a"
  shows "consumes P ts (if is_kw ''NULL'' (peek ts) then Inr (a, advance ts)
           else syn_err (peek ts) ExpectNull)"
proof (cases "is_kw ''NULL'' (peek ts)")
  case True
  obtain z us where z: "ts = z # us" "eof_last us" "advance ts = us" "peek ts = z"
    using eof_last_stepE [OF assms(1)] is_kw_kind [OF True] by auto
  show ?thesis
    using z True assms(2) [of z] by (auto simp: consumes_def)
qed simp

lemma is_null_consumes:
  assumes i: "tk_kind i = TIdent" and ts: "eof_last ts" "is_kw ''IS'' (peek ts)"
  shows "consumes (\<lambda>u a. g_pred (i # u) a) ts (parse_is_null (tk_text i) ts)"
proof -
  obtain k us where k: "ts = k # us" "eof_last us" "advance ts = us" "peek ts = k"
    using eof_last_stepE [OF ts(1)] is_kw_kind [OF ts(2)] by auto
  have K: "is_kw ''IS'' k" using ts k by simp
  show ?thesis
  proof (cases "is_kw ''NOT'' (peek us)")
    case True
    obtain n vs where n: "us = n # vs" "eof_last vs" "advance us = vs" "peek us = n"
      using eof_last_stepE [OF k(2)] is_kw_kind [OF True] by auto
    have N: "is_kw ''NOT'' n" using True n by simp
    show ?thesis
      using null_consumes [of vs "\<lambda>u. g_pred (i # k # n # u)", OF n(2) is_not_null [OF i K N]]
        n k True by (auto simp: parse_is_null_def Let_def intro!: consumes_Cons)
  next
    case False
    show ?thesis
      using null_consumes [of us "\<lambda>u. g_pred (i # k # u)", OF k(2) is_null [OF i K]]
        k False by (auto simp: parse_is_null_def Let_def intro!: consumes_Cons)
  qed
qed

lemma ident_form_consumes:
  assumes ts: "eof_last ts" and i: "tk_kind (peek ts) = TIdent"
  shows "consumes g_pred ts (parse_ident_form ts)"
proof -
  obtain t us where t: "ts = t # us" "eof_last us" "advance ts = us" "peek ts = t"
    using eof_last_stepE [OF ts] i by auto
  have T: "tk_kind t = TIdent" using i t by simp
  let ?P = "\<lambda>u a. g_pred (t # u) a"
  have "consumes ?P us (parse_ident_form ts)"
  proof (cases "tk_kind (peek us) = TOp")
    case True
    obtain q vs where q: "us = q # vs" "eof_last vs" "advance us = vs" "peek us = q"
      using eof_last_stepE [OF t(2)] True by auto
    have "consumes (\<lambda>v. g_pred (t # q # v)) vs
        (ebind (parse_constant vs) (\<lambda>(v, ts). Inr (CmpNode (tk_text t) (tk_text q) v, ts)))"
      by (rule consumes_bind [OF parse_constant_consumes [OF q(2)]])
        (use True T q cmp in \<open>auto intro!: consumes_Inr\<close>)
    then show ?thesis
      using t q True by (auto simp: parse_ident_form_def Let_def intro: consumes_Cons)
  next
    case op_no: False
    consider (isk) "is_kw ''IS'' (peek us)" | (notk) "is_kw ''NOT'' (peek us)"
      | (betw) "is_kw ''BETWEEN'' (peek us)" | (ink) "is_kw ''IN'' (peek us)"
      | (other) "\<not> is_kw ''IS'' (peek us)" "\<not> is_kw ''NOT'' (peek us)"
        "\<not> is_kw ''BETWEEN'' (peek us)" "\<not> is_kw ''IN'' (peek us)" by blast
    then show ?thesis
    proof cases
      case isk
      then show ?thesis
        using is_null_consumes [OF T t(2) isk] op_no t by (simp add: parse_ident_form_def Let_def)
    next
      case notk
      obtain n vs where n: "us = n # vs" "eof_last vs" "advance us = vs" "peek us = n"
        using eof_last_stepE [OF t(2)] is_kw_kind [OF notk] by auto
      have N: "is_kw ''NOT'' n" using notk n by simp
      have form: "parse_ident_form ts = parse_not_in_between (tk_text t) us"
        using op_no t notk kw_neq [OF notk] by (simp add: parse_ident_form_def Let_def)
      consider (ink) "is_kw ''IN'' (peek vs)" | (betw) "is_kw ''BETWEEN'' (peek vs)"
        | (other) "\<not> is_kw ''IN'' (peek vs)" "\<not> is_kw ''BETWEEN'' (peek vs)" by blast
      then have "consumes (\<lambda>u. g_pred (t # n # u)) vs (parse_not_in_between (tk_text t) us)"
      proof cases
        case ink
        then show ?thesis
          using n eof_last_kw [OF n(2) ink]
          by (auto simp: parse_not_in_between_def Let_def intro!: consumes_kw [OF n(2) ink]
              consumes_mono [OF in_consumes] not_in_list T N)
      next
        case betw
        then show ?thesis
          using n eof_last_kw [OF n(2) betw] kw_neq [OF betw]
          by (auto simp: parse_not_in_between_def Let_def intro!: consumes_kw [OF n(2) betw]
              consumes_mono [OF between_consumes] not_between T N)
      qed (use n in \<open>simp add: parse_not_in_between_def Let_def\<close>)
      then show ?thesis
        using consumes_tok [OF t(2)] n is_kw_kind [OF N] by (auto simp: form)
    next
      case betw
      then show ?thesis
        using t op_no eof_last_kw [OF t(2) betw] kw_neq [OF betw]
        by (auto simp: parse_ident_form_def Let_def intro!: consumes_kw [OF t(2) betw]
            consumes_mono [OF between_consumes] between T)
    next
      case ink
      then show ?thesis
        using t op_no eof_last_kw [OF t(2) ink] kw_neq [OF ink]
        by (auto simp: parse_ident_form_def Let_def intro!: consumes_kw [OF t(2) ink]
            consumes_mono [OF in_consumes] in_list T)
    qed (use t op_no in \<open>simp add: parse_ident_form_def Let_def\<close>)
  qed
  then show ?thesis
    using consumes_tok [OF ts, of g_pred] t T by simp
qed

lemma const_left_consumes:
  assumes ts: "eof_last ts"
    and k: "tk_kind (peek ts) \<in> {TNumber, TString} \<or> is_kw ''TRUE'' (peek ts) \<or> is_kw ''FALSE'' (peek ts)"
  shows "consumes g_pred ts (parse_const_left ts)"
  unfolding parse_const_left_def
proof (rule consumes_bind [OF parse_constant_consumes [OF ts]])
  fix u v rest
  assume u: "ts = u @ rest" "eof_last rest" "\<exists>c. u = [c] \<and> const_tok c v"
  then obtain c where c: "u = [c]" "const_tok c v" by blast
  have nn: "v \<noteq> CNull"
    using k c u by (auto simp: const_tok_def is_kw_def split: option.splits)
  show "consumes (\<lambda>w. g_pred (u @ w)) rest
      (case (v, rest) of (v, ts) \<Rightarrow> let nxt = peek ts in
       if tk_kind nxt = TOp then
         (let ts = advance ts in
          if tk_kind (peek ts) \<noteq> TIdent then syn_err (peek ts) NeedIdent
          else Inr (CmpNode (tk_text (peek ts)) (flip_op (tk_text nxt)) v, advance ts))
       else if is_kw ''IS'' nxt \<or> is_kw ''BETWEEN'' nxt \<or> is_kw ''IN'' nxt then
         syn_err nxt LeftMustBeIdent
       else syn_err nxt ExpectOperator)"
  proof (cases "tk_kind (peek rest) = TOp \<and> tk_kind (peek (advance rest)) = TIdent")
    case True
    obtain q vs where q: "rest = q # vs" "eof_last vs" "advance rest = vs" "peek rest = q"
      using eof_last_stepE [OF u(2)] True by auto
    obtain i ws where i: "vs = i # ws" "eof_last ws" "advance vs = ws" "peek vs = i"
      using eof_last_stepE [OF q(2)] True q by auto
    show ?thesis
      using cmp_left [of i q c v] True c nn q i by (auto simp: consumes_def Let_def)
  qed (auto simp: Let_def)
qed

section \<open>Soundness\<close>

lemma parse_sound:
  shows "eof_last ts \<Longrightarrow> consumes (g_or d) ts (parse_or n d ts)"
    and "eof_last ts \<Longrightarrow> consumes (g_or_tail d l) ts (or_loop n d l ts)"
    and "eof_last ts \<Longrightarrow> consumes (g_and d) ts (parse_and n d ts)"
    and "eof_last ts \<Longrightarrow> consumes (g_and_tail d l) ts (and_loop n d l ts)"
    and "eof_last ts \<Longrightarrow> consumes (g_not d) ts (parse_not n d ts)"
    and "eof_last ts \<Longrightarrow> consumes (g_prim d) ts (parse_primary n d ts)"
proof (induction n d ts and n d l ts and n d ts and n d l ts and n d ts and n d ts
    rule: parse_or_or_loop_parse_and_and_loop_parse_not_parse_primary.induct)
  case (2 n d ts)
  show ?case
    by simp (rule consumes_bind [OF "2.IH"(1) [OF "2.prems"]],
      use "2.IH"(2) in \<open>auto intro: consumes_mono g_or\<close>)
next
  case (4 n d l ts)
  show ?case
  proof (cases "is_kw ''OR'' (peek ts)")
    case True
    obtain k us where k: "ts = k # us" "eof_last us" "advance ts = us" "peek ts = k"
      using eof_last_stepE [OF "4.prems"] is_kw_kind [OF True] by auto
    have "consumes (\<lambda>u. g_or_tail d l (k # u)) us
        (ebind (parse_and n d us) (\<lambda>(r, ts). or_loop n d (OrNode l r) ts))"
      by (rule consumes_bind [of "g_and d"], use "4.IH"(1) [OF True] k in simp)
        (use "4.IH"(2) [OF True] True k in \<open>auto intro: consumes_mono or_more\<close>)
    then show ?thesis
      using True k by (auto intro: consumes_Cons)
  qed (use "4.prems" in \<open>auto intro: consumes_Inr or_end\<close>)
next
  case (6 n d ts)
  show ?case
    by simp (rule consumes_bind [OF "6.IH"(1) [OF "6.prems"]],
      use "6.IH"(2) in \<open>auto intro: consumes_mono g_and\<close>)
next
  case (8 n d l ts)
  show ?case
  proof (cases "is_kw ''AND'' (peek ts)")
    case True
    obtain k us where k: "ts = k # us" "eof_last us" "advance ts = us" "peek ts = k"
      using eof_last_stepE [OF "8.prems"] is_kw_kind [OF True] by auto
    have "consumes (\<lambda>u. g_and_tail d l (k # u)) us
        (ebind (parse_not n d us) (\<lambda>(r, ts). and_loop n d (AndNode l r) ts))"
      by (rule consumes_bind [of "g_not d"], use "8.IH"(1) [OF True] k in simp)
        (use "8.IH"(2) [OF True] True k in \<open>auto intro: consumes_mono and_more\<close>)
    then show ?thesis
      using True k by (auto intro: consumes_Cons)
  qed (use "8.prems" in \<open>auto intro: consumes_Inr and_end\<close>)
next
  case (10 n d ts)
  show ?case
  proof (cases "is_kw ''NOT'' (peek ts)")
    case True
    obtain k us where k: "ts = k # us" "eof_last us" "advance ts = us" "peek ts = k"
      using eof_last_stepE [OF "10.prems"] is_kw_kind [OF True] by auto
    have "consumes (\<lambda>u. g_not d (k # u)) us
        (ebind (parse_primary n d us) (\<lambda>(a, ts). Inr (NotNode a, ts)))"
      by (rule consumes_bind [of "g_prim d"], use "10.IH"(1) [OF True] k in simp)
        (use True k in \<open>auto intro!: consumes_Inr g_not\<close>)
    then show ?thesis
      using True k by (auto intro: consumes_Cons)
  qed (use "10.IH"(2) "10.prems" in \<open>auto intro: consumes_mono g_plain\<close>)
next
  case (12 n d ts)
  show ?case
  proof (cases "tk_kind (peek ts)")
    case TLParen
    obtain k us where k: "ts = k # us" "eof_last us" "advance ts = us" "peek ts = k"
      using eof_last_stepE [OF "12.prems"] TLParen by auto
    have "consumes (\<lambda>u. g_prim d (k # u)) us (ebind (parse_or n (d + 1) us) (\<lambda>(a, ts).
         if tk_kind (peek ts) = TRParen then Inr (a, advance ts)
         else syn_err (peek ts) ExpectRParen))" if "d < max_ast_depth"
    proof (rule consumes_bind [of "g_or (d + 1)"])
      show "consumes (g_or (d + 1)) us (parse_or n (d + 1) us)"
        using "12.IH" [OF refl TLParen] that k by simp
    next
      fix u a rest assume u: "us = u @ rest" "eof_last rest" "g_or (d + 1) u a"
      show "consumes (\<lambda>v. g_prim d (k # u @ v)) rest
         (case (a, rest) of (a, ts) \<Rightarrow> if tk_kind (peek ts) = TRParen then Inr (a, advance ts)
           else syn_err (peek ts) ExpectRParen)"
      proof (cases "tk_kind (peek rest) = TRParen")
        case True
        obtain m ws where m: "rest = m # ws" "eof_last ws" "advance rest = ws" "peek rest = m"
          using eof_last_stepE [OF u(2)] True by auto
        show ?thesis
          using g_paren [of k d u a m] TLParen True that u m k by (auto simp: consumes_def)
      qed simp
    qed
    then show ?thesis
      using k TLParen by (auto simp: Let_def intro: consumes_Cons)
  qed (use "12.prems" const_left_consumes [OF "12.prems"] ident_form_consumes [OF "12.prems"] in
      \<open>auto simp: is_kw_def Let_def intro: consumes_mono g_leaf\<close>)
qed simp_all

section \<open>Fuel\<close>

lemma leaf_fuel [simp]:
  "parse_constant ts \<noteq> Inl OutOfFuel"
  "parse_is_null i ts \<noteq> Inl OutOfFuel"
  by (auto simp: parse_constant_def parse_is_null_def Let_def
      split: tok_kind.splits option.splits)

lemma between_fuel [simp]: "parse_between i neg ts \<noteq> Inl OutOfFuel"
  by (auto simp: parse_between_def ebind_Inl split: prod.splits)

lemma in_loop_fuel [simp]: "in_loop i neg vals ts \<noteq> Inl OutOfFuel"
proof (induction i neg vals ts rule: in_loop.induct)
  case (1 i neg vals ts)
  show ?case
    unfolding in_loop.simps [of i neg vals ts] using 1 by (auto split: sum.splits)
qed

lemma form_fuel [simp]:
  "parse_in i neg ts \<noteq> Inl OutOfFuel"
  "parse_not_in_between i ts \<noteq> Inl OutOfFuel"
  "parse_ident_form ts \<noteq> Inl OutOfFuel"
  "parse_const_left ts \<noteq> Inl OutOfFuel"
proof -
  show a: "parse_in i neg ts \<noteq> Inl OutOfFuel" for i neg ts
    by (simp add: parse_in_def Let_def)
  show b: "parse_not_in_between i ts \<noteq> Inl OutOfFuel" for i ts
    by (simp add: parse_not_in_between_def Let_def a)
  show "parse_ident_form ts \<noteq> Inl OutOfFuel"
    by (simp add: parse_ident_form_def Let_def a b ebind_Inl)
  show "parse_const_left ts \<noteq> Inl OutOfFuel"
    by (auto simp: parse_const_left_def Let_def ebind_Inl)
qed

lemma g_nonempty:
  shows "g_or d u a \<Longrightarrow> u \<noteq> []" and "g_or_tail d l u a \<Longrightarrow> True"
    and "g_and d u a \<Longrightarrow> u \<noteq> []" and "g_and_tail d l u a \<Longrightarrow> True"
    and "g_not d u a \<Longrightarrow> u \<noteq> []" and "g_prim d u a \<Longrightarrow> u \<noteq> []"
  by (induction rule: g_or_g_or_tail_g_and_g_and_tail_g_not_g_prim.inducts) (auto elim: g_pred.cases)

lemma and_shorter: "parse_and n d ts = Inr (a, rest) \<Longrightarrow> eof_last ts \<Longrightarrow> length rest < length ts \<and> eof_last rest"
  using parse_sound(3) [of ts d n] g_nonempty(3) by (auto dest!: consumesD)

lemma not_shorter: "parse_not n d ts = Inr (a, rest) \<Longrightarrow> eof_last ts \<Longrightarrow> length rest < length ts \<and> eof_last rest"
  using parse_sound(5) [of ts d n] g_nonempty(5) by (auto dest!: consumesD)

lemma advance_shorter:
  "eof_last ts \<Longrightarrow> tk_kind (peek ts) \<noteq> TEOF \<Longrightarrow> Suc (length (advance ts)) = length ts \<and> eof_last (advance ts)"
  by (erule (1) eof_last_stepE) simp

lemma parse_fuel:
  shows "eof_last ts \<Longrightarrow> 8 * length ts + 4 \<le> n \<Longrightarrow> parse_or n d ts \<noteq> Inl OutOfFuel"
    and "eof_last ts \<Longrightarrow> 8 * length ts + 1 \<le> n \<Longrightarrow> or_loop n d l ts \<noteq> Inl OutOfFuel"
    and "eof_last ts \<Longrightarrow> 8 * length ts + 3 \<le> n \<Longrightarrow> parse_and n d ts \<noteq> Inl OutOfFuel"
    and "eof_last ts \<Longrightarrow> 8 * length ts + 1 \<le> n \<Longrightarrow> and_loop n d l ts \<noteq> Inl OutOfFuel"
    and "eof_last ts \<Longrightarrow> 8 * length ts + 2 \<le> n \<Longrightarrow> parse_not n d ts \<noteq> Inl OutOfFuel"
    and "eof_last ts \<Longrightarrow> 8 * length ts + 1 \<le> n \<Longrightarrow> parse_primary n d ts \<noteq> Inl OutOfFuel"
proof (induction n d ts and n d l ts and n d ts and n d l ts and n d ts and n d ts
    rule: parse_or_or_loop_parse_and_and_loop_parse_not_parse_primary.induct)
  case (2 n d ts)
  then show ?case
    using and_shorter [of n d ts] by (auto simp: ebind_Inl)
next
  case (4 n d l ts)
  then show ?case
    using and_shorter [of n d "advance ts"] advance_shorter [of ts]
    by (auto simp: ebind_Inl is_kw_kind)
next
  case (6 n d ts)
  then show ?case
    using not_shorter [of n d ts] by (auto simp: ebind_Inl)
next
  case (8 n d l ts)
  then show ?case
    using not_shorter [of n d "advance ts"] advance_shorter [of ts]
    by (auto simp: ebind_Inl is_kw_kind)
next
  case (10 n d ts)
  then show ?case
    using advance_shorter [of ts] by (auto simp: ebind_Inl is_kw_kind)
next
  case (12 n d ts)
  then show ?case
    using advance_shorter [of ts] by (auto simp: ebind_Inl Let_def split: tok_kind.split)
qed simp_all

section \<open>Completeness\<close>

lemma const_tok_kind:
  "const_tok c v \<Longrightarrow> tk_kind c = TNumber \<or> tk_kind c = TString \<or>
     (tk_kind c = TKeyword \<and> tk_text c \<in> {''TRUE'', ''FALSE'', ''NULL''})"
  by (auto simp: const_tok_def is_kw_def)

lemma in_loop_complete:
  "g_list u vs \<Longrightarrow> rest \<noteq> [] \<Longrightarrow>
     in_loop i neg vals (u @ rest) = Inr (InNode i (vals @ vs) neg, rest)"
proof (induction arbitrary: vals rule: g_list.induct)
  case (last_elem c v r)
  show ?case
    using last_elem const_tok_parse [of "r # rest" c v] by (subst in_loop.simps) simp
next
  case (more_elems c v m ts vs)
  have ne: "ts \<noteq> []" using more_elems(3) by (auto elim: g_list.cases)
  show ?case
    using more_elems ne const_tok_parse [of "m # ts @ rest" c v] by (subst in_loop.simps) simp
qed

lemma g_list_head: "g_list u vs \<Longrightarrow> u \<noteq> [] \<and> tk_kind (hd u) \<noteq> TRParen"
  by (cases rule: g_list.cases) (auto dest: const_tok_kind)

lemma in_complete:
  assumes "g_list u vs" "rest \<noteq> []" "tk_kind l = TLParen"
  shows "parse_in i neg (l # u @ rest) = Inr (InNode i vs neg, rest)"
  using in_loop_complete [OF assms(1,2), of i neg "[]"] g_list_head [OF assms(1)] assms
  by (cases u) (auto simp: parse_in_def Let_def)

lemma between_complete:
  assumes "const_tok c lo" "is_kw ''AND'' k" "const_tok e hi" "rest \<noteq> []"
  shows "parse_between i neg (c # k # e # rest) = Inr (BetweenNode i lo hi neg, rest)"
  using assms const_tok_parse [of "k # e # rest" c lo] const_tok_parse [of rest e hi]
  by (simp add: parse_between_def)

lemma pred_complete:
  assumes "g_pred u a" "rest \<noteq> []"
  shows "parse_primary (Suc n) d (u @ rest) = Inr (a, rest)"
  using assms
proof (cases rule: g_pred.cases)
  case (cmp i q c v)
  then show ?thesis
    using const_tok_parse [of rest c v] assms(2) const_tok_kind [of c v]
    by (auto simp: parse_ident_form_def Let_def)
next
  case (cmp_left i q c v)
  have k: "tk_kind c = TNumber \<or> tk_kind c = TString \<or>
      (tk_kind c = TKeyword \<and> tk_text c \<in> {''TRUE'', ''FALSE''})"
    using cmp_left by (auto simp: const_tok_def is_kw_def)
  have "parse_const_left (c # q # i # rest) = Inr (a, rest)"
    using cmp_left assms(2) const_tok_parse [of "q # i # rest" c v]
    by (simp add: parse_const_left_def Let_def)
  then show ?thesis
    using k cmp_left by (auto simp: Let_def)
next
  case (is_null i k z)
  then show ?thesis
    using assms(2) by (simp add: parse_ident_form_def parse_is_null_def Let_def is_kw_def)
next
  case (is_not_null i k n z)
  then show ?thesis
    using assms(2) by (simp add: parse_ident_form_def parse_is_null_def Let_def is_kw_def)
next
  case (between i k c lo k' e hi)
  then show ?thesis
    using assms(2) between_complete [of c lo k' e hi rest "tk_text i" False]
    by (simp add: parse_ident_form_def Let_def is_kw_def)
next
  case (not_between i n k c lo k' e hi)
  then show ?thesis
    using assms(2) between_complete [of c lo k' e hi rest "tk_text i" True]
    by (simp add: parse_ident_form_def parse_not_in_between_def Let_def is_kw_def)
next
  case (in_list i k l ts vs)
  then show ?thesis
    using assms(2) in_complete [of ts vs rest l "tk_text i" False]
    by (simp add: parse_ident_form_def Let_def is_kw_def)
next
  case (not_in_list i n k l ts vs)
  then show ?thesis
    using assms(2) in_complete [of ts vs rest l "tk_text i" True]
    by (simp add: parse_ident_form_def parse_not_in_between_def Let_def is_kw_def)
qed

lemma g_pred_head: "g_pred u a \<Longrightarrow> u \<noteq> [] \<and> \<not> is_kw ''NOT'' (hd u)"
  by (cases rule: g_pred.cases) (auto simp: is_kw_def dest: const_tok_kind)

lemma peek_append: "peek (u @ rest) = (if u = [] then peek rest else hd u)"
  by (cases u) auto

lemma g_prim_head: "g_prim d u a \<Longrightarrow> \<not> is_kw ''NOT'' (peek (u @ rest))"
  by (cases rule: g_prim.cases) (auto simp: peek_append is_kw_def dest!: g_pred_head)

lemma g_tail_head:
  "g_or_tail d l u a \<Longrightarrow> u = [] \<or> is_kw ''OR'' (hd u)"
  "g_and_tail d l u a \<Longrightarrow> u = [] \<or> is_kw ''AND'' (hd u)"
  by (auto elim: g_or_tail.cases g_and_tail.cases)

lemma parse_complete:
  shows "g_or d u a \<Longrightarrow> rest \<noteq> [] \<Longrightarrow> \<not> is_kw ''OR'' (peek rest) \<Longrightarrow> \<not> is_kw ''AND'' (peek rest) \<Longrightarrow>
      8 * length u + 4 \<le> n \<Longrightarrow> parse_or n d (u @ rest) = Inr (a, rest)"
    and "g_or_tail d l u a \<Longrightarrow> rest \<noteq> [] \<Longrightarrow> \<not> is_kw ''OR'' (peek rest) \<Longrightarrow>
      \<not> is_kw ''AND'' (peek rest) \<Longrightarrow>
      8 * length u + 1 \<le> n \<Longrightarrow> or_loop n d l (u @ rest) = Inr (a, rest)"
    and "g_and d u a \<Longrightarrow> rest \<noteq> [] \<Longrightarrow> \<not> is_kw ''AND'' (peek rest) \<Longrightarrow>
      8 * length u + 3 \<le> n \<Longrightarrow> parse_and n d (u @ rest) = Inr (a, rest)"
    and "g_and_tail d l u a \<Longrightarrow> rest \<noteq> [] \<Longrightarrow> \<not> is_kw ''AND'' (peek rest) \<Longrightarrow>
      8 * length u + 1 \<le> n \<Longrightarrow> and_loop n d l (u @ rest) = Inr (a, rest)"
    and "g_not d u a \<Longrightarrow> rest \<noteq> [] \<Longrightarrow>
      8 * length u + 2 \<le> n \<Longrightarrow> parse_not n d (u @ rest) = Inr (a, rest)"
    and "g_prim d u a \<Longrightarrow> rest \<noteq> [] \<Longrightarrow>
      8 * length u + 1 \<le> n \<Longrightarrow> parse_primary n d (u @ rest) = Inr (a, rest)"
proof (induction arbitrary: n rest and n rest and n rest and n rest and n rest and n rest
    rule: g_or_g_or_tail_g_and_g_and_tail_g_not_g_prim.inducts)
  case (g_or d ts l us a)
  obtain m where n: "n = Suc m" using g_or.prems by (cases n) auto
  have "\<not> is_kw ''AND'' (peek (us @ rest))"
    using g_tail_head(1) [OF g_or.hyps(2)] g_or.prems by (auto simp: peek_append kw_neq)
  then show ?case
    using g_or.IH g_or.prems n by simp
next
  case (or_end d l)
  then show ?case by (cases n) auto
next
  case (or_more k d ts r l us a)
  obtain m where n: "n = Suc m" using or_more.prems by (cases n) auto
  have "\<not> is_kw ''AND'' (peek (us @ rest))"
    using g_tail_head(1) [OF or_more.hyps(3)] or_more.prems by (auto simp: peek_append kw_neq)
  then show ?case
    using or_more.IH or_more.prems or_more.hyps n by simp
next
  case (g_and d ts l us a)
  obtain m where n: "n = Suc m" using g_and.prems by (cases n) auto
  show ?case
    using g_and.IH g_and.prems n by simp
next
  case (and_end d l)
  then show ?case by (cases n) auto
next
  case (and_more k d ts r l us a)
  obtain m where n: "n = Suc m" using and_more.prems by (cases n) auto
  show ?case
    using and_more.IH and_more.prems and_more.hyps n by simp
next
  case (g_not k d ts a)
  obtain m where n: "n = Suc m" using g_not.prems by (cases n) auto
  show ?case
    using g_not.IH g_not.prems g_not.hyps n by simp
next
  case (g_plain d ts a)
  obtain m where n: "n = Suc m" using g_plain.prems by (cases n) auto
  show ?case
    using g_plain.IH g_plain.prems g_prim_head [OF g_plain.hyps] n by simp
next
  case (g_paren l d ts a r)
  obtain m where n: "n = Suc m" using g_paren.prems by (cases n) auto
  have "parse_or m (d + 1) (ts @ r # rest) = Inr (a, r # rest)"
    using g_paren.prems g_paren.hyps n by (intro g_paren.IH) (auto simp: is_kw_def)
  then show ?case
    using g_paren.prems g_paren.hyps n by simp
next
  case (g_leaf u a d)
  obtain m where n: "n = Suc m" using g_leaf.prems by (cases n) auto
  show ?case unfolding n by (rule pred_complete [OF g_leaf.hyps g_leaf.prems(1)])
qed

section \<open>The parser against the grammar\<close>

lemma stream_eof_last: "stream_ok c e ts \<Longrightarrow> eof_last ts"
proof (induction c e ts rule: stream_ok.induct)
  case (3 col e t u ts)
  then show ?case by (simp add: tok_ok_def)
qed auto

lemma lex_eof_last: "lex expr = Inr ts \<Longrightarrow> eof_last ts"
  using lex_stream stream_eof_last by blast

lemma eof_last_snoc: "eof_last ts \<Longrightarrow> \<exists>us e. ts = us @ [e] \<and> tk_kind e = TEOF"
  by (metis append_butlast_last_id eof_last_def)

lemma lex_fuel: "lex expr \<noteq> Inl OutOfFuel"
proof -
  have sub: "lex_number c col s \<noteq> Inl OutOfFuel" "lex_word c col s \<noteq> Inl OutOfFuel"
    "lex_rel c col s \<noteq> Inl OutOfFuel" for c col s
    by (simp_all add: lex_number_def lex_word_def lex_rel_def tok_at_def Let_def split: list.split)
  have str: "(case scan_string s of None \<Rightarrow> Inl (LexUnclosed col)
         | Some (t, n, r) \<Rightarrow> tok_at TString t col (1 + n) r) \<noteq> Inl OutOfFuel" for col s
    by (simp add: tok_at_def split: option.split)
  have minus: "(case s of d # _ \<Rightarrow> if is_digit d then lex_number c col s else Inl (LexChar col c)
         | [] \<Rightarrow> Inl (LexChar col c)) \<noteq> Inl OutOfFuel" for c col s
    by (simp add: sub split: list.split)
  have bang: "(case s of d # _ \<Rightarrow> if d = CHR ''='' then Inl (LexBangEq col) else Inl (LexChar col c)
         | [] \<Rightarrow> Inl (LexChar col c)) \<noteq> Inl OutOfFuel" for c col s
    by (simp split: list.split)
  have one: "lex_one c col s \<noteq> Inl OutOfFuel" for c col s
    unfolding lex_one_def using sub str minus bang by (cases s) (simp_all add: tok_at_def)
  have "lex_loop col s \<noteq> Inl OutOfFuel" for col s
  proof (induction col s rule: lex_loop.induct)
    case (2 col c s)
    show ?case
    proof (cases "lex_one c col s")
      case (Inr r)
      obtain t col' rest where r: "r = (t, col', rest)" by (cases r)
      then show ?thesis using "2.IH" [OF Inr, of t "(col', rest)"] Inr by (auto split: sum.splits)
    qed (use one [of c col s] in auto)
  qed simp
  then show ?thesis by (simp add: lex_def)
qed

lemma parse_sql_fuel: "parse_sql expr \<noteq> Inl OutOfFuel"
  using lex_fuel [of expr] parse_fuel(1) lex_eof_last [of expr]
  by (auto simp: parse_sql_def ebind_Inl)

lemma parse_sql_grammar:
  "parse_sql expr = Inr a \<longleftrightarrow> (\<exists>ts e. lex expr = Inr (ts @ [e]) \<and> g_or 0 ts a)"
proof
  assume "parse_sql expr = Inr a"
  then obtain ts rest where l: "lex expr = Inr ts"
    and p: "parse_or (8 * (length ts + 1)) 0 ts = Inr (a, rest)" and e: "tk_kind (peek rest) = TEOF"
    by (auto simp: parse_sql_def ebind_Inr split: if_splits)
  obtain u where u: "ts = u @ rest" "eof_last rest" "g_or 0 u a"
    using parse_sound(1) [OF lex_eof_last [OF l]] p consumesD by metis
  then have "rest = [peek rest]" using e by (cases rest) auto
  then show "\<exists>ts e. lex expr = Inr (ts @ [e]) \<and> g_or 0 ts a" using u l by metis
next
  assume "\<exists>ts e. lex expr = Inr (ts @ [e]) \<and> g_or 0 ts a"
  then obtain ts e where l: "lex expr = Inr (ts @ [e])" and g: "g_or 0 ts a" by blast
  have e: "tk_kind e = TEOF" using lex_eof_last [OF l] by (simp add: eof_last_def)
  have "parse_or (8 * (length (ts @ [e]) + 1)) 0 (ts @ [e]) = Inr (a, [e])"
    using e by (intro parse_complete(1) [OF g]) (auto simp: is_kw_def)
  then show "parse_sql expr = Inr a" using l e by (simp add: parse_sql_def)
qed

section \<open>What a built filter satisfies\<close>

fun ast_depth :: "ast \<Rightarrow> nat" where
  "ast_depth (OrNode l r) = Suc (max (ast_depth l) (ast_depth r))"
| "ast_depth (AndNode l r) = Suc (max (ast_depth l) (ast_depth r))"
| "ast_depth (NotNode a) = Suc (ast_depth a)"
| "ast_depth _ = 1"

fun well_typed :: "ast \<Rightarrow> bool" where
  "well_typed (OrNode l r) = (well_typed l \<and> well_typed r)"
| "well_typed (AndNode l r) = (well_typed l \<and> well_typed r)"
| "well_typed (NotNode a) = well_typed a"
| "well_typed (CmpNode i opr v) =
     (kind_of v \<noteq> KNull \<and> (is_order_op opr \<longrightarrow> kind_of v = KNum))"
| "well_typed (InNode i vs neg) =
     (length vs \<le> max_in_elems \<and> (\<exists>k. k \<noteq> KNull \<and> list_all (\<lambda>v. kind_of v = k) vs))"
| "well_typed (BetweenNode i lo hi neg) = (kind_of lo = KNum \<and> kind_of hi = KNum)"
| "well_typed (IsNullNode i neg) = True"

lemma same_kind_iff:
  "list_all (\<lambda>v. kind_of v = kind_of (hd vs)) (tl vs) \<and> \<not> list_ex (\<lambda>v. kind_of v = KNull) vs \<longleftrightarrow>
     (\<exists>k. k \<noteq> KNull \<and> list_all (\<lambda>v. kind_of v = k) vs)"
  by (cases vs) (auto simp: list_all_iff list_ex_iff intro: exI [of _ KNum])

lemma validate_iff:
  "validate a d = Inr () \<longleftrightarrow> ast_depth a + d \<le> Suc max_ast_depth \<and> well_typed a"
proof (induction a arbitrary: d)
  case (CmpNode i opr v)
  then show ?case by (cases v) auto
next
  case (InNode i vs neg)
  then show ?case by (auto simp: same_kind_iff [symmetric])
qed (auto simp: ebind_Inr)

lemma build_sql_filter_iff:
  "build_sql_filter expr = Inr a \<longleftrightarrow>
     length expr \<le> max_expr_bytes \<and> parse_sql expr = Inr a \<and> ast_depth a \<le> max_ast_depth \<and> well_typed a"
  by (auto simp: build_sql_filter_def ebind_Inr validate_iff)

section \<open>Properties\<close>

text \<open>C35: the recursive descent parser accepts exactly the language of the grammar in its comments
  (OR below AND below NOT, at most sixteen open parentheses), and returns the grammar's tree.\<close>

theorem parser_accepts_grammar:
  "parse_sql expr = Inr a \<longleftrightarrow> (\<exists>ts e. lex expr = Inr (ts @ [e]) \<and> g_or 0 ts a)"
  by (rule parse_sql_grammar)

text \<open>Parsing terminates: the fuel of the mutual recursion is never used up, whatever the
  expression.\<close>

theorem parser_terminates: "parse_sql expr \<noteq> Inl OutOfFuel"
  by (rule parse_sql_fuel)

text \<open>C37: a filter is built exactly for an expression within the length limit that parses to a
  tree within the depth limit whose constants fit their operators: no comparison with NULL, no
  order on strings or booleans, IN lists of one type and bounded length, numeric BETWEEN.\<close>

theorem built_filters_exact:
  "build_sql_filter expr = Inr a \<longleftrightarrow>
     length expr \<le> max_expr_bytes \<and> parse_sql expr = Inr a \<and> ast_depth a \<le> max_ast_depth \<and> well_typed a"
  by (rule build_sql_filter_iff)

end
