(* ===== verification/Sql_Eval.thy ===== *)
theory Sql_Eval
  imports Sql_Grammar
begin

text \<open>
  Evaluation of subscription filters, \<^verbatim>\<open>internal/core/deliver/filter.go\<close> and
  \<^verbatim>\<open>sql92_eval.go\<close>: SQL's three truth values, the interpretation of an attribute by the
  type of the constant it meets, and the TAG filter.  The lemmas are the laws of the three
  valued connectives, the expansions of BETWEEN and IN, and what an absent attribute can and
  cannot decide.
\<close>

datatype result = RTrue | RFalse | RUnknown

definition and3 :: "result \<Rightarrow> result \<Rightarrow> result" where
  "and3 a b =
     (if a = RFalse \<or> b = RFalse then RFalse
      else if a = RTrue \<and> b = RTrue then RTrue else RUnknown)"

definition or3 :: "result \<Rightarrow> result \<Rightarrow> result" where
  "or3 a b =
     (if a = RTrue \<or> b = RTrue then RTrue
      else if a = RFalse \<and> b = RFalse then RFalse else RUnknown)"

fun not3 :: "result \<Rightarrow> result" where
  "not3 RTrue = RFalse"
| "not3 RFalse = RTrue"
| "not3 RUnknown = RUnknown"

definition of_bool3 :: "bool \<Rightarrow> result" where
  "of_bool3 b = (if b then RTrue else RFalse)"

text \<open>\<open>TAGS\<close> is the tag, absent when empty; it hides a user property of that name.\<close>

definition lookup_prop :: "message \<Rightarrow> bytes \<Rightarrow> bytes option" where
  "lookup_prop m ident =
     (if ident = ''TAGS'' then (if m_tag m = [] then None else Some (m_tag m))
      else kv_get (m_props m) ident)"

definition cmp_int :: "bytes \<Rightarrow> int \<Rightarrow> int \<Rightarrow> result" where
  "cmp_int opr lhs rhs =
     (if opr = ''='' then of_bool3 (lhs = rhs)
      else if opr = ''<>'' then of_bool3 (lhs \<noteq> rhs)
      else if opr = ''>'' then of_bool3 (lhs > rhs)
      else if opr = ''>='' then of_bool3 (lhs \<ge> rhs)
      else if opr = ''<'' then of_bool3 (lhs < rhs)
      else if opr = ''<='' then of_bool3 (lhs \<le> rhs)
      else RFalse)"

definition cmp_float :: "bytes \<Rightarrow> f64 \<Rightarrow> f64 \<Rightarrow> result" where
  "cmp_float opr lhs rhs =
     (if opr = ''='' then of_bool3 (f_eq lhs rhs)
      else if opr = ''<>'' then of_bool3 (\<not> f_eq lhs rhs)
      else if opr = ''>'' then of_bool3 (f_less rhs lhs)
      else if opr = ''>='' then of_bool3 (f_less rhs lhs \<or> f_eq lhs rhs)
      else if opr = ''<'' then of_bool3 (f_less lhs rhs)
      else if opr = ''<='' then of_bool3 (f_less lhs rhs \<or> f_eq lhs rhs)
      else RFalse)"

definition num_float_cmp :: "bytes \<Rightarrow> f64 \<Rightarrow> bytes \<Rightarrow> result" where
  "num_float_cmp opr f prop =
     (case parse_float prop of None \<Rightarrow> RUnknown | Some pv \<Rightarrow> cmp_float opr pv f)"

text \<open>The integer stage is tried first, so that integers above \<open>2^53\<close> compare exactly.\<close>

definition eval_num_cmp :: "bytes \<Rightarrow> f64 \<Rightarrow> int option \<Rightarrow> bytes \<Rightarrow> result" where
  "eval_num_cmp opr f i prop =
     (case i of
        Some c \<Rightarrow>
          (case parse_int 64 prop of Some p \<Rightarrow> cmp_int opr p c | None \<Rightarrow> num_float_cmp opr f prop)
      | None \<Rightarrow> num_float_cmp opr f prop)"

definition bool_of :: "bytes \<Rightarrow> bool option" where
  "bool_of prop =
     (if equal_fold prop ''true'' then Some True
      else if equal_fold prop ''false'' then Some False else None)"

definition eval_cmp :: "bytes \<Rightarrow> bytes \<Rightarrow> sconst \<Rightarrow> message \<Rightarrow> result" where
  "eval_cmp ident opr v m =
     (case lookup_prop m ident of
        None \<Rightarrow> RUnknown
      | Some prop \<Rightarrow>
          (case v of
             CStr s \<Rightarrow> of_bool3 ((s = prop) = (opr = ''=''))
           | CBool c \<Rightarrow>
               (case bool_of prop of
                  None \<Rightarrow> RUnknown
                | Some b \<Rightarrow>
                    if opr = ''='' then of_bool3 (b = c)
                    else if opr = ''<>'' then of_bool3 (b \<noteq> c) else RUnknown)
           | CNum f i \<Rightarrow> eval_num_cmp opr f i prop
           | CNull \<Rightarrow> RUnknown))"

fun num_cmp_const :: "bytes \<Rightarrow> sconst \<Rightarrow> bytes \<Rightarrow> result" where
  "num_cmp_const opr (CNum f i) prop = eval_num_cmp opr f i prop"
| "num_cmp_const opr v prop = num_float_cmp opr (FFin 0 0) prop"

text \<open>
  The bounds are numbers after \<open>validate\<close>; the source reads their numeric fields without
  asking the upper one's kind, and those of another kind are the zero value.
\<close>

definition eval_between :: "bytes \<Rightarrow> sconst \<Rightarrow> sconst \<Rightarrow> bool \<Rightarrow> message \<Rightarrow> result" where
  "eval_between ident lo hi negated m =
     (if kind_of lo \<noteq> KNum then RUnknown
      else case lookup_prop m ident of
        None \<Rightarrow> RUnknown
      | Some prop \<Rightarrow>
          let r = and3 (num_cmp_const ''>='' lo prop) (num_cmp_const ''<='' hi prop)
          in if negated then not3 r else r)"

definition eval_in :: "bytes \<Rightarrow> sconst list \<Rightarrow> bool \<Rightarrow> message \<Rightarrow> result" where
  "eval_in ident vals negated m =
     (let res = foldl (\<lambda>res v. or3 res (eval_cmp ident ''='' v m)) RFalse vals
      in if negated then not3 res else res)"

fun eval_node :: "ast \<Rightarrow> message \<Rightarrow> result" where
  "eval_node (OrNode l r) m = or3 (eval_node l m) (eval_node r m)"
| "eval_node (AndNode l r) m = and3 (eval_node l m) (eval_node r m)"
| "eval_node (NotNode a) m = not3 (eval_node a m)"
| "eval_node (CmpNode ident opr v) m = eval_cmp ident opr v m"
| "eval_node (BetweenNode ident lo hi neg) m = eval_between ident lo hi neg m"
| "eval_node (InNode ident vals neg) m = eval_in ident vals neg m"
| "eval_node (IsNullNode ident neg) m =
     (let r = (if lookup_prop m ident \<noteq> None then RFalse else RTrue)
      in if neg then not3 r else r)"

section \<open>Filters\<close>

datatype filt = AllPass | TagFilter "bytes list" | SQLFilter ast

definition filter_tag :: nat where "filter_tag = 0"
definition filter_sql92 :: nat where "filter_sql92 = 1"

fun tag_loop :: "bytes \<Rightarrow> bytes list \<Rightarrow> bytes list \<Rightarrow> sql_error + filt" where
  "tag_loop expr [] tags = Inr (TagFilter tags)"
| "tag_loop expr (tok # toks) tags =
     (let t = trim_space tok in
      if t = [] then Inl (TagEmpty expr) else tag_loop expr toks (List.insert t tags))"

definition parse_tag_filter :: "bytes \<Rightarrow> sql_error + filt" where
  "parse_tag_filter expr = tag_loop expr (split_bars [] expr) []"

definition parse_filter :: "nat \<Rightarrow> bytes \<Rightarrow> sql_error + filt" where
  "parse_filter kind expr =
     (if kind = filter_tag then
        (if trim_space expr = [] \<or> trim_space expr = ''*'' then Inr AllPass
         else parse_tag_filter expr)
      else if kind = filter_sql92 then ebind (build_sql_filter expr) (\<lambda>a. Inr (SQLFilter a))
      else Inl (UnknownKind kind))"

fun filter_match :: "filt \<Rightarrow> message \<Rightarrow> result" where
  "filter_match AllPass m = RTrue"
| "filter_match (TagFilter tags) m = of_bool3 (m_tag m \<in> set tags)"
| "filter_match (SQLFilter a) m = eval_node a m"

section \<open>Laws of the connectives\<close>

lemma of_bool3_simps [simp]:
  "of_bool3 b = RTrue \<longleftrightarrow> b" "of_bool3 b = RFalse \<longleftrightarrow> \<not> b" "of_bool3 b \<noteq> RUnknown"
  by (simp_all add: of_bool3_def)

lemma not3_of_bool3 [simp]: "not3 (of_bool3 b) = of_bool3 (\<not> b)"
  by (simp add: of_bool3_def)

lemma not3_simps [simp]:
  "not3 a = RTrue \<longleftrightarrow> a = RFalse" "not3 a = RFalse \<longleftrightarrow> a = RTrue"
  "not3 a = RUnknown \<longleftrightarrow> a = RUnknown" "not3 (not3 a) = a"
  by (cases a; simp)+

lemma and3_simps [simp]:
  "and3 a b = RTrue \<longleftrightarrow> a = RTrue \<and> b = RTrue" "and3 a b = RFalse \<longleftrightarrow> a = RFalse \<or> b = RFalse"
  by (auto simp: and3_def)

lemma or3_simps [simp]:
  "or3 a b = RTrue \<longleftrightarrow> a = RTrue \<or> b = RTrue" "or3 a b = RFalse \<longleftrightarrow> a = RFalse \<and> b = RFalse"
  by (auto simp: or3_def)

lemma result_eqI: "(a = RTrue \<longleftrightarrow> b = RTrue) \<Longrightarrow> (a = RFalse \<longleftrightarrow> b = RFalse) \<Longrightarrow> a = b"
  by (cases a; cases b) auto

lemma de_morgan3:
  "not3 (and3 a b) = or3 (not3 a) (not3 b)" "not3 (or3 a b) = and3 (not3 a) (not3 b)"
  by (rule result_eqI; auto)+

lemma or3_RFalse [simp]: "or3 RFalse a = a" "or3 a RFalse = a"
  by (rule result_eqI; auto)+

lemma or3_assoc: "or3 (or3 a b) c = or3 a (or3 b c)"
  by (rule result_eqI) auto

text \<open>Information order: a value can only be refined from unknown.\<close>

definition refines :: "result \<Rightarrow> result \<Rightarrow> bool" where
  "refines a b \<longleftrightarrow> a = RUnknown \<or> a = b"

lemma refines_refl [simp]: "refines a a" "refines RUnknown a"
  by (simp_all add: refines_def)

lemma refines_connectives:
  "refines a a' \<Longrightarrow> refines b b' \<Longrightarrow> refines (and3 a b) (and3 a' b')"
  "refines a a' \<Longrightarrow> refines b b' \<Longrightarrow> refines (or3 a b) (or3 a' b')"
  "refines a a' \<Longrightarrow> refines (not3 a) (not3 a')"
  by (auto simp: refines_def and3_def or3_def)

section \<open>Expansions\<close>

text \<open>BETWEEN and IN, and their negations, written with the connectives and comparisons.\<close>

definition neg_if :: "bool \<Rightarrow> ast \<Rightarrow> ast" where
  "neg_if neg a = (if neg then NotNode a else a)"

fun expand :: "ast \<Rightarrow> ast" where
  "expand (OrNode l r) = OrNode (expand l) (expand r)"
| "expand (AndNode l r) = AndNode (expand l) (expand r)"
| "expand (NotNode a) = NotNode (expand a)"
| "expand (BetweenNode i lo hi neg) =
     neg_if neg (AndNode (CmpNode i ''>='' lo) (CmpNode i ''<='' hi))"
| "expand (InNode i (v # vs) neg) =
     neg_if neg (foldl (\<lambda>a w. OrNode a (CmpNode i ''='' w)) (CmpNode i ''='' v) vs)"
| "expand a = a"

lemma eval_neg_if: "eval_node (neg_if neg a) m = (if neg then not3 (eval_node a m) else eval_node a m)"
  by (simp add: neg_if_def)

lemma eval_between_cmp:
  "kind_of lo = KNum \<Longrightarrow> kind_of hi = KNum \<Longrightarrow>
     eval_between i lo hi neg m =
       (let r = and3 (eval_cmp i ''>='' lo m) (eval_cmp i ''<='' hi m) in if neg then not3 r else r)"
  by (cases lo; cases hi) (auto simp: eval_between_def eval_cmp_def Let_def and3_def split: option.split)

lemma eval_in_fold:
  "eval_node (foldl (\<lambda>a w. OrNode a (CmpNode i ''='' w)) a vs) m =
     foldl (\<lambda>res v. or3 res (eval_cmp i ''='' v m)) (eval_node a m) vs"
  by (induction vs arbitrary: a) auto

lemma eval_expand:
  "well_typed a \<Longrightarrow> eval_node (expand a) m = eval_node a m"
proof (induction a rule: expand.induct)
  case (5 i v vs neg)
  show ?case
    by (simp add: eval_neg_if eval_in_def Let_def eval_in_fold)
qed (auto simp: eval_neg_if eval_between_cmp Let_def)

section \<open>IN as a set\<close>

lemma in_fold_true:
  "foldl (\<lambda>res v. or3 res (f v)) a vs = RTrue \<longleftrightarrow> a = RTrue \<or> (\<exists>v \<in> set vs. f v = RTrue)"
  by (induction vs arbitrary: a) auto

lemma in_fold_false:
  "foldl (\<lambda>res v. or3 res (f v)) a vs = RFalse \<longleftrightarrow> a = RFalse \<and> (\<forall>v \<in> set vs. f v = RFalse)"
  by (induction vs arbitrary: a) auto

section \<open>Absent attributes\<close>

fun idents :: "ast \<Rightarrow> bytes set" where
  "idents (OrNode l r) = idents l \<union> idents r"
| "idents (AndNode l r) = idents l \<union> idents r"
| "idents (NotNode a) = idents a"
| "idents (CmpNode i opr v) = {i}"
| "idents (BetweenNode i lo hi neg) = {i}"
| "idents (InNode i vs neg) = {i}"
| "idents (IsNullNode i neg) = {i}"

fun no_null_test :: "ast \<Rightarrow> bool" where
  "no_null_test (OrNode l r) = (no_null_test l \<and> no_null_test r)"
| "no_null_test (AndNode l r) = (no_null_test l \<and> no_null_test r)"
| "no_null_test (NotNode a) = no_null_test a"
| "no_null_test (IsNullNode i neg) = False"
| "no_null_test a = True"

fun in_nonempty :: "ast \<Rightarrow> bool" where
  "in_nonempty (OrNode l r) = (in_nonempty l \<and> in_nonempty r)"
| "in_nonempty (AndNode l r) = (in_nonempty l \<and> in_nonempty r)"
| "in_nonempty (NotNode a) = in_nonempty a"
| "in_nonempty (InNode i vs neg) = (vs \<noteq> [])"
| "in_nonempty a = True"

lemma unknown3 [simp]: "and3 RUnknown RUnknown = RUnknown" "or3 RUnknown RUnknown = RUnknown"
  by (simp_all add: and3_def or3_def)

lemma eval_absent:
  "no_null_test a \<Longrightarrow> in_nonempty a \<Longrightarrow> \<forall>i \<in> idents a. lookup_prop m i = None \<Longrightarrow>
     eval_node a m = RUnknown"
proof (induction a)
  case (InNode i vs neg)
  have "foldl (\<lambda>res v. or3 res (eval_cmp i ''='' v m)) RUnknown ws = RUnknown" for ws
    using InNode.prems by (induction ws) (auto simp: eval_cmp_def)
  then show ?case
    using InNode.prems by (cases vs) (auto simp: eval_in_def eval_cmp_def)
qed (auto simp: eval_cmp_def eval_between_def)

lemma eval_monotone:
  "no_null_test a \<Longrightarrow> \<forall>i \<in> idents a. \<forall>v. lookup_prop m i = Some v \<longrightarrow> lookup_prop m' i = Some v \<Longrightarrow>
     refines (eval_node a m) (eval_node a m')"
proof (induction a)
  case (CmpNode i opr v)
  then show ?case by (cases "lookup_prop m i") (auto simp: eval_cmp_def)
next
  case (BetweenNode i lo hi neg)
  then show ?case by (cases "lookup_prop m i") (auto simp: eval_between_def)
next
  case (InNode i vs neg)
  have one: "refines (eval_cmp i ''='' v m) (eval_cmp i ''='' v m')" for v
    using InNode.prems by (cases "lookup_prop m i") (auto simp: eval_cmp_def)
  have "refines (foldl (\<lambda>res v. or3 res (eval_cmp i ''='' v m)) x vs)
      (foldl (\<lambda>res v. or3 res (eval_cmp i ''='' v m')) y vs)" if "refines x y" for x y
    using that by (induction vs arbitrary: x y) (auto intro: refines_connectives(2) one)
  then show ?case
    using InNode.prems by (auto simp: eval_in_def Let_def intro: refines_connectives)
qed (auto intro: refines_connectives)

section \<open>Interpretable attributes\<close>

text \<open>An attribute that can be read at the type of a constant.\<close>

fun readable :: "bytes \<Rightarrow> sconst \<Rightarrow> bool" where
  "readable prop (CStr s) = True"
| "readable prop (CBool b) = (bool_of prop \<noteq> None)"
| "readable prop (CNum f i) = (parse_float prop \<noteq> None \<or> (i \<noteq> None \<and> parse_int 64 prop \<noteq> None))"
| "readable prop CNull = False"

fun decidable :: "ast \<Rightarrow> message \<Rightarrow> bool" where
  "decidable (OrNode l r) m = (decidable l m \<and> decidable r m)"
| "decidable (AndNode l r) m = (decidable l m \<and> decidable r m)"
| "decidable (NotNode a) m = decidable a m"
| "decidable (CmpNode i opr v) m = (\<exists>p. lookup_prop m i = Some p \<and> readable p v)"
| "decidable (BetweenNode i lo hi neg) m =
     (\<exists>p. lookup_prop m i = Some p \<and> readable p lo \<and> readable p hi)"
| "decidable (InNode i vs neg) m =
     (\<exists>p. lookup_prop m i = Some p \<and> (\<forall>v \<in> set vs. readable p v))"
| "decidable (IsNullNode i neg) m = True"

lemma cmp_int_known [simp]: "cmp_int opr l r \<noteq> RUnknown"
  by (simp add: cmp_int_def)

lemma cmp_float_known [simp]: "cmp_float opr l r \<noteq> RUnknown"
  by (simp add: cmp_float_def)

lemma eval_num_known: "readable p (CNum f i) \<Longrightarrow> eval_num_cmp opr f i p \<noteq> RUnknown"
  by (auto simp: eval_num_cmp_def num_float_cmp_def split: option.split)

lemma eval_cmp_known:
  "lookup_prop m i = Some p \<Longrightarrow> readable p v \<Longrightarrow> is_order_op opr \<longrightarrow> kind_of v = KNum \<Longrightarrow>
     opr \<in> set sql_ops \<Longrightarrow> eval_cmp i opr v m \<noteq> RUnknown"
  by (cases v) (auto simp: eval_cmp_def is_order_op_def sql_ops_def eval_num_known)

lemma and3_known: "and3 a b = RUnknown \<Longrightarrow> a = RUnknown \<or> b = RUnknown"
  by (auto simp: and3_def split: if_splits) (metis result.exhaust)+

lemma or3_known: "or3 a b = RUnknown \<Longrightarrow> a = RUnknown \<or> b = RUnknown"
  by (auto simp: or3_def split: if_splits) (metis result.exhaust)+

fun ops_ok :: "ast \<Rightarrow> bool" where
  "ops_ok (OrNode l r) = (ops_ok l \<and> ops_ok r)"
| "ops_ok (AndNode l r) = (ops_ok l \<and> ops_ok r)"
| "ops_ok (NotNode a) = ops_ok a"
| "ops_ok (CmpNode i opr v) = (opr \<in> set sql_ops)"
| "ops_ok a = True"

lemma eval_decidable:
  "well_typed a \<Longrightarrow> ops_ok a \<Longrightarrow> decidable a m \<Longrightarrow> eval_node a m \<noteq> RUnknown"
proof (induction a)
  case (CmpNode i opr v)
  then show ?case using eval_cmp_known by auto
next
  case (BetweenNode i lo hi neg)
  then show ?case
    using eval_cmp_known [of m i _ lo "''>=''"] eval_cmp_known [of m i _ hi "''<=''"]
    by (auto simp: eval_between_cmp Let_def sql_ops_def dest!: and3_known)
next
  case (InNode i vs neg)
  then obtain p where p: "lookup_prop m i = Some p" "\<forall>v \<in> set vs. readable p v" by auto
  have "foldl (\<lambda>res v. or3 res (eval_cmp i ''='' v m)) x vs \<noteq> RUnknown" if "x \<noteq> RUnknown" for x
    using that p(2) eval_cmp_known [OF p(1), of _ "''=''"]
    by (induction vs arbitrary: x) (auto simp: is_order_op_def sql_ops_def dest: or3_known)
  then show ?case by (auto simp: eval_in_def Let_def)
qed (auto dest: and3_known or3_known)

section \<open>Exact integers\<close>

lemma eval_int_exact:
  assumes "lookup_prop m i = Some (fmt_int p)" "- (2 ^ 63) \<le> p" "p < 2 ^ 63"
  shows "eval_cmp i opr (CNum f (Some c)) m = cmp_int opr p c"
  using assms parse_int_fmt [of 64 p] by (simp add: eval_cmp_def eval_num_cmp_def)

section \<open>The TAG filter\<close>

lemma tag_loop_spec:
  "tag_loop expr toks tags = Inr f \<longleftrightarrow>
     [] \<notin> trim_space ` set toks \<and> f = TagFilter (foldl (\<lambda>ts t. List.insert (trim_space t) ts) tags toks)"
  by (induction toks arbitrary: tags) (auto simp: Let_def)

lemma foldl_insert_set:
  "set (foldl (\<lambda>ts t. List.insert (g t) ts) tags toks) = set tags \<union> g ` set toks"
  by (induction toks arbitrary: tags) auto

lemma tag_filter_match:
  "parse_tag_filter expr = Inr f \<Longrightarrow>
     filter_match f m = of_bool3 (m_tag m \<in> trim_space ` set (split_bars [] expr))"
  by (auto simp: parse_tag_filter_def tag_loop_spec foldl_insert_set)

section \<open>What the parser guarantees the evaluator\<close>

lemma flip_op_ops: "opr \<in> set sql_ops \<Longrightarrow> flip_op opr \<in> set sql_ops"
  by (auto simp: sql_ops_def flip_op_def)

lemma g_list_nonempty: "g_list u vs \<Longrightarrow> vs \<noteq> []"
  by (cases rule: g_list.cases) auto

lemma g_pred_ops:
  "g_pred u a \<Longrightarrow> list_all tok_ok u \<Longrightarrow> ops_ok a \<and> in_nonempty a"
  by (cases rule: g_pred.cases) (auto simp: flip_op_ops tok_ok_def dest: g_list_nonempty)

lemma g_ops:
  shows "g_or d u a \<Longrightarrow> list_all tok_ok u \<Longrightarrow> ops_ok a \<and> in_nonempty a"
    and "g_or_tail d l u a \<Longrightarrow> list_all tok_ok u \<Longrightarrow> ops_ok l \<and> in_nonempty l \<Longrightarrow> ops_ok a \<and> in_nonempty a"
    and "g_and d u a \<Longrightarrow> list_all tok_ok u \<Longrightarrow> ops_ok a \<and> in_nonempty a"
    and "g_and_tail d l u a \<Longrightarrow> list_all tok_ok u \<Longrightarrow> ops_ok l \<and> in_nonempty l \<Longrightarrow> ops_ok a \<and> in_nonempty a"
    and "g_not d u a \<Longrightarrow> list_all tok_ok u \<Longrightarrow> ops_ok a \<and> in_nonempty a"
    and "g_prim d u a \<Longrightarrow> list_all tok_ok u \<Longrightarrow> ops_ok a \<and> in_nonempty a"
  by (induction rule: g_or_g_or_tail_g_and_g_and_tail_g_not_g_prim.inducts) (simp_all add: g_pred_ops)

lemma stream_toks_ok: "stream_ok c e (ts @ [t]) \<Longrightarrow> list_all tok_ok ts"
proof (induction ts arbitrary: c)
  case (Cons u ts)
  then show ?case by (cases ts) auto
qed simp

lemma build_ops:
  assumes "build_sql_filter expr = Inr a"
  shows "well_typed a \<and> ops_ok a \<and> in_nonempty a"
proof -
  obtain ts e where l: "lex expr = Inr (ts @ [e])" and g: "g_or 0 ts a"
    using assms parse_sql_grammar by (auto simp: build_sql_filter_iff)
  then show ?thesis
    using g_ops(1) [OF g] stream_toks_ok [OF lex_stream [OF l]] assms
    by (simp add: build_sql_filter_iff)
qed

section \<open>Properties\<close>

text \<open>BETWEEN, IN and their negated forms mean, in all three truth values and on every message,
  what their expansions into comparisons, AND, OR and NOT mean.\<close>

theorem between_in_expand:
  assumes "build_sql_filter expr = Inr a"
  shows "filter_match (SQLFilter (expand a)) m = filter_match (SQLFilter a) m"
  using eval_expand build_ops [OF assms] by simp

theorem between_in_expand_witness:
  "filter_match (SQLFilter (expand (InNode ''a'' [CStr ''x'', CStr ''y''] True)))
     (message0\<lparr>m_props := [(''a'', ''z'')]\<rparr>) =
   filter_match (SQLFilter (InNode ''a'' [CStr ''x'', CStr ''y''] True)) (message0\<lparr>m_props := [(''a'', ''z'')]\<rparr>)"
  by (rule between_in_expand [of "''a NOT IN ('' @ [quote] @ ''x'' @ [quote] @ '','' @ [quote] @ ''y'' @ [quote, CHR '')'']"])
    code_simp

text \<open>C36: an expression without IS NULL never matches a message that has none of its attributes,
  and never rejects it either: also under NOT the answer stays unknown, so the message is not
  delivered.\<close>

theorem missing_attributes_unknown:
  assumes "build_sql_filter expr = Inr a" "no_null_test a" "\<forall>i \<in> idents a. lookup_prop m i = None"
  shows "filter_match (SQLFilter a) m = RUnknown"
  using eval_absent [OF assms(2) _ assms(3)] build_ops [OF assms(1)] by simp

theorem missing_attributes_unknown_witness:
  "filter_match (SQLFilter (NotNode (CmpNode ''a'' ''='' (CStr [])))) message0 = RUnknown"
  by (rule missing_attributes_unknown [of "''NOT a = '' @ [quote, quote]"]) code_simp+

text \<open>Giving a message more attributes can only turn an unknown answer into a known one: a
  known answer of an expression without IS NULL is final.\<close>

theorem known_answers_final:
  assumes "build_sql_filter expr = Inr a" "no_null_test a"
    and "\<forall>i \<in> idents a. \<forall>v. lookup_prop m i = Some v \<longrightarrow> lookup_prop m' i = Some v"
    and "filter_match (SQLFilter a) m \<noteq> RUnknown"
  shows "filter_match (SQLFilter a) m' = filter_match (SQLFilter a) m"
  using eval_monotone [OF assms(2,3)] assms(4) by (auto simp: refines_def)

theorem known_answers_final_witness:
  "filter_match (SQLFilter (CmpNode ''a'' ''='' (CStr ''x''))) (message0\<lparr>m_tag := ''t'', m_props := [(''a'', ''x'')]\<rparr>) =
   filter_match (SQLFilter (CmpNode ''a'' ''='' (CStr ''x''))) (message0\<lparr>m_props := [(''a'', ''x'')]\<rparr>)"
  by (rule known_answers_final [of "''a = '' @ [quote] @ ''x'' @ [quote]"])
    (code_simp, code_simp, simp add: lookup_prop_def, code_simp)

text \<open>When every attribute can be read at the type of the constants it is compared with, a
  built filter decides: the answer is true or false.\<close>

theorem readable_attributes_decide:
  assumes "build_sql_filter expr = Inr a" "decidable a m"
  shows "filter_match (SQLFilter a) m \<noteq> RUnknown"
  using eval_decidable build_ops [OF assms(1)] assms(2) by simp

theorem readable_attributes_decide_witness:
  "filter_match (SQLFilter (CmpNode ''a'' ''='' (CStr ''x''))) (message0\<lparr>m_props := [(''a'', ''y'')]\<rparr>) \<noteq> RUnknown"
  by (rule readable_attributes_decide [of "''a = '' @ [quote] @ ''x'' @ [quote]"])
    (code_simp, simp add: lookup_prop_def kv_get_def)

text \<open>An integer attribute is compared with an integer constant exactly over the whole
  \<open>int64\<close> range, also where doubles cannot tell neighbours apart.\<close>

theorem integers_compare_exactly:
  assumes "lookup_prop m i = Some (fmt_int p)" "- (2 ^ 63) \<le> p" "p < 2 ^ 63"
  shows "eval_node (CmpNode i ''='' (CNum (f64_of_int c) (Some c))) m = of_bool3 (p = c) \<and>
    eval_node (CmpNode i ''<'' (CNum (f64_of_int c) (Some c))) m = of_bool3 (p < c) \<and>
    eval_node (CmpNode i ''<='' (CNum (f64_of_int c) (Some c))) m = of_bool3 (p \<le> c)"
  using eval_int_exact [OF assms] by (simp add: cmp_int_def)

theorem integers_compare_exactly_witness:
  "eval_node (CmpNode ''id'' ''='' (CNum (f64_of_int 9007199254740992) (Some 9007199254740992)))
     (message0\<lparr>m_props := [(''id'', fmt_int 9007199254740993)]\<rparr>) = of_bool3 ((9007199254740993::int) = 9007199254740992) \<and>
   eval_node (CmpNode ''id'' ''<'' (CNum (f64_of_int 9007199254740992) (Some 9007199254740992)))
     (message0\<lparr>m_props := [(''id'', fmt_int 9007199254740993)]\<rparr>) = of_bool3 ((9007199254740993::int) < 9007199254740992) \<and>
   eval_node (CmpNode ''id'' ''<='' (CNum (f64_of_int 9007199254740992) (Some 9007199254740992)))
     (message0\<lparr>m_props := [(''id'', fmt_int 9007199254740993)]\<rparr>) = of_bool3 ((9007199254740993::int) \<le> 9007199254740992)"
  by (rule integers_compare_exactly) (simp_all add: lookup_prop_def kv_get_def)

end
