(* ===== verification/Json.thy ===== *)
theory Json
  imports Store GoStd
begin

text \<open>
  What the source uses of Go's \<open>encoding/json\<close> and \<open>encoding/base64\<close>: the writer
  (\<open>Marshal\<close>, with its HTML-safe string escapes), the reader (the scanner's grammar, the
  unquoting of strings with invalid UTF-8 replaced) and the round trip of one through the other.
  The assignment of values to struct fields is at the end; each component lists its fields.
\<close>

datatype json =
    JNull
  | JBool bool
  | JNum bytes
  | JStr bytes
  | JArr "json list"
  | JObj "(bytes \<times> json) list"

section \<open>UTF-8\<close>

definition cont :: "nat \<Rightarrow> nat \<Rightarrow> char \<Rightarrow> bool" where
  "cont lo hi c \<longleftrightarrow> lo \<le> code c \<and> code c \<le> hi"

definition second_ok :: "char \<Rightarrow> char \<Rightarrow> bool" where
  "second_ok c d \<longleftrightarrow>
     (if code c = 224 then cont 160 191 d
      else if code c = 237 then cont 128 159 d
      else if code c = 240 then cont 144 191 d
      else if code c = 244 then cont 128 143 d
      else cont 128 191 d)"

text \<open>The length of the rune at the head of a byte string, 0 where Go decodes \<open>RuneError\<close>.\<close>

definition rune_len :: "bytes \<Rightarrow> nat" where
  "rune_len s =
     (case s of [] \<Rightarrow> 0
      | c # t \<Rightarrow>
          if code c < 128 then 1
          else if code c < 194 \<or> 244 < code c then 0
          else (case t of [] \<Rightarrow> 0
            | d # u \<Rightarrow>
                if \<not> second_ok c d then 0
                else if code c < 224 then 2
                else (case u of [] \<Rightarrow> 0
                  | e # v \<Rightarrow>
                      if \<not> cont 128 191 e then 0
                      else if code c < 240 then 3
                      else (case v of [] \<Rightarrow> 0
                        | f # w \<Rightarrow> if cont 128 191 f then 4 else 0))))"

lemma rune_len_le: "rune_len s \<le> length s"
  by (auto simp: rune_len_def split: list.split)

lemma rune_len_take: "rune_len s = n \<Longrightarrow> 0 < n \<Longrightarrow> rune_len (take n s @ r) = n"
  by (auto simp: rune_len_def split: list.splits if_splits)

function utf8 :: "bytes \<Rightarrow> bool" where
  "utf8 s =
     (if s = [] then True else if rune_len s = 0 then False else utf8 (drop (rune_len s) s))"
  by pat_completeness auto
termination
  by (relation "measure length") auto

declare utf8.simps [simp del]

lemma utf8_Nil [simp]: "utf8 []"
  by (simp add: utf8.simps)

lemma utf8_ascii: "list_all (\<lambda>c. code c < 128) s \<Longrightarrow> utf8 s"
proof (induction s)
  case (Cons c s)
  then have "rune_len (c # s) = 1" by (simp add: rune_len_def)
  then show ?case using Cons by (subst utf8.simps) simp
qed simp

definition utf8_encode :: "nat \<Rightarrow> bytes" where
  "utf8_encode r =
     (if r < 128 then [char_of r]
      else if r < 2048 then [char_of (192 + r div 64), char_of (128 + r mod 64)]
      else if r < 65536 then
        [char_of (224 + r div 4096), char_of (128 + r div 64 mod 64), char_of (128 + r mod 64)]
      else [char_of (240 + r div 262144), char_of (128 + r div 4096 mod 64),
            char_of (128 + r div 64 mod 64), char_of (128 + r mod 64)])"

definition rune_error :: bytes where
  "rune_error = [CHR 0xEF, CHR 0xBF, CHR 0xBD]"

section \<open>Strings\<close>

definition backslash :: char where "backslash = CHR 0x5C"
definition dquote :: char where "dquote = CHR 0x22"

definition hex_dig :: "nat \<Rightarrow> char" where
  "hex_dig n = (if n < 10 then char_of (48 + n) else char_of (87 + n))"

text \<open>One rune of a string as \<open>appendString\<close> writes it.\<close>

definition esc_ascii :: "char \<Rightarrow> bytes" where
  "esc_ascii c =
     (if c = dquote \<or> c = backslash then [backslash, c]
      else if code c = 8 then [backslash, CHR ''b'']
      else if code c = 12 then [backslash, CHR ''f'']
      else if code c = 10 then [backslash, CHR ''n'']
      else if code c = 13 then [backslash, CHR ''r'']
      else if code c = 9 then [backslash, CHR ''t'']
      else if code c < 32 \<or> c = CHR ''<'' \<or> c = CHR ''>'' \<or> c = CHR ''&'' then
        [backslash, CHR ''u'', CHR ''0'', CHR ''0'', hex_dig (code c div 16), hex_dig (code c mod 16)]
      else [c])"

definition esc_rune :: "bytes \<Rightarrow> bytes" where
  "esc_rune u =
     (case u of
        [c] \<Rightarrow> esc_ascii c
      | _ \<Rightarrow>
          if u = [CHR 0xE2, CHR 0x80, CHR 0xA8] then backslash # ''u2028''
          else if u = [CHR 0xE2, CHR 0x80, CHR 0xA9] then backslash # ''u2029''
          else u)"

function esc :: "bytes \<Rightarrow> bytes" where
  "esc s =
     (if s = [] then []
      else if rune_len s = 0 then backslash # ''ufffd'' @ esc (tl s)
      else esc_rune (take (rune_len s) s) @ esc (drop (rune_len s) s))"
  by pat_completeness auto
termination
  by (relation "measure length") auto

declare esc.simps [simp del]

definition hex_read :: "char \<Rightarrow> nat option" where
  "hex_read c =
     (if is_digit c then Some (code c - 48)
      else if 97 \<le> code c \<and> code c \<le> 102 then Some (code c - 87)
      else if 65 \<le> code c \<and> code c \<le> 70 then Some (code c - 55)
      else None)"

text \<open>Four hexadecimal digits, as after a backslash and a u.\<close>

fun read_u4 :: "bytes \<Rightarrow> (nat \<times> bytes) option" where
  "read_u4 (a # b # c # d # s) =
     (case (hex_read a, hex_read b, hex_read c, hex_read d) of
        (Some w, Some x, Some y, Some z) \<Rightarrow> Some (((w * 16 + x) * 16 + y) * 16 + z, s)
      | _ \<Rightarrow> None)"
| "read_u4 _ = None"

definition is_surrogate :: "nat \<Rightarrow> bool" where
  "is_surrogate r \<longleftrightarrow> 55296 \<le> r \<and> r < 57344"

text \<open>
  A rune written with the u escape: a surrogate joins the escape that follows if the two are a
  pair, and is the replacement character otherwise.
\<close>

definition read_escape_u :: "bytes \<Rightarrow> (bytes \<times> bytes) option" where
  "read_escape_u s =
     (case read_u4 s of
        None \<Rightarrow> None
      | Some (r, t) \<Rightarrow>
          if \<not> is_surrogate r then Some (utf8_encode r, t)
          else (case t of
                  b # u # v \<Rightarrow>
                    if b = backslash \<and> u = CHR ''u'' then
                      (case read_u4 v of
                         Some (r2, w) \<Rightarrow>
                           if r < 56320 \<and> 56320 \<le> r2 \<and> r2 < 57344
                           then Some (utf8_encode ((r - 55296) * 1024 + (r2 - 56320) + 65536), w)
                           else Some (rune_error, t)
                       | None \<Rightarrow> Some (rune_error, t))
                    else Some (rune_error, t)
                | _ \<Rightarrow> Some (rune_error, t)))"

definition simple_escape :: "char \<Rightarrow> char option" where
  "simple_escape c =
     (if c = dquote \<or> c = backslash \<or> c = CHR ''/'' then Some c
      else if c = CHR ''b'' then Some (CHR 0x08)
      else if c = CHR ''f'' then Some (CHR 0x0C)
      else if c = CHR ''n'' then Some (CHR 0x0A)
      else if c = CHR ''r'' then Some (CHR 0x0D)
      else if c = CHR ''t'' then Some (CHR 0x09)
      else None)"

text \<open>One step inside a string: the bytes it denotes and the rest.\<close>

definition read_char :: "bytes \<Rightarrow> (bytes \<times> bytes) option" where
  "read_char s =
     (case s of
        [] \<Rightarrow> None
      | c # t \<Rightarrow>
          if c = backslash then
            (case t of
               [] \<Rightarrow> None
             | e # u \<Rightarrow>
                 if e = CHR ''u'' then read_escape_u u
                 else map_option (\<lambda>x. ([x], u)) (simple_escape e))
          else if code c < 32 then None
          else if rune_len s = 0 then Some (rune_error, t)
          else Some (take (rune_len s) s, drop (rune_len s) s))"

lemma read_u4_length: "read_u4 s = Some (r, t) \<Longrightarrow> length t < length s"
  by (cases s rule: read_u4.cases) (auto split: option.splits)

lemma read_char_length: "read_char s = Some (x, t) \<Longrightarrow> length t < length s"
proof -
  have u: "read_escape_u v = Some (y, w) \<Longrightarrow> length w < length v" for v y w
    by (fastforce simp: read_escape_u_def split: option.splits list.splits if_splits dest: read_u4_length)
  show "read_char s = Some (x, t) \<Longrightarrow> length t < length s"
    by (fastforce simp: read_char_def split: list.splits if_splits dest: u)
qed

text \<open>The text up to the closing quote, which the opening quote has been read before.\<close>

function read_str :: "bytes \<Rightarrow> (bytes \<times> bytes) option" where
  "read_str s =
     (if s \<noteq> [] \<and> hd s = dquote then Some ([], tl s)
      else (case read_char s of
              None \<Rightarrow> None
            | Some (x, t) \<Rightarrow>
                (case read_str t of None \<Rightarrow> None | Some (y, r) \<Rightarrow> Some (x @ y, r))))"
  by pat_completeness auto
termination
  by (relation "measure length") (auto dest: read_char_length)

declare read_str.simps [simp del]

section \<open>The string round trip\<close>

lemma hex_read_dig: "n < 16 \<Longrightarrow> hex_read (hex_dig n) = Some n"
proof -
  have "\<forall>n < (16::nat). hex_read (hex_dig n) = Some n" by code_simp
  then show "n < 16 \<Longrightarrow> hex_read (hex_dig n) = Some n" by blast
qed

lemma code_eq: "c = d \<longleftrightarrow> code c = code d"
  by (simp add: code_def)

lemma char_of_code [simp]: "char_of (code c) = c"
  by (simp add: code_def)

lemma code_less [simp]: "code c < 256"
  by (simp add: code_def)

lemma is_digit_0 [simp]: "hex_read (CHR ''0'') = Some 0"
  by (simp add: hex_read_def is_digit_def code_def)

lemma read_hex:
  assumes "n < 128"
  shows "read_char (backslash # CHR ''u'' # CHR ''0'' # CHR ''0'' # hex_dig (n div 16) # hex_dig (n mod 16) # r)
    = Some ([char_of n], r)"
proof -
  have "n div 16 < 16" using assms by simp
  then show ?thesis
    using assms by (simp add: read_char_def read_escape_u_def hex_read_dig is_surrogate_def utf8_encode_def)
qed

lemma read_plain:
  assumes "32 \<le> code c" "code c < 128" "c \<noteq> backslash"
  shows "read_char (c # r) = Some ([c], r)"
proof -
  have "rune_len (c # r) = 1" using assms by (simp add: rune_len_def)
  then show ?thesis using assms by (simp add: read_char_def)
qed

lemma read_simple:
  assumes "simple_escape e = Some x" "e \<noteq> CHR ''u''"
  shows "read_char (backslash # e # r) = Some ([x], r)"
  using assms by (simp add: read_char_def)

lemma read_ascii:
  assumes "code c < 128"
  shows "read_char (esc_ascii c @ r) = Some ([c], r)"
proof -
  have quo: "c = dquote \<or> c = backslash \<Longrightarrow> simple_escape c = Some c \<and> c \<noteq> CHR ''u''"
    by (auto simp: simple_escape_def dquote_def backslash_def)
  have k: "code c = n \<Longrightarrow> c = char_of n" for n using char_of_code by metis
  have esc: "simple_escape (CHR ''b'') = Some (char_of (8::nat))"
    "simple_escape (CHR ''f'') = Some (char_of (12::nat))"
    "simple_escape (CHR ''n'') = Some (char_of (10::nat))"
    "simple_escape (CHR ''r'') = Some (char_of (13::nat))"
    "simple_escape (CHR ''t'') = Some (char_of (9::nat))"
    by (code_simp)+
  consider (q) "c = dquote \<or> c = backslash" | (c) "\<not> (c = dquote \<or> c = backslash)" "code c \<in> {8, 12, 10, 13, 9}"
    | (o) "\<not> (c = dquote \<or> c = backslash)" "code c \<notin> {8, 12, 10, 13, 9}" by blast
  then show ?thesis
  proof cases
    case q
    then show ?thesis using read_simple quo [OF q] by (simp add: esc_ascii_def)
  next
    case c
    have tab: "esc_ascii (char_of (8::nat)) = [backslash, CHR ''b'']"
      "esc_ascii (char_of (12::nat)) = [backslash, CHR ''f'']"
      "esc_ascii (char_of (10::nat)) = [backslash, CHR ''n'']"
      "esc_ascii (char_of (13::nat)) = [backslash, CHR ''r'']"
      "esc_ascii (char_of (9::nat)) = [backslash, CHR ''t'']"
      by (code_simp)+
    show ?thesis
      using c(2) k [of 8] k [of 12] k [of 10] k [of 13] k [of 9]
      by (elim insertE emptyE) (simp_all add: tab esc read_simple)
  next
    case o
    show ?thesis
    proof (cases "code c < 32 \<or> c = CHR ''<'' \<or> c = CHR ''>'' \<or> c = CHR ''&''")
      case True
      then show ?thesis using o read_hex [OF assms] by (simp add: esc_ascii_def)
    next
      case False
      then show ?thesis using o read_plain [of c r] assms by (simp add: esc_ascii_def)
    qed
  qed
qed

lemma rune_len_ascii: "rune_len (c # t) = 1 \<longleftrightarrow> code c < 128"
  by (auto simp: rune_len_def split: list.splits)

lemma read_raw:
  assumes "rune_len s = n" "2 \<le> n"
  shows "read_char (take n s @ r) = Some (take n s, r)"
proof -
  obtain c t where s: "s = c # t" using assms by (cases s) (auto simp: rune_len_def)
  have c: "128 \<le> code c"
    using assms rune_len_ascii [of c t] by (auto simp: s not_less rune_len_def)
  obtain m where n: "n = Suc m" using assms by (cases n) auto
  have len: "rune_len (c # take m t @ r) = Suc m"
    using rune_len_take [OF assms(1), of r] assms(2) by (simp add: s n)
  have "m \<le> length t" using rune_len_le [of s] assms(1) by (simp add: s n)
  moreover have "c \<noteq> backslash" using c by (auto simp: backslash_def code_def)
  ultimately show ?thesis
    using c by (simp add: s n read_char_def len min_def)
qed

lemma read_rune:
  assumes "rune_len s = n" "0 < n"
  shows "read_char (esc_rune (take n s) @ r) = Some (take n s, r)"
proof (cases "n = 1")
  case True
  then obtain c t where s: "s = c # t" using assms by (cases s) (auto simp: rune_len_def)
  then have "code c < 128" using assms True rune_len_ascii by simp
  then show ?thesis using True s read_ascii by (simp add: esc_rune_def)
next
  case False
  have two: "2 \<le> n" using False assms by simp
  have len: "length (take n s) = n" using rune_len_le [of s] assms by simp
  have esc: "esc_rune u = (if u = [CHR 0xE2, CHR 0x80, CHR 0xA8] then backslash # ''u2028''
      else if u = [CHR 0xE2, CHR 0x80, CHR 0xA9] then backslash # ''u2029'' else u)" if "2 \<le> length u" for u
    using that by (cases u rule: remdups_adj.cases) (auto simp: esc_rune_def)
  have h: "hex_read (CHR ''2'') = Some 2" "hex_read (CHR ''8'') = Some 8" "hex_read (CHR ''9'') = Some 9"
    by code_simp+
  have "utf8_encode 8232 = [CHR 0xE2, CHR 0x80, CHR 0xA8]" "utf8_encode 8233 = [CHR 0xE2, CHR 0x80, CHR 0xA9]"
    by (simp_all add: utf8_encode_def char_of_def bit_0)
  then have sep: "read_char (backslash # ''u2028'' @ r) = Some ([CHR 0xE2, CHR 0x80, CHR 0xA8], r)"
    "read_char (backslash # ''u2029'' @ r) = Some ([CHR 0xE2, CHR 0x80, CHR 0xA9], r)"
    by (simp_all add: read_char_def read_escape_u_def h is_surrogate_def)
  let ?ls = "[CHR 0xE2, CHR 0x80, CHR 0xA8]" and ?ps = "[CHR 0xE2, CHR 0x80, CHR 0xA9]"
  have e: "esc_rune (take n s) = (if take n s = ?ls then backslash # ''u2028''
      else if take n s = ?ps then backslash # ''u2029'' else take n s)"
    using len two by (intro esc) simp
  consider (ls) "take n s = ?ls" | (ps) "take n s \<noteq> ?ls" "take n s = ?ps"
    | (raw) "take n s \<noteq> ?ls" "take n s \<noteq> ?ps" by blast
  then show ?thesis
  proof cases
    case raw
    show ?thesis unfolding e if_not_P [OF raw(1)] if_not_P [OF raw(2)] by (rule read_raw [OF assms(1) two])
  next
    case ls
    show ?thesis unfolding e if_P [OF ls] unfolding ls using sep(1) by simp
  next
    case ps
    show ?thesis unfolding e if_not_P [OF ps(1)] if_P [OF ps(2)] unfolding ps(2) using sep(2) by simp
  qed
qed

lemma esc_nonempty_char: "rune_len s = n \<Longrightarrow> 0 < n \<Longrightarrow> hd (esc_rune (take n s) @ r) \<noteq> dquote"
proof
  assume a: "rune_len s = n" "0 < n" and h: "hd (esc_rune (take n s) @ r) = dquote"
  obtain u where "esc_rune (take n s) @ r = dquote # u \<or> esc_rune (take n s) @ r = []"
    using h by (cases "esc_rune (take n s) @ r") auto
  moreover have "read_char (dquote # u) = Some ([dquote], u)" for u
    by (rule read_plain) (simp_all add: dquote_def backslash_def code_def)
  moreover have "read_char [] = None" by (simp add: read_char_def)
  ultimately have t: "take n s = [dquote]"
    using read_rune [OF a, of r] by auto
  then show False using h by (simp add: esc_rune_def esc_ascii_def backslash_def dquote_def)
qed

lemma read_str_esc:
  "utf8 s \<Longrightarrow> read_str (esc s @ dquote # r) = Some (s, r)"
proof (induction s rule: utf8.induct)
  case (1 s)
  show ?case
  proof (cases "s = []")
    case True
    then show ?thesis by (simp add: esc.simps [of "[]"] read_str.simps [of "dquote # r"])
  next
    case False
    define n where "n = rune_len s"
    have n: "0 < n" "utf8 (drop n s)"
      using "1.prems" False by (auto simp: utf8.simps [of s] n_def split: if_splits)
    have IH: "read_str (esc (drop n s) @ dquote # r) = Some (drop n s, r)"
      using "1.IH" False n by (simp add: n_def)
    have e: "esc s @ dquote # r = esc_rune (take n s) @ esc (drop n s) @ dquote # r"
      using False n by (subst esc.simps) (simp add: n_def)
    have "hd (esc_rune (take n s) @ esc (drop n s) @ dquote # r) \<noteq> dquote"
      using esc_nonempty_char n(1) by (simp add: n_def)
    then show ?thesis
      unfolding e using read_rune [OF n_def [symmetric] n(1)] IH
      by (subst read_str.simps) simp
  qed
qed

section \<open>Values\<close>

definition is_ws :: "char \<Rightarrow> bool" where
  "is_ws c \<longleftrightarrow> c = CHR '' '' \<or> c = CHR 0x09 \<or> c = CHR 0x0A \<or> c = CHR 0x0D"

definition skip_ws :: "bytes \<Rightarrow> bytes" where
  "skip_ws s = dropWhile is_ws s"

text \<open>The scanner's number: sign, integer part without leading zeros, fraction, exponent.\<close>

definition num_frac :: "bytes \<Rightarrow> (bytes \<times> bytes) option" where
  "num_frac s =
     (case s of
        c # t \<Rightarrow>
          if c = CHR ''.'' then
            (if takeWhile is_digit t = [] then None
             else Some (c # takeWhile is_digit t, dropWhile is_digit t))
          else Some ([], s)
      | [] \<Rightarrow> Some ([], s))"

definition num_exp :: "bytes \<Rightarrow> (bytes \<times> bytes) option" where
  "num_exp s =
     (case s of
        c # t \<Rightarrow>
          if c = CHR ''e'' \<or> c = CHR ''E'' then
            (case t of
               d # u \<Rightarrow>
                 let (sg, w) = (if d = CHR ''+'' \<or> d = CHR ''-'' then ([d], u) else ([], t)) in
                 if takeWhile is_digit w = [] then None
                 else Some (c # sg @ takeWhile is_digit w, dropWhile is_digit w)
             | [] \<Rightarrow> None)
          else Some ([], s)
      | [] \<Rightarrow> Some ([], s))"

definition num_int :: "bytes \<Rightarrow> (bytes \<times> bytes) option" where
  "num_int s =
     (case s of
        c # t \<Rightarrow>
          if c = CHR ''0'' then Some ([c], t)
          else if is_digit c then Some (c # takeWhile is_digit t, dropWhile is_digit t)
          else None
      | [] \<Rightarrow> None)"

definition read_num :: "bytes \<Rightarrow> (bytes \<times> bytes) option" where
  "read_num s =
     (let (sg, s1) = (case s of c # t \<Rightarrow> if c = CHR ''-'' then ([c], t) else ([], s) | [] \<Rightarrow> ([], s))
      in case num_int s1 of
           None \<Rightarrow> None
         | Some (i, s2) \<Rightarrow>
             (case num_frac s2 of
                None \<Rightarrow> None
              | Some (f, s3) \<Rightarrow>
                  (case num_exp s3 of
                     None \<Rightarrow> None
                   | Some (e, s4) \<Rightarrow> Some (sg @ i @ f @ e, s4))))"

definition max_nesting :: int where "max_nesting = 10000"

text \<open>
  The reader.  Every call consumes, so as much fuel as there are bytes is enough; \<open>d\<close> is the
  depth of open arrays and objects.
\<close>

function parse_value :: "nat \<Rightarrow> int \<Rightarrow> bytes \<Rightarrow> (json \<times> bytes) option"
  and parse_elems :: "nat \<Rightarrow> int \<Rightarrow> bytes \<Rightarrow> (json list \<times> bytes) option"
  and parse_members :: "nat \<Rightarrow> int \<Rightarrow> bytes \<Rightarrow> ((bytes \<times> json) list \<times> bytes) option" where
  "parse_value 0 d s = None"
| "parse_value (Suc n) d s =
     (case skip_ws s of
        [] \<Rightarrow> None
      | c # t \<Rightarrow>
          if c = CHR ''{'' then
            (if max_nesting < d + 1 then None
             else if skip_ws t \<noteq> [] \<and> hd (skip_ws t) = CHR ''}'' then Some (JObj [], tl (skip_ws t))
             else map_option (\<lambda>(ms, r). (JObj ms, r)) (parse_members n (d + 1) t))
          else if c = CHR ''['' then
            (if max_nesting < d + 1 then None
             else if skip_ws t \<noteq> [] \<and> hd (skip_ws t) = CHR '']'' then Some (JArr [], tl (skip_ws t))
             else map_option (\<lambda>(js, r). (JArr js, r)) (parse_elems n (d + 1) t))
          else if c = dquote then map_option (\<lambda>(x, r). (JStr x, r)) (read_str t)
          else if c = CHR ''t'' then map_option (Pair (JBool True)) (cut_prefix ''rue'' t)
          else if c = CHR ''f'' then map_option (Pair (JBool False)) (cut_prefix ''alse'' t)
          else if c = CHR ''n'' then map_option (Pair JNull) (cut_prefix ''ull'' t)
          else map_option (\<lambda>(x, r). (JNum x, r)) (read_num (c # t)))"
| "parse_elems 0 d s = None"
| "parse_elems (Suc n) d s =
     (case parse_value n d s of
        None \<Rightarrow> None
      | Some (j, r) \<Rightarrow>
          (case skip_ws r of
             [] \<Rightarrow> None
           | c # t \<Rightarrow>
               if c = CHR '','' then map_option (\<lambda>(js, r). (j # js, r)) (parse_elems n d t)
               else if c = CHR '']'' then Some ([j], t) else None))"
| "parse_members 0 d s = None"
| "parse_members (Suc n) d s =
     (case skip_ws s of
        [] \<Rightarrow> None
      | c # t \<Rightarrow>
          if c \<noteq> dquote then None
          else (case read_str t of
             None \<Rightarrow> None
           | Some (k, r) \<Rightarrow>
               (case skip_ws r of
                  [] \<Rightarrow> None
                | c1 # r1 \<Rightarrow>
                    if c1 \<noteq> CHR '':'' then None
                    else (case parse_value n d r1 of
                       None \<Rightarrow> None
                     | Some (j, r2) \<Rightarrow>
                         (case skip_ws r2 of
                            [] \<Rightarrow> None
                          | c2 # r3 \<Rightarrow>
                              if c2 = CHR '','' then
                                map_option (\<lambda>(ms, r). ((k, j) # ms, r)) (parse_members n d r3)
                              else if c2 = CHR ''}'' then Some ([(k, j)], r3) else None)))))"
  by pat_completeness auto
termination
  by (relation "measure (case_sum (\<lambda>(n, _). n) (case_sum (\<lambda>(n, _). n) (\<lambda>(n, _). n)))") auto

definition json_parse :: "bytes \<Rightarrow> json option" where
  "json_parse s =
     (case parse_value (length s + 1) 0 s of
        None \<Rightarrow> None
      | Some (j, r) \<Rightarrow> if skip_ws r = [] then Some j else None)"

section \<open>The writer\<close>

definition json_str :: "bytes \<Rightarrow> bytes" where
  "json_str s = dquote # esc s @ [dquote]"

fun join :: "bytes list \<Rightarrow> bytes" where
  "join [] = []"
| "join [x] = x"
| "join (x # y # xs) = x @ CHR '','' # join (y # xs)"

fun json_print :: "json \<Rightarrow> bytes" where
  "json_print JNull = ''null''"
| "json_print (JBool b) = (if b then ''true'' else ''false'')"
| "json_print (JNum l) = l"
| "json_print (JStr s) = json_str s"
| "json_print (JArr js) = CHR ''['' # join (map json_print js) @ '']''"
| "json_print (JObj ms) =
     CHR ''{'' # join (map (\<lambda>(k, v). json_str k @ CHR '':'' # json_print v) ms) @ ''}''"

section \<open>The value round trip\<close>

text \<open>
  What the writer of this program prints: integers, valid UTF-8, within the nesting limit.
  \<open>stop r\<close> says that a number cannot continue into \<open>r\<close>.
\<close>

fun good :: "int \<Rightarrow> json \<Rightarrow> bool" where
  "good d (JNum l) = (l \<in> range fmt_int)"
| "good d (JStr s) = utf8 s"
| "good d (JArr js) = (d + 1 \<le> max_nesting \<and> (\<forall>j \<in> set js. good (d + 1) j))"
| "good d (JObj ms) = (d + 1 \<le> max_nesting \<and> (\<forall>(k, j) \<in> set ms. utf8 k \<and> good (d + 1) j))"
| "good d (JBool b) = True"
| "good d JNull = True"

definition stop :: "bytes \<Rightarrow> bool" where
  "stop r \<longleftrightarrow> (case r of [] \<Rightarrow> True
     | c # _ \<Rightarrow> \<not> is_digit c \<and> c \<noteq> CHR ''.'' \<and> c \<noteq> CHR ''e'' \<and> c \<noteq> CHR ''E'')"

lemma takeWhile_digits:
  "list_all P ds \<Longrightarrow> (case r of [] \<Rightarrow> True | c # _ \<Rightarrow> \<not> P c) \<Longrightarrow>
     takeWhile P (ds @ r) = ds \<and> dropWhile P (ds @ r) = r"
  by (induction ds) (auto split: list.splits)

lemma fmt_nat_lead: "fmt_nat n = CHR ''0'' # r \<Longrightarrow> r = []"
proof (induction n arbitrary: r rule: fmt_nat.induct)
  case (1 n)
  show ?case
  proof (cases "n < 10")
    case True
    then show ?thesis using "1.prems" by (simp add: fmt_nat.simps [of n])
  next
    case False
    obtain c t where f: "fmt_nat (n div 10) = c # t" by (rule fmt_nat_hd)
    then have c: "c = CHR ''0''" using "1.prems" False by (simp add: fmt_nat.simps [of n])
    then have "t = []" using "1.IH" [OF False] f by simp
    then have "dec_val (fmt_nat (n div 10)) = 0" using f c by (simp add: dec_val_def digit_val_def code_def)
    then have "n div 10 = 0" using fmt_nat_digits [of "n div 10"] by simp
    then show ?thesis using False by simp
  qed
qed

lemma num_int_fmt: "stop r \<Longrightarrow> num_int (fmt_nat n @ r) = Some (fmt_nat n, r)"
proof -
  assume st: "stop r"
  obtain c t where f: "fmt_nat n = c # t" by (rule fmt_nat_hd)
  have "list_all is_digit (c # t)" using fmt_nat_digits [of n] f by simp
  then show ?thesis
    using takeWhile_digits [of is_digit t r] st fmt_nat_lead [of n t] f
    by (auto simp: num_int_def stop_def split: list.splits)
qed

lemma num_tail: "stop r \<Longrightarrow> num_frac r = Some ([], r) \<and> num_exp r = Some ([], r)"
  by (auto simp: num_frac_def num_exp_def stop_def split: list.splits)

lemma read_num_fmt: "stop r \<Longrightarrow> read_num (fmt_int i @ r) = Some (fmt_int i, r)"
proof -
  assume st: "stop r"
  obtain c t where f: "fmt_nat (nat i) = c # t" "c \<noteq> CHR ''-''" by (rule fmt_nat_hd)
  show ?thesis
    using f num_int_fmt [OF st, of "nat i"] num_int_fmt [OF st, of "nat (- i)"] num_tail [OF st]
    by (cases "i < 0") (simp_all add: read_num_def fmt_int_def)
qed

lemma fmt_int_hd:
  obtains c t where "fmt_int i = c # t" "is_digit c \<or> c = CHR ''-''"
proof (cases "i < 0")
  case True
  then show ?thesis using that by (simp add: fmt_int_def)
next
  case False
  obtain c t where "fmt_nat (nat i) = c # t" "is_digit c" by (rule fmt_nat_hd)
  then show ?thesis using that False by (simp add: fmt_int_def)
qed

text \<open>The first byte of a printed value decides the branch of the reader.\<close>

definition starts :: "char \<Rightarrow> bool" where
  "starts c \<longleftrightarrow> \<not> is_ws c \<and> c \<noteq> CHR ''}'' \<and> c \<noteq> CHR '']''"

lemma starts_neq: "starts c \<Longrightarrow> c \<noteq> CHR ''}'' \<and> c \<noteq> CHR '']''"
  by (simp add: starts_def)

lemma starts_literals [simp]:
  "starts (CHR ''{'')" "starts (CHR ''['')" "starts dquote" "starts (CHR ''t'')" "starts (CHR ''f'')"
  "starts (CHR ''n'')" "starts (CHR ''-'')"
  by (simp_all add: starts_def is_ws_def dquote_def)

lemma starts_digit: "is_digit c \<Longrightarrow> starts c"
  by (auto simp: is_digit_def starts_def is_ws_def less_eq_char_def)

lemma skip_starts [simp]: "starts c \<Longrightarrow> skip_ws (c # t) = c # t"
  by (simp add: skip_ws_def starts_def)

lemma json_print_hd: "good d j \<Longrightarrow> \<exists>c t. json_print j = c # t \<and> starts c"
proof (cases j)
  case (JNum l)
  assume "good d j"
  then obtain i where "l = fmt_int i" using JNum by auto
  then show ?thesis using fmt_int_hd [of i] JNum starts_digit starts_literals(7) by (metis json_print.simps(3))
qed (auto simp: json_str_def)

lemma skip_print [simp]: "good d j \<Longrightarrow> skip_ws (json_print j @ r) = json_print j @ r"
  using json_print_hd [of d j] by auto

lemma skip_punct [simp]:
  "skip_ws (CHR '','' # t) = CHR '','' # t" "skip_ws (CHR '':'' # t) = CHR '':'' # t"
  "skip_ws (CHR ''}'' # t) = CHR ''}'' # t" "skip_ws (CHR '']'' # t) = CHR '']'' # t"
  by (simp_all add: skip_ws_def is_ws_def)

lemma stop_punct [simp]:
  "stop []" "stop (CHR '','' # t)" "stop (CHR ''}'' # t)" "stop (CHR '']'' # t)"
  by (simp_all add: stop_def is_digit_def less_eq_char_def)

lemma read_string: "utf8 s \<Longrightarrow> \<exists>t. json_str s @ r = dquote # t \<and> read_str t = Some (s, r)"
  using read_str_esc [of s r] by (auto simp: json_str_def)

lemma parse_elems_print:
  assumes "\<And>j r n. j \<in> set (x # xs) \<Longrightarrow> stop r \<Longrightarrow> length (json_print j) \<le> n \<Longrightarrow>
      parse_value n d (json_print j @ r) = Some (j, r)"
    and "length (join (map json_print (x # xs))) + 1 \<le> n"
  shows "parse_elems n d (join (map json_print (x # xs)) @ CHR '']'' # r) = Some (x # xs, r)"
  using assms
proof (induction xs arbitrary: x n)
  case Nil
  then obtain m where "n = Suc m" by (cases n) auto
  then show ?case using Nil by simp
next
  case (Cons y ys)
  obtain m where n: "n = Suc m" using Cons.prems(2) by (cases n) auto
  have IH: "parse_elems m d (join (map json_print (y # ys)) @ CHR '']'' # r) = Some (y # ys, r)"
    using Cons.prems n by (intro Cons.IH) auto
  show ?case
    using Cons.prems(1) [of x "CHR '','' # join (map json_print (y # ys)) @ CHR '']'' # r" m]
      Cons.prems(2) IH n by simp
qed

abbreviation member_print :: "bytes \<times> json \<Rightarrow> bytes" where
  "member_print \<equiv> \<lambda>(k, v). json_str k @ CHR '':'' # json_print v"

lemma parse_members_print:
  assumes "\<And>k j r n. (k, j) \<in> set (x # xs) \<Longrightarrow> utf8 k \<and> (stop r \<longrightarrow> length (json_print j) \<le> n \<longrightarrow>
      parse_value n d (json_print j @ r) = Some (j, r))"
    and "length (join (map member_print (x # xs))) + 1 \<le> n"
  shows "parse_members n d (join (map member_print (x # xs)) @ CHR ''}'' # r) = Some (x # xs, r)"
  using assms
proof (induction xs arbitrary: x n)
  case Nil
  obtain k j where x: "x = (k, j)" by (cases x)
  obtain m where n: "n = Suc m" using Nil by (cases n) auto
  obtain t where t: "json_str k @ CHR '':'' # json_print j @ CHR ''}'' # r = dquote # t"
    "read_str t = Some (k, CHR '':'' # json_print j @ CHR ''}'' # r)"
    using read_string Nil.prems(1) [of k j] x by fastforce
  have "length (json_print j) \<le> m" using Nil.prems(2) n x by simp
  then show ?case
    using Nil.prems(1) [of k j "CHR ''}'' # r" m] t n x by simp
next
  case (Cons y ys)
  obtain k j where x: "x = (k, j)" by (cases x)
  obtain m where n: "n = Suc m" using Cons.prems(2) by (cases n) auto
  let ?r = "CHR '','' # join (map member_print (y # ys)) @ CHR ''}'' # r"
  obtain t where t: "json_str k @ CHR '':'' # json_print j @ ?r = dquote # t"
    "read_str t = Some (k, CHR '':'' # json_print j @ ?r)"
    using read_string Cons.prems(1) [of k j] x by fastforce
  have IH: "parse_members m d (join (map member_print (y # ys)) @ CHR ''}'' # r) = Some (y # ys, r)"
    using Cons.prems n by (intro Cons.IH) auto
  have "length (json_print j) \<le> m" using Cons.prems(2) n x by simp
  then show ?case
    using Cons.prems(1) [of k j ?r m] t n x IH by simp
qed

lemma parse_value_print:
  "good d j \<Longrightarrow> stop r \<Longrightarrow> length (json_print j) \<le> n \<Longrightarrow>
     parse_value n d (json_print j @ r) = Some (j, r)"
proof (induction d j arbitrary: n r rule: good.induct)
  case (1 d l)
  then obtain i where l: "l = fmt_int i" by auto
  obtain c t where c: "fmt_int i = c # t" "is_digit c \<or> c = CHR ''-''" by (rule fmt_int_hd)
  obtain m where n: "n = Suc m" using 1 c l by (cases n) auto
  have "starts c" using c starts_digit starts_literals(7) by blast
  moreover have "c \<notin> {CHR ''{'', CHR ''['', dquote, CHR ''t'', CHR ''f'', CHR ''n''}"
    using c(2) by (auto simp: is_digit_def dquote_def less_eq_char_def)
  ultimately show ?case
    using read_num_fmt [OF "1.prems"(2), of i] n c(1) by (simp add: l)
next
  case (2 d s)
  then obtain m where n: "n = Suc m" by (cases n) (auto simp: json_str_def)
  obtain t where t: "json_str s @ r = dquote # t" "read_str t = Some (s, r)"
    using read_string 2 by fastforce
  then show ?case by (simp add: n) (simp add: dquote_def)
next
  case (3 d js)
  then obtain m where n: "n = Suc m" by (cases n) auto
  show ?case
  proof (cases js)
    case Nil
    then show ?thesis using 3 n by (simp add: skip_ws_def is_ws_def)
  next
    case (Cons x xs)
    have "parse_elems m (d + 1) (join (map json_print js) @ CHR '']'' # r) = Some (js, r)"
      unfolding Cons using "3.IH" "3.prems" n Cons by (intro parse_elems_print) auto
    moreover obtain c t where "join (map json_print js) @ CHR '']'' # r = c # t" "starts c"
      using json_print_hd [of "d + 1" x] "3.prems" Cons by (cases xs) auto
    ultimately show ?thesis
      using "3.prems" n starts_neq [of c] by auto
  qed
next
  case (4 d ms)
  then obtain m where n: "n = Suc m" by (cases n) auto
  show ?case
  proof (cases ms)
    case Nil
    then show ?thesis using 4 n by (simp add: skip_ws_def is_ws_def)
  next
    case (Cons x xs)
    have "parse_members m (d + 1) (join (map member_print ms) @ CHR ''}'' # r) = Some (ms, r)"
      unfolding Cons using "4.IH" "4.prems" n Cons by (intro parse_members_print) fastforce+
    moreover obtain c t where "join (map member_print ms) @ CHR ''}'' # r = c # t" "starts c"
      using Cons by (cases xs; cases x) (auto simp: json_str_def)
    ultimately show ?thesis
      using "4.prems" n starts_neq [of c] by auto
  qed
next
  case (5 d b)
  then show ?case by (cases n; cases b) (auto simp: cut_prefix_Some dquote_def)
next
  case (6 d)
  then show ?case by (cases n) (auto simp: cut_prefix_Some dquote_def)
qed

lemma json_parse_print: "good 0 j \<Longrightarrow> json_parse (json_print j) = Some j"
  using parse_value_print [of 0 j "[]" "length (json_print j) + 1"]
  by (simp add: json_parse_def skip_ws_def)

section \<open>Base64\<close>

text \<open>\<open>base64.StdEncoding\<close>, with padding; the decoder skips line ends.\<close>

definition b64_char :: "nat \<Rightarrow> char" where
  "b64_char n =
     (if n < 26 then char_of (65 + n) else if n < 52 then char_of (71 + n)
      else if n < 62 then char_of (n - 4) else if n = 62 then CHR ''+'' else CHR ''/'')"

definition b64_val :: "char \<Rightarrow> nat option" where
  "b64_val c =
     (if is_upper c then Some (code c - 65)
      else if is_lower c then Some (code c - 71)
      else if is_digit c then Some (code c + 4)
      else if c = CHR ''+'' then Some 62 else if c = CHR ''/'' then Some 63 else None)"

fun b64_encode :: "bytes \<Rightarrow> bytes" where
  "b64_encode [] = []"
| "b64_encode [a] =
     [b64_char (code a div 4), b64_char (code a mod 4 * 16), CHR ''='', CHR ''='']"
| "b64_encode [a, b] =
     [b64_char (code a div 4), b64_char (code a mod 4 * 16 + code b div 16),
      b64_char (code b mod 16 * 4), CHR ''='']"
| "b64_encode (a # b # c # s) =
     [b64_char (code a div 4), b64_char (code a mod 4 * 16 + code b div 16),
      b64_char (code b mod 16 * 4 + code c div 64), b64_char (code c mod 64)] @ b64_encode s"

fun b64_quads :: "bytes \<Rightarrow> bytes option" where
  "b64_quads [] = Some []"
| "b64_quads (a # b # c # d # s) =
     (case (b64_val a, b64_val b) of
        (Some w, Some x) \<Rightarrow>
          (if c = CHR ''='' then
             (if d = CHR ''='' \<and> s = [] then Some [char_of (w * 4 + x div 16)] else None)
           else (case b64_val c of
              None \<Rightarrow> None
            | Some y \<Rightarrow>
                if d = CHR ''='' then
                  (if s = [] then Some [char_of (w * 4 + x div 16), char_of (x mod 16 * 16 + y div 4)]
                   else None)
                else (case (b64_val d, b64_quads s) of
                   (Some z, Some r) \<Rightarrow>
                     Some ([char_of (w * 4 + x div 16), char_of (x mod 16 * 16 + y div 4),
                            char_of (y mod 4 * 64 + z)] @ r)
                 | _ \<Rightarrow> None)))
      | _ \<Rightarrow> None)"
| "b64_quads _ = None"

definition b64_decode :: "bytes \<Rightarrow> bytes option" where
  "b64_decode s = b64_quads (filter (\<lambda>c. c \<noteq> CHR 0x0A \<and> c \<noteq> CHR 0x0D) s)"

lemma code_b64:
  "n < 64 \<Longrightarrow> code (b64_char n) =
     (if n < 26 then 65 + n else if n < 52 then 71 + n else if n < 62 then n - 4
      else if n = 62 then 43 else 47)"
  by (simp add: b64_char_def code_char_of) (simp add: code_def)

lemma is_upper_code: "is_upper c \<longleftrightarrow> 65 \<le> code c \<and> code c \<le> 90"
  by (simp add: is_upper_def code_def less_eq_char_def)

lemma is_lower_code: "is_lower c \<longleftrightarrow> 97 \<le> code c \<and> code c \<le> 122"
  by (simp add: is_lower_def code_def less_eq_char_def)

lemma b64_val_char: "n < 64 \<Longrightarrow> b64_val (b64_char n) = Some n"
proof -
  assume n: "n < 64"
  have lit: "code (CHR ''+'') = 43" "code (CHR ''/'') = 47" by (simp_all add: code_def)
  show ?thesis
    unfolding b64_val_def is_upper_code is_lower_code is_digit_code code_eq lit code_b64 [OF n]
    using n by auto
qed

lemma b64_char_plain:
  "n < 64 \<Longrightarrow> b64_char n \<notin> {CHR ''='', CHR 0x0A, CHR 0x0D} \<and> code (b64_char n) < 128"
proof -
  assume n: "n < 64"
  have lit: "code (CHR ''='') = 61" "code (CHR 0x0A) = 10" "code (CHR 0x0D) = 13"
    by (simp_all add: code_def)
  show ?thesis
    unfolding insert_iff empty_iff code_eq lit code_b64 [OF n] using n by presburger
qed

lemma split_byte:
  fixes x y z :: nat
  assumes "x < 256" "y < 256" "z < 256"
  shows "x div 4 < 64" "x mod 4 * 16 < 64" "x mod 4 * 16 + y div 16 < 64" "y mod 16 * 4 < 64"
    "y mod 16 * 4 + z div 64 < 64" "z mod 64 < 64"
    "x div 4 * 4 + (x mod 4 * 16 + y div 16) div 16 = x"
    "(x mod 4 * 16 + y div 16) mod 16 * 16 + y mod 16 * 4 div 4 = y"
    "(x mod 4 * 16 + y div 16) mod 16 * 16 + (y mod 16 * 4 + z div 64) div 4 = y"
    "(y mod 16 * 4 + z div 64) mod 4 * 64 + z mod 64 = z"
proof -
  have b: "x div 4 < 64" "y div 16 < 16" "z div 64 < 4" "x mod 4 < 4" "y mod 16 < 16" "z mod 64 < 64"
    using assms by (simp_all add: less_mult_imp_div_less)
  have q: "(x mod 4 * 16 + y div 16) div 16 = x mod 4" "(x mod 4 * 16 + y div 16) mod 16 = y div 16"
    "(y mod 16 * 4 + z div 64) div 4 = y mod 16" "(y mod 16 * 4 + z div 64) mod 4 = z div 64"
    using b by (simp_all add: div_mult_self3)
  show "x div 4 < 64" "x mod 4 * 16 < 64" "x mod 4 * 16 + y div 16 < 64" "y mod 16 * 4 < 64"
    "y mod 16 * 4 + z div 64 < 64" "z mod 64 < 64"
    using b by linarith+
  show "x div 4 * 4 + (x mod 4 * 16 + y div 16) div 16 = x"
    "(x mod 4 * 16 + y div 16) mod 16 * 16 + y mod 16 * 4 div 4 = y"
    "(x mod 4 * 16 + y div 16) mod 16 * 16 + (y mod 16 * 4 + z div 64) div 4 = y"
    "(y mod 16 * 4 + z div 64) mod 4 * 64 + z mod 64 = z"
    unfolding q by simp_all
qed

lemmas b64_bits = split_byte [OF code_less code_less code_less]

lemma b64_quads_encode: "b64_quads (b64_encode s) = Some s"
proof (induction s rule: b64_encode.induct)
  case (2 a)
  have "code a div 4 * 4 + code a mod 4 * 16 div 16 = code a" by simp
  then show ?case
    using b64_bits(1,2) [of a] by (simp add: b64_val_char)
next
  case (3 a b)
  show ?case
    using b64_bits(1,3,4) b64_bits(7,8) [of a b] b64_char_plain [OF b64_bits(4) [of b]]
    by (simp add: b64_val_char)
next
  case (4 a b c s)
  show ?case
    using 4 b64_bits(1,3,5,6) b64_bits(7,9) [of a b] b64_bits(10) [of b c]
      b64_char_plain [OF b64_bits(5) [of b c]] b64_char_plain [OF b64_bits(6) [of c]]
    by (simp add: b64_val_char)
qed simp

lemma b64_encode_plain:
  "list_all (\<lambda>c. c \<noteq> CHR 0x0A \<and> c \<noteq> CHR 0x0D \<and> code c < 128) (b64_encode s)"
  using b64_bits(1-6) b64_char_plain
  by (induction s rule: b64_encode.induct) (simp_all add: code_def [of "CHR ''=''"])

lemma b64_decode_encode [simp]: "b64_decode (b64_encode s) = Some s"
proof -
  have "filter (\<lambda>c. c \<noteq> CHR 0x0A \<and> c \<noteq> CHR 0x0D) (b64_encode s) = b64_encode s"
    using b64_encode_plain [of s] by (auto simp: filter_id_conv list_all_iff)
  then show ?thesis by (simp add: b64_decode_def b64_quads_encode)
qed

lemma utf8_b64: "utf8 (b64_encode s)"
  using b64_encode_plain [of s] by (intro utf8_ascii) (simp add: list_all_iff)

section \<open>Reading into a struct\<close>

text \<open>
  \<open>Unmarshal\<close> into a struct: each member goes to the field of that name, exact if there is
  one and up to case folding otherwise; unknown members are dropped, null leaves most fields as
  they are, and a value of the wrong type is an error.  A component gives its field names and
  the assignment of a value to a field.
\<close>

definition field_of :: "bytes list \<Rightarrow> bytes \<Rightarrow> bytes option" where
  "field_of names k = (if k \<in> set names then Some k else find (equal_fold k) names)"

fun set_fields ::
    "bytes list \<Rightarrow> (bytes \<Rightarrow> json \<Rightarrow> 'r \<Rightarrow> 'r option) \<Rightarrow> (bytes \<times> json) list \<Rightarrow> 'r \<Rightarrow> 'r option" where
  "set_fields names put [] r = Some r"
| "set_fields names put ((k, v) # ms) r =
     (case field_of names k of
        None \<Rightarrow> set_fields names put ms r
      | Some f \<Rightarrow>
          (case put f v r of None \<Rightarrow> None | Some r' \<Rightarrow> set_fields names put ms r'))"

definition unmarshal ::
    "bytes list \<Rightarrow> (bytes \<Rightarrow> json \<Rightarrow> 'r \<Rightarrow> 'r option) \<Rightarrow> bytes \<Rightarrow> 'r \<Rightarrow> 'r option" where
  "unmarshal names put s r =
     (case json_parse s of
        None \<Rightarrow> None
      | Some j \<Rightarrow>
          (case j of JNull \<Rightarrow> Some r | JObj ms \<Rightarrow> set_fields names put ms r | _ \<Rightarrow> None))"

fun as_str :: "bytes \<Rightarrow> json \<Rightarrow> bytes option" where
  "as_str old (JStr s) = Some s"
| "as_str old JNull = Some old"
| "as_str old _ = None"

fun as_int :: "nat \<Rightarrow> int \<Rightarrow> json \<Rightarrow> int option" where
  "as_int bits old (JNum l) = parse_int bits l"
| "as_int bits old JNull = Some old"
| "as_int bits old _ = None"

fun as_uint :: "nat \<Rightarrow> nat \<Rightarrow> json \<Rightarrow> nat option" where
  "as_uint bits old (JNum l) = parse_uint bits l"
| "as_uint bits old JNull = Some old"
| "as_uint bits old _ = None"

fun as_bool :: "bool \<Rightarrow> json \<Rightarrow> bool option" where
  "as_bool old (JBool b) = Some b"
| "as_bool old JNull = Some old"
| "as_bool old _ = None"

text \<open>An element that is null keeps what the slice held at its index.\<close>

fun as_strs_loop :: "bytes list \<Rightarrow> json list \<Rightarrow> bytes list option" where
  "as_strs_loop old [] = Some []"
| "as_strs_loop old (j # js) =
     (case (as_str (case old of [] \<Rightarrow> [] | x # _ \<Rightarrow> x) j, as_strs_loop (tl old) js) of
        (Some x, Some xs) \<Rightarrow> Some (x # xs)
      | _ \<Rightarrow> None)"

fun as_strs :: "bytes list \<Rightarrow> json \<Rightarrow> bytes list option" where
  "as_strs old (JArr js) = as_strs_loop old js"
| "as_strs old JNull = Some []"
| "as_strs old _ = None"

fun as_byte_list :: "bytes \<Rightarrow> json list \<Rightarrow> bytes option" where
  "as_byte_list old [] = Some []"
| "as_byte_list old (j # js) =
     (case (as_uint 8 (case old of [] \<Rightarrow> 0 | x # _ \<Rightarrow> code x) j, as_byte_list (tl old) js) of
        (Some x, Some xs) \<Rightarrow> Some (char_of x # xs)
      | _ \<Rightarrow> None)"

fun as_bytes :: "bytes \<Rightarrow> json \<Rightarrow> bytes option" where
  "as_bytes old (JStr s) = b64_decode s"
| "as_bytes old (JArr js) = as_byte_list old js"
| "as_bytes old JNull = Some []"
| "as_bytes old _ = None"

fun as_map_loop :: "(bytes \<times> bytes) list \<Rightarrow> (bytes \<times> json) list \<Rightarrow> (bytes \<times> bytes) list option" where
  "as_map_loop m [] = Some m"
| "as_map_loop m ((k, j) # ms) =
     (case as_str [] j of None \<Rightarrow> None | Some v \<Rightarrow> as_map_loop (kv_set k v m) ms)"

fun as_map :: "(bytes \<times> bytes) list \<Rightarrow> json \<Rightarrow> (bytes \<times> bytes) list option" where
  "as_map old (JObj ms) = as_map_loop old ms"
| "as_map old JNull = Some []"
| "as_map old _ = None"

text \<open>A member with \<open>omitempty\<close>, and one without.\<close>

definition opt_field :: "bool \<Rightarrow> bytes \<Rightarrow> json \<Rightarrow> (bytes \<times> json) list" where
  "opt_field present k v = (if present then [(k, v)] else [])"

abbreviation field :: "bytes \<Rightarrow> json \<Rightarrow> (bytes \<times> json) list" where
  "field \<equiv> opt_field True"

lemma set_fields_step:
  assumes "k \<in> set names" "put k v r = Some r'" "\<not> present \<Longrightarrow> r' = r"
    and "set_fields names put ms r' = x"
  shows "set_fields names put (opt_field present k v @ ms) r = x"
  using assms by (auto simp: opt_field_def field_of_def)

lemma field_of_mem: "k \<in> set names \<Longrightarrow> field_of names k = Some k"
  by (simp add: field_of_def)

lemma as_strs_map: "as_strs_loop old (map JStr xs) = Some xs"
  by (induction xs arbitrary: old) auto

lemma kv_set_snoc: "kv_ok (m @ [(k, v)]) \<Longrightarrow> kv_set k v m = m @ [(k, v)]"
proof (induction m)
  case (Cons p m)
  obtain a b where p: "p = (a, b)" by (cases p)
  have "a < k" "kv_ok (m @ [(k, v)])" using Cons.prems by (simp_all add: p kv_ok_def)
  then show ?case using Cons.IH less_not_sym [of a k] by (auto simp: p)
qed simp

lemma kv_ok_append: "kv_ok (m @ n) \<Longrightarrow> kv_ok m"
  by (simp add: kv_ok_def sorted_wrt_append)

lemma as_map_map: "kv_ok (m @ n) \<Longrightarrow> as_map_loop m (map (\<lambda>(k, v). (k, JStr v)) n) = Some (m @ n)"
proof (induction n arbitrary: m)
  case (Cons p n)
  obtain k v where p: "p = (k, v)" by (cases p)
  have "kv_ok (m @ [(k, v)])"
    using Cons.prems kv_ok_append [of "m @ [(k, v)]" n] by (simp add: p)
  then have "kv_set k v m = m @ [(k, v)]" by (rule kv_set_snoc)
  then show ?case using Cons p by simp
qed simp

end
