(* ===== verification/Encoding.thy ===== *)
theory Encoding
  imports Types Json
begin

text \<open>
  The stored forms of a message and of an inflight record: \<^verbatim>\<open>internal/core/encoding.go\<close> and
  the codec half of \<^verbatim>\<open>internal/core/types.go\<close>.  The process-wide switch of the write
  direction is the argument \<open>binary\<close>.  An empty \<open>Body\<close> is Go's nil slice.
\<close>

section \<open>Struct fields\<close>

definition num :: "int \<Rightarrow> json" where
  "num i = JNum (fmt_int i)"

definition digest_names :: "bytes list" where
  "digest_names = [''type'', ''checksum'']"

definition digest_put :: "bytes \<Rightarrow> json \<Rightarrow> body_digest \<Rightarrow> body_digest option" where
  "digest_put f j d =
     (if f = ''type'' then map_option (\<lambda>x. d\<lparr>bd_type := x\<rparr>) (as_str (bd_type d) j)
      else map_option (\<lambda>x. d\<lparr>bd_checksum := x\<rparr>) (as_str (bd_checksum d) j))"

definition digest_json :: "body_digest \<Rightarrow> json" where
  "digest_json d = JObj [(''type'', JStr (bd_type d)), (''checksum'', JStr (bd_checksum d))]"

fun as_digest :: "body_digest option \<Rightarrow> json \<Rightarrow> body_digest option option" where
  "as_digest old (JObj ms) =
     map_option Some (set_fields digest_names digest_put ms
       (case old of None \<Rightarrow> \<lparr>bd_type = [], bd_checksum = []\<rparr> | Some d \<Rightarrow> d))"
| "as_digest old JNull = Some None"
| "as_digest old _ = None"

definition message_names :: "bytes list" where
  "message_names = [''id'', ''topic'', ''queue_id'', ''offset'', ''tag'', ''keys'', ''message_group'',
     ''properties'', ''body'', ''body_encoding'', ''body_digest'', ''born_at_ms'', ''born_host'',
     ''store_at_ms'', ''deliver_at_ms'', ''trace_context'']"

definition message_put :: "bytes \<Rightarrow> json \<Rightarrow> message \<Rightarrow> message option" where
  "message_put f j m =
     (if f = ''id'' then map_option (\<lambda>x. m\<lparr>m_id := x\<rparr>) (as_str (m_id m) j)
      else if f = ''topic'' then map_option (\<lambda>x. m\<lparr>m_topic := x\<rparr>) (as_str (m_topic m) j)
      else if f = ''queue_id'' then
        map_option (\<lambda>x. m\<lparr>m_queue_id := of_nat x\<rparr>) (as_uint 32 (unat (m_queue_id m)) j)
      else if f = ''offset'' then
        map_option (\<lambda>x. m\<lparr>m_offset := of_nat x\<rparr>) (as_uint 64 (unat (m_offset m)) j)
      else if f = ''tag'' then map_option (\<lambda>x. m\<lparr>m_tag := x\<rparr>) (as_str (m_tag m) j)
      else if f = ''keys'' then map_option (\<lambda>x. m\<lparr>m_keys := x\<rparr>) (as_strs (m_keys m) j)
      else if f = ''message_group'' then map_option (\<lambda>x. m\<lparr>m_group := x\<rparr>) (as_str (m_group m) j)
      else if f = ''properties'' then map_option (\<lambda>x. m\<lparr>m_props := x\<rparr>) (as_map (m_props m) j)
      else if f = ''body'' then map_option (\<lambda>x. m\<lparr>m_body := x\<rparr>) (as_bytes (m_body m) j)
      else if f = ''body_encoding'' then
        map_option (\<lambda>x. m\<lparr>m_body_encoding := x\<rparr>) (as_str (m_body_encoding m) j)
      else if f = ''body_digest'' then
        map_option (\<lambda>x. m\<lparr>m_body_digest := x\<rparr>) (as_digest (m_body_digest m) j)
      else if f = ''born_at_ms'' then map_option (\<lambda>x. m\<lparr>m_born_at := x\<rparr>) (as_int 64 (m_born_at m) j)
      else if f = ''born_host'' then map_option (\<lambda>x. m\<lparr>m_born_host := x\<rparr>) (as_str (m_born_host m) j)
      else if f = ''store_at_ms'' then map_option (\<lambda>x. m\<lparr>m_store_at := x\<rparr>) (as_int 64 (m_store_at m) j)
      else if f = ''deliver_at_ms'' then
        map_option (\<lambda>x. m\<lparr>m_deliver_at := x\<rparr>) (as_int 64 (m_deliver_at m) j)
      else map_option (\<lambda>x. m\<lparr>m_trace := x\<rparr>) (as_str (m_trace m) j))"

text \<open>
  The members \<open>Marshal\<close> writes, in the order of the struct.  The wrapper \<open>msgMeta\<close> shadows
  \<open>body\<close> with an empty field of its own, which \<open>omitempty\<close> then drops.
\<close>

definition message_json :: "bool \<Rightarrow> message \<Rightarrow> json" where
  "message_json with_body m = JObj (
     field ''id'' (JStr (m_id m))
     @ field ''topic'' (JStr (m_topic m))
     @ field ''queue_id'' (num (uint (m_queue_id m)))
     @ field ''offset'' (num (uint (m_offset m)))
     @ opt_field (m_tag m \<noteq> []) ''tag'' (JStr (m_tag m))
     @ opt_field (m_keys m \<noteq> []) ''keys'' (JArr (map JStr (m_keys m)))
     @ opt_field (m_group m \<noteq> []) ''message_group'' (JStr (m_group m))
     @ opt_field (m_props m \<noteq> []) ''properties'' (JObj (map (\<lambda>(k, v). (k, JStr v)) (m_props m)))
     @ opt_field with_body ''body'' (if m_body m = [] then JNull else JStr (b64_encode (m_body m)))
     @ opt_field (m_body_encoding m \<noteq> []) ''body_encoding'' (JStr (m_body_encoding m))
     @ opt_field (m_body_digest m \<noteq> None) ''body_digest''
         (case m_body_digest m of None \<Rightarrow> JNull | Some d \<Rightarrow> digest_json d)
     @ field ''born_at_ms'' (num (m_born_at m))
     @ opt_field (m_born_host m \<noteq> []) ''born_host'' (JStr (m_born_host m))
     @ field ''store_at_ms'' (num (m_store_at m))
     @ opt_field (m_deliver_at m \<noteq> 0) ''deliver_at_ms'' (num (m_deliver_at m))
     @ opt_field (m_trace m \<noteq> []) ''trace_context'' (JStr (m_trace m)) @ [])"

section \<open>Messages\<close>

definition msg_version_v1 :: char where "msg_version_v1 = CHR 0x01"
definition msg_v1_header_len :: nat where "msg_v1_header_len = 5"
definition json_object_start :: char where "json_object_start = CHR ''{''"

definition set_encoding :: "bytes \<Rightarrow> err + bool" where
  "set_encoding enc =
     (if enc = ''json'' then Inr False
      else if enc = ''binary'' then Inr True
      else Inl (ErrEncodingName enc))"

definition encode_message_v1 :: "message \<Rightarrow> bytes" where
  "encode_message_v1 m =
     (let meta = json_print (message_json False m)
      in msg_version_v1 # put_u32 (of_nat (length meta)) @ meta @ m_body m)"

definition encode_message :: "bool \<Rightarrow> message \<Rightarrow> bytes" where
  "encode_message binary m =
     (if binary then encode_message_v1 m else json_print (message_json True m))"

definition decode_message_v1 :: "bytes \<Rightarrow> err + message" where
  "decode_message_v1 b =
     (if length b < msg_v1_header_len then Inl (ErrV1Short (length b))
      else let meta_len = unat (be_u32 (take 4 (drop 1 b))) in
        if length b < msg_v1_header_len + meta_len then Inl (ErrV1MetaLen meta_len (length b))
        else let fin = msg_v1_header_len + meta_len in
          (case unmarshal message_names message_put (take meta_len (drop msg_v1_header_len b)) message0 of
             None \<Rightarrow> Inl ErrJson
           | Some m \<Rightarrow> Inr (m\<lparr>m_body := drop fin b\<rparr>)))"

definition decode_message :: "bytes \<Rightarrow> err + message" where
  "decode_message b =
     (case b of
        [] \<Rightarrow> Inl ErrEmptyInput
      | c # _ \<Rightarrow>
          if c = msg_version_v1 then decode_message_v1 b
          else if c = json_object_start then
            (case unmarshal message_names message_put b message0 of
               None \<Rightarrow> Inl ErrJson | Some m \<Rightarrow> Inr m)
          else Inl (ErrUnknownFormat c (length b)))"

section \<open>Inflight records\<close>

definition inflight_names :: "bytes list" where
  "inflight_names = [''expire_at_ms'', ''attempts'', ''ordered'', ''owner'', ''renew_until_ms'']"

definition inflight_put :: "bytes \<Rightarrow> json \<Rightarrow> inflight \<Rightarrow> inflight option" where
  "inflight_put f j s =
     (if f = ''expire_at_ms'' then map_option (\<lambda>x. s\<lparr>if_expire := x\<rparr>) (as_int 64 (if_expire s) j)
      else if f = ''attempts'' then map_option (\<lambda>x. s\<lparr>if_attempts := x\<rparr>) (as_int 32 (if_attempts s) j)
      else if f = ''ordered'' then map_option (\<lambda>x. s\<lparr>if_ordered := x\<rparr>) (as_bool (if_ordered s) j)
      else if f = ''owner'' then map_option (\<lambda>x. s\<lparr>if_owner := x\<rparr>) (as_str (if_owner s) j)
      else map_option (\<lambda>x. s\<lparr>if_renew_until := x\<rparr>) (as_int 64 (if_renew_until s) j))"

definition inflight_json :: "inflight \<Rightarrow> json" where
  "inflight_json s = JObj (
     field ''expire_at_ms'' (num (if_expire s))
     @ field ''attempts'' (num (if_attempts s))
     @ opt_field (if_ordered s) ''ordered'' (JBool (if_ordered s))
     @ opt_field (if_owner s \<noteq> []) ''owner'' (JStr (if_owner s))
     @ opt_field (if_renew_until s \<noteq> 0) ''renew_until_ms'' (num (if_renew_until s)) @ [])"

definition encode_inflight :: "inflight \<Rightarrow> bytes" where
  "encode_inflight s = json_print (inflight_json s)"

definition decode_inflight :: "bytes \<Rightarrow> err + inflight" where
  "decode_inflight b =
     (case unmarshal inflight_names inflight_put b inflight0 of
        None \<Rightarrow> Inl ErrJson | Some s \<Rightarrow> Inr s)"

section \<open>Round trips\<close>

text \<open>
  What Go's types and the writers guarantee of a record to be stored: text fields are valid
  UTF-8 (JSON replaces other bytes), times fit an \<open>int64\<close>, and the two fields that are not
  stored are zero.
\<close>

definition digest_ok :: "body_digest option \<Rightarrow> bool" where
  "digest_ok d \<longleftrightarrow> (case d of None \<Rightarrow> True | Some d \<Rightarrow> utf8 (bd_type d) \<and> utf8 (bd_checksum d))"

definition props_ok :: "(bytes \<times> bytes) list \<Rightarrow> bool" where
  "props_ok p \<longleftrightarrow> kv_ok p \<and> (\<forall>(k, v) \<in> set p. utf8 k \<and> utf8 v)"

definition text_ok :: "message \<Rightarrow> bool" where
  "text_ok m \<longleftrightarrow> utf8 (m_id m) \<and> utf8 (m_topic m) \<and> utf8 (m_tag m) \<and> (\<forall>k \<in> set (m_keys m). utf8 k) \<and>
     utf8 (m_group m) \<and> props_ok (m_props m) \<and> utf8 (m_body_encoding m) \<and>
     digest_ok (m_body_digest m) \<and> utf8 (m_born_host m) \<and> utf8 (m_trace m)"

definition message_ok :: "message \<Rightarrow> bool" where
  "message_ok m \<longleftrightarrow> text_ok m \<and> i64_range (m_born_at m) \<and> i64_range (m_store_at m) \<and>
     i64_range (m_deliver_at m) \<and> \<not> m_transactional m \<and> m_attempt m = 0"

definition inflight_ok :: "inflight \<Rightarrow> bool" where
  "inflight_ok s \<longleftrightarrow> i64_range (if_expire s) \<and> - (2 ^ 31) \<le> if_attempts s \<and> if_attempts s < 2 ^ 31 \<and>
     utf8 (if_owner s) \<and> i64_range (if_renew_until s)"

lemma as_int_num: "i64_range i \<Longrightarrow> as_int 64 old (num i) = Some i"
  using parse_int_fmt [of 64 i] by (simp add: num_def i64_range_def)

lemma as_int_num32: "- (2 ^ 31) \<le> i \<Longrightarrow> i < 2 ^ 31 \<Longrightarrow> as_int 32 old (num i) = Some i"
  using parse_int_fmt [of 32 i] by (simp add: num_def)

lemma as_uint_num:
  "as_uint 32 old (num (uint (w::u32))) = Some (unat w)" "as_uint 64 old (num (uint (v::u64))) = Some (unat v)"
  using parse_uint_fmt [of "unat w" 32] parse_uint_fmt [of "unat v" 64] unsigned_less [of w] unsigned_less [of v]
  by (simp_all add: num_def fmt_int_def)

lemma good_num [simp]: "good d (num i)"
  by (simp add: num_def)

lemma good_member:
  "utf8 k \<Longrightarrow> (present \<Longrightarrow> good d v) \<Longrightarrow> (\<forall>(k, j) \<in> set ms. utf8 k \<and> good d j) \<Longrightarrow>
     \<forall>(k, j) \<in> set (opt_field present k v @ ms). utf8 k \<and> good d j"
  by (auto simp: opt_field_def)

lemma utf8_names: "list_all utf8 (message_names @ inflight_names @ digest_names)"
proof -
  have "list_all (list_all (\<lambda>c. code c < 128)) (message_names @ inflight_names @ digest_names)"
    by (simp add: message_names_def inflight_names_def digest_names_def code_def)
  then show ?thesis by (rule list.pred_mono_strong) (rule utf8_ascii)
qed

lemma utf8_name [simp]:
  "k \<in> set message_names \<Longrightarrow> utf8 k" "k \<in> set inflight_names \<Longrightarrow> utf8 k" "k \<in> set digest_names \<Longrightarrow> utf8 k"
  using utf8_names by (auto simp: list_all_iff)

lemma good_inflight: "inflight_ok s \<Longrightarrow> good 0 (inflight_json s)"
proof -
  assume "inflight_ok s"
  then have "\<forall>(k, j) \<in> set (
     field ''expire_at_ms'' (num (if_expire s))
     @ field ''attempts'' (num (if_attempts s))
     @ opt_field (if_ordered s) ''ordered'' (JBool (if_ordered s))
     @ opt_field (if_owner s \<noteq> []) ''owner'' (JStr (if_owner s))
     @ opt_field (if_renew_until s \<noteq> 0) ''renew_until_ms'' (num (if_renew_until s)) @ []).
     utf8 k \<and> good 1 j"
    by (intro good_member utf8_name(2)) (auto simp: inflight_names_def inflight_ok_def)
  then show ?thesis by (simp add: inflight_json_def max_nesting_def del: set_append)
qed

lemma inflight_roundtrip: "inflight_ok s \<Longrightarrow> decode_inflight (encode_inflight s) = Inr s"
proof -
  assume ok: "inflight_ok s"
  obtain ms where ms: "inflight_json s = JObj ms" by (simp add: inflight_json_def)
  have "set_fields inflight_names inflight_put ms inflight0 = Some s"
    using ms unfolding inflight_json_def json.inject
    by (elim subst)
      ((rule set_fields_step, simp add: inflight_names_def,
        use ok in \<open>simp add: inflight_put_def inflight0_def inflight_ok_def as_int_num as_int_num32\<close>,
        simp)+, simp)
  moreover have "json_parse (encode_inflight s) = Some (JObj ms)"
    using json_parse_print [OF good_inflight [OF ok]] by (simp only: encode_inflight_def ms)
  ultimately show ?thesis by (simp add: decode_inflight_def unmarshal_def)
qed

lemma i64_0 [simp]: "i64_range 0"
  by (simp add: i64_range_def)

lemma as_digest_json: "as_digest None (digest_json d) = Some (Some d)"
  by (simp add: digest_json_def field_of_def digest_names_def digest_put_def)

lemma good_message: "message_ok m \<Longrightarrow> good 0 (message_json body m)"
proof -
  assume ok: "message_ok m"
  have props: "good 1 (JObj (map (\<lambda>(k, v). (k, JStr v)) (m_props m)))"
    using ok by (auto simp: message_ok_def text_ok_def props_ok_def max_nesting_def)
  have keys: "good 1 (JArr (map JStr (m_keys m)))"
    using ok by (auto simp: message_ok_def text_ok_def max_nesting_def)
  have digest: "m_body_digest m \<noteq> None \<Longrightarrow> good 1 (case m_body_digest m of None \<Rightarrow> JNull | Some d \<Rightarrow> digest_json d)"
    using ok utf8_name(3) [of "''type''"] utf8_name(3) [of "''checksum''"]
    by (auto simp: message_ok_def text_ok_def digest_ok_def digest_json_def max_nesting_def digest_names_def)
  obtain ms where ms: "message_json body m = JObj ms" by (simp add: message_json_def)
  have "\<forall>(k, j) \<in> set ms. utf8 k \<and> good 1 j"
    using ms unfolding message_json_def json.inject
    by (elim subst, intro good_member utf8_name(1) props keys digest)
      (use ok in \<open>auto simp: message_names_def message_ok_def text_ok_def utf8_b64\<close>)
  then show ?thesis by (simp add: ms max_nesting_def)
qed

lemma message_fields:
  assumes ok: "message_ok m" and ms: "message_json body m = JObj ms"
  shows "set_fields message_names message_put ms message0 = Some (if body then m else m\<lparr>m_body := []\<rparr>)"
proof -
  have keys: "as_strs_loop old (map JStr (m_keys m)) = Some (m_keys m)" for old
    by (rule as_strs_map)
  have props: "as_map_loop [] (map (\<lambda>(k, v). (k, JStr v)) (m_props m)) = Some (m_props m)"
    using as_map_map [of "[]" "m_props m"] ok by (simp add: message_ok_def text_ok_def props_ok_def)
  have digest: "as_digest None (case m_body_digest m of None \<Rightarrow> JNull | Some d \<Rightarrow> digest_json d) = Some (m_body_digest m)"
    by (simp add: as_digest_json split: option.split)
  have times: "i64_range (m_born_at m)" "i64_range (m_store_at m)" "i64_range (m_deliver_at m)"
    and zero: "\<not> m_transactional m" "m_attempt m = 0"
    using ok by (simp_all add: message_ok_def)
  have body: "as_bytes [] (if m_body m = [] then JNull else JStr (b64_encode (m_body m))) = Some (m_body m)"
    by simp
  have none: "opt_field False k v @ ms = ms" for k v ms by (simp add: opt_field_def)
  show ?thesis
  proof (cases body)
    case True
    then have t: "body = True" by simp
    show ?thesis
      using ms unfolding message_json_def json.inject t if_True
      by (elim subst)
        ((rule set_fields_step, simp add: message_names_def,
          simp add: message_put_def message0_def as_int_num as_uint_num times keys props digest body
            del: as_bytes.simps, simp)+,
          simp add: zero)
  next
    case False
    then have f: "body = False" by simp
    show ?thesis
      using ms unfolding message_json_def json.inject f if_False none
      by (elim subst)
        ((rule set_fields_step, simp add: message_names_def,
          simp add: message_put_def message0_def as_int_num as_uint_num times keys props digest, simp)+,
          simp add: zero)
  qed
qed

lemma message_parse: "message_ok m \<Longrightarrow>
  unmarshal message_names message_put (json_print (message_json body m)) message0 =
    Some (if body then m else m\<lparr>m_body := []\<rparr>)"
proof -
  assume ok: "message_ok m"
  obtain ms where ms: "message_json body m = JObj ms" by (simp add: message_json_def)
  have "json_parse (json_print (message_json body m)) = Some (JObj ms)"
    using json_parse_print [OF good_message [OF ok], of body] by (simp only: ms)
  then show ?thesis
    by (simp add: unmarshal_def message_fields [OF ok ms])
qed

lemma encode_json_hd: "\<exists>t. json_print (message_json body m) = CHR ''{'' # t"
  by (simp add: message_json_def)

definition meta_fits :: "message \<Rightarrow> bool" where
  "meta_fits m \<longleftrightarrow> length (json_print (message_json False m)) < 2 ^ 32"

lemma unat_length: "meta_fits m \<Longrightarrow>
  unat (be_u32 (put_u32 (of_nat (length (json_print (message_json False m)))))) =
    length (json_print (message_json False m))"
  by (simp add: meta_fits_def unsigned_of_nat take_bit_nat_eq_self)

lemma decode_v1:
  assumes "message_ok m" "meta_fits m"
  shows "decode_message_v1 (encode_message_v1 m) = Inr m"
proof -
  define meta where "meta = json_print (message_json False m)"
  define hdr where "hdr = put_u32 (of_nat (length meta))"
  have h: "length hdr = 4" "unat (be_u32 hdr) = length meta"
    using unat_length [OF assms(2)] by (simp_all add: hdr_def meta_def)
  have e: "encode_message_v1 m = msg_version_v1 # hdr @ meta @ m_body m"
    by (simp add: encode_message_v1_def Let_def meta_def hdr_def)
  have "unmarshal message_names message_put meta message0 = Some (m\<lparr>m_body := []\<rparr>)"
    using message_parse [OF assms(1), of False] by (simp add: meta_def)
  moreover have five: "5 + length meta = Suc (length (hdr @ meta))" by (simp add: h)
  have "drop (5 + length meta) (encode_message_v1 m) = m_body m"
    unfolding e five drop_Suc_Cons by simp
  moreover have "take 4 (drop 1 (encode_message_v1 m)) = hdr"
    "take (length meta) (drop 5 (encode_message_v1 m)) = meta"
    "5 + length meta \<le> length (encode_message_v1 m)"
    using h by (simp_all add: e)
  ultimately show ?thesis
    using h by (simp add: decode_message_v1_def msg_v1_header_len_def Let_def)
qed

lemma message_roundtrip:
  assumes "message_ok m" "binary \<Longrightarrow> meta_fits m"
  shows "decode_message (encode_message binary m) = Inr m"
proof (cases binary)
  case True
  obtain t where "encode_message_v1 m = msg_version_v1 # t"
    by (simp add: encode_message_v1_def Let_def)
  then show ?thesis
    using True decode_v1 [OF assms(1)] assms(2) by (simp add: encode_message_def decode_message_def)
next
  case False
  obtain t where "json_print (message_json True m) = CHR ''{'' # t"
    using encode_json_hd by blast
  moreover have "CHR ''{'' \<noteq> msg_version_v1" "json_object_start = CHR ''{''"
    by (simp_all add: msg_version_v1_def json_object_start_def)
  ultimately show ?thesis
    using False message_parse [OF assms(1), of True]
    by (simp add: encode_message_def decode_message_def)
qed

text \<open>A frame cut anywhere before its body is refused, never read out of range.\<close>

lemma decode_truncated:
  assumes "meta_fits m" "n < 5 + length (json_print (message_json False m))"
  shows "\<not> is_ok (decode_message (take n (encode_message True m)))"
proof -
  define meta where "meta = json_print (message_json False m)"
  define hdr where "hdr = put_u32 (of_nat (length meta))"
  have h: "length hdr = 4" "unat (be_u32 hdr) = length meta"
    using unat_length [OF assms(1)] by (simp_all add: hdr_def meta_def)
  have e: "encode_message True m = msg_version_v1 # hdr @ meta @ m_body m"
    by (simp add: encode_message_def encode_message_v1_def Let_def meta_def hdr_def)
  show ?thesis
  proof (cases n)
    case (Suc k)
    define b where "b = take n (encode_message True m)"
    have b: "b = msg_version_v1 # take k (hdr @ meta @ m_body m)" by (simp add: b_def e Suc)
    have l: "length b < 5 + length meta" using assms(2) by (simp add: b_def meta_def)
    have d: "decode_message b = decode_message_v1 b" unfolding b by (simp add: decode_message_def)
    have "\<not> is_ok (decode_message b)"
    proof (cases "length b < 5")
      case True
      then show ?thesis by (simp add: d decode_message_v1_def msg_v1_header_len_def)
    next
      case False
      then have "4 \<le> k" unfolding b using Suc by simp
      then have "take 4 (drop 1 b) = hdr" unfolding b using h by (simp add: take_append)
      then show ?thesis
        using False l h by (simp add: d decode_message_v1_def msg_v1_header_len_def Let_def)
    qed
    then show ?thesis by (simp add: b_def)
  qed (simp add: decode_message_def)
qed

section \<open>The codec interface\<close>

text \<open>What the engines that store records rely on.\<close>

locale codec =
  fixes enc :: "'a \<Rightarrow> bytes"
    and dec :: "bytes \<Rightarrow> 'e + 'a"
    and ok :: "'a \<Rightarrow> bool"
  assumes dec_enc: "ok x \<Longrightarrow> dec (enc x) = Inr x"
begin

lemma enc_inj: "ok x \<Longrightarrow> ok y \<Longrightarrow> enc x = enc y \<Longrightarrow> x = y"
  using dec_enc by (metis sum.inject(2))

lemma stored: "kv_get m k = Some (enc x) \<Longrightarrow> ok x \<Longrightarrow> map_option dec (kv_get m k) = Some (Inr x)"
  by (simp add: dec_enc)

end

sublocale key_codec \<subseteq> codec enc parse ok
  by unfold_locales (rule parse_enc)

interpretation msgc: codec "encode_message binary" decode_message
  "\<lambda>m. message_ok m \<and> meta_fits m" for binary
  by unfold_locales (simp add: message_roundtrip)

interpretation infc: codec encode_inflight decode_inflight inflight_ok
  by unfold_locales (rule inflight_roundtrip)

section \<open>Properties\<close>

text \<open>C34: in either write format, decoding an encoded message returns it, field by field, with the
  body's bytes unchanged; one node may write binary and another JSON.\<close>

theorem message_codec_roundtrip:
  assumes "message_ok m" "meta_fits m"
  shows "decode_message (encode_message binary m) = Inr m"
  by (rule message_roundtrip [OF assms(1)]) (rule assms(2))

theorem message_codec_roundtrip_witness:
  "decode_message (encode_message True (message0\<lparr>m_id := ''A1'', m_topic := ''t'', m_tag := ''x'',
      m_keys := [''k''], m_body := [CHR 0xFF, CHR 0x00], m_offset := 3\<rparr>)) =
   Inr (message0\<lparr>m_id := ''A1'', m_topic := ''t'', m_tag := ''x'',
      m_keys := [''k''], m_body := [CHR 0xFF, CHR 0x00], m_offset := 3\<rparr>)"
proof (rule message_codec_roundtrip)
  show "message_ok (message0\<lparr>m_id := ''A1'', m_topic := ''t'', m_tag := ''x'',
      m_keys := [''k''], m_body := [CHR 0xFF, CHR 0x00], m_offset := 3\<rparr>)"
    by (simp add: message_ok_def text_ok_def message0_def props_ok_def digest_ok_def utf8_ascii code_def)
  show "meta_fits (message0\<lparr>m_id := ''A1'', m_topic := ''t'', m_tag := ''x'',
      m_keys := [''k''], m_body := [CHR 0xFF, CHR 0x00], m_offset := 3\<rparr>)"
    unfolding meta_fits_def by (rule less_trans [of _ 500], code_simp, simp)
qed

text \<open>A binary frame cut anywhere in its header or metadata is refused with an error; a corrupt
  length never makes the decoder read past its input.\<close>

theorem truncated_frames_refused:
  assumes "meta_fits m" "n < 5 + length (json_print (message_json False m))"
  shows "\<not> is_ok (decode_message (take n (encode_message True m)))"
  by (rule decode_truncated [OF assms])

theorem truncated_frames_refused_witness:
  "\<not> is_ok (decode_message (take 4 (encode_message True message0)))"
proof (rule truncated_frames_refused)
  show "meta_fits message0" unfolding meta_fits_def by (rule less_trans [of _ 500], code_simp, simp)
qed simp

text \<open>A stored inflight record decodes to itself, the fields that are omitted when zero
  included.\<close>

theorem inflight_codec_roundtrip:
  assumes "inflight_ok s"
  shows "decode_inflight (encode_inflight s) = Inr s"
  by (rule infc.dec_enc [OF assms])

theorem inflight_codec_roundtrip_witness:
  "decode_inflight (encode_inflight (inflight0\<lparr>if_expire := 61000, if_attempts := 2, if_ordered := True\<rparr>)) =
    Inr (inflight0\<lparr>if_expire := 61000, if_attempts := 2, if_ordered := True\<rparr>)"
  by (rule inflight_codec_roundtrip) (simp add: inflight_ok_def inflight0_def i64_range_def)

end
