(* ===== verification/Meta.thy ===== *)
theory Meta
  imports Encoding
begin

text \<open>
  \<^verbatim>\<open>internal/core/meta/meta.go\<close>: the registry of topics and subscription groups, an
  in-memory cache written through to the store.  The record extends the node with the caches and
  the three settings the registry is built with; later components extend it in turn, so every
  operation here works on any of their states.  \<open>now\<close> is the clock reading of a call.

  The lemmas show what the cache promises: it says what the store holds (\<open>registry_ok\<close>), every
  operation that commits here keeps that, and a reload brings it back from any cache.
\<close>

section \<open>Names\<close>

definition dlq_prefix :: bytes where "dlq_prefix = ''%DLQ%''"

definition is_dlq_topic :: "bytes \<Rightarrow> bool" where
  "is_dlq_topic name \<longleftrightarrow> prefix dlq_prefix name"

definition dlq_topic_name :: "bytes \<Rightarrow> bytes" where
  "dlq_topic_name grp = dlq_prefix @ grp"

definition name_char :: "char \<Rightarrow> bool" where
  "name_char c \<longleftrightarrow> is_upper c \<or> is_lower c \<or> is_digit c \<or> c = CHR ''_'' \<or> c = CHR ''%'' \<or> c = CHR ''-''"

definition name_valid :: "bytes \<Rightarrow> bool" where
  "name_valid s \<longleftrightarrow> 1 \<le> length s \<and> length s \<le> 127 \<and> list_all name_char s"

definition validate_name :: "bytes \<Rightarrow> err + unit" where
  "validate_name s = (if name_valid s then Inr () else Inl (ErrBadName s))"

section \<open>Configurations\<close>

record topic_config =
  tc_name :: bytes
  tc_queues :: u32
  tc_created :: ms
  tc_retention :: ms

record group_config =
  gc_name :: bytes
  gc_created :: ms
  gc_max :: int

definition default_max_attempts :: int where "default_max_attempts = 16"
definition default_retention_ms :: int where "default_retention_ms = 3 * 24 * 60 * 60 * 1000"

text \<open>A \<open>time.Duration\<close> is an \<open>int64\<close> of nanoseconds; the product wraps.\<close>

definition wrap_i64 :: "int \<Rightarrow> int" where
  "wrap_i64 x = i64_of_u64 (u64_of_i64 x)"

definition effective_retention :: "topic_config \<Rightarrow> int" where
  "effective_retention t =
     (if tc_retention t \<le> 0 then wrap_i64 (default_retention_ms * 1000000)
      else wrap_i64 (tc_retention t * 1000000))"

definition effective_max_attempts :: "group_config \<Rightarrow> int" where
  "effective_max_attempts g = (if gc_max g \<le> 0 then default_max_attempts else gc_max g)"

definition topic_names :: "bytes list" where
  "topic_names = [''name'', ''queues'', ''created_at_ms'', ''retention_ms'']"

definition topic_put :: "bytes \<Rightarrow> json \<Rightarrow> topic_config \<Rightarrow> topic_config option" where
  "topic_put f j t =
     (if f = ''name'' then map_option (\<lambda>x. t\<lparr>tc_name := x\<rparr>) (as_str (tc_name t) j)
      else if f = ''queues'' then
        map_option (\<lambda>x. t\<lparr>tc_queues := of_nat x\<rparr>) (as_uint 32 (unat (tc_queues t)) j)
      else if f = ''created_at_ms'' then
        map_option (\<lambda>x. t\<lparr>tc_created := x\<rparr>) (as_int 64 (tc_created t) j)
      else map_option (\<lambda>x. t\<lparr>tc_retention := x\<rparr>) (as_int 64 (tc_retention t) j))"

definition topic_config0 :: topic_config where
  "topic_config0 = \<lparr>tc_name = [], tc_queues = 0, tc_created = 0, tc_retention = 0\<rparr>"

definition topic_json :: "topic_config \<Rightarrow> json" where
  "topic_json t = JObj (
     field ''name'' (JStr (tc_name t))
     @ field ''queues'' (num (uint (tc_queues t)))
     @ field ''created_at_ms'' (num (tc_created t))
     @ opt_field (tc_retention t \<noteq> 0) ''retention_ms'' (num (tc_retention t)) @ [])"

definition encode_topic :: "topic_config \<Rightarrow> bytes" where
  "encode_topic t = json_print (topic_json t)"

definition decode_topic :: "bytes \<Rightarrow> err + topic_config" where
  "decode_topic b =
     (case unmarshal topic_names topic_put b topic_config0 of None \<Rightarrow> Inl ErrJson | Some t \<Rightarrow> Inr t)"

definition group_names :: "bytes list" where
  "group_names = [''name'', ''created_at_ms'', ''max_attempts'']"

definition group_put :: "bytes \<Rightarrow> json \<Rightarrow> group_config \<Rightarrow> group_config option" where
  "group_put f j g =
     (if f = ''name'' then map_option (\<lambda>x. g\<lparr>gc_name := x\<rparr>) (as_str (gc_name g) j)
      else if f = ''created_at_ms'' then
        map_option (\<lambda>x. g\<lparr>gc_created := x\<rparr>) (as_int 64 (gc_created g) j)
      else map_option (\<lambda>x. g\<lparr>gc_max := x\<rparr>) (as_int 32 (gc_max g) j))"

definition group_config0 :: group_config where
  "group_config0 = \<lparr>gc_name = [], gc_created = 0, gc_max = 0\<rparr>"

definition group_json :: "group_config \<Rightarrow> json" where
  "group_json g = JObj (
     field ''name'' (JStr (gc_name g))
     @ field ''created_at_ms'' (num (gc_created g))
     @ opt_field (gc_max g \<noteq> 0) ''max_attempts'' (num (gc_max g)) @ [])"

definition encode_group :: "group_config \<Rightarrow> bytes" where
  "encode_group g = json_print (group_json g)"

definition decode_group :: "bytes \<Rightarrow> err + group_config" where
  "decode_group b =
     (case unmarshal group_names group_put b group_config0 of None \<Rightarrow> Inl ErrJson | Some g \<Rightarrow> Inr g)"

section \<open>The registry\<close>

record meta_node = node +
  topics :: "(bytes, topic_config) omap"
  groups :: "(bytes, group_config) omap"
  auto_create :: bool
  default_queues :: u32
  default_max :: int

definition load_topic :: "(bytes, topic_config) omap callback" where
  "load_topic m k v =
     (case decode_topic v of Inl e \<Rightarrow> (Inl e, m) | Inr tc \<Rightarrow> (Inr True, kv_set (tc_name tc) tc m))"

definition load_group :: "(bytes, group_config) omap callback" where
  "load_group m k v =
     (case decode_group v of Inl e \<Rightarrow> (Inl e, m) | Inr gc \<Rightarrow> (Inr True, kv_set (gc_name gc) gc m))"

text \<open>
  \<open>loadLocked\<close>: each cache is emptied before its scan and filled as the scan goes, so an
  error leaves what had been read by then.
\<close>

definition load_locked :: "env \<Rightarrow> 'z meta_node_scheme \<Rightarrow> (err + unit) \<times> 'z meta_node_scheme" where
  "load_locked E s =
     (case st_scan E s topic_meta_prefix (prefix_upper_bound topic_meta_prefix) 0 load_topic [] of
        (Inl e, ts) \<Rightarrow> (Inl e, s\<lparr>topics := ts\<rparr>)
      | (Inr _, ts) \<Rightarrow>
          (case st_scan E s group_meta_prefix (prefix_upper_bound group_meta_prefix) 0 load_group [] of
             (r, gs) \<Rightarrow> (r, s\<lparr>topics := ts, groups := gs\<rparr>)))"

definition reload :: "env \<Rightarrow> 'z meta_node_scheme \<Rightarrow> (err + unit) \<times> 'z meta_node_scheme" where
  "reload E s = load_locked E s"

text \<open>\<open>New\<close>: the settings, with the built-in limit for one that is not positive, then the load.\<close>

definition new_meta ::
    "env \<Rightarrow> bool \<Rightarrow> u32 \<Rightarrow> int \<Rightarrow> 'z meta_node_scheme \<Rightarrow> (err + unit) \<times> 'z meta_node_scheme" where
  "new_meta E auto queues max_attempts s =
     load_locked E (s\<lparr>auto_create := auto, default_queues := queues,
       default_max := (if max_attempts \<le> 0 then default_max_attempts else max_attempts)\<rparr>)"

definition get_topic :: "'z meta_node_scheme \<Rightarrow> bytes \<Rightarrow> topic_config option" where
  "get_topic s name = kv_get (topics s) name"

definition get_group :: "'z meta_node_scheme \<Rightarrow> bytes \<Rightarrow> group_config option" where
  "get_group s name = kv_get (groups s) name"

definition all_topics :: "'z meta_node_scheme \<Rightarrow> topic_config list" where
  "all_topics s = map snd (topics s)"

definition all_groups :: "'z meta_node_scheme \<Rightarrow> group_config list" where
  "all_groups s = map snd (groups s)"

definition create_topic ::
    "env \<Rightarrow> ms \<Rightarrow> bytes \<Rightarrow> u32 \<Rightarrow> 'z meta_node_scheme \<Rightarrow> (err + topic_config) \<times> 'z meta_node_scheme" where
  "create_topic E now name queues s =
     (case validate_name name of
        Inl e \<Rightarrow> (Inl e, s)
      | Inr _ \<Rightarrow>
          if queues = 0 then (Inl ErrQueuesZero, s)
          else (case kv_get (topics s) name of
             Some tc \<Rightarrow> (Inr tc, s)
           | None \<Rightarrow>
               let tc = \<lparr>tc_name = name, tc_queues = queues, tc_created = now,
                         tc_retention = default_retention_ms\<rparr>;
                   b = bset (topic_meta_key name) (encode_topic tc) new_batch
               in (case apply_or_forward E meta_group b s of
                     (Inl e, s) \<Rightarrow> (Inl e, s)
                   | (Inr _, s) \<Rightarrow> (Inr tc, s\<lparr>topics := kv_set name tc (topics s)\<rparr>))))"

definition ensure_topic ::
    "env \<Rightarrow> ms \<Rightarrow> bytes \<Rightarrow> 'z meta_node_scheme \<Rightarrow> (err + topic_config) \<times> 'z meta_node_scheme" where
  "ensure_topic E now name s =
     (case validate_name name of
        Inl e \<Rightarrow> (Inl e, s)
      | Inr _ \<Rightarrow>
          (case get_topic s name of
             Some tc \<Rightarrow> (Inr tc, s)
           | None \<Rightarrow>
               if \<not> auto_create s then (Inl (ErrTopicNotFound name), s)
               else create_topic E now name (default_queues s) s))"

definition ensure_group ::
    "env \<Rightarrow> ms \<Rightarrow> bytes \<Rightarrow> 'z meta_node_scheme \<Rightarrow> (err + group_config) \<times> 'z meta_node_scheme" where
  "ensure_group E now name s =
     (case kv_get (groups s) name of
        Some gc \<Rightarrow> (Inr gc, s)
      | None \<Rightarrow>
          (case validate_name name of
             Inl e \<Rightarrow> (Inl e, s)
           | Inr _ \<Rightarrow>
               let gc = \<lparr>gc_name = name, gc_created = now, gc_max = default_max s\<rparr>;
                   b = bset (group_meta_key name) (encode_group gc) new_batch
               in (case apply_or_forward E meta_group b s of
                     (Inl e, s) \<Rightarrow> (Inl e, s)
                   | (Inr _, s) \<Rightarrow> (Inr gc, s\<lparr>groups := kv_set name gc (groups s)\<rparr>))))"

definition update_topic_retention ::
    "env \<Rightarrow> bytes \<Rightarrow> ms \<Rightarrow> 'z meta_node_scheme \<Rightarrow> (err + topic_config) \<times> 'z meta_node_scheme" where
  "update_topic_retention E name retention s =
     (if retention \<le> 0 then (Inl (ErrRetention retention), s)
      else (case kv_get (topics s) name of
         None \<Rightarrow> (Inl (ErrTopicNotFound name), s)
       | Some tc \<Rightarrow>
           let tc = tc\<lparr>tc_retention := retention\<rparr>;
               b = bset (topic_meta_key name) (encode_topic tc) new_batch
           in (case apply_or_forward E meta_group b s of
                 (Inl e, s) \<Rightarrow> (Inl e, s)
               | (Inr _, s) \<Rightarrow> (Inr tc, s\<lparr>topics := kv_set name tc (topics s)\<rparr>))))"

definition delete_topic ::
    "env \<Rightarrow> bytes \<Rightarrow> 'z meta_node_scheme \<Rightarrow> (err + unit) \<times> 'z meta_node_scheme" where
  "delete_topic E name s =
     (case kv_get (topics s) name of
        None \<Rightarrow> (Inl (ErrTopicNotFound name), s)
      | Some _ \<Rightarrow>
          (case apply_or_forward E meta_group (bdelete (topic_meta_key name) new_batch) s of
             (Inl e, s) \<Rightarrow> (Inl e, s)
           | (Inr _, s) \<Rightarrow> (Inr (), s\<lparr>topics := kv_del name (topics s)\<rparr>)))"

definition delete_group ::
    "env \<Rightarrow> bytes \<Rightarrow> 'z meta_node_scheme \<Rightarrow> (err + unit) \<times> 'z meta_node_scheme" where
  "delete_group E name s =
     (case kv_get (groups s) name of
        None \<Rightarrow> (Inl (ErrGroupNotFound name), s)
      | Some _ \<Rightarrow>
          (case apply_or_forward E meta_group (bdelete (group_meta_key name) new_batch) s of
             (Inl e, s) \<Rightarrow> (Inl e, s)
           | (Inr _, s) \<Rightarrow> (Inr (), s\<lparr>groups := kv_del name (groups s)\<rparr>)))"

section \<open>Configuration codecs\<close>

definition topic_ok :: "topic_config \<Rightarrow> bool" where
  "topic_ok t \<longleftrightarrow> name_valid (tc_name t) \<and> i64_range (tc_created t) \<and> i64_range (tc_retention t)"

definition group_ok :: "group_config \<Rightarrow> bool" where
  "group_ok g \<longleftrightarrow> name_valid (gc_name g) \<and> i64_range (gc_created g) \<and>
     - (2 ^ 31) \<le> gc_max g \<and> gc_max g < 2 ^ 31"

lemma name_char_code: "name_char c \<Longrightarrow> code c < 128 \<and> c \<noteq> CHR ''/''"
  by (auto simp: name_char_def is_upper_code is_lower_code is_digit_code code_def)

lemma name_valid_ok: "name_valid s \<Longrightarrow> name_ok s"
  using name_char_code by (auto simp: name_valid_def name_ok_def list_all_iff)

lemma name_valid_utf8: "name_valid s \<Longrightarrow> utf8 s"
  using name_char_code by (intro utf8_ascii) (auto simp: name_valid_def list_all_iff)

lemma utf8_config_names [simp]: "k \<in> set (topic_names @ group_names) \<Longrightarrow> utf8 k"
  by (rule utf8_ascii) (auto simp: topic_names_def group_names_def code_def)

lemma topic_roundtrip: "topic_ok t \<Longrightarrow> decode_topic (encode_topic t) = Inr t"
proof -
  assume ok: "topic_ok t"
  obtain ms where ms: "topic_json t = JObj ms" by (simp add: topic_json_def)
  have "\<forall>(k, j) \<in> set ms. utf8 k \<and> good 1 j"
    using ms unfolding topic_json_def json.inject
    by (elim subst, intro good_member utf8_config_names)
      (use ok in \<open>auto simp: topic_names_def topic_ok_def name_valid_utf8\<close>)
  then have "json_parse (encode_topic t) = Some (JObj ms)"
    unfolding encode_topic_def ms by (intro json_parse_print) (simp add: max_nesting_def)
  moreover have "set_fields topic_names topic_put ms topic_config0 = Some t"
    using ms unfolding topic_json_def json.inject
    by (elim subst)
      ((rule set_fields_step, simp add: topic_names_def,
        use ok in \<open>simp add: topic_put_def topic_config0_def topic_ok_def as_int_num as_uint_num\<close>,
        simp)+, simp)
  ultimately show ?thesis by (simp add: decode_topic_def unmarshal_def)
qed

lemma group_roundtrip: "group_ok g \<Longrightarrow> decode_group (encode_group g) = Inr g"
proof -
  assume ok: "group_ok g"
  obtain ms where ms: "group_json g = JObj ms" by (simp add: group_json_def)
  have "\<forall>(k, j) \<in> set ms. utf8 k \<and> good 1 j"
    using ms unfolding group_json_def json.inject
    by (elim subst, intro good_member utf8_config_names)
      (use ok in \<open>auto simp: group_names_def group_ok_def name_valid_utf8\<close>)
  then have "json_parse (encode_group g) = Some (JObj ms)"
    unfolding encode_group_def ms by (intro json_parse_print) (simp add: max_nesting_def)
  moreover have "set_fields group_names group_put ms group_config0 = Some g"
    using ms unfolding group_json_def json.inject
    by (elim subst)
      ((rule set_fields_step, simp add: group_names_def,
        use ok in \<open>simp add: group_put_def group_config0_def group_ok_def as_int_num as_int_num32\<close>,
        simp)+, simp)
  ultimately show ?thesis by (simp add: decode_group_def unmarshal_def)
qed

interpretation topicc: codec encode_topic decode_topic topic_ok
  by unfold_locales (rule topic_roundtrip)

interpretation groupc: codec encode_group decode_group group_ok
  by unfold_locales (rule group_roundtrip)

section \<open>A cache written through\<close>

text \<open>The cache holds, decoded, exactly what the store holds under the keys of a family.\<close>

definition coherent :: "(bytes \<Rightarrow> bytes) \<Rightarrow> ('c \<Rightarrow> bytes) \<Rightarrow> kv \<Rightarrow> (bytes, 'c) omap \<Rightarrow> bool" where
  "coherent key enc m c \<longleftrightarrow> (\<forall>n. kv_get m (key n) = map_option enc (kv_get c n))"

locale write_through =
  fixes key :: "bytes \<Rightarrow> bytes"
    and pfx :: bytes
    and enc :: "'c \<Rightarrow> bytes"
    and dec :: "bytes \<Rightarrow> err + 'c"
    and name :: "'c \<Rightarrow> bytes"
    and ok :: "'c \<Rightarrow> bool"
  assumes key_pfx: "key n = pfx @ n"
    and bounded: "prefix_upper_bound pfx \<noteq> None"
    and dec_enc: "ok x \<Longrightarrow> dec (enc x) = Inr x"
begin

lemma key_inj: "key a = key b \<longleftrightarrow> a = b"
  by (simp add: key_pfx)

lemma put: "coherent key enc m c \<Longrightarrow> coherent key enc (kv_set (key n) (enc x) m) (kv_set n x c)"
  by (simp add: coherent_def kv_simps key_inj)

lemma del: "coherent key enc m c \<Longrightarrow> coherent key enc (kv_del (key n) m) (kv_del n c)"
  by (simp add: coherent_def kv_simps key_inj)

lemma frame: "coherent key enc m c \<Longrightarrow> (\<And>n. kv_get m' (key n) = kv_get m (key n)) \<Longrightarrow> coherent key enc m' c"
  by (simp add: coherent_def)

text \<open>The range the loader scans is the cache itself, encoded.\<close>

lemma range_cache:
  assumes m: "kv_ok m" and c: "kv_ok c" and co: "coherent key enc m c"
  shows "kv_range pfx (prefix_upper_bound pfx) m = map (\<lambda>(n, x). (key n, enc x)) c"
proof -
  obtain u where u: "prefix_upper_bound pfx = Some u" using bounded by auto
  have mem: "(k, v) \<in> set (kv_range pfx (Some u) m) \<longleftrightarrow>
      (k, v) \<in> set (map (\<lambda>(n, x). (key n, enc x)) c)" for k v
  proof -
    have "in_range pfx (Some u) k \<longleftrightarrow> (\<exists>n. k = key n)"
      using prefix_upper_bound_exact [OF u, of k] by (auto simp: in_range_def key_pfx prefix_def)
    moreover have "(k, v) \<in> set (map (\<lambda>(n, x). (key n, enc x)) c) \<longleftrightarrow>
        (\<exists>n x. kv_get c n = Some x \<and> k = key n \<and> v = enc x)"
      using kv_mem [OF c] by force
    moreover have "(k, v) \<in> set (kv_range pfx (Some u) m) \<longleftrightarrow>
        kv_get m k = Some v \<and> in_range pfx (Some u) k" by (rule kv_range_mem [OF m])
    moreover have "(kv_get m k = Some v \<and> (\<exists>n. k = key n)) \<longleftrightarrow>
        (\<exists>n x. kv_get c n = Some x \<and> k = key n \<and> v = enc x)"
      using co unfolding coherent_def by fastforce
    ultimately show ?thesis by simp
  qed
  have kv_ok_map: "kv_ok (map (\<lambda>(n, x). (key n, enc x)) c)"
    using c by (induction c) (auto simp: kv_ok_def key_pfx string_append_less)
  show ?thesis
    unfolding u
  proof (rule kv_ext [OF _ kv_ok_map])
    show r: "kv_ok (kv_range pfx (Some u) m)" using m by simp
    show "kv_get (kv_range pfx (Some u) m) k = kv_get (map (\<lambda>(n, x). (key n, enc x)) c) k" for k
      using mem kv_mem [OF r] kv_mem [OF kv_ok_map] by (metis option.exhaust)
  qed
qed

text \<open>The loader's callback, and what the scan makes of it.\<close>

lemma load_loop:
  assumes "\<And>acc k v. load acc k v = (case dec v of Inl e \<Rightarrow> (Inl e, acc)
      | Inr x \<Rightarrow> (Inr True, kv_set (name x) x acc))"
    and "\<forall>(n, x) \<in> set c. ok x \<and> name x = n" "kv_ok (acc @ c)"
  shows "scan_loop fin 0 i load (map (\<lambda>(n, x). (key n, enc x)) c) acc = (fin, acc @ c)"
  using assms(2,3)
proof (induction c arbitrary: acc i)
  case (Cons p c)
  obtain n x where p: "p = (n, x)" by (cases p)
  have "kv_set n x acc = acc @ [(n, x)]"
    using Cons.prems p kv_ok_append [of "acc @ [(n, x)]" c] by (intro kv_set_snoc) simp
  then show ?case
    using Cons p by (simp add: assms(1) dec_enc)
qed simp

end

lemma prefix_bounds [simp]:
  "prefix_upper_bound topic_meta_prefix \<noteq> None" "prefix_upper_bound group_meta_prefix \<noteq> None"
  by code_simp+

interpretation topicr: write_through topic_meta_key topic_meta_prefix encode_topic decode_topic tc_name topic_ok
  by unfold_locales (simp_all add: topic_meta_key_def topic_roundtrip)

interpretation groupr: write_through group_meta_key group_meta_prefix encode_group decode_group gc_name group_ok
  by unfold_locales (simp_all add: group_meta_key_def group_roundtrip)

section \<open>The registry invariant\<close>

definition configs_ok :: "'z meta_node_scheme \<Rightarrow> bool" where
  "configs_ok s \<longleftrightarrow>
     (\<forall>(n, t) \<in> set (topics s). topic_ok t \<and> tc_name t = n) \<and>
     (\<forall>(n, g) \<in> set (groups s). group_ok g \<and> gc_name g = n)"

definition registry_ok :: "'z meta_node_scheme \<Rightarrow> bool" where
  "registry_ok s \<longleftrightarrow> kv_ok (db s) \<and> kv_ok (topics s) \<and> kv_ok (groups s) \<and> configs_ok s \<and>
     coherent topic_meta_key encode_topic (db s) (topics s) \<and>
     coherent group_meta_key encode_group (db s) (groups s)"

text \<open>
  A commit of the registry's group happens here, and is never left in doubt.  (A write whose wait
  fails may be visible without the cache knowing; a forwarded one is in the cache before it is in
  this node's store.  Both are cured by the reload that follows the apply.)
\<close>

definition commits_here :: "env \<Rightarrow> bool" where
  "commits_here E \<longleftrightarrow> is_leader E meta_group \<and> (\<forall>b. commit E meta_group b \<noteq> WaitFailed True)"

lemma commits_here_cases:
  assumes "commits_here E" "apply_or_forward E meta_group b s = (r, s')"
  shows "(r = Inr () \<and> s' = set_db (apply_batch b (db s)) s) \<or> ((\<exists>e. r = Inl e) \<and> s' = s)"
  using assms
  by (auto simp: commits_here_def apply_or_forward_def rep_apply_def rep_apply_async_def
      split: outcome.splits if_splits)

lemma commits_here_standalone: "commits_here standalone"
  by (simp add: commits_here_def standalone_def)

lemma topic_group_key: "topic_meta_key a \<noteq> group_meta_key b"
  by (simp add: topic_meta_key_def group_meta_key_def prefix_defs)

lemma set_kv_set: "kv_ok m \<Longrightarrow> p \<in> set (kv_set k v m) \<Longrightarrow> p = (k, v) \<or> p \<in> set m"
  by (cases p) (auto simp: kv_mem kv_simps split: if_splits)

lemma set_kv_del: "p \<in> set (kv_del k m) \<Longrightarrow> p \<in> set m"
  by (simp add: kv_del_def)

lemma configs_ok_topic:
  "configs_ok s \<Longrightarrow> kv_ok (topics s) \<Longrightarrow> topic_ok t \<Longrightarrow> tc_name t = n \<Longrightarrow>
     configs_ok (s\<lparr>topics := kv_set n t (topics s)\<rparr>)"
  using set_kv_set [of "topics s" _ n t] by (fastforce simp: configs_ok_def)

lemma configs_ok_group:
  "configs_ok s \<Longrightarrow> kv_ok (groups s) \<Longrightarrow> group_ok g \<Longrightarrow> gc_name g = n \<Longrightarrow>
     configs_ok (s\<lparr>groups := kv_set n g (groups s)\<rparr>)"
  using set_kv_set [of "groups s" _ n g] by (fastforce simp: configs_ok_def)

lemma registry_put_topic:
  assumes "registry_ok s" "topic_ok t" "tc_name t = n"
  shows "registry_ok (set_db (kv_set (topic_meta_key n) (encode_topic t) (db s)) s
    \<lparr>topics := kv_set n t (topics s)\<rparr>)"
proof -
  have "coherent group_meta_key encode_group (kv_set (topic_meta_key n) (encode_topic t) (db s)) (groups s)"
    using assms(1) topic_group_key [of n, symmetric]
    by - (rule groupr.frame [where m = "db s"], simp_all add: registry_ok_def kv_simps)
  then show ?thesis
    using assms configs_ok_topic [of s t n] topicr.put
    by (simp add: registry_ok_def set_db_def configs_ok_def)
qed

lemma registry_put_group:
  assumes "registry_ok s" "group_ok g" "gc_name g = n"
  shows "registry_ok (set_db (kv_set (group_meta_key n) (encode_group g) (db s)) s
    \<lparr>groups := kv_set n g (groups s)\<rparr>)"
proof -
  have "coherent topic_meta_key encode_topic (kv_set (group_meta_key n) (encode_group g) (db s)) (topics s)"
    using assms(1) topic_group_key [of _ n]
    by - (rule topicr.frame [where m = "db s"], simp_all add: registry_ok_def kv_simps)
  then show ?thesis
    using assms configs_ok_group [of s g n] groupr.put
    by (simp add: registry_ok_def set_db_def configs_ok_def)
qed

lemma registry_del_topic:
  assumes "registry_ok s"
  shows "registry_ok (set_db (kv_del (topic_meta_key n) (db s)) s\<lparr>topics := kv_del n (topics s)\<rparr>)"
proof -
  have "coherent group_meta_key encode_group (kv_del (topic_meta_key n) (db s)) (groups s)"
    using assms(1) topic_group_key [of n, symmetric]
    by - (rule groupr.frame [where m = "db s"], simp_all add: registry_ok_def kv_simps)
  then show ?thesis
    using assms topicr.del by (auto simp: registry_ok_def set_db_def configs_ok_def dest!: set_kv_del)
qed

lemma registry_del_group:
  assumes "registry_ok s"
  shows "registry_ok (set_db (kv_del (group_meta_key n) (db s)) s\<lparr>groups := kv_del n (groups s)\<rparr>)"
proof -
  have "coherent topic_meta_key encode_topic (kv_del (group_meta_key n) (db s)) (topics s)"
    using assms(1) topic_group_key [of _ n]
    by - (rule topicr.frame [where m = "db s"], simp_all add: registry_ok_def kv_simps)
  then show ?thesis
    using assms groupr.del by (auto simp: registry_ok_def set_db_def configs_ok_def dest!: set_kv_del)
qed

section \<open>The operations keep the invariant\<close>

text \<open>What a registry operation does with the outcome of its commit.\<close>

lemma commit_then:
  assumes "commits_here E" "(case apply_or_forward E meta_group b s of
      (Inl e, s) \<Rightarrow> (Inl e, s) | (Inr _, s) \<Rightarrow> (Inr v, upd s)) = (r, s')"
    and "P s" "P (upd (set_db (apply_batch b (db s)) s))"
  shows "P s'"
proof -
  obtain r1 s1 where a: "apply_or_forward E meta_group b s = (r1, s1)" by fastforce
  show ?thesis using commits_here_cases [OF assms(1) a] assms(2-4) a by auto
qed

lemma create_topic_registry:
  assumes "commits_here E" "i64_range now" "create_topic E now name queues s = (r, s')" "registry_ok s"
  shows "registry_ok s'"
proof (cases "name_valid name \<and> queues \<noteq> 0 \<and> kv_get (topics s) name = None")
  case True
  let ?tc = "\<lparr>tc_name = name, tc_queues = queues, tc_created = now, tc_retention = default_retention_ms\<rparr>"
  have "topic_ok ?tc"
    using assms(2) True by (simp add: topic_ok_def i64_range_def default_retention_ms_def)
  then have "registry_ok (set_db (kv_set (topic_meta_key name) (encode_topic ?tc) (db s)) s
      \<lparr>topics := kv_set name ?tc (topics s)\<rparr>)"
    using assms(4) by (intro registry_put_topic) simp_all
  then show ?thesis
    using assms(3,4) True
    by - (rule commit_then [where b = "bset (topic_meta_key name) (encode_topic ?tc) new_batch" and s = s and v = ?tc
          and upd = "\<lambda>s. s\<lparr>topics := kv_set name ?tc (topics s)\<rparr>" and r = r and P = registry_ok, OF assms(1)],
      simp_all add: create_topic_def Let_def validate_name_def kv_simps set_db_def)
next
  case False
  then show ?thesis
    using assms(3,4) by (auto simp: create_topic_def validate_name_def split: if_splits option.splits)
qed

lemma ensure_topic_registry:
  assumes "commits_here E" "i64_range now" "ensure_topic E now name s = (r, s')" "registry_ok s"
  shows "registry_ok s'"
  using assms(3,4) create_topic_registry [OF assms(1,2)]
  by (auto simp: ensure_topic_def validate_name_def split: if_splits option.splits)

lemma ensure_group_registry:
  assumes "commits_here E" "i64_range now" "- (2 ^ 31) \<le> default_max s" "default_max s < 2 ^ 31"
    and "ensure_group E now name s = (r, s')" "registry_ok s"
  shows "registry_ok s'"
proof (cases "name_valid name \<and> kv_get (groups s) name = None")
  case True
  let ?gc = "\<lparr>gc_name = name, gc_created = now, gc_max = default_max s\<rparr>"
  have "group_ok ?gc"
    using assms(2-4) True by (simp add: group_ok_def)
  then have "registry_ok (set_db (kv_set (group_meta_key name) (encode_group ?gc) (db s)) s
      \<lparr>groups := kv_set name ?gc (groups s)\<rparr>)"
    using assms(6) by (intro registry_put_group) simp_all
  then show ?thesis
    using assms(5,6) True
    by - (rule commit_then [where b = "bset (group_meta_key name) (encode_group ?gc) new_batch" and s = s and v = ?gc
          and upd = "\<lambda>s. s\<lparr>groups := kv_set name ?gc (groups s)\<rparr>" and r = r and P = registry_ok, OF assms(1)],
      simp_all add: ensure_group_def Let_def validate_name_def kv_simps set_db_def)
next
  case False
  then show ?thesis
    using assms(5,6) by (auto simp: ensure_group_def validate_name_def split: if_splits option.splits)
qed

lemma update_topic_registry:
  assumes "commits_here E" "i64_range retention" "update_topic_retention E name retention s = (r, s')" "registry_ok s"
  shows "registry_ok s'"
proof (cases "0 < retention \<and> kv_get (topics s) name \<noteq> None")
  case True
  then obtain t where t: "kv_get (topics s) name = Some t" by auto
  let ?t = "t\<lparr>tc_retention := retention\<rparr>"
  have "topic_ok ?t \<and> tc_name ?t = name"
    using t assms(2,4) kv_mem [of "topics s" name t]
    by (auto simp: registry_ok_def configs_ok_def topic_ok_def)
  then have "registry_ok (set_db (kv_set (topic_meta_key name) (encode_topic ?t) (db s)) s
      \<lparr>topics := kv_set name ?t (topics s)\<rparr>)"
    using assms(4) by (intro registry_put_topic) simp_all
  then show ?thesis
    using assms(3,4) True t
    by - (rule commit_then [where b = "bset (topic_meta_key name) (encode_topic ?t) new_batch" and s = s and v = ?t
          and upd = "\<lambda>s. s\<lparr>topics := kv_set name ?t (topics s)\<rparr>" and r = r and P = registry_ok, OF assms(1)],
      simp_all add: update_topic_retention_def Let_def kv_simps set_db_def)
next
  case False
  then show ?thesis
    using assms(3,4) by (auto simp: update_topic_retention_def split: if_splits option.splits)
qed

lemma delete_topic_registry:
  assumes "commits_here E" "delete_topic E name s = (r, s')" "registry_ok s"
  shows "registry_ok s'"
proof (cases "kv_get (topics s) name")
  case (Some t)
  show ?thesis
    using assms(2,3) Some registry_del_topic [OF assms(3), of name]
    by - (rule commit_then [where b = "bdelete (topic_meta_key name) new_batch" and s = s and v = "()"
          and upd = "\<lambda>s. s\<lparr>topics := kv_del name (topics s)\<rparr>" and r = r and P = registry_ok, OF assms(1)],
      simp_all add: delete_topic_def kv_simps set_db_def)
qed (use assms(2,3) in \<open>simp add: delete_topic_def\<close>)

lemma delete_group_registry:
  assumes "commits_here E" "delete_group E name s = (r, s')" "registry_ok s"
  shows "registry_ok s'"
proof (cases "kv_get (groups s) name")
  case (Some t)
  show ?thesis
    using assms(2,3) Some registry_del_group [OF assms(3), of name]
    by - (rule commit_then [where b = "bdelete (group_meta_key name) new_batch" and s = s and v = "()"
          and upd = "\<lambda>s. s\<lparr>groups := kv_del name (groups s)\<rparr>" and r = r and P = registry_ok, OF assms(1)],
      simp_all add: delete_group_def kv_simps set_db_def)
qed (use assms(2,3) in \<open>simp add: delete_group_def\<close>)

section \<open>Reloading\<close>

text \<open>
  A reload that the disk serves rebuilds, from any caches at all, exactly the registry the store
  holds.
\<close>

definition disk_serves :: "env \<Rightarrow> bool" where
  "disk_serves E \<longleftrightarrow> (\<forall>k. \<not> it_open_fail E k \<and> \<not> it_end_fail E k)"

lemma disk_serves_standalone: "disk_serves standalone"
  by (simp add: disk_serves_def standalone_def)

lemma reload_registry:
  assumes ok: "registry_ok s" and E: "disk_serves E"
  shows "reload E (s\<lparr>topics := ts, groups := gs\<rparr>) = (Inr (), s)"
proof -
  have t: "scan_loop (Inr ()) 0 0 load_topic (map (\<lambda>(n, x). (topic_meta_key n, encode_topic x)) (topics s)) []
      = (Inr (), topics s)"
    using ok topicr.load_loop [of load_topic "topics s" "[]" "Inr ()" 0]
    by (auto simp: load_topic_def registry_ok_def configs_ok_def)
  have g: "scan_loop (Inr ()) 0 0 load_group (map (\<lambda>(n, x). (group_meta_key n, encode_group x)) (groups s)) []
      = (Inr (), groups s)"
    using ok groupr.load_loop [of load_group "groups s" "[]" "Inr ()" 0]
    by (auto simp: load_group_def registry_ok_def configs_ok_def)
  have "st_scan E (s\<lparr>topics := ts, groups := gs\<rparr>) topic_meta_prefix (prefix_upper_bound topic_meta_prefix) 0
      load_topic [] = (Inr (), topics s)"
    using ok E t topicr.range_cache [of "db s" "topics s"] by (simp add: st_scan_def disk_serves_def registry_ok_def)
  moreover have "st_scan E (s\<lparr>topics := ts, groups := gs\<rparr>) group_meta_prefix (prefix_upper_bound group_meta_prefix) 0
      load_group [] = (Inr (), groups s)"
    using ok E g groupr.range_cache [of "db s" "groups s"] by (simp add: st_scan_def disk_serves_def registry_ok_def)
  ultimately show ?thesis by (simp add: reload_def load_locked_def)
qed

section \<open>Reachable registries\<close>

text \<open>One call of the registry, with any arguments of its types and any outcome.\<close>

inductive registry_step :: "env \<Rightarrow> 'z meta_node_scheme \<Rightarrow> 'z meta_node_scheme \<Rightarrow> bool" for E where
  create: "i64_range now \<Longrightarrow> create_topic E now name queues s = (r, s') \<Longrightarrow> registry_step E s s'"
| ensure: "i64_range now \<Longrightarrow> ensure_topic E now name s = (r, s') \<Longrightarrow> registry_step E s s'"
| ensure_grp: "i64_range now \<Longrightarrow> ensure_group E now name s = (g, s') \<Longrightarrow> registry_step E s s'"
| update: "i64_range ret \<Longrightarrow> update_topic_retention E name ret s = (r, s') \<Longrightarrow> registry_step E s s'"
| delete: "delete_topic E name s = (u, s') \<Longrightarrow> registry_step E s s'"
| delete_grp: "delete_group E name s = (u, s') \<Longrightarrow> registry_step E s s'"

inductive registry_reach :: "env \<Rightarrow> 'z meta_node_scheme \<Rightarrow> 'z meta_node_scheme \<Rightarrow> bool" for E s0 where
  start: "registry_reach E s0 s0"
| more: "registry_reach E s0 s \<Longrightarrow> registry_step E s s' \<Longrightarrow> registry_reach E s0 s'"

definition max_attempts_ok :: "'z meta_node_scheme \<Rightarrow> bool" where
  "max_attempts_ok s \<longleftrightarrow> - (2 ^ 31) \<le> default_max s \<and> default_max s < 2 ^ 31"

lemma forward_keeps_settings:
  "apply_or_forward E g b s = (r, s') \<Longrightarrow> default_max s' = default_max s"
  by (auto simp: apply_or_forward_def rep_apply_def rep_apply_async_def set_db_def Let_def
      split: if_splits outcome.splits option.splits)

lemma create_keeps_settings: "create_topic E now name queues s = (r, s') \<Longrightarrow> default_max s' = default_max s"
  by (auto simp: create_topic_def Let_def split: sum.splits if_splits option.splits prod.splits
      dest: forward_keeps_settings)

lemma step_keeps_settings: "registry_step E s s' \<Longrightarrow> default_max s' = default_max s"
  by (induction rule: registry_step.induct)
    (auto simp: ensure_topic_def ensure_group_def update_topic_retention_def
      delete_topic_def delete_group_def Let_def create_keeps_settings
      split: sum.splits if_splits option.splits prod.splits dest: forward_keeps_settings)

lemma step_registry:
  assumes "commits_here E" "registry_step E s s'" "registry_ok s" "max_attempts_ok s"
  shows "registry_ok s' \<and> max_attempts_ok s'"
proof -
  have "registry_ok s'"
    using assms(2)
  proof cases
    case (create now name queues r)
    then show ?thesis using create_topic_registry [OF assms(1)] assms(3) by blast
  next
    case (ensure now name r)
    then show ?thesis using ensure_topic_registry [OF assms(1)] assms(3) by blast
  next
    case (ensure_grp now name g)
    then show ?thesis using ensure_group_registry [OF assms(1)] assms(3,4) unfolding max_attempts_ok_def by blast
  next
    case (update ret name r)
    then show ?thesis using update_topic_registry [OF assms(1)] assms(3) by blast
  next
    case (delete name u)
    then show ?thesis using delete_topic_registry [OF assms(1)] assms(3) by blast
  next
    case (delete_grp name u)
    then show ?thesis using delete_group_registry [OF assms(1)] assms(3) by blast
  qed
  then show ?thesis
    using step_keeps_settings [OF assms(2)] assms(4) by (simp add: max_attempts_ok_def)
qed

lemma reach_registry:
  assumes "registry_reach E s0 s" "commits_here E" "registry_ok s0" "max_attempts_ok s0"
  shows "registry_ok s \<and> max_attempts_ok s"
  using assms by (induction rule: registry_reach.induct) (auto dest: step_registry)

definition empty_meta :: meta_node where
  "empty_meta = \<lparr>db = [], sent = [], topics = [], groups = [], auto_create = True, default_queues = 4,
     default_max = 16\<rparr>"

lemma empty_meta_ok: "registry_ok empty_meta \<and> max_attempts_ok empty_meta"
  by (simp add: registry_ok_def empty_meta_def configs_ok_def coherent_def kv_simps max_attempts_ok_def)

section \<open>Properties\<close>



text \<open>A topic that exists is never recreated: creating or ensuring it again returns the stored
  configuration and changes nothing.\<close>

theorem create_topic_idempotent:
  assumes "create_topic E now name queues s = (Inr tc, s')"
  shows "create_topic E' now' name queues s' = (Inr tc, s') \<and> ensure_topic E' now' name s' = (Inr tc, s')"
proof -
  have "kv_get (topics s') name = Some tc" "name_valid name" "queues \<noteq> 0"
    using assms by (auto simp: create_topic_def validate_name_def Let_def kv_simps
        split: if_splits option.splits prod.splits sum.splits)
  then show ?thesis
    by (simp add: create_topic_def ensure_topic_def validate_name_def get_topic_def)
qed

theorem create_topic_idempotent_witness:
  "create_topic standalone 2000 ''t'' 4 (snd (create_topic standalone 1000 ''t'' 4 empty_meta)) =
     (fst (create_topic standalone 1000 ''t'' 4 empty_meta), snd (create_topic standalone 1000 ''t'' 4 empty_meta)) \<and>
   ensure_topic standalone 2000 ''t'' (snd (create_topic standalone 1000 ''t'' 4 empty_meta)) =
     (fst (create_topic standalone 1000 ''t'' 4 empty_meta), snd (create_topic standalone 1000 ''t'' 4 empty_meta))"
proof -
  obtain tc s' where c: "create_topic standalone 1000 ''t'' 4 empty_meta = (Inr tc, s')"
  proof -
    have "name_valid ''t''" by code_simp
    then show ?thesis
      using that by (simp add: create_topic_def validate_name_def empty_meta_def kv_simps
          apply_or_forward_standalone Let_def)
  qed
  then show ?thesis
    using create_topic_idempotent [OF c, of standalone 2000] by simp
qed



end
