(* ===== verification/Produce.thy ===== *)
theory Produce
  imports Meta
begin

text \<open>
  \<^verbatim>\<open>internal/core/produce/produce.go\<close>: appending to the queues.  The record adds the
  in-memory counters, the round robin positions, the wake-up channels and the delay counter, and
  the process-wide write format.

  An append is two critical sections: \<open>append_order\<close> selects the queue, takes the next
  offset and orders the batch; \<open>append_finish\<close> waits for durability outside the queue's
  lock and wakes the readers.  The step relation has them as separate steps, so that several
  appends may be between the two.  The clock is read once per call (\<open>now\<close>), and
  \<open>rnd\<close> are the random bytes of the message ID.
\<close>

section \<open>State\<close>

record queue_state =
  qs_next :: u64
  qs_loaded :: bool

record prod_node = meta_node +
  qstates :: "(bytes, queue_state) omap"
  rr :: "(bytes, u32) omap"
  wakers :: "(bytes, nat) omap"
  chan_count :: nat
  chans_closed :: "nat list"
  delay_next :: u64
  delay_loaded :: bool
  binary_encoding :: bool

definition max_body_size :: nat where "max_body_size = 4194304"

definition new_producer :: "'z prod_node_scheme \<Rightarrow> 'z prod_node_scheme" where
  "new_producer s = s\<lparr>qstates := [], rr := [], wakers := [], delay_next := 0, delay_loaded := False\<rparr>"

definition qkey :: "bytes \<Rightarrow> u32 \<Rightarrow> bytes" where
  "qkey topic q = topic @ ''/'' @ fmt_nat (unat q)"

definition invalidate_counters :: "'z prod_node_scheme \<Rightarrow> 'z prod_node_scheme" where
  "invalidate_counters s =
     s\<lparr>qstates := map (\<lambda>(k, qs). (k, qs\<lparr>qs_loaded := False\<rparr>)) (qstates s), delay_loaded := False\<rparr>"

section \<open>Waking the readers\<close>

text \<open>A channel is a number; closing it is what wakes the subscribers that hold it.\<close>

definition subscribe :: "bytes \<Rightarrow> 'z prod_node_scheme \<Rightarrow> nat \<times> 'z prod_node_scheme" where
  "subscribe topic s =
     (case kv_get (wakers s) topic of
        Some ch \<Rightarrow> (ch, s)
      | None \<Rightarrow> (chan_count s,
          s\<lparr>wakers := kv_set topic (chan_count s) (wakers s), chan_count := chan_count s + 1\<rparr>))"

definition wake_locked :: "bytes \<Rightarrow> 'z prod_node_scheme \<Rightarrow> 'z prod_node_scheme" where
  "wake_locked topic s =
     (case kv_get (wakers s) topic of
        None \<Rightarrow> s
      | Some ch \<Rightarrow> s\<lparr>chans_closed := ch # chans_closed s, wakers := kv_del topic (wakers s)\<rparr>)"

section \<open>Choosing the queue\<close>

text \<open>\<open>hash/fnv\<close>'s \<open>New32a\<close>.\<close>

definition fnv32a :: "bytes \<Rightarrow> u32" where
  "fnv32a s = foldl (\<lambda>h c. xor h (word_of_int (of_char c)) * 16777619) 2166136261 s"

definition leads :: "env \<Rightarrow> bytes \<Rightarrow> u32 \<Rightarrow> bool" where
  "leads E topic q = is_leader E (group_for_queue E topic q)"

text \<open>
  The loop over \<open>(rr + i) % Queues\<close>; when no queue is led here the message keeps the queue it
  came with (\<open>dflt\<close>), on which the leadership test that follows is made.
\<close>

definition pick_queue :: "env \<Rightarrow> bytes \<Rightarrow> u32 \<Rightarrow> u32 \<Rightarrow> u32 \<Rightarrow> u32" where
  "pick_queue E topic start queues dflt =
     (case find (leads E topic) (map (\<lambda>i. (start + of_nat i) mod queues) [0..<unat queues]) of
        Some q \<Rightarrow> q
      | None \<Rightarrow> dflt)"

definition select_rr :: "env \<Rightarrow> bytes \<Rightarrow> u32 \<Rightarrow> u32 \<Rightarrow> 'z prod_node_scheme \<Rightarrow> (err + u32) \<times> 'z prod_node_scheme" where
  "select_rr E topic queues dflt s =
     (let start = (case kv_get (rr s) topic of None \<Rightarrow> 0 | Some n \<Rightarrow> n);
          q = pick_queue E topic start queues dflt;
          s = s\<lparr>rr := kv_set topic (start + 1) (rr s)\<rparr>
      in if leads E topic q then (Inr q, s) else (Inl ErrNotLeader, s))"

definition select_queue ::
    "env \<Rightarrow> topic_config \<Rightarrow> message \<Rightarrow> 'z prod_node_scheme \<Rightarrow> (err + u32) \<times> 'z prod_node_scheme" where
  "select_queue E tc m =
     (if m_group m \<noteq> [] then
        (if tc_queues tc = 0 then sfail ErrPanic else sret (fnv32a (m_group m) mod tc_queues tc))
      else select_rr E (m_topic m) (tc_queues tc) (m_queue_id m))"

section \<open>Offsets\<close>

definition get_qstate :: "bytes \<Rightarrow> 'z prod_node_scheme \<Rightarrow> (err + queue_state) \<times> 'z prod_node_scheme" where
  "get_qstate k s =
     (case kv_get (qstates s) k of
        Some qs \<Rightarrow> (Inr qs, s)
      | None \<Rightarrow> (let qs = \<lparr>qs_next = 0, qs_loaded = False\<rparr>
                in (Inr qs, s\<lparr>qstates := kv_set k qs (qstates s)\<rparr>)))"

definition set_qstate :: "bytes \<Rightarrow> u64 \<Rightarrow> 'z prod_node_scheme \<Rightarrow> 'z prod_node_scheme" where
  "set_qstate k n s = s\<lparr>qstates := kv_set k \<lparr>qs_next = n, qs_loaded = True\<rparr> (qstates s)\<rparr>"

text \<open>A counter read from the store; \<open>GetU64\<close> panics on a value that is not eight bytes.\<close>

definition read_counter :: "env \<Rightarrow> bytes \<Rightarrow> 'z node_scheme \<Rightarrow> err + u64" where
  "read_counter E k s =
     ebind (st_get E s k) (\<lambda>v. case v of
        None \<Rightarrow> Inr 0
      | Some b \<Rightarrow> (case get_u64 b of None \<Rightarrow> Inl ErrPanic | Some n \<Rightarrow> Inr n))"

definition next_offset_locked :: "env \<Rightarrow> queue_state \<Rightarrow> bytes \<Rightarrow> u32 \<Rightarrow> 'z node_scheme \<Rightarrow> err + u64" where
  "next_offset_locked E qs topic q s =
     (if qs_loaded qs then Inr (qs_next qs) else read_counter E (alloc_key topic q) s)"

definition next_delay_seq_locked :: "env \<Rightarrow> 'z prod_node_scheme \<Rightarrow> err + u64" where
  "next_delay_seq_locked E s =
     (if delay_loaded s then Inr (delay_next s) else read_counter E delay_alloc_key s)"

text \<open>The queue and its next offset, and the ordering of a batch that takes offsets up to \<open>n\<close>.\<close>

definition take_offset ::
    "env \<Rightarrow> bytes \<Rightarrow> ('z prod_node_scheme \<Rightarrow> (err + u32) \<times> 'z prod_node_scheme) \<Rightarrow> 'z prod_node_scheme \<Rightarrow>
      (err + u32 \<times> u64) \<times> 'z prod_node_scheme" where
  "take_offset E topic select =
     sbind select (\<lambda>q.
     sbind (get_qstate (qkey topic q)) (\<lambda>qs.
     sbind (slift (next_offset_locked E qs topic q)) (\<lambda>off.
     sret (q, off))))"

definition order_batch ::
    "env \<Rightarrow> bytes \<Rightarrow> u32 \<Rightarrow> u64 \<Rightarrow> batch \<Rightarrow> 'z prod_node_scheme \<Rightarrow> (err + pending) \<times> 'z prod_node_scheme" where
  "order_batch E topic q n b =
     sbind (rep_apply_async E (group_for_queue E topic q) b) (\<lambda>pending.
     sbind (smod (set_qstate (qkey topic q) n)) (\<lambda>_.
     sret pending))"

section \<open>Append\<close>

definition stamp :: "ms \<Rightarrow> bytes \<Rightarrow> message \<Rightarrow> message" where
  "stamp now rnd m = m\<lparr>m_id := (if m_id m = [] then new_message_id rnd else m_id m),
     m_born_at := (if m_born_at m = 0 then now else m_born_at m), m_store_at := now\<rparr>"

definition set_index :: "message \<Rightarrow> batch \<Rightarrow> batch" where
  "set_index m b = foldl (\<lambda>b key. if key = [] then b
     else bset (key_idx_key (m_topic m) key (m_store_at m) (m_queue_id m) (m_offset m)) [] b) b (m_keys m)"

definition bad_body :: "message \<Rightarrow> bool" where
  "bad_body m \<longleftrightarrow> m_body m = [] \<or> max_body_size < length (m_body m)"

text \<open>The batch of one message: the message, the queue's counter, the index entries.\<close>

definition append_batch_of :: "bool \<Rightarrow> message \<Rightarrow> batch" where
  "append_batch_of binary m =
     set_index m (bset (alloc_key (m_topic m) (m_queue_id m)) (put_u64 (m_offset m + 1))
       (bset (msg_key (m_topic m) (m_queue_id m) (m_offset m)) (encode_message binary m) new_batch))"

definition append_order ::
    "env \<Rightarrow> ms \<Rightarrow> bytes \<Rightarrow> message \<Rightarrow> 'z prod_node_scheme \<Rightarrow> (err + message \<times> pending) \<times> 'z prod_node_scheme" where
  "append_order E now rnd m =
     (if bad_body m then sfail (ErrBodySize (length (m_body m)))
      else sbind (ensure_topic E now (m_topic m)) (\<lambda>tc.
        let m = stamp now rnd m in
        sbind (take_offset E (m_topic m) (select_queue E tc m)) (\<lambda>(q, off).
        sbind (sget binary_encoding) (\<lambda>binary.
        let m = m\<lparr>m_queue_id := q, m_offset := off\<rparr> in
        sbind (order_batch E (m_topic m) q (off + 1) (append_batch_of binary m)) (\<lambda>pending.
        sret (m, pending))))))"

definition append_finish ::
    "bytes \<Rightarrow> 'a \<Rightarrow> pending \<Rightarrow> 'z prod_node_scheme \<Rightarrow> (err + 'a) \<times> 'z prod_node_scheme" where
  "append_finish topic v p =
     sbind (slift (\<lambda>_. pending_wait p)) (\<lambda>_. sbind (smod (wake_locked topic)) (\<lambda>_. sret v))"

definition append_msg ::
    "env \<Rightarrow> ms \<Rightarrow> bytes \<Rightarrow> message \<Rightarrow> 'z prod_node_scheme \<Rightarrow> (err + message) \<times> 'z prod_node_scheme" where
  "append_msg E now rnd m =
     sbind (append_order E now rnd m) (\<lambda>(m', p). append_finish (m_topic m) m' p)"

section \<open>Delayed messages\<close>

text \<open>The result: the stored message, its sequence number, and whether it is in the staging area.\<close>

definition append_delay_order ::
    "env \<Rightarrow> ms \<Rightarrow> bytes \<Rightarrow> message \<Rightarrow> 'z prod_node_scheme \<Rightarrow>
      (err + message \<times> u64 \<times> pending) \<times> 'z prod_node_scheme" where
  "append_delay_order E now rnd m =
     (let m = stamp now rnd m in
      sbind (slift (next_delay_seq_locked E)) (\<lambda>sq.
      sbind (sget binary_encoding) (\<lambda>binary.
      sbind (rep_apply_async E meta_group
        (bset delay_alloc_key (put_u64 (sq + 1))
          (bset (delay_key (m_deliver_at m) sq) (encode_message binary m) new_batch))) (\<lambda>pending.
      sbind (smod (\<lambda>s. s\<lparr>delay_next := sq + 1, delay_loaded := True\<rparr>)) (\<lambda>_.
      sret (m, sq, pending))))))"

definition append_delay ::
    "env \<Rightarrow> ms \<Rightarrow> bytes \<Rightarrow> message \<Rightarrow> 'z prod_node_scheme \<Rightarrow>
      (err + message \<times> u64 \<times> bool) \<times> 'z prod_node_scheme" where
  "append_delay E now rnd m =
     (if m_deliver_at m \<le> 0 then sfail (ErrDueNotPositive (m_deliver_at m))
      else if bad_body m then sfail (ErrBodySize (length (m_body m)))
      else sbind (ensure_topic E now (m_topic m)) (\<lambda>_.
        if m_deliver_at m \<le> now then
          sbind (append_msg E now rnd m) (\<lambda>stored. sret (stored, 0, False))
        else
          sbind (append_delay_order E now rnd m) (\<lambda>(stored, sq, p).
          sbind (slift (\<lambda>_. pending_wait p)) (\<lambda>_. sret (stored, sq, True)))))"

section \<open>Batches\<close>

fun check_batch :: "bytes \<Rightarrow> message list \<Rightarrow> err + unit" where
  "check_batch topic [] = Inr ()"
| "check_batch topic (m # ms) =
     (if m_topic m \<noteq> topic then Inl ErrBatchTopic
      else if m_transactional m \<or> 0 < m_deliver_at m \<or> m_group m \<noteq> [] then Inl ErrBatchKind
      else if bad_body m then Inl (ErrBodySize (length (m_body m)))
      else check_batch topic ms)"

text \<open>The random bytes of the batch's message IDs, one draw per message.\<close>

definition stamp_all :: "ms \<Rightarrow> (nat \<Rightarrow> bytes) \<Rightarrow> message list \<Rightarrow> message list" where
  "stamp_all now rnd ms = map (\<lambda>(i, m). stamp now (rnd i) m) (List.enumerate 0 ms)"

fun place_all :: "u32 \<Rightarrow> u64 \<Rightarrow> message list \<Rightarrow> message list" where
  "place_all q off [] = []"
| "place_all q off (m # ms) = m\<lparr>m_queue_id := q, m_offset := off\<rparr> # place_all q (off + 1) ms"

fun batch_loop :: "bool \<Rightarrow> message list \<Rightarrow> batch \<Rightarrow> batch" where
  "batch_loop binary [] b = b"
| "batch_loop binary (m # ms) b =
     batch_loop binary ms
       (set_index m (bset (msg_key (m_topic m) (m_queue_id m) (m_offset m)) (encode_message binary m) b))"

definition batch_order ::
    "env \<Rightarrow> ms \<Rightarrow> (nat \<Rightarrow> bytes) \<Rightarrow> message list \<Rightarrow> 'z prod_node_scheme \<Rightarrow>
      (err + message list \<times> pending) \<times> 'z prod_node_scheme" where
  "batch_order E now rnd ms =
     (if ms = [] then sfail ErrBatchEmpty
      else let topic = m_topic (hd ms) in
        sbind (slift (\<lambda>_. check_batch topic ms)) (\<lambda>_.
        sbind (ensure_topic E now topic) (\<lambda>tc.
        sbind (take_offset E topic (select_rr E topic (tc_queues tc) 0)) (\<lambda>(q, off).
        sbind (sget binary_encoding) (\<lambda>binary.
        let placed = place_all q off (stamp_all now rnd ms);
            n = off + of_nat (length ms);
            b = bset (alloc_key topic q) (put_u64 n) (batch_loop binary placed new_batch)
        in sbind (order_batch E topic q n b) (\<lambda>pending.
           sret (placed, pending)))))))"

definition append_batch ::
    "env \<Rightarrow> ms \<Rightarrow> (nat \<Rightarrow> bytes) \<Rightarrow> message list \<Rightarrow> 'z prod_node_scheme \<Rightarrow>
      (err + message list) \<times> 'z prod_node_scheme" where
  "append_batch E now rnd ms =
     sbind (batch_order E now rnd ms) (\<lambda>(placed, p). append_finish (m_topic (hd ms)) placed p)"


section \<open>What is stored in a queue\<close>

definition stored :: "kv \<Rightarrow> bytes \<Rightarrow> u32 \<Rightarrow> u64 \<Rightarrow> bytes option" where
  "stored m t q off = kv_get m (msg_key t q off)"

definition counter_of :: "kv \<Rightarrow> bytes \<Rightarrow> u64" where
  "counter_of m k =
     (case kv_get m k of None \<Rightarrow> 0 | Some b \<Rightarrow> (case get_u64 b of None \<Rightarrow> 0 | Some n \<Rightarrow> n))"

definition alloc_of :: "kv \<Rightarrow> bytes \<Rightarrow> u32 \<Rightarrow> u64" where
  "alloc_of m t q = counter_of m (alloc_key t q)"

text \<open>Keys that the queues' messages, counters and index do not use.\<close>

definition off_log :: "bytes \<Rightarrow> bool" where
  "off_log k \<longleftrightarrow> \<not> prefix msg_prefix k \<and> \<not> prefix alloc_prefix k \<and> \<not> prefix key_idx_prefix_c k"

lemma msg_key_eq: "name_ok t \<Longrightarrow> name_ok t' \<Longrightarrow> msg_key t q o1 = msg_key t' q' o2 \<longleftrightarrow> t = t' \<and> q = q' \<and> o1 = o2"
  using msgk.enc_inj [of "(t, q, o1)" "(t', q', o2)"] by auto

lemma alloc_key_eq: "name_ok t \<Longrightarrow> name_ok t' \<Longrightarrow> alloc_key t q = alloc_key t' q' \<longleftrightarrow> t = t' \<and> q = q'"
  by (simp add: alloc_key_def name_ok_def cut_byte_inj put_u32_inj)

lemma log_keys_apart [simp]:
  "msg_key t q n \<noteq> alloc_key t' q'" "alloc_key t' q' \<noteq> msg_key t q n"
  "msg_key t q n \<noteq> key_idx_key t' k ms q' n'" "alloc_key t q \<noteq> key_idx_key t' k ms q' n'"
  "key_idx_key t' k ms q' n' \<noteq> msg_key t q n" "key_idx_key t' k ms q' n' \<noteq> alloc_key t q"
  by (simp_all add: msg_key_def alloc_key_def key_idx_key_def prefix_defs)

lemma off_log_apart:
  assumes "off_log k"
  shows "k \<noteq> msg_key t q n" "k \<noteq> alloc_key t q" "k \<noteq> key_idx_key t u ms q n"
  using assms by (auto simp: off_log_def msg_key_def alloc_key_def key_idx_key_def)

text \<open>Appending also creates topics; these keys it leaves alone.\<close>

definition aside :: "bytes \<Rightarrow> bool" where
  "aside k \<longleftrightarrow> off_log k \<and> \<not> prefix topic_meta_prefix k"

definition same_aside :: "kv \<Rightarrow> kv \<Rightarrow> bool" where
  "same_aside m m' \<longleftrightarrow> (\<forall>k. aside k \<longrightarrow> kv_get m' k = kv_get m k)"

lemma aside_keys [simp]:
  "aside (group_meta_key g)" "aside (cursor_key g t q)" "aside (inflight_key g t q n)" "aside (delay_key d n)"
  "aside delay_alloc_key" "aside (half_key d tx)" "aside (half_idx_key tx)"
  by (simp_all add: aside_def off_log_def group_meta_key_def cursor_key_def inflight_key_def
      delay_key_def delay_alloc_key_def half_key_def half_idx_key_def prefix_defs)

lemma same_asideD: "same_aside m m' \<Longrightarrow> aside k \<Longrightarrow> kv_get m' k = kv_get m k"
  by (simp add: same_aside_def)

lemma same_aside_refl [simp]: "same_aside m m"
  by (simp add: same_aside_def)

lemma same_aside_trans: "same_aside a b \<Longrightarrow> same_aside b c \<Longrightarrow> same_aside a c"
  by (simp add: same_aside_def)

lemma same_aside_set [simp]: "\<not> aside k \<Longrightarrow> same_aside m (kv_set k v m)"
  by (auto simp: same_aside_def kv_simps)

lemma off_log_keys [simp]:
  "off_log (topic_meta_key t)" "off_log (group_meta_key g)" "off_log (cursor_key g t q)"
  "off_log (inflight_key g t q n)" "off_log (delay_key d n)" "off_log delay_alloc_key"
  "off_log (half_key d tx)" "off_log (half_idx_key tx)"
  by (simp_all add: off_log_def topic_meta_key_def group_meta_key_def cursor_key_def inflight_key_def
      delay_key_def delay_alloc_key_def half_key_def half_idx_key_def prefix_defs)

text \<open>Writing off the log leaves the log as it is.\<close>

definition same_log :: "kv \<Rightarrow> kv \<Rightarrow> bool" where
  "same_log m m' \<longleftrightarrow> (\<forall>k. \<not> off_log k \<longrightarrow> kv_get m' k = kv_get m k)"

lemma same_logI: "(\<And>k. \<not> off_log k \<Longrightarrow> kv_get m' k = kv_get m k) \<Longrightarrow> same_log m m'"
  by (simp add: same_log_def)

lemma log_key_on [simp]: "\<not> off_log (msg_key t q n)" "\<not> off_log (alloc_key t q)"
  using off_log_apart by blast+

lemma same_logD: "same_log m m' \<Longrightarrow> stored m' t q off = stored m t q off" "same_log m m' \<Longrightarrow> alloc_of m' t q = alloc_of m t q"
  by (simp_all add: same_log_def stored_def alloc_of_def counter_of_def)

lemma same_log_refl [simp]: "same_log m m"
  by (simp add: same_log_def)

lemma same_log_trans: "same_log a b \<Longrightarrow> same_log b c \<Longrightarrow> same_log a c"
  by (simp add: same_log_def)

lemma same_log_set [simp]: "off_log k \<Longrightarrow> same_log m (kv_set k v m)"
  by (rule same_logI) (auto simp: kv_simps)

lemma same_log_batch:
  "(\<And>x k. x \<in> set b \<Longrightarrow> op_hits x k \<Longrightarrow> off_log k) \<Longrightarrow> same_log m (apply_batch b m)"
  by (rule same_logI) (meson apply_batch_frame)

section \<open>Appending to a queue's log\<close>

text \<open>
  The abstract operation: the queue's log gains the given records at consecutive offsets, its
  counter moves past them, the index entries \<open>idx\<close> are there, and nothing else of any queue
  changes.
\<close>

definition in_span :: "u64 \<Rightarrow> nat \<Rightarrow> u64 \<Rightarrow> bool" where
  "in_span off k n \<longleftrightarrow> unat off \<le> unat n \<and> unat n < unat off + k"

definition log_append ::
    "bytes \<Rightarrow> u32 \<Rightarrow> u64 \<Rightarrow> bytes list \<Rightarrow> bytes list \<Rightarrow> kv \<Rightarrow> kv \<Rightarrow> bool" where
  "log_append t q off raws idx m m' \<longleftrightarrow>
     (\<forall>t' q' n. name_ok t' \<longrightarrow> stored m' t' q' n =
        (if t' = t \<and> q' = q \<and> in_span off (length raws) n
         then Some (raws ! (unat n - unat off)) else stored m t' q' n)) \<and>
     (\<forall>t' q'. name_ok t' \<longrightarrow> alloc_of m' t' q' =
        (if t' = t \<and> q' = q then off + of_nat (length raws) else alloc_of m t' q')) \<and>
     (\<forall>k. prefix msg_prefix k \<longrightarrow> (\<forall>n. k \<noteq> msg_key t q n) \<longrightarrow> kv_get m' k = kv_get m k) \<and>
     (\<forall>k \<in> set idx. kv_get m' k = Some []) \<and> same_aside m m'"

lemma get_set_index:
  "(\<And>t u ms q n. k \<noteq> key_idx_key t u ms q n) \<Longrightarrow>
     kv_get (apply_batch (set_index m b) kv) k = kv_get (apply_batch b kv) k"
proof -
  assume k: "\<And>t u ms q n. k \<noteq> key_idx_key t u ms q n"
  have "kv_get (apply_batch (foldl (\<lambda>b key. if key = [] then b
     else bset (key_idx_key (m_topic m) key (m_store_at m) (m_queue_id m) (m_offset m)) [] b) b ks) kv) k =
     kv_get (apply_batch b kv) k" for ks
    by (induction ks arbitrary: b) (simp_all add: kv_simps k)
  then show ?thesis by (simp add: set_index_def)
qed

lemma msg_prefix_apart: "prefix msg_prefix k \<Longrightarrow> k \<noteq> alloc_key t q" "prefix msg_prefix k \<Longrightarrow> k \<noteq> key_idx_key t u ms q n"
  by (auto simp: alloc_key_def key_idx_key_def prefix_defs)

definition index_keys :: "message \<Rightarrow> bytes list" where
  "index_keys m = map (\<lambda>key. key_idx_key (m_topic m) key (m_store_at m) (m_queue_id m) (m_offset m))
     (filter (\<lambda>key. key \<noteq> []) (m_keys m))"

lemma get_set_index_in:
  assumes "k \<in> set (index_keys m) \<or> kv_get (apply_batch b kv) k = Some []"
  shows "kv_get (apply_batch (set_index m b) kv) k = Some []"
proof -
  let ?key = "\<lambda>u. key_idx_key (m_topic m) u (m_store_at m) (m_queue_id m) (m_offset m)"
  have "(\<exists>u \<in> set us. u \<noteq> [] \<and> k = ?key u) \<or> kv_get (apply_batch b kv) k = Some [] \<Longrightarrow>
      kv_get (apply_batch (foldl (\<lambda>b u. if u = [] then b else bset (?key u) [] b) b us) kv) k = Some []" for us
    by (induction us arbitrary: b) (auto simp: kv_simps)
  from this [of "m_keys m"] show ?thesis using assms by (auto simp: set_index_def index_keys_def)
qed

lemmas log_gets = get_set_index stored_def alloc_of_def counter_of_def kv_simps

lemma in_span_one: "in_span off (Suc 0) n \<longleftrightarrow> n = off"
  by (auto simp: in_span_def word_unat_eq_iff)

lemma log_append_one:
  assumes "name_ok (m_topic m)"
  shows "log_append (m_topic m) (m_queue_id m) (m_offset m) [encode_message binary m] (index_keys m) kv
    (apply_batch (append_batch_of binary m) kv)"
proof -
  let ?m' = "apply_batch (append_batch_of binary m) kv"
  have st: "stored ?m' t' q' n = (if t' = m_topic m \<and> q' = m_queue_id m \<and> n = m_offset m
      then Some (encode_message binary m) else stored kv t' q' n)" if "name_ok t'" for t' q' n
    using assms that msg_key_eq [of t' "m_topic m" q' n] by (simp add: append_batch_of_def log_gets)
  have al: "alloc_of ?m' t' q' = (if t' = m_topic m \<and> q' = m_queue_id m then m_offset m + 1 else alloc_of kv t' q')"
    if "name_ok t'" for t' q'
    using assms that alloc_key_eq [of t' "m_topic m" q'] by (simp add: append_batch_of_def log_gets)
  have fr: "kv_get ?m' k = kv_get kv k" if "off_log k" for k
    using off_log_apart [OF that] by (simp add: append_batch_of_def log_gets)
  have ix: "\<forall>k \<in> set (index_keys m). kv_get ?m' k = Some []"
    by (simp add: append_batch_of_def get_set_index_in)
  have ot: "kv_get ?m' k = kv_get kv k"
    if "prefix msg_prefix k" "\<forall>n. k \<noteq> msg_key (m_topic m) (m_queue_id m) n" for k
    using that msg_prefix_apart [OF that(1)] by (simp add: append_batch_of_def log_gets)
  show ?thesis
    unfolding log_append_def same_aside_def aside_def
    by (intro conjI allI impI) (simp_all add: st al fr ix ot in_span_one)
qed

lemma length_place_all [simp]: "length (place_all q off ms) = length ms"
  by (induction ms arbitrary: off) simp_all

lemma nth_place_all:
  "i < length ms \<Longrightarrow> place_all q off ms ! i = (ms ! i)\<lparr>m_queue_id := q, m_offset := off + of_nat i\<rparr>"
  by (induction ms arbitrary: off i) (auto simp: nth_Cons add.assoc split: nat.splits)

lemma unat_succ: "unat (off::u64) + 1 < 2 ^ 64 \<Longrightarrow> unat (off + 1) = Suc (unat off)"
  using unat_add_lem [of off 1] by simp

lemma batch_loop_stored:
  assumes "name_ok t" "name_ok t'"
  shows "(\<And>m. m \<in> set ms \<Longrightarrow> m_topic m = t) \<Longrightarrow> unat off + length ms < 2 ^ 64 \<Longrightarrow>
    stored (apply_batch (batch_loop binary (place_all q off ms) b) kv) t' q' n =
      (if t' = t \<and> q' = q \<and> unat off \<le> unat n \<and> unat n < unat off + length ms
       then Some (encode_message binary (place_all q off ms ! (unat n - unat off)))
       else stored (apply_batch b kv) t' q' n)"
proof (induction ms arbitrary: off b)
  case Nil
  then show ?case by auto
next
  case (Cons m ms)
  have topic: "m_topic m = t" using Cons.prems(1) by simp
  have succ: "unat (off + 1) = Suc (unat off)" using Cons.prems(2) by (intro unat_succ) simp
  have here: "unat n = unat off \<longleftrightarrow> n = off" by (simp add: word_unat_eq_iff)
  have IH: "stored (apply_batch (batch_loop binary (place_all q (off + 1) ms) b') kv) t' q' n =
      (if t' = t \<and> q' = q \<and> unat (off + 1) \<le> unat n \<and> unat n < unat (off + 1) + length ms
       then Some (encode_message binary (place_all q (off + 1) ms ! (unat n - unat (off + 1))))
       else stored (apply_batch b' kv) t' q' n)" for b'
    using Cons.prems succ by (intro Cons.IH) simp_all
  consider "t' = t \<and> q' = q \<and> n = off" | "t' = t \<and> q' = q \<and> unat off < unat n" | "\<not> (t' = t \<and> q' = q \<and> unat off \<le> unat n)"
    using here by linarith
  then show ?case
  proof cases
    case 1
    then show ?thesis using IH succ topic by (simp add: log_gets)
  next
    case 2
    then have "unat n - unat off = Suc (unat n - Suc (unat off))" "n \<noteq> off" by auto
    then show ?thesis using IH succ topic 2 assms by (auto simp: log_gets msg_key_eq)
  next
    case 3
    then show ?thesis using IH succ topic assms by (auto simp: log_gets msg_key_eq)
  qed
qed

lemma batch_loop_other:
  "(\<And>m. m \<in> set ms \<Longrightarrow> k \<noteq> msg_key (m_topic m) (m_queue_id m) (m_offset m)) \<Longrightarrow> (\<And>t u ms q n. k \<noteq> key_idx_key t u ms q n) \<Longrightarrow>
     kv_get (apply_batch (batch_loop binary ms b) kv) k = kv_get (apply_batch b kv) k"
  by (induction ms arbitrary: b) (simp_all add: get_set_index kv_simps)

lemma batch_loop_index:
  "k \<in> set (concat (map index_keys ms)) \<or> kv_get (apply_batch b kv) k = Some [] \<Longrightarrow>
     (\<And>t q n. k \<noteq> msg_key t q n) \<Longrightarrow>
     kv_get (apply_batch (batch_loop binary ms b) kv) k = Some []"
proof (induction ms arbitrary: b)
  case (Cons m ms)
  have "k \<in> set (index_keys m) \<or> kv_get (apply_batch b kv) k = Some [] \<Longrightarrow>
      kv_get (apply_batch (set_index m (bset (msg_key (m_topic m) (m_queue_id m) (m_offset m)) (encode_message binary m) b)) kv) k = Some []"
    using Cons.prems(2) by (intro get_set_index_in) (auto simp: kv_simps)
  then show ?case
    using Cons.prems by (auto intro!: Cons.IH)
qed simp

lemma log_append_batch:
  assumes "name_ok t" "\<And>m. m \<in> set ms \<Longrightarrow> m_topic m = t" "unat off + length ms < 2 ^ 64"
    and "placed = place_all q off ms"
  shows "log_append t q off (map (encode_message binary) placed) (concat (map index_keys placed)) kv
    (apply_batch (bset (alloc_key t q) (put_u64 (off + of_nat (length ms))) (batch_loop binary placed new_batch)) kv)"
  unfolding log_append_def same_aside_def aside_def
proof (intro conjI allI impI)
  fix t' q' n
  assume "name_ok t'"
  then show "stored (apply_batch (bset (alloc_key t q) (put_u64 (off + of_nat (length ms))) (batch_loop binary placed new_batch)) kv) t' q' n =
      (if t' = t \<and> q' = q \<and> in_span off (length (map (encode_message binary) placed)) n
       then Some (map (encode_message binary) placed ! (unat n - unat off)) else stored kv t' q' n)"
    using batch_loop_stored [OF assms(1) _ assms(2,3), of t' binary q new_batch kv q' n]
    by (auto simp: assms(4) stored_def kv_simps in_span_def)
next
  fix t' q'
  assume "name_ok t'"
  then show "alloc_of (apply_batch (bset (alloc_key t q) (put_u64 (off + of_nat (length ms))) (batch_loop binary placed new_batch)) kv) t' q' =
      (if t' = t \<and> q' = q then off + of_nat (length (map (encode_message binary) placed)) else alloc_of kv t' q')"
    using assms(1) batch_loop_other [of placed "alloc_key t' q'" binary new_batch kv]
    by (auto simp: assms(4) alloc_of_def counter_of_def kv_simps alloc_key_eq)
next
  have "kv_get (apply_batch (batch_loop binary placed new_batch) kv) k = Some [] \<and> k \<noteq> alloc_key t q"
    if "k \<in> set (concat (map index_keys placed))" for k
    using that batch_loop_index [of k placed new_batch kv binary] by (auto simp: index_keys_def)
  then show "\<forall>k \<in> set (concat (map index_keys placed)).
      kv_get (apply_batch (bset (alloc_key t q) (put_u64 (off + of_nat (length ms))) (batch_loop binary placed new_batch)) kv) k = Some []"
    by (simp add: kv_simps)
next
  fix k
  assume "off_log k \<and> \<not> prefix topic_meta_prefix k"
  then show "kv_get (apply_batch (bset (alloc_key t q) (put_u64 (off + of_nat (length ms))) (batch_loop binary placed new_batch)) kv) k = kv_get kv k"
    using batch_loop_other [of placed k binary new_batch kv] by (simp add: kv_simps off_log_apart)
next
  fix k
  assume k: "prefix msg_prefix k" "\<forall>n. k \<noteq> msg_key t q n"
  have "m_topic m = t \<and> m_queue_id m = q" if "m \<in> set placed" for m
    using that assms(2) by (auto simp: assms(4) in_set_conv_nth nth_place_all) (metis nth_mem)
  then show "kv_get (apply_batch (bset (alloc_key t q) (put_u64 (off + of_nat (length ms))) (batch_loop binary placed new_batch)) kv) k = kv_get kv k"
    using k batch_loop_other [of placed k binary new_batch kv] by (auto simp: kv_simps dest: msg_prefix_apart)
qed

section \<open>The offset invariant\<close>

text \<open>
  Every stored message is below its queue's counter, and the next offset to be taken is not below
  the stored counter (it is above it after a write whose wait failed).
\<close>

definition below_alloc :: "kv \<Rightarrow> bool" where
  "below_alloc m \<longleftrightarrow> (\<forall>t q off. name_ok t \<longrightarrow> stored m t q off \<noteq> None \<longrightarrow> off < alloc_of m t q)"

text \<open>The offset the next append to a queue takes.\<close>

definition next_free :: "'z prod_node_scheme \<Rightarrow> bytes \<Rightarrow> u32 \<Rightarrow> u64" where
  "next_free s t q = (case kv_get (qstates s) (qkey t q) of
      Some qs \<Rightarrow> if qs_loaded qs then qs_next qs else alloc_of (db s) t q
    | None \<Rightarrow> alloc_of (db s) t q)"

lemma fmt_nat_digit: "c \<in> set (fmt_nat n) \<Longrightarrow> is_digit c"
  using fmt_nat_digits [of n] by (auto simp: list_all_iff)

lemma fmt_nat_inj: "fmt_nat a = fmt_nat b \<longleftrightarrow> a = b"
  by (metis digits_of_fmt option.inject)

lemma qkey_eq: "name_ok t \<Longrightarrow> name_ok t' \<Longrightarrow> qkey t q = qkey t' q' \<longleftrightarrow> t = t' \<and> q = q'"
  by (simp add: qkey_def name_ok_def cut_byte_inj fmt_nat_inj word_unat_eq_iff)

definition offsets_ok :: "'z prod_node_scheme \<Rightarrow> bool" where
  "offsets_ok s \<longleftrightarrow> below_alloc (db s) \<and> (\<forall>t q. name_ok t \<longrightarrow> alloc_of (db s) t q \<le> next_free s t q)"

lemma next_free_fresh:
  "offsets_ok s \<Longrightarrow> name_ok t \<Longrightarrow> next_free s t q \<le> off \<Longrightarrow> stored (db s) t q off = None"
  by (meson below_alloc_def leD offsets_ok_def order_trans)


section \<open>Steps that take no offset\<close>

definition quiet :: "'z prod_node_scheme \<Rightarrow> 'z prod_node_scheme \<Rightarrow> bool" where
  "quiet s s' \<longleftrightarrow> same_log (db s) (db s') \<and> same_aside (db s) (db s') \<and>
     (\<forall>t q. name_ok t \<longrightarrow> next_free s' t q = next_free s t q) \<and>
     delay_next s' = delay_next s \<and> delay_loaded s' = delay_loaded s \<and>
     binary_encoding s' = binary_encoding s"

lemma quiet_refl [simp]: "quiet s s"
  by (simp add: quiet_def)

lemma quiet_reflp: "reflp quiet"
  by (simp add: reflp_def)

lemma quiet_transp: "transp quiet"
  unfolding transp_def quiet_def using same_log_trans same_aside_trans by metis

lemma quiet_trans: "quiet a b \<Longrightarrow> quiet b c \<Longrightarrow> quiet a c"
  using quiet_transp by (rule transpD)

lemmas quiet_sbind = moves_sbind [OF quiet_transp]
lemmas quiet_simple [simp] = moves_simple [OF quiet_reflp, THEN conjunct1]
  moves_simple [OF quiet_reflp, THEN conjunct2, THEN conjunct1]
  moves_simple [OF quiet_reflp, THEN conjunct2, THEN conjunct2, THEN conjunct1]
  moves_simple [OF quiet_reflp, THEN conjunct2, THEN conjunct2, THEN conjunct2]

lemmas same_log_alloc = same_logD(2)

lemma next_free_cong:
  "qstates s' = qstates s \<Longrightarrow> same_log (db s) (db s') \<Longrightarrow> next_free s' t q = next_free s t q"
  by (simp add: next_free_def same_log_alloc split: option.split)

lemma apply_or_forward_frame:
  "apply_or_forward E g b s = (r, s') \<Longrightarrow>
     \<exists>d snt. s' = s\<lparr>db := d, sent := snt\<rparr> \<and> (d = db s \<or> d = apply_batch b (db s))"
  by (auto simp: apply_or_forward_def Let_def set_db_def split: if_splits option.splits dest!: rep_apply_db)
    (metis node.surjective node.update_convs)+

lemma create_topic_frame:
  assumes "create_topic E now name queues s = (r, s')"
  shows "\<exists>d ts snt. s' = s\<lparr>db := d, sent := snt, topics := ts\<rparr> \<and>
    (d = db s \<or> (\<exists>v. d = kv_set (topic_meta_key name) v (db s)))"
proof -
  have id: "\<exists>d ts snt. s = s\<lparr>db := d, sent := snt, topics := ts\<rparr> \<and>
    (d = db s \<or> (\<exists>v. d = kv_set (topic_meta_key name) v (db s)))"
    by (rule exI [of _ "db s"], rule exI [of _ "topics s"], rule exI [of _ "sent s"]) simp
  show ?thesis
  proof (cases "\<exists>r1. s' = s \<and> r1 = r")
    case False
    then obtain tc where "(case apply_or_forward E meta_group (bset (topic_meta_key name) (encode_topic tc) new_batch) s of
          (Inl e, s) \<Rightarrow> (Inl e, s) | (Inr _, s) \<Rightarrow> (Inr tc, s\<lparr>topics := kv_set name tc (topics s)\<rparr>)) = (r, s')"
      using assms by (auto simp: create_topic_def Let_def split: sum.splits if_splits option.splits)
    then obtain r1 s1 where a: "apply_or_forward E meta_group (bset (topic_meta_key name) (encode_topic tc) new_batch) s = (r1, s1)"
        and s': "s' = s1 \<or> s' = s1\<lparr>topics := kv_set name tc (topics s1)\<rparr>"
      by (auto split: prod.splits sum.splits)
    have "\<exists>ts. s' = s1\<lparr>topics := ts\<rparr>"
      using s' by (elim disjE) (rule exI [of _ "topics s1"], simp, blast)
    moreover obtain d snt where "s1 = s\<lparr>db := d, sent := snt\<rparr>"
        "d = db s \<or> d = kv_set (topic_meta_key name) (encode_topic tc) (db s)"
      using apply_or_forward_frame [OF a] by (auto simp: kv_simps)
    ultimately show ?thesis by auto
  qed (use id in simp)
qed

lemma ensure_topic_frame:
  assumes "ensure_topic E now name s = (r, s')"
  shows "\<exists>d ts snt. s' = s\<lparr>db := d, sent := snt, topics := ts\<rparr> \<and>
    (d = db s \<or> (\<exists>v. d = kv_set (topic_meta_key name) v (db s)))"
proof (cases "s' = s")
  case True
  then show ?thesis
    by - (rule exI [of _ "db s"], rule exI [of _ "topics s"], rule exI [of _ "sent s"], simp)
next
  case False
  then have "create_topic E now name (default_queues s) s = (r, s')"
    using assms by (auto simp: ensure_topic_def split: sum.splits option.splits if_splits)
  then show ?thesis by (rule create_topic_frame)
qed

lemma topic_meta_not_aside [simp]: "\<not> aside (topic_meta_key t)"
  by (simp add: aside_def topic_meta_key_def)

lemma quiet_registry:
  assumes "\<exists>d ts snt. s' = s\<lparr>db := d, sent := snt, topics := ts\<rparr> \<and>
    (d = db s \<or> (\<exists>v. d = kv_set (topic_meta_key name) v (db s)))"
  shows "quiet s s'"
proof -
  obtain d ts snt where s': "s' = s\<lparr>db := d, sent := snt, topics := ts\<rparr>"
      and d: "d = db s \<or> (\<exists>v. d = kv_set (topic_meta_key name) v (db s))" using assms by blast
  have "same_log (db s) d" "same_aside (db s) d" using d by auto
  moreover from this have "next_free s' t q = next_free s t q" for t q
    using s' by (intro next_free_cong) simp_all
  ultimately show ?thesis using s' by (simp add: quiet_def)
qed

lemma quiet_create_topic: "moves quiet (create_topic E now name queues)"
  by (rule movesI) (rule quiet_registry [OF create_topic_frame])

lemma quiet_ensure_topic: "moves quiet (ensure_topic E now name)"
  by (rule movesI) (rule quiet_registry [OF ensure_topic_frame])

lemma quiet_select_rr: "moves quiet (select_rr E topic queues dflt)"
  by (rule movesI)
    (auto simp: select_rr_def Let_def quiet_def intro!: next_free_cong split: if_splits)

lemma quiet_select_queue: "moves quiet (select_queue E tc m)"
  by (simp add: select_queue_def quiet_select_rr)

lemma next_free_new_qstate:
  "kv_get (qstates s) k = None \<Longrightarrow>
     next_free (s\<lparr>qstates := kv_set k \<lparr>qs_next = 0, qs_loaded = False\<rparr> (qstates s)\<rparr>) t q = next_free s t q"
  by (auto simp: next_free_def kv_simps split: option.splits)

lemma quiet_get_qstate: "moves quiet (get_qstate k)"
  by (rule movesI)
    (auto simp: get_qstate_def Let_def quiet_def next_free_new_qstate split: option.splits)

lemma quiet_take_offset: "moves quiet sel \<Longrightarrow> moves quiet (take_offset E t sel)"
  unfolding take_offset_def by (intro quiet_sbind quiet_get_qstate) simp_all

lemma read_counter_ok: "read_counter E k s = Inr n \<Longrightarrow> n = counter_of (db s) k"
  by (auto simp: read_counter_def ebind_Inr st_get_def counter_of_def split: option.splits if_splits)

lemma get_qstate_ok:
  "get_qstate k s = (Inr qs, s') \<Longrightarrow> kv_get (qstates s') k = Some qs"
  by (auto simp: get_qstate_def Let_def kv_simps split: option.splits)

lemma take_offset_ok:
  assumes "take_offset E t sel s = (Inr (q, off), s')" "moves quiet sel" "name_ok t"
  shows "off = next_free s t q" "\<exists>s1. sel s = (Inr q, s1)"
proof -
  obtain s1 qs s2 where sel: "sel s = (Inr q, s1)" and g: "get_qstate (qkey t q) s1 = (Inr qs, s2)"
      and n: "next_offset_locked E qs t q s2 = Inr off" and s': "s' = s2"
    using assms(1) by (auto simp: take_offset_def sbind_ok slift_def sret_def)
  have "off = next_free s2 t q"
    using n read_counter_ok [of E "alloc_key t q" s2 off] get_qstate_ok [OF g]
    by (auto simp: next_offset_locked_def next_free_def alloc_of_def split: if_splits)
  moreover have "quiet s s2"
    using movesD [OF assms(2) sel] movesD [OF quiet_get_qstate g] quiet_trans by blast
  ultimately show "off = next_free s t q" using assms(3) by (simp add: quiet_def)
  show "\<exists>s1. sel s = (Inr q, s1)" using sel by blast
qed


section \<open>Steps that take offsets\<close>

text \<open>
  The outcome of ordering a batch: it is in the store, or its wait will fail and it may not be.
  Either way its offsets are used up.
\<close>

definition takes ::
    "bytes \<Rightarrow> u32 \<Rightarrow> bytes list \<Rightarrow> bytes list \<Rightarrow> pending \<Rightarrow> 'z prod_node_scheme \<Rightarrow> 'z prod_node_scheme \<Rightarrow> bool"
  where
  "takes t q raws idx p s s' \<longleftrightarrow> name_ok t \<and> p \<in> {Pending None, Pending (Some ErrWait)} \<and>
     (log_append t q (next_free s t q) raws idx (db s) (db s') \<or>
      (p = Pending (Some ErrWait) \<and> same_log (db s) (db s') \<and> same_aside (db s) (db s'))) \<and>
     (\<forall>t' q'. name_ok t' \<longrightarrow> next_free s' t' q' =
        (if t' = t \<and> q' = q then next_free s t q + of_nat (length raws) else next_free s t' q')) \<and>
     delay_next s' = delay_next s \<and> delay_loaded s' = delay_loaded s \<and>
     binary_encoding s' = binary_encoding s"

lemma takes_quiet_left: "quiet s s1 \<Longrightarrow> takes t q raws idx p s1 s' \<Longrightarrow> takes t q raws idx p s s'"
proof -
  assume a: "quiet s s1" "takes t q raws idx p s1 s'"
  then have l: "same_log (db s) (db s1)" and d: "same_aside (db s) (db s1)" by (simp_all add: quiet_def)
  have "kv_get (db s1) k = kv_get (db s) k" if "prefix msg_prefix k" for k
    using l that by (simp add: same_log_def off_log_def)
  then have "log_append t q n raws idx (db s) (db s')" if "log_append t q n raws idx (db s1) (db s')" for n
    using that same_logD [OF l] same_aside_trans [OF d, of "db s'"] by (simp add: log_append_def)
  then show ?thesis
    using a same_log_trans [OF l, of "db s'"] same_aside_trans [OF d, of "db s'"]
    by (auto simp: takes_def quiet_def)
qed

lemma next_free_set_qstate:
  "name_ok t \<Longrightarrow> name_ok t' \<Longrightarrow>
     next_free (set_qstate (qkey t q) n s) t' q' = (if t' = t \<and> q' = q then n else next_free s t' q')"
  by (auto simp: next_free_def set_qstate_def kv_simps qkey_eq split: option.splits)

lemma next_free_set_db:
  "same_log (db s) m \<or> (\<forall>t' q'. name_ok t' \<longrightarrow> \<not> (t' = t \<and> q' = q) \<longrightarrow> alloc_of m t' q' = alloc_of (db s) t' q') \<Longrightarrow>
     name_ok t' \<Longrightarrow> \<not> (t' = t \<and> q' = q) \<Longrightarrow> next_free (set_db m s) t' q' = next_free s t' q'"
  by (auto simp: next_free_def set_db_def same_log_alloc split: option.splits)

lemma order_batch_spec:
  assumes "order_batch E t q n b s = (r, s')" "name_ok t"
    and "log_append t q (next_free s t q) raws idx (db s) (apply_batch b (db s))"
    and "n = next_free s t q + of_nat (length raws)"
  shows "(\<exists>e. r = Inl e \<and> s' = s) \<or> (\<exists>p. r = Inr p \<and> takes t q raws idx p s s')"
proof -
  obtain r1 s1 where a: "rep_apply_async E (group_for_queue E t q) b s = (r1, s1)" by fastforce
  show ?thesis
  proof (cases r1)
    case (Inl e)
    then show ?thesis using a assms(1) rep_apply_async_err [of E _ b s e s1]
      by (auto simp: order_batch_def sbind_def)
  next
    case (Inr p)
    then have r: "r = Inr p" and s': "s' = set_qstate (qkey t q) n s1"
      using a assms(1) by (simp_all add: order_batch_def seq_defs)
    have other: "alloc_of (apply_batch b (db s)) t' q' = alloc_of (db s) t' q'"
      if "name_ok t'" "\<not> (t' = t \<and> q' = q)" for t' q'
      using assms(3) that by (auto simp: log_append_def)
    have s1: "s1 = s \<and> p = Pending (Some ErrWait) \<or> s1 = set_db (apply_batch b (db s)) s"
      and p: "p \<in> {Pending None, Pending (Some ErrWait)}"
      using a Inr by (auto simp: rep_apply_async_def split: outcome.splits if_splits)
    have "next_free s1 t' q' = next_free s t' q'" if "name_ok t'" "\<not> (t' = t \<and> q' = q)" for t' q'
      using s1 that other next_free_set_db [of s "apply_batch b (db s)" t q t' q'] by auto
    then have "next_free s' t' q' =
        (if t' = t \<and> q' = q then next_free s t q + of_nat (length raws) else next_free s t' q')" if "name_ok t'" for t' q'
      using assms(2,4) that by (auto simp: s' next_free_set_qstate)
    moreover have "db s' = db s1" "delay_next s' = delay_next s" "delay_loaded s' = delay_loaded s"
        "binary_encoding s' = binary_encoding s"
      using s1 by (auto simp: s' set_qstate_def set_db_def)
    ultimately have "takes t q raws idx p s s'"
      using s1 p assms(2,3) by (auto simp: takes_def)
    then show ?thesis using r by blast
  qed
qed

lemma takes_offsets_ok:
  assumes "takes t q raws idx p s s'" "offsets_ok s" "unat (next_free s t q) + length raws < 2 ^ 64"
  shows "offsets_ok s'"
proof -
  have t: "name_ok t" using assms(1) by (simp add: takes_def)
  let ?n = "next_free s t q + of_nat (length raws)"
  have len: "unat (of_nat (length raws) :: u64) = length raws"
    using assms(3) by (simp add: unsigned_of_nat take_bit_nat_eq_self)
  then have sum: "unat ?n = unat (next_free s t q) + length raws"
    using assms(3) unat_add_lem [of "next_free s t q" "of_nat (length raws) :: u64"] by simp
  then have up: "next_free s t q \<le> ?n" by (simp add: word_le_nat_alt)
  have nf: "next_free s' t' q' = (if t' = t \<and> q' = q then ?n else next_free s t' q')" if "name_ok t'" for t' q'
    using assms(1) that by (simp add: takes_def)
  have below: "off < alloc_of (db s) t' q'" if "name_ok t'" "stored (db s) t' q' off \<noteq> None" for t' q' off
    using assms(2) that by (auto simp: offsets_ok_def below_alloc_def)
  have free: "alloc_of (db s) t' q' \<le> next_free s t' q'" if "name_ok t'" for t' q'
    using assms(2) that by (simp add: offsets_ok_def)
  consider "log_append t q (next_free s t q) raws idx (db s) (db s')" | "same_log (db s) (db s')"
    using assms(1) by (auto simp: takes_def)
  then show ?thesis
  proof cases
    case 1
    then have st: "stored (db s') t' q' n = (if t' = t \<and> q' = q \<and> in_span (next_free s t q) (length raws) n
         then Some (raws ! (unat n - unat (next_free s t q))) else stored (db s) t' q' n)"
      and al: "alloc_of (db s') t' q' = (if t' = t \<and> q' = q then ?n else alloc_of (db s) t' q')" if "name_ok t'" for t' q' n
      using that by (simp_all add: log_append_def)
    have "n < alloc_of (db s') t' q'" if "name_ok t'" "stored (db s') t' q' n \<noteq> None" for t' q' n
    proof (cases "t' = t \<and> q' = q \<and> in_span (next_free s t q) (length raws) n")
      case True
      then show ?thesis using al [OF that(1), of q'] sum by (simp add: in_span_def word_less_nat_alt)
    next
      case False
      then have "n < alloc_of (db s) t' q'" using st [OF that(1), of q' n] that below by auto
      then show ?thesis using al [OF that(1), of q'] free [OF t, of q] up by auto
    qed
    then show ?thesis
      using al nf free by (auto simp: offsets_ok_def below_alloc_def)
  next
    case 2
    moreover have "alloc_of (db s) t q \<le> ?n" using free [OF t, of q] up by (rule order_trans)
    ultimately show ?thesis
      using below free nf by (auto simp: offsets_ok_def below_alloc_def same_logD [OF 2])
  qed
qed

lemma offsets_ok_same_log:
  assumes "offsets_ok s" "same_log (db s) (db s')" "qstates s' = qstates s"
  shows "offsets_ok s'"
proof -
  have "next_free s' t q = next_free s t q" for t q by (rule next_free_cong [OF assms(3,2)])
  then show ?thesis using assms(1) by (simp add: offsets_ok_def below_alloc_def same_logD [OF assms(2)])
qed

lemma quiet_offsets_ok: "quiet s s' \<Longrightarrow> offsets_ok s \<Longrightarrow> offsets_ok s'"
  unfolding quiet_def by (elim conjE) (simp add: offsets_ok_def below_alloc_def same_logD)

text \<open>Stored messages stay as they are.\<close>

definition log_grows :: "kv \<Rightarrow> kv \<Rightarrow> bool" where
  "log_grows m m' \<longleftrightarrow> (\<forall>t q off v. name_ok t \<longrightarrow> stored m t q off = Some v \<longrightarrow> stored m' t q off = Some v)"

lemma log_grows_refl [simp]: "log_grows m m"
  by (simp add: log_grows_def)

lemma log_grows_trans: "log_grows a b \<Longrightarrow> log_grows b c \<Longrightarrow> log_grows a c"
  by (simp add: log_grows_def)

lemma same_log_grows: "same_log m m' \<Longrightarrow> log_grows m m'"
  by (simp add: log_grows_def same_logD)

lemma takes_log_grows:
  assumes "takes t q raws idx p s s'" "offsets_ok s"
  shows "log_grows (db s) (db s')"
proof (cases "same_log (db s) (db s')")
  case False
  then have l: "log_append t q (next_free s t q) raws idx (db s) (db s')" using assms(1) by (auto simp: takes_def)
  show ?thesis
    unfolding log_grows_def
  proof (intro allI impI)
    fix t' q' off v
    assume h: "name_ok t'" "stored (db s) t' q' off = Some v"
    then have "\<not> (t' = t \<and> q' = q \<and> next_free s t q \<le> off)"
      using next_free_fresh [OF assms(2), of t q off] by auto
    then show "stored (db s') t' q' off = Some v"
      using l h by (auto simp: log_append_def in_span_def word_le_nat_alt)
  qed
qed (rule same_log_grows)


lemma ensure_topic_name: "ensure_topic E now name s = (Inr tc, s') \<Longrightarrow> name_ok name"
  by (auto simp: ensure_topic_def validate_name_def intro: name_valid_ok split: if_splits)

lemma stamp_topic [simp]: "m_topic (stamp now rnd m) = m_topic m" "m_group (stamp now rnd m) = m_group m"
    "m_keys (stamp now rnd m) = m_keys m" "m_body (stamp now rnd m) = m_body m"
    "m_queue_id (stamp now rnd m) = m_queue_id m"
  by (simp_all add: stamp_def)

text \<open>The placed message, and what an append has done when it returns.\<close>

definition placed :: "ms \<Rightarrow> bytes \<Rightarrow> message \<Rightarrow> u32 \<Rightarrow> u64 \<Rightarrow> message" where
  "placed now rnd m q off = (stamp now rnd m)\<lparr>m_queue_id := q, m_offset := off\<rparr>"

text \<open>Where a message goes: to a queue led here, or, in order, to the queue its group hashes to.\<close>

definition routed :: "env \<Rightarrow> ms \<Rightarrow> message \<Rightarrow> 'z prod_node_scheme \<Rightarrow> u32 \<Rightarrow> bool" where
  "routed E now m s q \<longleftrightarrow> (if m_group m = [] then leads E (m_topic m) q
     else \<exists>tc s1. ensure_topic E now (m_topic m) s = (Inr tc, s1) \<and> q = fnv32a (m_group m) mod tc_queues tc)"

text \<open>What both kinds of append do once the topic is known.\<close>

lemma take_order_spec:
  assumes "sbind (take_offset E t sel) (\<lambda>(q, off). sbind (sget binary_encoding) (\<lambda>binary.
      sbind (order_batch E t q (off + of_nat k) (b binary q off)) (\<lambda>p. sret (v q off, p)))) s = (r, s')"
    and "moves quiet sel" "name_ok t" "\<And>binary q off. length (raws binary q off) = k"
    and "\<And>binary q m. log_append t q (next_free s t q) (raws binary q (next_free s t q)) (idx q (next_free s t q)) m
      (apply_batch (b binary q (next_free s t q)) m)"
  shows "(\<exists>e. r = Inl e \<and> quiet s s') \<or>
    (\<exists>q p s1. r = Inr (v q (next_free s t q), p) \<and> sel s = (Inr q, s1) \<and>
       takes t q (raws (binary_encoding s) q (next_free s t q)) (idx q (next_free s t q)) p s s')"
  using assms(1)
proof (cases rule: sbind_cases)
  case (fail e)
  then show ?thesis using movesD [OF quiet_take_offset [OF assms(2)]] by blast
next
  case (ok p s2)
  obtain q off where p: "p = (q, off)" by (cases p)
  have t: "take_offset E t sel s = (Inr (q, off), s2)" using ok(1) by (simp add: p)
  have q: "quiet s s2" using movesD [OF quiet_take_offset [OF assms(2)] t] .
  have off: "off = next_free s t q" by (rule take_offset_ok(1) [OF t assms(2,3)])
  obtain s1 where sel: "sel s = (Inr q, s1)" using take_offset_ok(2) [OF t assms(2,3)] by blast
  have q': "next_free s2 t q = off" "binary_encoding s2 = binary_encoding s"
    using q assms(3) off by (simp_all add: quiet_def)
  let ?raws = "raws (binary_encoding s) q off"
  obtain r1 where o: "order_batch E t q (off + of_nat k) (b (binary_encoding s) q off) s2 = (r1, s')"
      and r: "r = (case r1 of Inl e \<Rightarrow> Inl e | Inr pend \<Rightarrow> Inr (v q off, pend))"
    using ok(2) by (auto simp: p seq_defs q' split: prod.splits sum.splits)
  have "log_append t q (next_free s2 t q) ?raws (idx q off) (db s2) (apply_batch (b (binary_encoding s) q off) (db s2))"
    using assms(5) [of q "binary_encoding s" "db s2"] by (simp add: q' off [symmetric])
  then have outcome: "(\<exists>e. r1 = Inl e \<and> s' = s2) \<or> (\<exists>p. r1 = Inr p \<and> takes t q ?raws (idx q off) p s2 s')"
    using order_batch_spec [OF o assms(3)] by (simp add: q' assms(4))
  show ?thesis
  proof (cases r1)
    case (Inl e)
    then show ?thesis using outcome q r by simp
  next
    case (Inr pend)
    then have "takes t q ?raws (idx q off) pend s s'" using outcome takes_quiet_left [OF q] by simp
    then show ?thesis using Inr r sel off by auto
  qed
qed

lemma append_order_spec:
  assumes "append_order E now rnd m s = (r, s')"
  shows "(\<exists>e. r = Inl e \<and> quiet s s') \<or>
    (\<exists>q p. r = Inr (placed now rnd m q (next_free s (m_topic m) q), p) \<and>
       takes (m_topic m) q
         [encode_message (binary_encoding s) (placed now rnd m q (next_free s (m_topic m) q))]
         (index_keys (placed now rnd m q (next_free s (m_topic m) q))) p s s' \<and>
       routed E now m s q)"
proof (cases "bad_body m")
  case True
  then show ?thesis using assms by (auto simp: append_order_def sfail_def)
next
  case False
  let ?t = "m_topic m" and ?raws = "\<lambda>bin q off. [encode_message bin (placed now rnd m q off)]"
    and ?idx = "\<lambda>q off. index_keys (placed now rnd m q off)"
  let ?sel = "\<lambda>tc. select_queue E tc (stamp now rnd m)"
  have "sbind (ensure_topic E now ?t) (\<lambda>tc.
      sbind (take_offset E ?t (?sel tc)) (\<lambda>(q, off). sbind (sget binary_encoding) (\<lambda>binary.
      sbind (order_batch E ?t q (off + of_nat 1) (append_batch_of binary (placed now rnd m q off)))
        (\<lambda>p. sret (placed now rnd m q off, p))))) s = (r, s')"
    using assms False by (simp add: append_order_def Let_def placed_def)
  then show ?thesis
  proof (cases rule: sbind_cases)
    case (fail e)
    then show ?thesis using movesD [OF quiet_ensure_topic] by blast
  next
    case (ok tc s1)
    have q: "quiet s s1" and t: "name_ok ?t"
      using movesD [OF quiet_ensure_topic ok(1)] ensure_topic_name [OF ok(1)] by auto
    have log: "log_append ?t qu (next_free s1 ?t qu) (?raws bin qu (next_free s1 ?t qu)) (?idx qu (next_free s1 ?t qu)) d
        (apply_batch (append_batch_of bin (placed now rnd m qu (next_free s1 ?t qu))) d)" for bin qu d
      using log_append_one [of "placed now rnd m qu (next_free s1 ?t qu)" bin d] t by (simp add: placed_def)
    have nf: "next_free s1 ?t qu = next_free s ?t qu" "binary_encoding s1 = binary_encoding s" for qu
      using q t by (simp_all add: quiet_def)
    have route: "?sel tc s1 = (Inr qu, s2) \<Longrightarrow> routed E now m s qu" for qu s2
      using ok(1)
      by (auto simp: routed_def select_queue_def select_rr_def Let_def sfail_def sret_def split: if_splits)
    consider e where "r = Inl e" "quiet s1 s'"
      | qu p s2 where "r = Inr (placed now rnd m qu (next_free s ?t qu), p)" "?sel tc s1 = (Inr qu, s2)"
          "takes ?t qu (?raws (binary_encoding s) qu (next_free s ?t qu)) (?idx qu (next_free s ?t qu)) p s1 s'"
      using take_order_spec [where k = 1 and raws = ?raws and idx = ?idx, OF ok(2) quiet_select_queue t _ log]
      unfolding nf by fastforce
    then show ?thesis
    proof cases
      case 1
      then show ?thesis using quiet_trans [OF q] by blast
    next
      case 2
      then show ?thesis using 2(1) takes_quiet_left [OF q 2(3)] route [OF 2(2)] by blast
    qed
  qed
qed

lemma check_batch_topics: "check_batch topic ms = Inr u \<Longrightarrow> m \<in> set ms \<Longrightarrow> m_topic m = topic \<and> m_group m = []"
  by (induction topic ms rule: check_batch.induct) (auto split: if_splits)

lemma stamp_all_topic: "m \<in> set (stamp_all now rnd ms) \<Longrightarrow> \<exists>m' \<in> set ms. m_topic m = m_topic m'"
  by (auto simp: stamp_all_def in_set_enumerate_eq)

lemma length_stamp_all [simp]: "length (stamp_all now rnd ms) = length ms"
  by (simp add: stamp_all_def)

definition batch_placed :: "ms \<Rightarrow> (nat \<Rightarrow> bytes) \<Rightarrow> message list \<Rightarrow> u32 \<Rightarrow> u64 \<Rightarrow> message list" where
  "batch_placed now rnd ms q off = place_all q off (stamp_all now rnd ms)"

lemma length_batch_placed [simp]: "length (batch_placed now rnd ms q off) = length ms"
  by (simp add: batch_placed_def)

lemma batch_order_spec:
  assumes "batch_order E now rnd ms s = (r, s')"
    and "\<And>q. unat (next_free s (m_topic (hd ms)) q) + length ms < 2 ^ 64"
  shows "(\<exists>e. r = Inl e \<and> quiet s s') \<or>
    (\<exists>q p. r = Inr (batch_placed now rnd ms q (next_free s (m_topic (hd ms)) q), p) \<and>
       takes (m_topic (hd ms)) q (map (encode_message (binary_encoding s))
         (batch_placed now rnd ms q (next_free s (m_topic (hd ms)) q)))
         (concat (map index_keys (batch_placed now rnd ms q (next_free s (m_topic (hd ms)) q)))) p s s' \<and>
       leads E (m_topic (hd ms)) q)"
proof (cases "ms \<noteq> [] \<and> check_batch (m_topic (hd ms)) ms = Inr ()")
  case False
  then show ?thesis
    using assms(1) by (cases "check_batch (m_topic (hd ms)) ms") (auto simp: batch_order_def Let_def seq_defs split: if_splits)
next
  case True
  let ?t = "m_topic (hd ms)" and ?raws = "\<lambda>bin q off. map (encode_message bin) (batch_placed now rnd ms q off)"
    and ?idx = "\<lambda>q off. concat (map index_keys (batch_placed now rnd ms q off))"
  let ?b = "\<lambda>bin q off. bset (alloc_key ?t q) (put_u64 (off + of_nat (length ms)))
      (batch_loop bin (batch_placed now rnd ms q off) new_batch)"
  have "sbind (ensure_topic E now ?t) (\<lambda>tc.
      sbind (take_offset E ?t (select_rr E ?t (tc_queues tc) 0)) (\<lambda>(q, off). sbind (sget binary_encoding) (\<lambda>bin.
      sbind (order_batch E ?t q (off + of_nat (length ms)) (?b bin q off))
        (\<lambda>p. sret (batch_placed now rnd ms q off, p))))) s = (r, s')"
    using assms(1) True by (simp add: batch_order_def Let_def batch_placed_def sbind_def [of "slift _"] slift_def)
  then show ?thesis
  proof (cases rule: sbind_cases)
    case (fail e)
    then show ?thesis using movesD [OF quiet_ensure_topic] by blast
  next
    case (ok tc s1)
    have q: "quiet s s1" and t: "name_ok ?t"
      using movesD [OF quiet_ensure_topic ok(1)] ensure_topic_name [OF ok(1)] by auto
    have nf: "next_free s1 ?t qu = next_free s ?t qu" "binary_encoding s1 = binary_encoding s" for qu
      using q t by (simp_all add: quiet_def)
    have topics: "m_topic m = ?t" if m: "m \<in> set (stamp_all now rnd ms)" for m
    proof -
      obtain m' where "m' \<in> set ms" "m_topic m = m_topic m'" using stamp_all_topic [OF m] by blast
      then show ?thesis using check_batch_topics [of ?t ms "()" m'] True by simp
    qed
    have log: "log_append ?t qu (next_free s1 ?t qu) (?raws bin qu (next_free s1 ?t qu)) (?idx qu (next_free s1 ?t qu)) d
        (apply_batch (?b bin qu (next_free s1 ?t qu)) d)" for bin qu d
      using log_append_batch [OF t topics, of "stamp_all now rnd ms" "next_free s1 ?t qu" _ qu bin d] assms(2) [of qu]
      by (simp add: batch_placed_def nf)
    have lead: "select_rr E ?t (tc_queues tc) 0 s1 = (Inr qu, s2) \<Longrightarrow> leads E ?t qu" for qu s2
      by (auto simp: select_rr_def Let_def split: if_splits)
    consider e where "r = Inl e" "quiet s1 s'"
      | qu p s2 where "r = Inr (batch_placed now rnd ms qu (next_free s ?t qu), p)"
          "select_rr E ?t (tc_queues tc) 0 s1 = (Inr qu, s2)"
          "takes ?t qu (?raws (binary_encoding s) qu (next_free s ?t qu)) (?idx qu (next_free s ?t qu)) p s1 s'"
      using take_order_spec [where k = "length ms" and raws = ?raws and idx = ?idx, OF ok(2) quiet_select_rr t _ log]
      unfolding nf by fastforce
    then show ?thesis
    proof cases
      case 1
      then show ?thesis using quiet_trans [OF q] by blast
    next
      case 2
      then show ?thesis using takes_quiet_left [OF q 2(3)] lead [OF 2(2)] by blast
    qed
  qed
qed


section \<open>The staging area of delayed messages\<close>

definition staged :: "kv \<Rightarrow> ms \<Rightarrow> u64 \<Rightarrow> bytes option" where
  "staged m due n = kv_get m (delay_key due n)"

definition delay_counter :: "kv \<Rightarrow> u64" where
  "delay_counter m = counter_of m delay_alloc_key"

definition next_seq :: "'z prod_node_scheme \<Rightarrow> u64" where
  "next_seq s = (if delay_loaded s then delay_next s else delay_counter (db s))"

definition delays_ok :: "'z prod_node_scheme \<Rightarrow> bool" where
  "delays_ok s \<longleftrightarrow> (\<forall>due n. i64_range due \<longrightarrow> staged (db s) due n \<noteq> None \<longrightarrow> n < delay_counter (db s)) \<and>
     delay_counter (db s) \<le> next_seq s"

definition staging_grows :: "kv \<Rightarrow> kv \<Rightarrow> bool" where
  "staging_grows m m' \<longleftrightarrow>
     (\<forall>due n v. i64_range due \<longrightarrow> staged m due n = Some v \<longrightarrow> staged m' due n = Some v)"

lemma delay_key_eq: "i64_range a \<Longrightarrow> i64_range b \<Longrightarrow> delay_key a n = delay_key b n' \<longleftrightarrow> a = b \<and> n = n'"
  using delk.enc_inj [of "(a, n)" "(b, n')"] by auto

lemma delay_key_alloc [simp]: "delay_key d n \<noteq> delay_alloc_key" "delay_alloc_key \<noteq> delay_key d n"
  by (simp_all add: delay_key_def delay_alloc_key_def delay_prefix_def)

lemma same_aside_delay:
  "same_aside m m' \<Longrightarrow> staged m' due n = staged m due n" "same_aside m m' \<Longrightarrow> delay_counter m' = delay_counter m"
  by (simp_all add: staged_def delay_counter_def counter_of_def same_asideD)

lemma same_aside_delays_ok:
  "same_aside (db s) (db s') \<Longrightarrow> delay_next s' = delay_next s \<Longrightarrow> delay_loaded s' = delay_loaded s \<Longrightarrow>
     delays_ok s \<Longrightarrow> delays_ok s'"
  by (auto simp: delays_ok_def next_seq_def same_aside_delay split: if_splits)

lemma same_aside_staging: "same_aside m m' \<Longrightarrow> staging_grows m m'"
  by (simp add: staging_grows_def same_aside_delay)

lemma append_delay_order_spec:
  assumes "append_delay_order E now rnd m s = (r, s')"
  shows "(\<exists>e. r = Inl e \<and> s' = s) \<or>
    (\<exists>p. r = Inr (stamp now rnd m, next_seq s, p) \<and> qstates s' = qstates s \<and> next_seq s' = next_seq s + 1 \<and>
       (db s' = kv_set delay_alloc_key (put_u64 (next_seq s + 1)) (kv_set (delay_key (m_deliver_at m) (next_seq s))
           (encode_message (binary_encoding s) (stamp now rnd m)) (db s)) \<or>
        pending_wait p \<noteq> Inr () \<and> db s' = db s))"
proof (cases "next_delay_seq_locked E s")
  case (Inl e)
  then show ?thesis using assms by (auto simp: append_delay_order_def Let_def seq_defs)
next
  case (Inr n)
  then have n: "n = next_seq s"
    using read_counter_ok [of E delay_alloc_key s n]
    by (auto simp: next_delay_seq_locked_def next_seq_def delay_counter_def split: if_splits)
  let ?b = "bset delay_alloc_key (put_u64 (n + 1)) (bset (delay_key (m_deliver_at (stamp now rnd m)) n)
      (encode_message (binary_encoding s) (stamp now rnd m)) new_batch)"
  have due: "m_deliver_at (stamp now rnd m) = m_deliver_at m" by (simp add: stamp_def)
  show ?thesis
  proof (cases "rep_apply_async E meta_group ?b s")
    case (Pair r1 s1)
    show ?thesis
    proof (cases r1)
      case (Inl e)
      then show ?thesis
        using assms Inr Pair rep_apply_async_err [of E meta_group ?b s e s1]
        by (auto simp: append_delay_order_def Let_def seq_defs)
    next
      case (Inr p)
      then have r: "r = Inr (stamp now rnd m, n, p)" and s': "s' = s1\<lparr>delay_next := n + 1, delay_loaded := True\<rparr>"
        using assms Pair \<open>next_delay_seq_locked E s = Inr n\<close>
        by (auto simp: append_delay_order_def Let_def seq_defs)
      have s1: "s1 = s \<and> pending_wait p \<noteq> Inr () \<or> s1 = set_db (apply_batch ?b (db s)) s"
        using Pair Inr by (auto simp: rep_apply_async_def split: outcome.splits if_splits)
      have "next_seq s' = n + 1" by (simp add: s' next_seq_def)
      moreover have "qstates s' = qstates s" "db s' = db s1" using s1 by (auto simp: s' set_db_def)
      ultimately show ?thesis
        using s1 by (auto simp: r n [symmetric] kv_simps due)
    qed
  qed
qed

lemma delay_order_keeps:
  assumes "append_delay_order E now rnd m s = (r, s')" "delays_ok s" "i64_range (m_deliver_at m)"
    and "unat (next_seq s) + 1 < 2 ^ 64"
  shows "delays_ok s' \<and> staging_grows (db s) (db s') \<and> same_log (db s) (db s') \<and> qstates s' = qstates s"
proof -
  let ?d = "m_deliver_at m"
  have up: "n \<le> next_seq s \<Longrightarrow> n < next_seq s + 1" "n \<le> next_seq s \<Longrightarrow> n \<le> next_seq s + 1" for n
    using unat_succ [OF assms(4)] by (auto simp: word_less_nat_alt word_le_nat_alt)
  have below: "i64_range due \<Longrightarrow> staged (db s) due n \<noteq> None \<Longrightarrow> n < delay_counter (db s)" for due n
    using assms(2) by (auto simp: delays_ok_def)
  have le: "delay_counter (db s) \<le> next_seq s" using assms(2) by (simp add: delays_ok_def)
  have grow: "delays_ok s' \<and> staging_grows (db s) (db s') \<and> same_log (db s) (db s')"
    if db': "db s' = kv_set delay_alloc_key (put_u64 (next_seq s + 1)) (kv_set (delay_key ?d (next_seq s)) v (db s))"
      and ns: "next_seq s' = next_seq s + 1" for v
  proof -
    have st: "staged (db s') due n = (if due = ?d \<and> n = next_seq s then Some v else staged (db s) due n)"
      if "i64_range due" for due n
      using that assms(3) by (simp add: db' staged_def kv_simps delay_key_eq)
    have c: "delay_counter (db s') = next_seq s + 1" by (simp add: db' delay_counter_def counter_of_def kv_simps)
    have "n < next_seq s + 1" if "i64_range due" "staged (db s') due n \<noteq> None" for due n
      using st [OF that(1), of n] that below [OF that(1), of n] le up(1) [of n] by (auto split: if_splits)
    moreover have "staging_grows (db s) (db s')"
      using st below le by (fastforce simp: staging_grows_def)
    moreover have "same_log (db s) (db s')"
      unfolding db' by (rule same_log_trans [OF same_log_set same_log_set]) simp_all
    ultimately show ?thesis by (simp add: delays_ok_def c ns)
  qed
  show ?thesis
    using append_delay_order_spec [OF assms(1)]
  proof (elim disjE exE conjE)
    fix p
    assume "db s' = db s" "next_seq s' = next_seq s + 1" "qstates s' = qstates s"
    then show ?thesis using below le up(2) by (auto simp: delays_ok_def staging_grows_def)
  qed (use grow assms(2) in \<open>simp_all add: staging_grows_def\<close>)
qed


section \<open>Interleaved appends\<close>

definition room :: "'z prod_node_scheme \<Rightarrow> nat \<Rightarrow> bool" where
  "room s k \<longleftrightarrow> (\<forall>t q. unat (next_free s t q) + k < 2 ^ 64)"

text \<open>
  The critical sections of the producer, in any order and with any environment at each step: the
  registry's calls, the ordering and the finishing of appends, leader changes, and a restart,
  which keeps the store and loses the memory.
\<close>

inductive prod_step :: "'z prod_node_scheme \<Rightarrow> 'z prod_node_scheme \<Rightarrow> bool" where
  step_create: "create_topic E now name n s = (r, s') \<Longrightarrow> prod_step s s'"
| step_ensure: "ensure_topic E now name s = (r, s') \<Longrightarrow> prod_step s s'"
| step_order: "append_order E now rnd m s = (r, s') \<Longrightarrow> room s 1 \<Longrightarrow> prod_step s s'"
| step_batch: "batch_order E now rnds ms s = (r, s') \<Longrightarrow> room s (length ms) \<Longrightarrow> prod_step s s'"
| step_delay: "append_delay_order E now rnd m s = (r, s') \<Longrightarrow> i64_range (m_deliver_at m) \<Longrightarrow>
    unat (next_seq s) + 1 < 2 ^ 64 \<Longrightarrow> prod_step s s'"
| step_finish: "append_finish t () p s = (r, s') \<Longrightarrow> prod_step s s'"
| step_subscribe: "subscribe t s = (ch, s') \<Longrightarrow> prod_step s s'"
| step_invalidate: "prod_step s (invalidate_counters s)"
| step_restart: "prod_step s (new_producer s)"

inductive prod_reach :: "'z prod_node_scheme \<Rightarrow> 'z prod_node_scheme \<Rightarrow> bool" where
  prod_refl: "prod_reach s s"
| prod_more: "prod_reach s t \<Longrightarrow> prod_step t u \<Longrightarrow> prod_reach s u"

text \<open>What every step keeps.\<close>

definition prod_keeps :: "'z prod_node_scheme \<Rightarrow> 'z prod_node_scheme \<Rightarrow> bool" where
  "prod_keeps s s' \<longleftrightarrow> (offsets_ok s \<and> delays_ok s \<longrightarrow>
     offsets_ok s' \<and> delays_ok s' \<and> log_grows (db s) (db s') \<and> staging_grows (db s) (db s'))"

lemma quiet_keeps: "quiet s s' \<Longrightarrow> prod_keeps s s'"
  using quiet_offsets_ok [of s s'] same_aside_delays_ok [of s s'] same_log_grows same_aside_staging
  by (auto simp: prod_keeps_def quiet_def)

lemma takes_keeps:
  assumes "takes t q raws idx p s s'" "unat (next_free s t q) + length raws < 2 ^ 64"
  shows "prod_keeps s s'"
proof -
  have "same_aside (db s) (db s')" "delay_next s' = delay_next s" "delay_loaded s' = delay_loaded s"
    using assms(1) by (auto simp: takes_def log_append_def)
  then show ?thesis
    using takes_offsets_ok [OF assms(1) _ assms(2)] takes_log_grows [OF assms(1)]
      same_aside_delays_ok [of s s'] same_aside_staging
    by (auto simp: prod_keeps_def)
qed

lemma kv_get_map_snd: "kv_get (map (\<lambda>(k, v). (k, f v)) m) k = map_option f (kv_get m k)"
  by (induction m) (auto simp: kv_get_def)

lemma forget_keeps:
  assumes "db s' = db s" "\<And>t q. next_free s' t q = alloc_of (db s) t q" "\<not> delay_loaded s'"
  shows "prod_keeps s s'"
  using assms by (auto simp: prod_keeps_def offsets_ok_def delays_ok_def next_seq_def staging_grows_def)

lemma quiet_wake: "quiet s (wake_locked t s)"
  by (auto simp: wake_locked_def quiet_def intro!: next_free_cong split: option.splits)

lemma quiet_subscribe: "subscribe t s = (ch, s') \<Longrightarrow> quiet s s'"
  by (auto simp: subscribe_def quiet_def intro!: next_free_cong split: option.splits)

lemma quiet_finish: "moves quiet (append_finish t v p)"
  unfolding append_finish_def
  by (intro quiet_sbind quiet_simple) (simp add: moves_def smod_def quiet_wake)

lemma append_order_moves:
  assumes "append_order E now rnd m s = (r, s')"
  shows "quiet s s' \<or> (\<exists>q raws idx p. length raws = 1 \<and> takes (m_topic m) q raws idx p s s')"
  using append_order_spec [OF assms]
proof (elim disjE exE conjE)
  fix q p
  assume "takes (m_topic m) q
         [encode_message (binary_encoding s) (placed now rnd m q (next_free s (m_topic m) q))]
         (index_keys (placed now rnd m q (next_free s (m_topic m) q))) p s s'"
  then show ?thesis by (intro disjI2 exI conjI [rotated]) (assumption, simp)
qed simp

lemma batch_order_moves:
  assumes "batch_order E now rnds ms s = (r, s')" "room s (length ms)"
  shows "quiet s s' \<or> (\<exists>q raws idx p. length raws = length ms \<and> takes (m_topic (hd ms)) q raws idx p s s')"
  using batch_order_spec [OF assms(1)] assms(2)
  by (simp add: room_def) (metis length_batch_placed length_map)

lemma step_keeps: "prod_step s s' \<Longrightarrow> prod_keeps s s'"
proof (induction rule: prod_step.induct)
  case (step_create E now name n s r s')
  then show ?case using movesD [OF quiet_create_topic] by (blast intro: quiet_keeps)
next
  case (step_ensure E now name s r s')
  then show ?case using movesD [OF quiet_ensure_topic] by (blast intro: quiet_keeps)
next
  case (step_order E now rnd m s r s')
  then show ?case
    using append_order_moves [OF step_order(1)] quiet_keeps
    by (elim disjE exE conjE) (simp_all add: room_def takes_keeps)
next
  case (step_batch E now rnds ms s r s')
  then show ?case
    using batch_order_moves [OF step_batch] quiet_keeps
    by (elim disjE exE conjE) (simp_all add: room_def takes_keeps)
next
  case (step_delay E now rnd m s r s')
  then show ?case
    using delay_order_keeps [OF step_delay(1) _ step_delay(2,3)] offsets_ok_same_log same_log_grows
    by (auto simp: prod_keeps_def)
next
  case (step_finish t p s r s')
  show ?case by (rule quiet_keeps [OF movesD [OF quiet_finish step_finish]])
next
  case (step_subscribe t s ch s')
  then show ?case by (blast intro: quiet_keeps quiet_subscribe)
next
  case (step_invalidate s)
  show ?case
    by (rule forget_keeps)
      (auto simp: invalidate_counters_def next_free_def kv_get_map_snd split: option.split)
next
  case (step_restart s)
  show ?case
    by (rule forget_keeps) (simp_all add: new_producer_def next_free_def kv_simps)
qed

lemma reach_keeps: "prod_reach s s' \<Longrightarrow> prod_keeps s s'"
proof (induction rule: prod_reach.induct)
  case (prod_more s t u)
  then show ?case
    using step_keeps [OF prod_more(2)] log_grows_trans
    by (auto simp: prod_keeps_def staging_grows_def)
qed (simp add: prod_keeps_def staging_grows_def)

section \<open>Whole appends\<close>

lemma append_finish_ok: "append_finish t v p s = (Inr w, s') \<longleftrightarrow> pending_wait p = Inr () \<and> w = v \<and> s' = wake_locked t s"
  by (cases "pending_wait p") (auto simp: append_finish_def seq_defs)

lemma append_finish_err: "append_finish t v p s = (Inl e, s') \<longleftrightarrow> pending_wait p = Inl e \<and> s' = s"
  by (cases "pending_wait p") (auto simp: append_finish_def seq_defs)

lemma wake_frame [simp]:
  "db (wake_locked t s) = db s" "qstates (wake_locked t s) = qstates s" "binary_encoding (wake_locked t s) = binary_encoding s"
  by (simp_all add: wake_locked_def split: option.split)

lemma takes_log: "takes t q raws idx p s s' \<Longrightarrow> pending_wait p = Inr () \<Longrightarrow>
    log_append t q (next_free s t q) raws idx (db s) (db s')"
  by (auto simp: takes_def)

lemma append_msg_ok:
  assumes "append_msg E now rnd m s = (Inr m', s')"
  shows "\<exists>q. m' = placed now rnd m q (next_free s (m_topic m) q) \<and>
    log_append (m_topic m) q (m_offset m') [encode_message (binary_encoding s) m'] (index_keys m') (db s) (db s') \<and>
    routed E now m s q"
proof -
  obtain m1 p s1 where o: "append_order E now rnd m s = (Inr (m1, p), s1)"
      and f: "append_finish (m_topic m) m1 p s1 = (Inr m', s')"
    using assms by (auto simp: append_msg_def sbind_ok)
  have w: "pending_wait p = Inr ()" "m1 = m'" "db s' = db s1" using f by (auto simp: append_finish_ok)
  obtain q where m': "m' = placed now rnd m q (next_free s (m_topic m) q)"
      and t: "takes (m_topic m) q [encode_message (binary_encoding s) m'] (index_keys m') p s s1"
      and "routed E now m s q"
    using append_order_spec [OF o] by (auto simp: w(2))
  moreover have "m_offset m' = next_free s (m_topic m) q" by (simp add: m' placed_def)
  ultimately show ?thesis using takes_log [OF t w(1)] w(3) by (intro exI [of _ q]) simp
qed

lemma append_msg_err:
  assumes "append_msg E now rnd m s = (Inl e, s')"
  shows "quiet s s' \<or> (e = ErrWait \<and> (\<exists>q p. takes (m_topic m) q
      [encode_message (binary_encoding s) (placed now rnd m q (next_free s (m_topic m) q))]
      (index_keys (placed now rnd m q (next_free s (m_topic m) q))) p s s'))"
proof -
  consider "append_order E now rnd m s = (Inl e, s')"
    | m1 p s1 where "append_order E now rnd m s = (Inr (m1, p), s1)" "append_finish (m_topic m) m1 p s1 = (Inl e, s')"
    using assms by (auto simp: append_msg_def elim!: sbind_cases)
  then show ?thesis
  proof cases
    case 1
    then show ?thesis using append_order_spec [OF 1] by auto
  next
    case 2
    then have w: "pending_wait p = Inl e" "s1 = s'" by (simp_all add: append_finish_err)
    obtain q where t: "takes (m_topic m) q
        [encode_message (binary_encoding s) (placed now rnd m q (next_free s (m_topic m) q))]
        (index_keys (placed now rnd m q (next_free s (m_topic m) q))) p s s'"
      using append_order_spec [OF 2(1)] w(2) by blast
    then have "e = ErrWait" using w(1) by (auto simp: takes_def)
    then show ?thesis using t by blast
  qed
qed


lemma append_batch_ok:
  assumes "append_batch E now rnd ms s = (Inr ms', s')"
    and "\<And>q. unat (next_free s (m_topic (hd ms)) q) + length ms < 2 ^ 64"
  shows "\<exists>q. ms' = batch_placed now rnd ms q (next_free s (m_topic (hd ms)) q) \<and> leads E (m_topic (hd ms)) q \<and>
    log_append (m_topic (hd ms)) q (next_free s (m_topic (hd ms)) q) (map (encode_message (binary_encoding s)) ms')
      (concat (map index_keys ms')) (db s) (db s')"
proof -
  obtain ms1 p s1 where o: "batch_order E now rnd ms s = (Inr (ms1, p), s1)"
      and f: "append_finish (m_topic (hd ms)) ms1 p s1 = (Inr ms', s')"
    using assms(1) by (auto simp: append_batch_def sbind_ok)
  have w: "pending_wait p = Inr ()" "ms1 = ms'" "db s' = db s1" using f by (auto simp: append_finish_ok)
  obtain q where "ms' = batch_placed now rnd ms q (next_free s (m_topic (hd ms)) q)" "leads E (m_topic (hd ms)) q"
      and t: "takes (m_topic (hd ms)) q (map (encode_message (binary_encoding s)) ms')
        (concat (map index_keys ms')) p s s1"
    using batch_order_spec [OF o assms(2)] by (auto simp: w(2))
  then show ?thesis using takes_log [OF t w(1)] w(3) by auto
qed

lemma append_batch_err:
  assumes "append_batch E now rnd ms s = (Inl e, s')"
    and "\<And>q. unat (next_free s (m_topic (hd ms)) q) + length ms < 2 ^ 64"
  shows "quiet s s' \<or> (e = ErrWait \<and> (\<exists>q p ms'. length ms' = length ms \<and>
    takes (m_topic (hd ms)) q (map (encode_message (binary_encoding s)) ms') (concat (map index_keys ms')) p s s'))"
proof -
  consider "batch_order E now rnd ms s = (Inl e, s')"
    | ms1 p s1 where "batch_order E now rnd ms s = (Inr (ms1, p), s1)"
        "append_finish (m_topic (hd ms)) ms1 p s1 = (Inl e, s')"
    using assms(1) by (auto simp: append_batch_def elim!: sbind_cases)
  then show ?thesis
  proof cases
    case 1
    then show ?thesis using batch_order_spec [OF 1 assms(2)] by auto
  next
    case 2
    then have w: "pending_wait p = Inl e" "s1 = s'" by (simp_all add: append_finish_err)
    obtain q where t: "takes (m_topic (hd ms)) q (map (encode_message (binary_encoding s))
        (batch_placed now rnd ms q (next_free s (m_topic (hd ms)) q)))
        (concat (map index_keys (batch_placed now rnd ms q (next_free s (m_topic (hd ms)) q)))) p s s'"
      using batch_order_spec [OF 2(1) assms(2)] w(2) by blast
    then have "e = ErrWait" using w(1) by (auto simp: takes_def)
    then show ?thesis using t length_batch_placed by blast
  qed
qed

text \<open>Ordering a batch does not touch the wake-up channels.\<close>

definition same_chans :: "'z prod_node_scheme \<Rightarrow> 'z prod_node_scheme \<Rightarrow> bool" where
  "same_chans s s' \<longleftrightarrow> wakers s' = wakers s \<and> chans_closed s' = chans_closed s"

lemma same_chans_rel: "reflp same_chans" "transp same_chans"
  by (auto simp: same_chans_def reflp_def transp_def)

lemmas same_chans_sbind = moves_sbind [OF same_chans_rel(2)]
lemmas same_chans_simple [simp] = moves_simple [OF same_chans_rel(1), THEN conjunct1]
  moves_simple [OF same_chans_rel(1), THEN conjunct2, THEN conjunct1]
  moves_simple [OF same_chans_rel(1), THEN conjunct2, THEN conjunct2, THEN conjunct1]
  moves_simple [OF same_chans_rel(1), THEN conjunct2, THEN conjunct2, THEN conjunct2]

lemma same_chans_parts:
  "moves same_chans (ensure_topic E now name)" "moves same_chans (select_queue E tc m)"
  "moves same_chans (get_qstate k)" "moves same_chans (rep_apply_async E g b)" "moves same_chans (smod (set_qstate k n))"
proof -
  show "moves same_chans (ensure_topic E now name)"
    by (rule movesI) (auto simp: same_chans_def dest: ensure_topic_frame)
  show "moves same_chans (select_queue E tc m)"
    by (auto simp: moves_def same_chans_def select_queue_def select_rr_def Let_def sfail_def sret_def)
  show "moves same_chans (get_qstate k)"
    by (auto simp: moves_def same_chans_def get_qstate_def Let_def split: option.splits)
  show "moves same_chans (rep_apply_async E g b)"
    by (auto simp: moves_def same_chans_def set_db_def dest!: rep_apply_async_db)
  show "moves same_chans (smod (set_qstate k n))"
    by (simp add: moves_def same_chans_def smod_def set_qstate_def)
qed

lemma same_chans_order: "moves same_chans (append_order E now rnd m)"
  unfolding append_order_def take_offset_def order_batch_def Let_def split_def
  by (auto intro!: same_chans_sbind same_chans_parts)

lemma subscribe_waker: "subscribe t s = (ch, s') \<Longrightarrow> kv_get (wakers s') t = Some ch"
  by (auto simp: subscribe_def kv_simps split: option.splits)

lemma append_wakes:
  assumes "kv_get (wakers s) (m_topic m) = Some ch" "append_msg E now rnd m s = (r, s')"
  shows "(is_ok r \<longrightarrow> ch \<in> set (chans_closed s')) \<and> (\<not> is_ok r \<longrightarrow> chans_closed s' = chans_closed s)"
proof -
  obtain r1 s1 where o: "append_order E now rnd m s = (r1, s1)" by fastforce
  have same: "wakers s1 = wakers s" "chans_closed s1 = chans_closed s"
    using movesD [OF same_chans_order o] by (auto simp: same_chans_def)
  show ?thesis
  proof (cases r1)
    case (Inl e)
    then show ?thesis using assms(2) o same by (auto simp: append_msg_def sbind_def)
  next
    case (Inr x)
    obtain m1 p where x: "x = (m1, p)" by (cases x)
    then have "append_finish (m_topic m) m1 p s1 = (r, s')"
      using assms(2) o Inr by (simp add: append_msg_def sbind_def)
    then show ?thesis
      using assms(1) same append_finish_ok [of "m_topic m" m1 p s1] append_finish_err [of "m_topic m" m1 p s1]
      by (cases r) (auto simp: wake_locked_def)
  qed
qed

section \<open>The single node\<close>

lemma leads_standalone [simp]: "leads standalone t q"
  by (simp add: leads_def standalone_def)

lemma st_get_standalone [simp]: "st_get standalone s k = Inr (kv_get (db s) k)"
  by (simp add: st_get_def standalone_def)

lemma rep_async_standalone [simp]:
  "rep_apply_async standalone g b s = (Inr (Pending None), set_db (apply_batch b (db s)) s)"
  by (simp add: rep_apply_async_def standalone_def)

lemma take_offset_live:
  assumes "\<exists>q s1. sel s = (Inr q, s1) \<and> db s1 = db s"
    and "\<And>q b. kv_get (db s) (alloc_key t q) = Some b \<Longrightarrow> length b = 8"
  shows "\<exists>q n s1. take_offset standalone t sel s = (Inr (q, n), s1)"
proof -
  obtain q s1 where s1: "sel s = (Inr q, s1)" "db s1 = db s" using assms(1) by blast
  obtain qs s2 where s2: "get_qstate (qkey t q) s1 = (Inr qs, s2)" "db s2 = db s"
    using s1(2) by (cases "kv_get (qstates s1) (qkey t q)") (simp_all add: get_qstate_def Let_def)
  have "\<exists>n. read_counter standalone (alloc_key t q) s2 = Inr n"
    using assms(2) [of q] s2(2)
    by (cases "kv_get (db s) (alloc_key t q)") (auto simp: read_counter_def get_u64_def)
  then obtain n where "next_offset_locked standalone qs t q s2 = Inr n"
    unfolding next_offset_locked_def by (cases "qs_loaded qs") auto
  then show ?thesis using s1 s2 by (simp add: take_offset_def seq_defs)
qed

lemma order_batch_standalone:
  "order_batch standalone t q n b s = (Inr (Pending None), set_qstate (qkey t q) n (set_db (apply_batch b (db s)) s))"
  by (simp add: order_batch_def seq_defs)

lemma append_finish_durable: "append_finish t v (Pending None) s = (Inr v, wake_locked t s)"
  by (simp add: append_finish_def seq_defs)

text \<open>A valid message to an existing topic is always taken, if the counters on disk are readable.\<close>

lemma append_live:
  assumes "\<not> bad_body m" "name_valid (m_topic m)" "kv_get (topics s) (m_topic m) = Some tc" "tc_queues tc \<noteq> 0"
    and "\<And>q b. kv_get (db s) (alloc_key (m_topic m) q) = Some b \<Longrightarrow> length b = 8"
  shows "\<exists>m' s'. append_msg standalone now rnd m s = (Inr m', s')"
proof -
  have sel: "\<exists>q s1. select_queue standalone tc (stamp now rnd m) s = (Inr q, s1) \<and> db s1 = db s"
    using assms(4) by (auto simp: select_queue_def select_rr_def Let_def sret_def)
  obtain q s1 n where
      t: "take_offset standalone (m_topic m) (select_queue standalone tc (stamp now rnd m)) s = (Inr (q, n), s1)"
    using take_offset_live [of "select_queue standalone tc (stamp now rnd m)" s "m_topic m"] sel assms(5) by auto
  have e: "ensure_topic standalone now (m_topic m) s = (Inr tc, s)"
    using assms(2,3) by (simp add: ensure_topic_def get_topic_def validate_name_def)
  have "\<exists>m' s'. append_order standalone now rnd m s = (Inr (m', Pending None), s')"
    by (simp only: append_order_def assms(1) if_False, simp only: sbind_def e prod.case sum.case,
      simp only: Let_def stamp_topic, simp only: sbind_def t prod.case sum.case,
      simp only: sbind_def sget_def order_batch_standalone sret_def prod.case sum.case, simp)
  then obtain m' s' where "append_order standalone now rnd m s = (Inr (m', Pending None), s')" by blast
  then show ?thesis by (simp add: append_msg_def sbind_def append_finish_durable)
qed

lemma batch_live:
  assumes "ms \<noteq> []" "check_batch t ms = Inr ()" "t = m_topic (hd ms)"
    and "name_valid t" "kv_get (topics s) t = Some tc"
    and "\<And>q b. kv_get (db s) (alloc_key t q) = Some b \<Longrightarrow> length b = 8"
  shows "\<exists>ms' s'. append_batch standalone now rnd ms s = (Inr ms', s')"
proof -
  have sel: "\<exists>q s1. select_rr standalone t (tc_queues tc) 0 s = (Inr q, s1) \<and> db s1 = db s"
    by (auto simp: select_rr_def Let_def)
  obtain q s1 n where t: "take_offset standalone t (select_rr standalone t (tc_queues tc) 0) s = (Inr (q, n), s1)"
    using take_offset_live [of "select_rr standalone t (tc_queues tc) 0" s t] sel assms(6) by auto
  have e: "ensure_topic standalone now t s = (Inr tc, s)"
    using assms(4,5) by (simp add: ensure_topic_def get_topic_def validate_name_def)
  have c: "slift (\<lambda>_. check_batch t ms) s = (Inr (), s)" by (simp add: slift_def assms(2))
  have "\<exists>ms' s'. batch_order standalone now rnd ms s = (Inr (ms', Pending None), s')"
    by (simp only: batch_order_def assms(1) if_False assms(3) [symmetric] Let_def,
      simp only: sbind_def c e t prod.case sum.case,
      simp only: sbind_def sget_def order_batch_standalone sret_def prod.case sum.case, simp)
  then obtain ms' s' where "batch_order standalone now rnd ms s = (Inr (ms', Pending None), s')" by blast
  then show ?thesis by (simp add: append_batch_def sbind_def append_finish_durable)
qed

definition prod0 :: prod_node where
  "prod0 = \<lparr>db = [], sent = [],
     topics = [(''orders'', \<lparr>tc_name = ''orders'', tc_queues = 4, tc_created = 0, tc_retention = 1000\<rparr>)],
     groups = [], auto_create = True, default_queues = 4, default_max = 16,
     qstates = [], rr = [], wakers = [], chan_count = 0, chans_closed = [],
     delay_next = 0, delay_loaded = False, binary_encoding = True\<rparr>"

definition plain_msg :: message where
  "plain_msg = message0\<lparr>m_topic := ''orders'', m_body := ''paid''\<rparr>"

definition order_msg :: message where
  "order_msg = message0\<lparr>m_topic := ''orders'', m_body := ''paid'', m_keys := [''k1''], m_group := ''u7''\<rparr>"

lemma prod0_ok: "offsets_ok prod0" "delays_ok prod0" "room prod0 1"
  by (simp_all add: prod0_def offsets_ok_def below_alloc_def delays_ok_def stored_def staged_def alloc_of_def
      counter_of_def next_free_def next_seq_def delay_counter_def kv_simps room_def)

lemma orders_name: "name_valid ''orders''"
  by code_simp

lemma orders_appends:
  assumes "m_topic m = ''orders''" "\<not> bad_body m"
  shows "\<exists>m' s'. append_msg standalone now rnd m prod0 = (Inr m', s')"
proof (rule append_live [OF assms(2)])
  show "kv_get (topics prod0) (m_topic m) =
      Some \<lparr>tc_name = ''orders'', tc_queues = 4, tc_created = 0, tc_retention = 1000\<rparr>"
    by (simp add: prod0_def assms(1) kv_get_def)
qed (simp_all add: assms(1) orders_name prod0_def kv_simps)

lemma order_msg_appends:
  "\<exists>m' s'. append_msg standalone now rnd order_msg prod0 = (Inr m', s')"
  "\<exists>m' s'. append_msg standalone now rnd (order_msg\<lparr>m_body := ''sent''\<rparr>) prod0 = (Inr m', s')"
  by (rule orders_appends; simp add: order_msg_def bad_body_def max_body_size_def)+


section \<open>Properties\<close>



text \<open>C2: a successful append refines the append to an abstract log: the returned message, stamped and
  placed at the queue's next offset, is stored under its key in the configured format, the
  counter moves one past it, its business keys are indexed, nothing else of any queue changes,
  and the queue is one whose group this node leads, or the one its message group hashes to.\<close>

theorem append_refines_log:
  assumes "append_msg E now rnd m s = (Inr m', s')"
  shows "\<exists>q. m' = placed now rnd m q (next_free s (m_topic m) q) \<and> routed E now m s q \<and>
    log_append (m_topic m) q (next_free s (m_topic m) q) [encode_message (binary_encoding s) m'] (index_keys m')
      (db s) (db s')"
  using append_msg_ok [OF assms] by (auto simp: placed_def)

theorem append_refines_log_witness:
  "\<exists>m' s' q. append_msg standalone 1000 ''0123456789abcdef'' order_msg prod0 = (Inr m', s') \<and>
     m' = placed 1000 ''0123456789abcdef'' order_msg q (next_free prod0 ''orders'' q) \<and>
     log_append ''orders'' q (next_free prod0 ''orders'' q) [encode_message True m'] (index_keys m') [] (db s')"
proof -
  obtain m' s' where a: "append_msg standalone 1000 ''0123456789abcdef'' order_msg prod0 = (Inr m', s')"
    using order_msg_appends(1) by blast
  show ?thesis using append_refines_log [OF a] a by (auto simp: order_msg_def prod0_def)
qed

text \<open>A failed append, single or batched, leaves every queue, counter and index entry as it was,
  unless its batch was ordered and only the wait for durability failed; then the whole batch is
  in the log or none of it is, and its offsets are not given out again.\<close>

theorem failed_append_all_or_nothing:
  assumes "append_batch E now rnd ms s = (Inl e, s')"
    and "\<And>q. unat (next_free s (m_topic (hd ms)) q) + length ms < 2 ^ 64"
  shows "quiet s s' \<or> (e = ErrWait \<and> (\<exists>q p ms'. length ms' = length ms \<and>
    takes (m_topic (hd ms)) q (map (encode_message (binary_encoding s)) ms') (concat (map index_keys ms')) p s s'))"
  by (rule append_batch_err [OF assms])

theorem failed_append_all_or_nothing_witness:
  "quiet prod0 prod0 \<or> (ErrBatchKind = ErrWait \<and> (\<exists>q p ms'. length ms' = length [order_msg] \<and>
    takes ''orders'' q (map (encode_message True) ms') (concat (map index_keys ms')) p prod0 prod0))"
proof -
  have "append_batch standalone 1000 (\<lambda>_. []) [order_msg] prod0 = (Inl ErrBatchKind, prod0)"
    by (simp add: append_batch_def batch_order_def Let_def seq_defs order_msg_def message0_def)
  from failed_append_all_or_nothing [OF this] show ?thesis
    using prod0_ok(3) by (simp add: room_def order_msg_def prod0_def)
qed

text \<open>A successful batch occupies consecutive offsets of one queue led here, in the order of the
  messages, with every message and index entry stored and the counter moved past the last, by a
  single commit.\<close>

theorem batch_contiguous:
  assumes "append_batch E now rnd ms s = (Inr ms', s')"
    and "\<And>q. unat (next_free s (m_topic (hd ms)) q) + length ms < 2 ^ 64"
  shows "\<exists>q. leads E (m_topic (hd ms)) q \<and> length ms' = length ms \<and>
    (\<forall>i < length ms. m_queue_id (ms' ! i) = q \<and> m_offset (ms' ! i) = next_free s (m_topic (hd ms)) q + of_nat i) \<and>
    log_append (m_topic (hd ms)) q (next_free s (m_topic (hd ms)) q) (map (encode_message (binary_encoding s)) ms')
      (concat (map index_keys ms')) (db s) (db s')"
proof -
  obtain q where q: "ms' = batch_placed now rnd ms q (next_free s (m_topic (hd ms)) q)" "leads E (m_topic (hd ms)) q"
    "log_append (m_topic (hd ms)) q (next_free s (m_topic (hd ms)) q) (map (encode_message (binary_encoding s)) ms')
      (concat (map index_keys ms')) (db s) (db s')"
    using append_batch_ok [OF assms] by blast
  moreover have "\<forall>i < length ms. m_queue_id (ms' ! i) = q \<and> m_offset (ms' ! i) = next_free s (m_topic (hd ms)) q + of_nat i"
    by (simp add: q(1) batch_placed_def nth_place_all)
  ultimately show ?thesis by (intro exI [of _ q]) simp
qed

theorem batch_contiguous_witness:
  "\<exists>ms' s' q. append_batch standalone 1000 (\<lambda>i. [char_of i]) [plain_msg, plain_msg] prod0 = (Inr ms', s') \<and>
     length ms' = 2 \<and> m_queue_id (ms' ! 1) = q \<and> m_offset (ms' ! 1) = next_free prod0 ''orders'' q + 1"
proof -
  have "\<exists>ms' s'. append_batch standalone 1000 (\<lambda>i. [char_of i]) [plain_msg, plain_msg] prod0 = (Inr ms', s')"
    by (rule batch_live [where t = "''orders''"])
      (simp_all add: plain_msg_def bad_body_def max_body_size_def message0_def orders_name prod0_def kv_simps kv_get_def)
  then obtain ms' s' where a: "append_batch standalone 1000 (\<lambda>i. [char_of i]) [plain_msg, plain_msg] prod0 = (Inr ms', s')"
    by blast
  have "\<And>q. unat (next_free prod0 (m_topic (hd [plain_msg, plain_msg])) q) + length [plain_msg, plain_msg] < 2 ^ 64"
    by (simp add: prod0_def next_free_def alloc_of_def counter_of_def kv_simps)
  from batch_contiguous [OF a this] show ?thesis using a by (auto simp: plain_msg_def)
qed

text \<open>Messages of one message group sent to one topic go to one queue, whichever node, time or
  round robin position they are appended at, as long as the topic's configuration stays.\<close>

theorem group_keeps_queue:
  assumes "append_msg E1 now1 rnd1 m1 s1 = (Inr a, s1')" "append_msg E2 now2 rnd2 m2 s2 = (Inr b, s2')"
    and "m_group m1 \<noteq> []" "m_group m2 = m_group m1" "m_topic m2 = m_topic m1"
    and "get_topic s1 (m_topic m1) = Some tc" "get_topic s2 (m_topic m1) = Some tc"
  shows "m_queue_id a = m_queue_id b"
proof -
  have "m_queue_id x = fnv32a (m_group m) mod tc_queues tc"
    if "append_msg E now rnd m s = (Inr x, s')" "m_group m \<noteq> []" "get_topic s (m_topic m) = Some tc"
    for E now rnd m s x s'
    using append_msg_ok [OF that(1)] that(2,3)
    by (auto simp: routed_def placed_def ensure_topic_def split: sum.splits)
  then show ?thesis using assms by metis
qed

theorem group_keeps_queue_witness:
  "\<exists>a b s1 s2. append_msg standalone 1000 ''a'' order_msg prod0 = (Inr a, s1) \<and>
     append_msg standalone 2000 ''b'' (order_msg\<lparr>m_body := ''sent''\<rparr>) prod0 = (Inr b, s2) \<and> m_queue_id a = m_queue_id b"
proof -
  obtain a s1 b s2 where ab: "append_msg standalone 1000 ''a'' order_msg prod0 = (Inr a, s1)"
      "append_msg standalone 2000 ''b'' (order_msg\<lparr>m_body := ''sent''\<rparr>) prod0 = (Inr b, s2)"
    using order_msg_appends by meson
  show ?thesis
    using group_keeps_queue [OF ab] ab by (simp add: order_msg_def get_topic_def prod0_def kv_get_def)
qed

text \<open>C23: a reader that subscribed to a topic before an append to it is woken when the append
  succeeds, and by no append that fails: what wakes it is durable.\<close>

theorem append_wakes_subscribers:
  assumes "subscribe (m_topic m) s0 = (ch, s)" "append_msg E now rnd m s = (r, s')"
  shows "(is_ok r \<longrightarrow> ch \<in> set (chans_closed s')) \<and> (\<not> is_ok r \<longrightarrow> chans_closed s' = chans_closed s)"
  by (rule append_wakes [OF subscribe_waker [OF assms(1)] assms(2)])


theorem append_wakes_subscribers_witness:
  "\<exists>m' s'. append_msg standalone 1000 ''a'' order_msg (snd (subscribe ''orders'' prod0)) = (Inr m', s') \<and>
     fst (subscribe ''orders'' prod0) \<in> set (chans_closed s')"
proof -
  have s: "subscribe (m_topic order_msg) prod0 = (fst (subscribe ''orders'' prod0), snd (subscribe ''orders'' prod0))"
    by (simp add: order_msg_def)
  have "\<exists>m' s'. append_msg standalone 1000 ''a'' order_msg (snd (subscribe ''orders'' prod0)) = (Inr m', s')"
    by (rule append_live [where tc = "\<lparr>tc_name = ''orders'', tc_queues = 4, tc_created = 0, tc_retention = 1000\<rparr>"])
      (simp_all add: bad_body_def order_msg_def max_body_size_def orders_name subscribe_def prod0_def kv_simps kv_get_def)
  then obtain m' s' where a: "append_msg standalone 1000 ''a'' order_msg (snd (subscribe ''orders'' prod0)) = (Inr m', s')"
    by blast
  show ?thesis using append_wakes_subscribers [OF s a] a by simp
qed

end
