(* ===== verification/Handover.thy ===== *)
theory Handover
  imports Produce
begin

text \<open>
  The two-phase handovers of \<^verbatim>\<open>internal/core\<close>: a message leaves a staging record (an
  inflight record, a delayed message, a half message) for a queue.  The first phase writes it to
  its queue, here or at the leader of the queue's group; the second phase removes the record it
  came from.  Dead-lettering, the delay scheduler and the transaction manager share this order.
\<close>

section \<open>The interface\<close>

lemma rep_apply_ok_db: "rep_apply E g b s = (r, s') \<Longrightarrow> is_ok r \<Longrightarrow> db s' = apply_batch b (db s)"
  by (auto elim!: is_okE dest!: rep_apply_ok)

text \<open>What a second phase may do: it changes no queue's log and takes nothing back that was sent.\<close>

definition log_kept :: "'z node_scheme \<Rightarrow> 'z node_scheme \<Rightarrow> bool" where
  "log_kept s s' \<longleftrightarrow> same_log (db s) (db s') \<and> set (sent s) \<subseteq> set (sent s')"

lemma log_kept_rel: "reflp log_kept" "transp log_kept"
  by (auto simp: log_kept_def reflp_def transp_def intro: same_log_trans)

lemmas log_kept_sbind = moves_sbind [OF log_kept_rel(2)]
lemmas log_kept_simple [simp] = moves_simple [OF log_kept_rel(1), THEN conjunct1]
  moves_simple [OF log_kept_rel(1), THEN conjunct2, THEN conjunct1]
  moves_simple [OF log_kept_rel(1), THEN conjunct2, THEN conjunct2, THEN conjunct1]
  moves_simple [OF log_kept_rel(1), THEN conjunct2, THEN conjunct2, THEN conjunct2]

lemma log_kept_apply:
  assumes "\<And>x k. x \<in> set b \<Longrightarrow> op_hits x k \<Longrightarrow> off_log k"
  shows "moves log_kept (rep_apply E g b)" "moves log_kept (apply_or_forward E g b)"
proof -
  show a: "moves log_kept (rep_apply E g b)"
    using same_log_batch [OF assms] by (fastforce simp: moves_def log_kept_def dest: rep_apply_db)
  show "moves log_kept (apply_or_forward E g b)"
  proof (rule movesI)
    fix s r s'
    assume f: "apply_or_forward E g b s = (r, s')"
    show "log_kept s s'"
    proof (cases "is_leader E g")
      case True
      then show ?thesis using f movesD [OF a] by (simp add: apply_or_forward_def)
    next
      case False
      then show ?thesis using f by (auto simp: apply_or_forward_def log_kept_def split: option.splits)
    qed
  qed
qed

text \<open>
  What a client of the pattern relies on: the first phase leaves the staging records alone and,
  when it succeeds, has written the message, which the second phase does not undo.
\<close>

locale handover =
  fixes first :: "'z prod_node_scheme \<Rightarrow> (err + 'a) \<times> 'z prod_node_scheme"
    and written :: "'z prod_node_scheme \<Rightarrow> 'z prod_node_scheme \<Rightarrow> bool"
  assumes first_aside: "first s = (r, s') \<Longrightarrow> same_aside (db s) (db s')"
    and first_kv: "first s = (r, s') \<Longrightarrow> kv_ok (db s) \<Longrightarrow> kv_ok (db s')"
    and first_ok: "first s = (Inr v, s') \<Longrightarrow> written s s'"
    and written_stays: "written s s1 \<Longrightarrow> log_kept s1 s' \<Longrightarrow> written s s'"
begin

text \<open>Either the first phase failed, and every staging record is as it was, or the message is written.\<close>

lemma phases:
  assumes "sbind first second s = (r, s')" "\<And>v. moves log_kept (second v)"
  shows "(\<exists>e. first s = (Inl e, s') \<and> r = Inl e \<and> same_aside (db s) (db s') \<and> (kv_ok (db s) \<longrightarrow> kv_ok (db s'))) \<or>
    (\<exists>v s1. first s = (Inr v, s1) \<and> same_aside (db s) (db s1) \<and> (kv_ok (db s) \<longrightarrow> kv_ok (db s1)) \<and>
       second v s1 = (r, s') \<and> written s s')"
  using assms(1)
proof (cases rule: sbind_cases)
  case (fail e)
  then show ?thesis using first_aside [OF fail(1)] first_kv [OF fail(1)] by blast
next
  case (ok v s1)
  then show ?thesis
    using first_aside [OF ok(1)] first_kv [OF ok(1)] written_stays [OF first_ok [OF ok(1)] movesD [OF assms(2) ok(2)]]
    by blast
qed

lemma gone_written:
  assumes "sbind first second s = (r, s')" "\<And>v. moves log_kept (second v)" "aside k"
    and "kv_get (db s') k \<noteq> kv_get (db s) k"
  shows "written s s'"
  using phases [OF assms(1,2)] same_asideD [OF _ assms(3)] assms(4) by metis

end

section \<open>What the producer leaves alone\<close>

lemma takes_aside: "takes t q raws idx p s s' \<Longrightarrow> same_aside (db s) (db s')"
  by (auto simp: takes_def log_append_def)

lemma quiet_aside: "quiet s s' \<Longrightarrow> same_aside (db s) (db s')"
  by (simp add: quiet_def)

lemma append_msg_aside: "append_msg E now rnd m s = (r, s') \<Longrightarrow> same_aside (db s) (db s')"
  unfolding append_msg_def split_def
  by (erule sbind_cases)
    (blast dest: append_order_moves movesD [OF quiet_finish] intro: takes_aside quiet_aside same_aside_trans)+

definition kv_moves :: "'z node_scheme \<Rightarrow> 'z node_scheme \<Rightarrow> bool" where
  "kv_moves s s' \<longleftrightarrow> (kv_ok (db s) \<longrightarrow> kv_ok (db s'))"

lemma kv_moves_rel: "reflp kv_moves" "transp kv_moves"
  by (auto simp: kv_moves_def reflp_def transp_def)

lemmas kv_moves_sbind = moves_sbind [OF kv_moves_rel(2)]
lemmas kv_moves_simple [simp] = moves_simple [OF kv_moves_rel(1), THEN conjunct1]
  moves_simple [OF kv_moves_rel(1), THEN conjunct2, THEN conjunct1]
  moves_simple [OF kv_moves_rel(1), THEN conjunct2, THEN conjunct2, THEN conjunct1]
  moves_simple [OF kv_moves_rel(1), THEN conjunct2, THEN conjunct2, THEN conjunct2]

lemma kv_moves_async: "moves kv_moves (rep_apply_async E g b)"
  by (auto simp: moves_def kv_moves_def dest!: rep_apply_async_db)

lemma kv_moves_apply: "moves kv_moves (rep_apply E g b)"
  by (auto simp: moves_def kv_moves_def dest!: rep_apply_db)

lemma kv_moves_same_db: "(\<And>s r s'. m s = (r, s') \<Longrightarrow> db s' = db s) \<Longrightarrow> moves kv_moves m"
  by (auto simp: moves_def kv_moves_def)

lemma kv_moves_registry: "moves kv_moves (ensure_topic E now name)" "moves kv_moves (create_topic E now name n)"
proof -
  show "moves kv_moves (ensure_topic E now name)"
    by (rule movesI) (auto simp: kv_moves_def dest!: ensure_topic_frame)
  show "moves kv_moves (create_topic E now name n)"
    by (rule movesI) (auto simp: kv_moves_def dest!: create_topic_frame)
qed

lemma kv_moves_select: "moves kv_moves (select_queue E tc m)"
  by (rule kv_moves_same_db)
    (auto simp: select_queue_def select_rr_def Let_def sfail_def sret_def split: if_splits)

lemma kv_moves_get_qstate: "moves kv_moves (get_qstate k)"
  by (rule kv_moves_same_db) (auto simp: get_qstate_def Let_def split: option.splits)

lemma kv_moves_memory: "moves kv_moves (smod (set_qstate k n))" "moves kv_moves (smod (wake_locked t))"
  by (simp_all add: moves_def kv_moves_def smod_def set_qstate_def)

lemma kv_moves_append: "moves kv_moves (append_msg E now rnd m)"
  unfolding append_msg_def append_order_def take_offset_def order_batch_def append_finish_def Let_def split_def
  by (auto intro!: kv_moves_sbind kv_moves_registry kv_moves_select kv_moves_get_qstate kv_moves_async kv_moves_memory)

lemma in_span_self: "in_span n (Suc 0) n"
  by (simp add: in_span_def)

lemma append_msg_stored:
  assumes "append_msg E now rnd m s = (Inr m', s')"
  shows "\<exists>q n. stored (db s') (m_topic m) q n = Some (encode_message (binary_encoding s) (placed now rnd m q n))"
proof -
  obtain q where q: "m' = placed now rnd m q (next_free s (m_topic m) q)"
      and l: "log_append (m_topic m) q (m_offset m') [encode_message (binary_encoding s) m'] (index_keys m') (db s) (db s')"
    using append_msg_ok [OF assms] by blast
  have "name_ok (m_topic m)"
    using assms append_order_spec by (fastforce simp: append_msg_def sbind_ok takes_def)
  then have "stored (db s') (m_topic m) q (m_offset m') = Some (encode_message (binary_encoding s) m')"
    using l in_span_self [of "m_offset m'"] by (simp add: log_append_def)
  then show ?thesis using q by (auto simp: placed_def)
qed

lemma forward_append_spec:
  assumes "forward_append E g raw s = (r, s')"
  shows "(\<exists>e. r = Inl e \<and> s' = s) \<or> (\<exists>x. r = Inr x \<and> s' = s\<lparr>sent := sent s @ [FwdAppend g raw]\<rparr>)"
proof (cases "fwd_append E g raw")
  case (Inl e)
  then have "r = Inl e" "s' = s" using assms by (simp_all add: forward_append_def)
  then show ?thesis by blast
next
  case (Inr x)
  then have "r = Inr x" "s' = s\<lparr>sent := sent s @ [FwdAppend g raw]\<rparr>"
    using assms by (auto simp: forward_append_def)
  then show ?thesis by blast
qed

section \<open>Writing to the queue\<close>

text \<open>
  The first phase of the delay scheduler and of a commit: append here when this node leads the
  group of the message's queue (its queue number is still zero), else hand its bytes to the leader.
\<close>

definition enqueue ::
    "env \<Rightarrow> ms \<Rightarrow> bytes \<Rightarrow> message \<Rightarrow> bytes \<Rightarrow> 'z prod_node_scheme \<Rightarrow> (err + message) \<times> 'z prod_node_scheme" where
  "enqueue E now rnd m raw =
     (let g = group_for_queue E (m_topic m) (m_queue_id m) in
      if is_leader E g then append_msg E now rnd m
      else sbind (forward_append E g raw) (\<lambda>(q, off). sret (m\<lparr>m_queue_id := q, m_offset := off\<rparr>)))"

definition enqueued :: "env \<Rightarrow> ms \<Rightarrow> bytes \<Rightarrow> message \<Rightarrow> bytes \<Rightarrow> 'z prod_node_scheme \<Rightarrow> 'z prod_node_scheme \<Rightarrow> bool" where
  "enqueued E now rnd m raw s s' \<longleftrightarrow>
     (\<exists>q n. stored (db s') (m_topic m) q n = Some (encode_message (binary_encoding s) (placed now rnd m q n))) \<or>
     FwdAppend (group_for_queue E (m_topic m) (m_queue_id m)) raw \<in> set (sent s')"

lemma enqueue_spec:
  assumes "enqueue E now rnd m raw s = (r, s')"
  shows "same_aside (db s) (db s') \<and> kv_moves s s' \<and> (is_ok r \<longrightarrow> enqueued E now rnd m raw s s')"
proof (cases "is_leader E (group_for_queue E (m_topic m) (m_queue_id m))")
  case True
  then have a: "append_msg E now rnd m s = (r, s')" using assms by (simp add: enqueue_def)
  show ?thesis
    using append_msg_aside [OF a] movesD [OF kv_moves_append a] append_msg_stored [of E now rnd m s _ s'] a
    by (cases r) (auto simp: enqueued_def)
next
  case False
  then obtain r1 where a: "forward_append E (group_for_queue E (m_topic m) (m_queue_id m)) raw s = (r1, s')"
      and r: "is_ok r = is_ok r1"
    using assms by (auto simp: enqueue_def Let_def seq_defs split: prod.splits sum.splits)
  then show ?thesis
    using forward_append_spec [OF a] by (auto simp: enqueued_def kv_moves_def)
qed

interpretation enq: handover "enqueue E now rnd m raw" "enqueued E now rnd m raw" for E now rnd m raw
proof (unfold_locales, goal_cases)
  case (2 s r s')
  then show ?case using enqueue_spec [OF 2(1)] by (simp add: kv_moves_def)
next
  case (4 s s1 s')
  then show ?case unfolding enqueued_def log_kept_def by (metis same_logD(1) subsetD)
qed (use enqueue_spec in \<open>fastforce\<close>)+

end
