(* ===== verification/Deliver.thy ===== *)
theory Deliver
  imports Handover Sql_Eval
begin

text \<open>
  \<^verbatim>\<open>internal/core/deliver\<close>: \<open>deliver.go\<close> and \<open>lease.go\<close>.  POP
  delivery from a queue to a consumer group: a batch of messages is taken from the group's cursor,
  each with an inflight record that makes it invisible for a while; acknowledging deletes the
  record, an expired record is renewed or redelivered, and one that has used up its attempts goes
  to the dead letter topic.  Every operation here is one critical section of the queue's lock,
  followed by the wait for durability outside it; the clock is read once per section
  (\<open>now\<close>).

  Durations are integers of nanoseconds, as \<open>time.Duration\<close> is.
\<close>

section \<open>State\<close>

record deliver_node = prod_node +
  skipped :: "bytes \<times> bytes \<times> bytes \<Rightarrow> u64"

definition new_deliverer :: "'z deliver_node_scheme \<Rightarrow> 'z deliver_node_scheme" where
  "new_deliverer s = s\<lparr>skipped := \<lambda>_. 0\<rparr>"

definition filter_skipped :: "'z deliver_node_scheme \<Rightarrow> bytes \<times> bytes \<times> bytes \<Rightarrow> u64" where
  "filter_skipped s = skipped s"

definition skip_reason_of :: "filt \<Rightarrow> result \<Rightarrow> bytes" where
  "skip_reason_of f r =
     (case f of TagFilter _ \<Rightarrow> ''tag_miss''
      | _ \<Rightarrow> if r = RUnknown then ''sql_unknown'' else ''sql_false'')"

definition scan_budget :: int where "scan_budget = 1024"

section \<open>Retry backoff\<close>

definition retry_backoff_base :: int where "retry_backoff_base = 10 * 1000000000"
definition retry_backoff_max :: int where "retry_backoff_max = 5 * 60 * 1000000000"

fun backoff_loop :: "nat \<Rightarrow> int \<Rightarrow> int" where
  "backoff_loop 0 d = (if retry_backoff_max \<le> d then retry_backoff_max else d)"
| "backoff_loop (Suc n) d =
     (let d = d * 2 in if retry_backoff_max \<le> d then retry_backoff_max else backoff_loop n d)"

definition retry_backoff :: "int \<Rightarrow> int" where
  "retry_backoff attempts = backoff_loop (nat (attempts - 2)) retry_backoff_base"

section \<open>Leases\<close>

record lease =
  ls_owner :: bytes
  ls_max_renew :: int
  ls_alive :: "(bytes \<Rightarrow> bool) option"

definition no_lease :: lease where
  "no_lease = \<lparr>ls_owner = [], ls_max_renew = 0, ls_alive = None\<rparr>"

definition lease_enabled :: "lease \<Rightarrow> bool" where
  "lease_enabled l \<longleftrightarrow> ls_owner l \<noteq> [] \<and> 0 < ls_max_renew l \<and> ls_alive l \<noteq> None"

definition renewable :: "lease \<Rightarrow> inflight \<Rightarrow> ms \<Rightarrow> bool" where
  "renewable l st now =
     (if \<not> lease_enabled l then False
      else if if_renew_until st \<le> now then False
      else if if_owner st = [] then False
      else (case ls_alive l of None \<Rightarrow> False | Some alive \<Rightarrow> alive (if_owner st)))"

text \<open>The inflight record of a delivery: with a lease, whose it is and until when it may be renewed.\<close>

definition lease_stamp :: "lease \<Rightarrow> ms \<Rightarrow> inflight \<Rightarrow> inflight" where
  "lease_stamp l now st =
     (if lease_enabled l
      then st\<lparr>if_owner := ls_owner l, if_renew_until := now + milliseconds (ls_max_renew l)\<rparr> else st)"

definition delivery :: "lease \<Rightarrow> ms \<Rightarrow> ms \<Rightarrow> int \<Rightarrow> bool \<Rightarrow> inflight" where
  "delivery l now expire attempts ordered =
     lease_stamp l now (inflight0\<lparr>if_expire := expire, if_attempts := attempts, if_ordered := ordered\<rparr>)"

section \<open>Dead letters\<close>

text \<open>The two reasons, as the UTF-8 bytes of the source's literals.\<close>

definition reason_exhausted :: bytes where
  "reason_exhausted = map char_of [230, 138, 149, 233, 128, 146, 230, 172, 161, 230, 149, 176, 232, 128, 151, 229, 176, 189,
    239, 188, 136, 230, 156, 170, 229, 156, 168, 228, 184, 141, 229, 143, 175, 232, 167,
    129, 230, 156, 159, 229, 134, 133, 32, 97, 99, 107, 239, 188, 137::nat]"

definition reason_forwarded :: bytes where
  "reason_forwarded = map char_of [229, 174, 162, 230, 136, 183, 231, 171, 175, 230, 152, 190, 229, 188, 143, 232, 189, 172,
    229, 133, 165, 230, 173, 187, 228, 191, 161::nat]"

definition dlq_props :: "bytes \<Rightarrow> u32 \<Rightarrow> u64 \<Rightarrow> int \<Rightarrow> bytes \<Rightarrow> (bytes, bytes) omap \<Rightarrow> (bytes, bytes) omap" where
  "dlq_props topic q off attempts reason props =
     kv_set ''sq-dlq-reason'' reason
       (kv_set ''sq-dlq-attempts'' (fmt_int attempts)
         (kv_set ''sq-origin-offset'' (fmt_nat (unat off))
           (kv_set ''sq-origin-queue'' (fmt_nat (unat q))
             (kv_set ''sq-origin-topic'' topic props))))"

definition dlq_message :: "bytes \<Rightarrow> bytes \<Rightarrow> u32 \<Rightarrow> u64 \<Rightarrow> message \<Rightarrow> int \<Rightarrow> bytes \<Rightarrow> message" where
  "dlq_message grp topic q off m attempts reason = message0\<lparr>
     m_id := m_id m, m_topic := dlq_topic_name grp, m_tag := m_tag m, m_keys := m_keys m,
     m_props := dlq_props topic q off attempts reason (m_props m), m_body := m_body m,
     m_born_at := m_born_at m\<rparr>"

text \<open>First the dead letter is written, here or by its queue's leader; then the source record goes.\<close>

definition write_dead_letter ::
    "env \<Rightarrow> ms \<Rightarrow> bytes \<Rightarrow> message \<Rightarrow> 'z prod_node_scheme \<Rightarrow> (err + unit) \<times> 'z prod_node_scheme" where
  "write_dead_letter E now rnd dlq =
     (let g = group_for_queue E (m_topic dlq) 0 in
      if is_leader E g then sbind (append_msg E now rnd dlq) (\<lambda>_. sret ())
      else sbind (sget binary_encoding) (\<lambda>binary.
           sbind (forward_append E g (encode_message binary dlq)) (\<lambda>_. sret ())))"

definition move_to_dlq ::
    "env \<Rightarrow> ms \<Rightarrow> bytes \<Rightarrow> bytes \<Rightarrow> bytes \<Rightarrow> u32 \<Rightarrow> u64 \<Rightarrow> message \<Rightarrow> int \<Rightarrow> bytes \<Rightarrow>
      'z prod_node_scheme \<Rightarrow> (err + unit) \<times> 'z prod_node_scheme" where
  "move_to_dlq E now rnd grp topic q off m attempts reason =
     sbind (create_topic E now (dlq_topic_name grp) 1) (\<lambda>_.
     sbind (write_dead_letter E now rnd (dlq_message grp topic q off m attempts reason)) (\<lambda>_.
     rep_apply E (group_for_queue E topic q) (bdelete (inflight_key grp topic q off) new_batch)))"

section \<open>Taking a batch\<close>

text \<open>What the scan of the inflight records collects.\<close>

record inflight_scan =
  sc_busy :: bool
  sc_renews :: "(u64 \<times> inflight) list"
  sc_reds :: "(u64 \<times> int \<times> bool) list"

definition scan_inflight :: "lease \<Rightarrow> ms \<Rightarrow> int \<Rightarrow> inflight_scan callback" where
  "scan_inflight l now max_msgs acc k v =
     (case parse_inflight_key k of
        Inl e \<Rightarrow> (Inl (ErrKey e), acc)
      | Inr (_, _, _, off) \<Rightarrow>
          (case decode_inflight v of
             Inl e \<Rightarrow> (Inl e, acc)
           | Inr st \<Rightarrow>
               let acc = (if if_ordered st then acc\<lparr>sc_busy := True\<rparr> else acc)
               in (Inr True,
                   if if_expire st \<le> now then
                     (if renewable l st now then acc\<lparr>sc_renews := sc_renews acc @ [(off, st)]\<rparr>
                      else if int (length (sc_reds acc)) < max_msgs
                        then acc\<lparr>sc_reds := sc_reds acc @ [(off, if_attempts st, if_ordered st)]\<rparr>
                      else acc)
                   else acc)))"

text \<open>The batch under construction: its writes, whether it has any, the lock, the messages to hand out.\<close>

record taking =
  tk_batch :: batch
  tk_staged :: bool
  tk_busy :: bool
  tk_out :: "message list"

definition renew :: "ms \<Rightarrow> int \<Rightarrow> inflight \<Rightarrow> inflight" where
  "renew now invisible st =
     (let e = now + milliseconds invisible
      in st\<lparr>if_expire := (if if_renew_until st < e then if_renew_until st else e)\<rparr>)"

fun renew_loop :: "ms \<Rightarrow> int \<Rightarrow> bytes \<Rightarrow> bytes \<Rightarrow> u32 \<Rightarrow> (u64 \<times> inflight) list \<Rightarrow> taking \<Rightarrow> taking" where
  "renew_loop now invisible grp topic q [] t = t"
| "renew_loop now invisible grp topic q ((off, st) # rs) t =
     renew_loop now invisible grp topic q rs
       (t\<lparr>tk_batch := bset (inflight_key grp topic q off) (encode_inflight (renew now invisible st)) (tk_batch t),
          tk_staged := True\<rparr>)"

definition redelivery_expire :: "ms \<Rightarrow> int \<Rightarrow> int \<Rightarrow> bool \<Rightarrow> ms" where
  "redelivery_expire now invisible attempt ordered =
     (if \<not> ordered \<and> invisible < retry_backoff attempt then now + milliseconds (retry_backoff attempt)
      else now + milliseconds invisible)"

text \<open>One expired record: an orphan is cleaned up, an exhausted one dead-lettered, the rest handed out again.\<close>

definition redeliver ::
    "env \<Rightarrow> ms \<Rightarrow> bytes \<Rightarrow> bytes \<Rightarrow> bytes \<Rightarrow> u32 \<Rightarrow> int \<Rightarrow> int \<Rightarrow> lease \<Rightarrow> u64 \<times> int \<times> bool \<Rightarrow> taking \<Rightarrow>
      'z prod_node_scheme \<Rightarrow> (err + taking) \<times> 'z prod_node_scheme" where
  "redeliver E now rnd grp topic q invisible max_attempts l = (\<lambda>(off, attempts, ordered) t.
     sbind (slift (\<lambda>s. st_get E s (msg_key topic q off))) (\<lambda>raw.
     case raw of
       None \<Rightarrow> sret (t\<lparr>tk_batch := bdelete (inflight_key grp topic q off) (tk_batch t),
         tk_staged := True, tk_busy := (if ordered then False else tk_busy t)\<rparr>)
     | Some raw \<Rightarrow>
         sbind (slift (\<lambda>_. decode_message raw)) (\<lambda>m.
         if max_attempts \<le> attempts then
           sbind (move_to_dlq E now rnd grp topic q off m attempts reason_exhausted) (\<lambda>_.
           sret (t\<lparr>tk_busy := (if ordered then False else tk_busy t)\<rparr>))
         else sret (t\<lparr>tk_batch := bset (inflight_key grp topic q off)
                (encode_inflight (delivery l now (redelivery_expire now invisible (attempts + 1) ordered)
                   (attempts + 1) ordered)) (tk_batch t),
              tk_staged := True, tk_out := tk_out t @ [m\<lparr>m_attempt := attempts + 1\<rparr>]\<rparr>))))"

fun redeliver_loop ::
    "env \<Rightarrow> ms \<Rightarrow> bytes \<Rightarrow> bytes \<Rightarrow> bytes \<Rightarrow> u32 \<Rightarrow> int \<Rightarrow> int \<Rightarrow> lease \<Rightarrow> (u64 \<times> int \<times> bool) list \<Rightarrow> taking \<Rightarrow>
      'z prod_node_scheme \<Rightarrow> (err + taking) \<times> 'z prod_node_scheme" where
  "redeliver_loop E now rnd grp topic q invisible max_attempts l [] t = sret t"
| "redeliver_loop E now rnd grp topic q invisible max_attempts l (r # rs) t =
     sbind (redeliver E now rnd grp topic q invisible max_attempts l r t)
       (redeliver_loop E now rnd grp topic q invisible max_attempts l rs)"

text \<open>The scan of new messages.\<close>

record fetching = taking +
  ft_cursor :: u64
  ft_skips :: "bytes list"

definition fetch_new ::
    "ms \<Rightarrow> int \<Rightarrow> bytes \<Rightarrow> bytes \<Rightarrow> u32 \<Rightarrow> int \<Rightarrow> filt \<Rightarrow> lease \<Rightarrow> fetching callback" where
  "fetch_new now invisible grp topic q max_msgs f l t k v =
     (case decode_message v of
        Inl e \<Rightarrow> (Inl e, t)
      | Inr m \<Rightarrow>
          let r = filter_match f m in
          if r \<noteq> RTrue then
            (Inr True, t\<lparr>ft_cursor := m_offset m + 1, ft_skips := ft_skips t @ [skip_reason_of f r]\<rparr>)
          else if m_group m \<noteq> [] \<and> tk_busy t then (Inr False, t)
          else
            let ordered = (m_group m \<noteq> []);
                out = tk_out t @ [m\<lparr>m_attempt := 1\<rparr>]
            in (Inr (int (length out) < max_msgs),
                t\<lparr>ft_cursor := m_offset m + 1, tk_busy := (if ordered then True else tk_busy t),
                  tk_batch := bset (inflight_key grp topic q (m_offset m))
                    (encode_inflight (delivery l now (now + milliseconds invisible) 1 ordered)) (tk_batch t),
                  tk_out := out\<rparr>))"

definition count_skips :: "bytes \<Rightarrow> bytes \<Rightarrow> bytes list \<Rightarrow> 'z deliver_node_scheme \<Rightarrow> 'z deliver_node_scheme" where
  "count_skips topic grp reasons s =
     s\<lparr>skipped := (\<lambda>(t, g, r). skipped s (t, g, r) +
       (if t = topic \<and> g = grp then of_nat (length (filter (\<lambda>x. x = r) reasons)) else 0))\<rparr>"

text \<open>Phase two, left out when the redeliveries have filled the batch: a limit of zero would be no limit.\<close>

definition fetch_phase ::
    "env \<Rightarrow> ms \<Rightarrow> bytes \<Rightarrow> bytes \<Rightarrow> u32 \<Rightarrow> int \<Rightarrow> int \<Rightarrow> filt \<Rightarrow> lease \<Rightarrow> u64 \<Rightarrow> taking \<Rightarrow>
      'z deliver_node_scheme \<Rightarrow> (err + fetching) \<times> 'z deliver_node_scheme" where
  "fetch_phase E now grp topic q max_msgs invisible f l cursor t =
     (let t0 = taking.extend t \<lparr>ft_cursor = cursor, ft_skips = []\<rparr> in
      if int (length (tk_out t)) < max_msgs then
        (\<lambda>s. case st_scan E s (msg_key topic q cursor) (prefix_upper_bound (msg_queue_prefix topic q)) scan_budget
                 (fetch_new now invisible grp topic q max_msgs f l) t0 of
            (Inl e, _) \<Rightarrow> (Inl e, s)
          | (Inr _, t1) \<Rightarrow> (Inr (t1\<lparr>tk_staged := tk_staged t1 \<or> cursor < ft_cursor t1\<rparr>),
              if ft_skips t1 = [] then s else count_skips topic grp (ft_skips t1) s))
      else sret t0)"

text \<open>The result: nothing to commit, or the messages and the wait for their batch.\<close>

definition receive_once_locked ::
    "env \<Rightarrow> ms \<Rightarrow> bytes \<Rightarrow> bytes \<Rightarrow> bytes \<Rightarrow> u32 \<Rightarrow> int \<Rightarrow> int \<Rightarrow> int \<Rightarrow> filt \<Rightarrow> lease \<Rightarrow>
      'z deliver_node_scheme \<Rightarrow> (err + (message list \<times> pending) option) \<times> 'z deliver_node_scheme" where
  "receive_once_locked E now rnd grp topic q max_msgs invisible max_attempts f l =
     (let pfx = inflight_prefix grp topic q in
      sbind (\<lambda>s. case st_scan E s pfx (prefix_upper_bound pfx) 0 (scan_inflight l now max_msgs)
                     \<lparr>sc_busy = False, sc_renews = [], sc_reds = []\<rparr> of
                   (Inl e, _) \<Rightarrow> (Inl e, s) | (Inr _, sc) \<Rightarrow> (Inr sc, s)) (\<lambda>sc.
      let t = renew_loop now invisible grp topic q (sc_renews sc)
                \<lparr>tk_batch = new_batch, tk_staged = False, tk_busy = sc_busy sc, tk_out = []\<rparr> in
      sbind (redeliver_loop E now rnd grp topic q invisible max_attempts l (sc_reds sc) t) (\<lambda>t.
      sbind (slift (read_counter E (cursor_key grp topic q))) (\<lambda>cursor.
      sbind (fetch_phase E now grp topic q max_msgs invisible f l cursor t) (\<lambda>t.
      if \<not> tk_staged t then sret None
      else
        let b = (if cursor < ft_cursor t then bset (cursor_key grp topic q) (put_u64 (ft_cursor t)) (tk_batch t)
                 else tk_batch t) in
        sbind (rep_apply_async E (group_for_queue E topic q) b) (\<lambda>p.
        sret (Some (tk_out t, p))))))))"

definition receive_once ::
    "env \<Rightarrow> ms \<Rightarrow> bytes \<Rightarrow> bytes \<Rightarrow> bytes \<Rightarrow> u32 \<Rightarrow> int \<Rightarrow> int \<Rightarrow> int \<Rightarrow> filt \<Rightarrow> lease \<Rightarrow>
      'z deliver_node_scheme \<Rightarrow> (err + message list) \<times> 'z deliver_node_scheme" where
  "receive_once E now rnd grp topic q max_msgs invisible max_attempts f l =
     sbind (receive_once_locked E now rnd grp topic q max_msgs invisible max_attempts f l) (\<lambda>r.
     case r of None \<Rightarrow> sret []
     | Some (out, p) \<Rightarrow> sbind (slift (\<lambda>_. pending_wait p)) (\<lambda>_. sret out))"


section \<open>Long polling\<close>

text \<open>
  One turn of the waiting loop: when the take happens, what the clock says after it, and whether
  the caller's context ends before the next wake-up or tick.  A schedule of turns stands for what
  the clock, the wakers and the caller do; \<^term>\<open>None\<close> is still waiting at its end.
\<close>

record turn =
  tn_now :: ms
  tn_after :: ms
  tn_cancelled :: bool

fun receive_loop ::
    "env \<Rightarrow> bytes \<Rightarrow> bytes \<Rightarrow> bytes \<Rightarrow> u32 \<Rightarrow> int \<Rightarrow> int \<Rightarrow> int \<Rightarrow> filt \<Rightarrow> lease \<Rightarrow> ms \<Rightarrow> turn list \<Rightarrow>
      'z deliver_node_scheme \<Rightarrow> (err + message list option) \<times> 'z deliver_node_scheme" where
  "receive_loop E rnd grp topic q max_msgs invisible max_attempts f l deadline [] = sret None"
| "receive_loop E rnd grp topic q max_msgs invisible max_attempts f l deadline (w # ws) =
     sbind (smod (\<lambda>s. snd (subscribe topic s))) (\<lambda>_.
     sbind (receive_once E (tn_now w) rnd grp topic q max_msgs invisible max_attempts f l) (\<lambda>msgs.
     if msgs \<noteq> [] then sret (Some msgs)
     else if deadline \<le> tn_after w then sret (Some [])
     else if tn_cancelled w then sfail ErrCancelled
     else receive_loop E rnd grp topic q max_msgs invisible max_attempts f l deadline ws))"

definition receive ::
    "env \<Rightarrow> ms \<Rightarrow> bytes \<Rightarrow> bytes \<Rightarrow> bytes \<Rightarrow> u32 \<Rightarrow> int \<Rightarrow> int \<Rightarrow> ms \<Rightarrow> filt \<Rightarrow> lease \<Rightarrow> turn list \<Rightarrow>
      'z deliver_node_scheme \<Rightarrow> (err + message list option) \<times> 'z deliver_node_scheme" where
  "receive E now rnd grp topic q max_msgs invisible wait f l ws =
     sbind (ensure_group E now grp) (\<lambda>gc.
     case read_barrier E (group_for_queue E topic q) of
       Some e \<Rightarrow> sfail e
     | None \<Rightarrow>
         receive_loop E rnd grp topic q max_msgs invisible (effective_max_attempts gc) f l (now + wait) ws)"

section \<open>Acknowledging\<close>

text \<open>The entries are checked in order against the store; the deletes go in one batch.\<close>

fun ack_loop ::
    "env \<Rightarrow> bytes \<Rightarrow> bytes \<Rightarrow> u32 \<Rightarrow> (u64 \<times> int) list \<Rightarrow> 'z node_scheme \<Rightarrow> err + (u64 \<times> bool) list \<times> batch \<Rightarrow>
      err + (u64 \<times> bool) list \<times> batch" where
  "ack_loop E grp topic q [] s acc = acc"
| "ack_loop E grp topic q ((off, attempt) # es) s acc =
     ack_loop E grp topic q es s
       (ebind acc (\<lambda>(results, b).
        let k = inflight_key grp topic q off in
        ebind (st_get E s k) (\<lambda>v.
        case v of
          None \<Rightarrow> Inr (results @ [(off, False)], b)
        | Some v \<Rightarrow> ebind (decode_inflight v) (\<lambda>st.
            if if_attempts st \<noteq> attempt then Inr (results @ [(off, False)], b)
            else Inr (results @ [(off, True)], bdelete k b)))))"

definition ack_batch ::
    "env \<Rightarrow> bytes \<Rightarrow> bytes \<Rightarrow> u32 \<Rightarrow> (u64 \<times> int) list \<Rightarrow> 'z node_scheme \<Rightarrow>
      (err + (u64 \<times> bool) list) \<times> 'z node_scheme" where
  "ack_batch E grp topic q es =
     (if es = [] then sret []
      else sbind (slift (\<lambda>s. ack_loop E grp topic q es s (Inr ([], new_batch)))) (\<lambda>(results, b).
        if b = new_batch then sret results
        else sbind (rep_apply_async E (group_for_queue E topic q) b) (\<lambda>p.
             sbind (slift (\<lambda>_. pending_wait p)) (\<lambda>_. sret results))))"

definition ack ::
    "env \<Rightarrow> bytes \<Rightarrow> bytes \<Rightarrow> u32 \<Rightarrow> u64 \<Rightarrow> int \<Rightarrow> 'z node_scheme \<Rightarrow> (err + bool) \<times> 'z node_scheme" where
  "ack E grp topic q off attempt =
     sbind (ack_batch E grp topic q [(off, attempt)]) (\<lambda>rs. sret (snd (hd rs)))"

section \<open>Changing the invisible time, dead-lettering, resetting\<close>

text \<open>What both start with: the record of an offset, if its attempt is the caller's.\<close>

definition current_record ::
    "env \<Rightarrow> bytes \<Rightarrow> bytes \<Rightarrow> u32 \<Rightarrow> u64 \<Rightarrow> int \<Rightarrow> 'z node_scheme \<Rightarrow> err + inflight option" where
  "current_record E grp topic q off attempt s =
     ebind (st_get E s (inflight_key grp topic q off)) (\<lambda>v.
     case v of
       None \<Rightarrow> Inr None
     | Some v \<Rightarrow> ebind (decode_inflight v) (\<lambda>st.
         if if_attempts st \<noteq> attempt then Inr None else Inr (Some st)))"

definition change_invisible_locked ::
    "env \<Rightarrow> ms \<Rightarrow> bytes \<Rightarrow> bytes \<Rightarrow> u32 \<Rightarrow> u64 \<Rightarrow> int \<Rightarrow> int \<Rightarrow> 'z node_scheme \<Rightarrow>
      (err + pending option) \<times> 'z node_scheme" where
  "change_invisible_locked E now grp topic q off attempt invisible =
     sbind (slift (current_record E grp topic q off attempt)) (\<lambda>r.
     case r of
       None \<Rightarrow> sret None
     | Some st \<Rightarrow>
         sbind (rep_apply_async E (group_for_queue E topic q)
           (bset (inflight_key grp topic q off) (encode_inflight (st\<lparr>if_expire := now + milliseconds invisible\<rparr>)) new_batch))
           (\<lambda>p. sret (Some p)))"

definition change_invisible ::
    "env \<Rightarrow> ms \<Rightarrow> bytes \<Rightarrow> bytes \<Rightarrow> u32 \<Rightarrow> u64 \<Rightarrow> int \<Rightarrow> int \<Rightarrow> 'z node_scheme \<Rightarrow> (err + bool) \<times> 'z node_scheme" where
  "change_invisible E now grp topic q off attempt invisible =
     sbind (change_invisible_locked E now grp topic q off attempt invisible) (\<lambda>r.
     case r of None \<Rightarrow> sret False
     | Some p \<Rightarrow> sbind (slift (\<lambda>_. pending_wait p)) (\<lambda>_. sret True))"

definition forward_to_dlq ::
    "env \<Rightarrow> ms \<Rightarrow> bytes \<Rightarrow> bytes \<Rightarrow> bytes \<Rightarrow> u32 \<Rightarrow> u64 \<Rightarrow> int \<Rightarrow> 'z prod_node_scheme \<Rightarrow> (err + bool) \<times> 'z prod_node_scheme" where
  "forward_to_dlq E now rnd grp topic q off attempt =
     sbind (slift (current_record E grp topic q off attempt)) (\<lambda>r.
     case r of
       None \<Rightarrow> sret False
     | Some _ \<Rightarrow>
         sbind (slift (\<lambda>s. st_get E s (msg_key topic q off))) (\<lambda>raw.
         case raw of
           None \<Rightarrow> sbind (rep_apply E (group_for_queue E topic q)
             (bdelete (inflight_key grp topic q off) new_batch)) (\<lambda>_. sret True)
         | Some raw \<Rightarrow> sbind (slift (\<lambda>_. decode_message raw)) (\<lambda>m.
             sbind (move_to_dlq E now rnd grp topic q off m attempt reason_forwarded) (\<lambda>_. sret True))))"

definition reset_cursor ::
    "env \<Rightarrow> bytes \<Rightarrow> bytes \<Rightarrow> u32 \<Rightarrow> u64 \<Rightarrow> 'z node_scheme \<Rightarrow> (err + unit) \<times> 'z node_scheme" where
  "reset_cursor E grp topic q off =
     rep_apply E (group_for_queue E topic q)
       (bdelete_prefix (inflight_prefix grp topic q) (bset (cursor_key grp topic q) (put_u64 off) new_batch))"


section \<open>The backoff\<close>

lemma backoff_loop_min:
  "0 < d \<Longrightarrow> backoff_loop n d = min retry_backoff_max (d * 2 ^ n)"
proof (induction n arbitrary: d)
  case (Suc n)
  have le: "d * 2 \<le> d * 2 * 2 ^ n" using Suc.prems by simp
  have IH: "backoff_loop n (d * 2) = min retry_backoff_max (d * 2 * 2 ^ n)"
    using Suc.prems by (intro Suc.IH) simp
  show ?case
  proof (cases "retry_backoff_max \<le> d * 2")
    case True
    then have "retry_backoff_max \<le> d * 2 * 2 ^ n" using le by linarith
    then show ?thesis using True by (simp add: ac_simps)
  next
    case False
    then show ?thesis using IH by (simp add: ac_simps)
  qed
qed auto

section \<open>Dead letters\<close>

text \<open>The letter is in its queue here, or its queue's leader has taken it.\<close>

definition letter_written :: "env \<Rightarrow> ms \<Rightarrow> bytes \<Rightarrow> message \<Rightarrow> 'z prod_node_scheme \<Rightarrow> 'z prod_node_scheme \<Rightarrow> bool" where
  "letter_written E now rnd dlq s s' \<longleftrightarrow>
     (\<exists>q n. stored (db s') (m_topic dlq) q n = Some (encode_message (binary_encoding s) (placed now rnd dlq q n))) \<or>
     FwdAppend (group_for_queue E (m_topic dlq) 0) (encode_message (binary_encoding s) dlq) \<in> set (sent s')"

lemma write_dead_letter_spec:
  assumes "write_dead_letter E now rnd dlq s = (r, s')"
  shows "same_aside (db s) (db s') \<and> kv_moves s s' \<and> (is_ok r \<longrightarrow> letter_written E now rnd dlq s s')"
proof (cases "is_leader E (group_for_queue E (m_topic dlq) 0)")
  case True
  then obtain r1 where a: "append_msg E now rnd dlq s = (r1, s')" and r: "is_ok r = is_ok r1"
    using assms by (auto simp: write_dead_letter_def seq_defs split: prod.splits sum.splits)
  then show ?thesis
    using append_msg_aside [OF a] movesD [OF kv_moves_append a] append_msg_stored [of E now rnd dlq s _ s']
    by (cases r1) (auto simp: letter_written_def)
next
  case False
  then obtain r1 where a: "forward_append E (group_for_queue E (m_topic dlq) 0) (encode_message (binary_encoding s) dlq) s = (r1, s')"
      and r: "is_ok r = is_ok r1"
    using assms by (auto simp: write_dead_letter_def seq_defs split: prod.splits sum.splits)
  then show ?thesis
    using forward_append_spec [OF a] by (auto simp: letter_written_def kv_moves_def)
qed

interpretation dead: handover "write_dead_letter E now rnd dlq" "letter_written E now rnd dlq" for E now rnd dlq
proof (unfold_locales, goal_cases)
  case (2 s r s')
  then show ?case using write_dead_letter_spec [OF 2(1)] by (simp add: kv_moves_def)
next
  case (4 s s1 s')
  then show ?case unfolding letter_written_def log_kept_def by (metis same_logD(1) subsetD)
qed (use write_dead_letter_spec in \<open>fastforce\<close>)+

text \<open>
  A source record that is gone means a letter that is written: the order of the two halves.
\<close>

lemma drop_record_log: "moves log_kept (rep_apply E g (bdelete (inflight_key grp t q off) new_batch))"
  by (rule log_kept_apply) (auto simp: bdelete_def new_batch_def)

lemma move_to_dlq_spec:
  assumes "move_to_dlq E now rnd g t q off m attempts reason s = (r, s')"
  shows "kv_moves s s' \<and> ((\<not> is_ok r \<and> same_aside (db s) (db s')) \<or>
    (\<exists>d. same_aside (db s) d \<and> db s' = kv_del (inflight_key g t q off) d \<and>
      letter_written E now rnd (dlq_message g t q off m attempts reason) s s'))"
  using assms unfolding move_to_dlq_def
proof (cases rule: sbind_cases)
  case (fail e)
  then show ?thesis
    using quiet_aside [OF movesD [OF quiet_create_topic]] movesD [OF kv_moves_registry(2)] by auto
next
  case (ok tc s0)
  let ?dlq = "dlq_message g t q off m attempts reason"
  have k0: "kv_ok (db s) \<longrightarrow> kv_ok (db s0)" using movesD [OF kv_moves_registry(2) ok(1)] by (simp add: kv_moves_def)
  have q0: "quiet s s0" by (rule movesD [OF quiet_create_topic ok(1)])
  then have a0: "same_aside (db s) (db s0)" and bin: "binary_encoding s0 = binary_encoding s"
    by (simp_all add: quiet_def)
  from dead.phases [OF ok(2) drop_record_log]
  show ?thesis
  proof (elim disjE exE conjE)
    fix e
    assume "r = Inl e" "same_aside (db s0) (db s')" "kv_ok (db s0) \<longrightarrow> kv_ok (db s')"
    then show ?thesis using a0 k0 same_aside_trans by (auto simp: kv_moves_def)
  next
    fix v s1
    assume h: "same_aside (db s0) (db s1)" "kv_ok (db s0) \<longrightarrow> kv_ok (db s1)" "letter_written E now rnd ?dlq s0 s'"
      and a: "rep_apply E (group_for_queue E t q) (bdelete (inflight_key g t q off) new_batch) s1 = (r, s')"
    have a1: "same_aside (db s) (db s1)" using a0 h(1) by (rule same_aside_trans)
    have k1: "kv_moves s s'"
      using k0 h(2) movesD [OF kv_moves_apply a] by (simp add: kv_moves_def)
    have l: "letter_written E now rnd ?dlq s s'" using h(3) by (simp add: letter_written_def bin)
    show ?thesis
    proof (cases "db s' = kv_del (inflight_key g t q off) (db s1)")
      case True
      then show ?thesis using k1 a1 l by blast
    next
      case False
      then have "db s' = db s1" "\<not> is_ok r"
        using rep_apply_db [OF a] rep_apply_ok_db [OF a] by (auto simp: kv_simps)
      then show ?thesis using k1 a1 by simp
    qed
  qed
qed

lemma dlq_name_long: "122 < length g \<Longrightarrow> \<not> name_valid (dlq_topic_name g)"
  by (simp add: name_valid_def dlq_topic_name_def dlq_prefix_def)

lemma move_to_dlq_long:
  "122 < length g \<Longrightarrow> move_to_dlq E now rnd g t q off m attempts reason s = (Inl (ErrBadName (dlq_topic_name g)), s)"
  using dlq_name_long [of g] by (simp add: move_to_dlq_def create_topic_def validate_name_def sbind_def)

section \<open>Acknowledging\<close>

lemma ack_loop_Inl [simp]: "ack_loop E g t q es s (Inl e) = Inl e"
  by (induction es) auto

text \<open>Whether an entry is current: the record is there with its attempt.\<close>

definition entry_current :: "kv \<Rightarrow> bytes \<Rightarrow> bytes \<Rightarrow> u32 \<Rightarrow> u64 \<times> int \<Rightarrow> bool" where
  "entry_current m g t q = (\<lambda>(off, attempt). case kv_get m (inflight_key g t q off) of
     None \<Rightarrow> False
   | Some v \<Rightarrow> (case decode_inflight v of Inl _ \<Rightarrow> False | Inr st \<Rightarrow> if_attempts st = attempt))"

lemma ack_loop_ok:
  "ack_loop E g t q es s (Inr (rs, b)) = Inr (results, b') \<Longrightarrow>
     results = rs @ map (\<lambda>e. (fst e, entry_current (db s) g t q e)) es \<and>
     b' = b @ map (\<lambda>e. BDelete (inflight_key g t q (fst e))) (filter (entry_current (db s) g t q) es)"
proof (induction es arbitrary: rs b)
  case (Cons e es)
  obtain off attempt where e: "e = (off, attempt)" by (cases e)
  let ?k = "inflight_key g t q off"
  let ?c = "entry_current (db s) g t q e"
  have nf: "\<not> rd_fail E ?k"
    using Cons.prems by (auto simp: e st_get_def)
  have "ack_loop E g t q es s (Inr (rs @ [(off, ?c)], b @ (if ?c then [BDelete ?k] else []))) = Inr (results, b')"
  proof (cases "kv_get (db s) ?k")
    case None
    then show ?thesis using Cons.prems nf by (simp add: e st_get_def entry_current_def)
  next
    case (Some v)
    then show ?thesis using Cons.prems nf
      by (cases "decode_inflight v") (simp_all add: e st_get_def entry_current_def bdelete_def split: if_splits)
  qed
  from Cons.IH [OF this] show ?case by (simp add: e)
qed simp

lemma get_deletes:
  "kv_get (apply_batch (map (\<lambda>e. BDelete (f e)) es) m) k = (if k \<in> f ` set es then None else kv_get m k)"
  by (induction es arbitrary: m) (auto simp: kv_simps apply_batch_Cons)

lemma ack_batch_ok:
  assumes "ack_batch E g t q es s = (Inr results, s')"
  shows "results = map (\<lambda>e. (fst e, entry_current (db s) g t q e)) es \<and>
    s' = set_db (apply_batch (map (\<lambda>e. BDelete (inflight_key g t q (fst e)))
      (filter (entry_current (db s) g t q) es)) (db s)) s"
proof (cases "es = []")
  case True
  then show ?thesis using assms by (simp add: ack_batch_def sret_def kv_simps)
next
  case False
  then obtain rs b where l: "ack_loop E g t q es s (Inr ([], new_batch)) = Inr (rs, b)"
      and r: "results = rs" and a: "(b = new_batch \<and> s' = s) \<or>
        (\<exists>p. rep_apply_async E (group_for_queue E t q) b s = (Inr p, s') \<and> pending_wait p = Inr ())"
    using assms by (auto simp: ack_batch_def sbind_ok slift_def sret_def split: if_splits)
  have b: "b = map (\<lambda>e. BDelete (inflight_key g t q (fst e))) (filter (entry_current (db s) g t q) es)"
    using ack_loop_ok [OF l] by (simp add: new_batch_def)
  show ?thesis
    using ack_loop_ok [OF l] a rep_apply_async_ok [of E _ b s _ s'] by (auto simp: r b kv_simps new_batch_def)
qed

lemma ack_batch_err:
  assumes "ack_batch E g t q es s = (Inl e, s')" "e \<noteq> ErrWait"
  shows "s' = s"
  using assms
  by (auto simp: ack_batch_def sret_def slift_def rep_apply_async_def split_def elim!: sbind_cases
      split: if_splits outcome.splits prod.splits)


lemma current_record_spec:
  assumes "current_record E g t q off attempt s = Inr r"
  shows "case r of None \<Rightarrow> \<not> entry_current (db s) g t q (off, attempt)
    | Some st \<Rightarrow> entry_current (db s) g t q (off, attempt) \<and>
        (\<exists>v. kv_get (db s) (inflight_key g t q off) = Some v \<and> decode_inflight v = Inr st)"
proof -
  have nf: "\<not> rd_fail E (inflight_key g t q off)"
    using assms by (auto simp: current_record_def st_get_def)
  show ?thesis
  proof (cases "kv_get (db s) (inflight_key g t q off)")
    case None
    then show ?thesis using assms nf by (auto simp: current_record_def st_get_def entry_current_def)
  next
    case (Some v)
    then show ?thesis using assms nf
      by (cases "decode_inflight v") (auto simp: current_record_def st_get_def entry_current_def split: if_splits)
  qed
qed

lemma change_invisible_ok:
  assumes "change_invisible E now g t q off attempt invisible s = (Inr b, s')"
  shows "b = entry_current (db s) g t q (off, attempt) \<and>
    (if b then \<exists>v st. kv_get (db s) (inflight_key g t q off) = Some v \<and> decode_inflight v = Inr st \<and>
       s' = set_db (kv_set (inflight_key g t q off)
         (encode_inflight (st\<lparr>if_expire := now + milliseconds invisible\<rparr>)) (db s)) s
     else s' = s)"
proof -
  obtain r where c: "current_record E g t q off attempt s = Inr r"
    using assms by (auto simp: change_invisible_def change_invisible_locked_def sbind_ok slift_def)
  show ?thesis
  proof (cases r)
    case None
    then show ?thesis
      using assms current_record_spec [OF c] c
      by (auto simp: change_invisible_def change_invisible_locked_def seq_defs)
  next
    case (Some st)
    let ?b = "bset (inflight_key g t q off) (encode_inflight (st\<lparr>if_expire := now + milliseconds invisible\<rparr>)) new_batch"
    obtain p where p: "rep_apply_async E (group_for_queue E t q) ?b s = (Inr p, s')"
        "pending_wait p = Inr ()" and b: "b"
      using assms c Some
      by (auto simp: change_invisible_def change_invisible_locked_def sbind_ok slift_def sret_def)
    show ?thesis
      using rep_apply_async_ok [OF p] current_record_spec [OF c] b Some by (auto simp: kv_simps)
  qed
qed

lemma stale_record:
  assumes "\<not> entry_current (db s) g t q (off, attempt)"
  shows "current_record E g t q off attempt s = Inr None \<or> (\<exists>e. current_record E g t q off attempt s = Inl e)"
proof (cases "current_record E g t q off attempt s")
  case (Inr r)
  then show ?thesis using current_record_spec [OF Inr] assms by (cases r) auto
qed simp

lemma ack_batch_stale:
  assumes "\<not> entry_current (db s) g t q (off, attempt)"
  shows "snd (ack_batch E g t q [(off, attempt)] s) = s \<and>
    (\<forall>rs. fst (ack_batch E g t q [(off, attempt)] s) = Inr rs \<longrightarrow> rs = [(off, False)])"
proof (cases "ack_loop E g t q [(off, attempt)] s (Inr ([], new_batch))")
  case (Inl e)
  then show ?thesis by (simp add: ack_batch_def seq_defs del: ack_loop.simps)
next
  case (Inr x)
  obtain rs b where x: "x = (rs, b)" by (cases x)
  then have "rs = [(off, False)]" "b = new_batch"
    using ack_loop_ok [of E g t q "[(off, attempt)]" s "[]" new_batch rs b] Inr assms by simp_all
  then show ?thesis using Inr by (simp add: ack_batch_def seq_defs x del: ack_loop.simps)
qed


section \<open>An example queue\<close>

definition shop_msg :: message where
  "shop_msg = message0\<lparr>m_id := ''A1'', m_topic := ''orders'', m_queue_id := 1, m_offset := 5, m_body := ''paid''\<rparr>"

definition shop_rec :: inflight where
  "shop_rec = inflight0\<lparr>if_expire := 1000, if_attempts := 2\<rparr>"

definition shop_for :: "bytes \<Rightarrow> deliver_node" where
  "shop_for g = \<lparr>
     db = kv_set (inflight_key g ''orders'' 1 5) (encode_inflight shop_rec)
       (kv_set (msg_key ''orders'' 1 5) (encode_message True shop_msg)
         (kv_set (alloc_key ''orders'' 1) (put_u64 6) (kv_set (cursor_key g ''orders'' 1) (put_u64 6) []))),
     sent = [], topics = [(''orders'', \<lparr>tc_name = ''orders'', tc_queues = 4, tc_created = 0, tc_retention = 1000\<rparr>)],
     groups = [], auto_create = True, default_queues = 4, default_max = 16,
     qstates = [], rr = [], wakers = [], chan_count = 0, chans_closed = [],
     delay_next = 0, delay_loaded = False, binary_encoding = True, skipped = \<lambda>_. 0\<rparr>"

lemma shop_decode: "decode_message (encode_message True shop_msg) = Inr shop_msg"
    "decode_inflight (encode_inflight shop_rec) = Inr shop_rec"
proof -
  have "message_ok shop_msg"
    by (simp add: message_ok_def text_ok_def shop_msg_def message0_def props_ok_def digest_ok_def utf8_ascii code_def i64_range_def)
  moreover have "meta_fits shop_msg"
    unfolding meta_fits_def by (rule less_trans [of _ 500], code_simp, simp)
  ultimately show "decode_message (encode_message True shop_msg) = Inr shop_msg" by (rule message_roundtrip)
  show "decode_inflight (encode_inflight shop_rec) = Inr shop_rec"
    by (rule inflight_roundtrip) (simp add: inflight_ok_def shop_rec_def inflight0_def i64_range_def)
qed

lemma inflight_apart [simp]:
  "inflight_key g t q n \<noteq> msg_key t' q' n'" "inflight_key g t q n \<noteq> alloc_key t' q'"
  "msg_key t' q' n' \<noteq> inflight_key g t q n" "alloc_key t' q' \<noteq> inflight_key g t q n"
  "inflight_key g t q n \<noteq> cursor_key g' t' q'" "cursor_key g' t' q' \<noteq> inflight_key g t q n"
  "msg_key t' q' n' \<noteq> cursor_key g' t q"
  by (simp_all add: inflight_key_def msg_key_def alloc_key_def cursor_key_def prefix_defs)

lemma shop_get:
  "kv_get (db (shop_for g)) (inflight_key g ''orders'' 1 5) = Some (encode_inflight shop_rec)"
  "kv_get (db (shop_for g)) (msg_key ''orders'' 1 5) = Some (encode_message True shop_msg)"
  by (simp_all add: shop_for_def kv_simps)

lemma shop_attempts [simp]: "if_attempts shop_rec = 2"
  by (simp add: shop_rec_def)

lemma shop_current: "entry_current (db (shop_for g)) g ''orders'' 1 (5, 2)"
    "\<not> entry_current (db (shop_for g)) g ''orders'' 1 (5, 1)"
  by (simp_all add: entry_current_def shop_get shop_decode)

lemma st_get_example [simp]: "st_get standalone (shop_for g) k = Inr (kv_get (db (shop_for g)) k)"
  by simp

section \<open>Properties\<close>

text \<open>The delay before the n-th delivery is the base doubled with every delivery after the second,
  capped at the maximum, for every attempt count.\<close>

theorem backoff_capped_exponential:
  "retry_backoff n = min retry_backoff_max (retry_backoff_base * 2 ^ nat (n - 2))"
  unfolding retry_backoff_def by (rule backoff_loop_min) (simp add: retry_backoff_base_def)

text \<open>C21: acknowledging a batch confirms exactly the entries whose record is there with the attempt
  the consumer holds, deletes exactly their records, and touches nothing else.\<close>

theorem ack_batch_exact:
  assumes "ack_batch E g t q es s = (Inr results, s')"
  shows "results = map (\<lambda>e. (fst e, entry_current (db s) g t q e)) es \<and>
    (\<forall>k. kv_get (db s') k =
       (if k \<in> (\<lambda>e. inflight_key g t q (fst e)) ` {e \<in> set es. entry_current (db s) g t q e} then None
        else kv_get (db s) k))"
  using ack_batch_ok [OF assms] by (auto simp: get_deletes)

theorem ack_batch_exact_witness:
  "\<exists>s'. ack_batch standalone ''web'' ''orders'' 1 [(5, 1), (5, 2), (9, 1)] (shop_for ''web'') =
      (Inr [(5, False), (5, True), (9, False)], s') \<and>
     kv_get (db s') (inflight_key ''web'' ''orders'' 1 5) = None"
proof -
  have none: "kv_get (db (shop_for ''web'')) (inflight_key ''web'' ''orders'' 1 9) = None"
    by (simp add: shop_for_def kv_simps infq.key_eq del: kv_set.simps)
  obtain s' where a: "ack_batch standalone ''web'' ''orders'' 1 [(5, 1), (5, 2), (9, 1)] (shop_for ''web'') =
      (Inr [(5, False), (5, True), (9, False)], s')"
    by (simp add: ack_batch_def seq_defs shop_get shop_decode none new_batch_def bdelete_def)
  have "kv_get (db s') (inflight_key ''web'' ''orders'' 1 (fst (5, 2::int))) = None"
    using ack_batch_exact [OF a] shop_current(1) [of "''web''"] by (auto intro!: image_eqI [of _ _ "(5, 2)"])
  then show ?thesis using a by auto
qed

text \<open>C22: a handle whose attempt is not the stored one, because the message was redelivered,
  acknowledged or dead-lettered since, changes nothing: acknowledging, changing the invisible time and
  forwarding to the dead letters all leave the node exactly as it was.\<close>

theorem stale_handles_harmless:
  assumes "\<not> entry_current (db s) g t q (off, attempt)"
  shows "snd (ack_batch E g t q [(off, attempt)] s) = s \<and>
    snd (change_invisible E now g t q off attempt invisible s) = s \<and>
    snd (forward_to_dlq E now rnd g t q off attempt s) = s"
proof -
  have "snd (change_invisible E now g t q off attempt invisible s) = s"
    using stale_record [OF assms, of E]
    by (auto simp: change_invisible_def change_invisible_locked_def seq_defs)
  moreover have "snd (forward_to_dlq E now rnd g t q off attempt s) = s"
    using stale_record [OF assms, of E] by (auto simp: forward_to_dlq_def seq_defs)
  ultimately show ?thesis using ack_batch_stale [OF assms] by blast
qed

theorem stale_handles_harmless_witness:
  "snd (ack_batch standalone ''web'' ''orders'' 1 [(5, 1)] (shop_for ''web'')) = shop_for ''web'' \<and>
    snd (change_invisible standalone 2000 ''web'' ''orders'' 1 5 1 (30 * 1000000000) (shop_for ''web'')) = shop_for ''web'' \<and>
    snd (forward_to_dlq standalone 2000 ''r'' ''web'' ''orders'' 1 5 1 (shop_for ''web'')) = shop_for ''web''"
  by (rule stale_handles_harmless [OF shop_current(2)])

text \<open>A holder that changes its invisible time changes only when its record expires: the attempt
  count, the order lock, the owner and the renewal limit stay, so its handle stays good.\<close>

theorem change_invisible_exact:
  assumes "change_invisible E now g t q off attempt invisible s = (Inr True, s')"
  shows "\<exists>v st. kv_get (db s) (inflight_key g t q off) = Some v \<and> decode_inflight v = Inr st \<and> if_attempts st = attempt \<and>
    db s' = kv_set (inflight_key g t q off) (encode_inflight (st\<lparr>if_expire := now + milliseconds invisible\<rparr>)) (db s)"
  using change_invisible_ok [OF assms] by (auto simp: entry_current_def)

theorem change_invisible_exact_witness:
  "\<exists>s'. change_invisible standalone 2000 ''web'' ''orders'' 1 5 2 (30 * 1000000000) (shop_for ''web'') = (Inr True, s') \<and>
     (\<exists>v st. kv_get (db (shop_for ''web'')) (inflight_key ''web'' ''orders'' 1 5) = Some v \<and> decode_inflight v = Inr st \<and>
       db s' = kv_set (inflight_key ''web'' ''orders'' 1 5) (encode_inflight (st\<lparr>if_expire := 32000\<rparr>)) (db (shop_for ''web'')))"
proof -
  obtain s' where a: "change_invisible standalone 2000 ''web'' ''orders'' 1 5 2 (30 * 1000000000) (shop_for ''web'') = (Inr True, s')"
    by (simp add: change_invisible_def change_invisible_locked_def current_record_def seq_defs shop_get shop_decode)
  show ?thesis using change_invisible_exact [OF a] a by (auto simp: milliseconds_def)
qed

text \<open>C20: a message is dead-lettered without a moment in which it is neither in flight nor a dead
  letter: as long as the dead letter is not written, here or by its queue's leader, the source record
  stays as it was, and a call that reports success has written the letter and removed the record.\<close>

theorem dead_letter_before_delete:
  assumes "move_to_dlq E now rnd g t q off m attempts reason s = (r, s')"
    and "kv_get (db s) (inflight_key g t q off) = Some v"
  shows "(\<not> is_ok r \<and> kv_get (db s') (inflight_key g t q off) = Some v) \<or>
    (letter_written E now rnd (dlq_message g t q off m attempts reason) s s' \<and>
     kv_get (db s') (inflight_key g t q off) = None)"
  using move_to_dlq_spec [OF assms(1)] assms(2) same_asideD [OF _ aside_keys(3)]
  by (auto simp: kv_simps)

theorem dead_letter_before_delete_witness:
  "let (r, s') = move_to_dlq standalone 2000 ''r'' ''web'' ''orders'' 1 5 shop_msg 16 reason_exhausted (shop_for ''web'')
   in (\<not> is_ok r \<and> kv_get (db s') (inflight_key ''web'' ''orders'' 1 5) = Some (encode_inflight shop_rec)) \<or>
     (letter_written standalone 2000 ''r'' (dlq_message ''web'' ''orders'' 1 5 shop_msg 16 reason_exhausted) (shop_for ''web'') s' \<and>
      kv_get (db s') (inflight_key ''web'' ''orders'' 1 5) = None)"
  using dead_letter_before_delete [OF prod.collapse [symmetric] shop_get(1)] by (simp add: split_def)



end
