(* ===== verification/Lease_Table.thy ===== *)
theory Lease_Table
  imports Deliver
begin

text \<open>
  What the keys and batches of \<^verbatim>\<open>internal/core/deliver/deliver.go\<close> implement: for a
  consumer group and a queue, a table from offsets to deliveries (the inflight records), and the
  group's cursor.  The table is well formed when every record decodes, lies below the cursor and at
  most one of them holds the order lock.  This theory reads the table off the store, says how the
  writes act on it, and shows what the operations on single records and the scan of all of them do.
\<close>

section \<open>The table of a queue's deliveries\<close>

definition rec_at :: "kv \<Rightarrow> bytes \<Rightarrow> bytes \<Rightarrow> u32 \<Rightarrow> u64 \<Rightarrow> inflight option" where
  "rec_at m g t q off = (case kv_get m (inflight_key g t q off) of
     None \<Rightarrow> None
   | Some v \<Rightarrow> (case decode_inflight v of Inl _ \<Rightarrow> None | Inr st \<Rightarrow> Some st))"

definition recs_ok :: "kv \<Rightarrow> bytes \<Rightarrow> bytes \<Rightarrow> u32 \<Rightarrow> bool" where
  "recs_ok m g t q \<longleftrightarrow> (\<forall>off v. kv_get m (inflight_key g t q off) = Some v \<longrightarrow>
     (\<exists>st. decode_inflight v = Inr st \<and> inflight_ok st))"

definition one_ordered :: "(u64 \<Rightarrow> inflight option) \<Rightarrow> bool" where
  "one_ordered R \<longleftrightarrow> (\<forall>a b st st'. R a = Some st \<longrightarrow> if_ordered st \<longrightarrow> R b = Some st' \<longrightarrow> if_ordered st' \<longrightarrow> a = b)"

definition locked :: "(u64 \<Rightarrow> inflight option) \<Rightarrow> bool" where
  "locked R \<longleftrightarrow> (\<exists>a st. R a = Some st \<and> if_ordered st)"

definition cursor_of :: "kv \<Rightarrow> bytes \<Rightarrow> bytes \<Rightarrow> u32 \<Rightarrow> u64" where
  "cursor_of m g t q = counter_of m (cursor_key g t q)"

definition queue_ok :: "kv \<Rightarrow> bytes \<Rightarrow> bytes \<Rightarrow> u32 \<Rightarrow> bool" where
  "queue_ok m g t q \<longleftrightarrow> recs_ok m g t q \<and> one_ordered (rec_at m g t q) \<and>
     (\<forall>off. rec_at m g t q off \<noteq> None \<longrightarrow> off < cursor_of m g t q)"

lemma recs_ok_some: "recs_ok m g t q \<Longrightarrow> rec_at m g t q off = None \<longleftrightarrow> kv_get m (inflight_key g t q off) = None"
  by (fastforce simp: recs_ok_def rec_at_def split: option.splits sum.splits)

lemma recs_ok_inflight: "recs_ok m g t q \<Longrightarrow> rec_at m g t q off = Some st \<Longrightarrow> inflight_ok st"
  by (fastforce simp: recs_ok_def rec_at_def split: option.splits sum.splits)

lemma rec_set: "inflight_ok st \<Longrightarrow>
    rec_at (kv_set (inflight_key g t q off) (encode_inflight st) m) g t q = (rec_at m g t q)(off \<mapsto> st)"
  by (auto simp: rec_at_def kv_simps infq.key_eq inflight_roundtrip fun_eq_iff)

lemma rec_del: "rec_at (kv_del (inflight_key g t q off) m) g t q = (rec_at m g t q)(off := None)"
  by (auto simp: rec_at_def kv_simps infq.key_eq fun_eq_iff)

lemma recs_ok_set: "recs_ok m g t q \<Longrightarrow> inflight_ok st \<Longrightarrow>
    recs_ok (kv_set (inflight_key g t q off) (encode_inflight st) m) g t q"
  by (auto simp: recs_ok_def kv_simps inflight_roundtrip)

lemma recs_ok_del: "recs_ok m g t q \<Longrightarrow> recs_ok (kv_del k m) g t q"
  by (auto simp: recs_ok_def kv_simps)

text \<open>A state whose records and cursor are those of another.\<close>

definition same_queue :: "bytes \<Rightarrow> bytes \<Rightarrow> u32 \<Rightarrow> kv \<Rightarrow> kv \<Rightarrow> bool" where
  "same_queue g t q m m' \<longleftrightarrow> kv_get m' (cursor_key g t q) = kv_get m (cursor_key g t q) \<and>
     (\<forall>off. kv_get m' (inflight_key g t q off) = kv_get m (inflight_key g t q off))"

lemma same_aside_queue: "same_aside m m' \<Longrightarrow> same_queue g t q m m'"
  by (simp add: same_aside_def same_queue_def)

lemma same_queue_ok: "same_queue g t q m m' \<Longrightarrow> queue_ok m' g t q \<longleftrightarrow> queue_ok m g t q"
  by (simp add: same_queue_def queue_ok_def recs_ok_def rec_at_def [abs_def] cursor_of_def counter_of_def)

section \<open>The order lock\<close>

definition lock_ok :: "bool \<Rightarrow> (u64 \<Rightarrow> inflight option) \<Rightarrow> bool" where
  "lock_ok busy R \<longleftrightarrow> one_ordered R \<and> (locked R \<longrightarrow> busy)"

lemma lock_keep: "lock_ok busy R \<Longrightarrow> R a = Some st \<Longrightarrow> if_ordered st' = if_ordered st \<Longrightarrow> lock_ok busy (R(a \<mapsto> st'))"
  unfolding lock_ok_def one_ordered_def locked_def fun_upd_apply by (metis option.inject)

lemma lock_free:
  "lock_ok busy R \<Longrightarrow> R a = Some st \<Longrightarrow> lock_ok (if if_ordered st then False else busy) (R(a := None))"
  unfolding lock_ok_def one_ordered_def locked_def fun_upd_apply by (metis option.simps(3))

lemma lock_take:
  "lock_ok busy R \<Longrightarrow> \<not> (if_ordered st \<and> busy) \<Longrightarrow> lock_ok (if if_ordered st then True else busy) (R(a \<mapsto> st))"
  unfolding lock_ok_def one_ordered_def locked_def fun_upd_apply by (smt (verit) option.inject)

lemma one_ordered_sub: "one_ordered R \<Longrightarrow> (\<And>a st. R' a = Some st \<Longrightarrow> R a = Some st) \<Longrightarrow> one_ordered R'"
  unfolding one_ordered_def by blast


section \<open>Operations on single records\<close>

lemma cursor_of_record [simp]:
  "cursor_of (kv_set (inflight_key g t q off) v m) g t q = cursor_of m g t q"
  "cursor_of (kv_del (inflight_key g t q off) m) g t q = cursor_of m g t q"
  by (simp_all add: cursor_of_def counter_of_def kv_simps)

lemma queue_ok_del: "queue_ok m g t q \<Longrightarrow> queue_ok (kv_del (inflight_key g t q off) m) g t q"
  by (auto simp: queue_ok_def recs_ok_del rec_del elim: one_ordered_sub split: if_splits)

lemma queue_ok_update:
  assumes "queue_ok m g t q" "rec_at m g t q off = Some st" "inflight_ok st'" "if_ordered st' = if_ordered st"
  shows "queue_ok (kv_set (inflight_key g t q off) (encode_inflight st') m) g t q"
proof -
  have "lock_ok True (rec_at m g t q)" using assms(1) by (simp add: queue_ok_def lock_ok_def)
  then have "one_ordered ((rec_at m g t q)(off \<mapsto> st'))"
    using lock_keep [where R = "rec_at m g t q" and busy = True, OF _ assms(2,4)] by (simp add: lock_ok_def)
  then show ?thesis
    using assms by (auto simp: queue_ok_def recs_ok_set rec_set)
qed

lemma queue_ok_deletes: "queue_ok m g t q \<Longrightarrow> queue_ok (apply_batch (map (\<lambda>e. BDelete (inflight_key g t q (f e))) es) m) g t q"
  by (induction es arbitrary: m) (simp_all add: apply_batch_Cons kv_simps queue_ok_del)

lemma ack_batch_db:
  assumes "ack_batch E g t q es s = (r, s')"
  shows "s' = s \<or> (\<exists>es. db s' = apply_batch (map (\<lambda>e. BDelete (inflight_key g t q (fst (e :: u64 \<times> int)))) es) (db s))"
proof (cases "ack_loop E g t q es s (Inr ([], new_batch))")
  case (Inl e)
  then show ?thesis using assms by (auto simp: ack_batch_def seq_defs split: if_splits)
next
  case (Inr x)
  obtain rs b where x: "x = (rs, b)" by (cases x)
  have b: "b = map (\<lambda>e. BDelete (inflight_key g t q (fst e))) (filter (entry_current (db s) g t q) es)"
    using ack_loop_ok [OF Inr [unfolded x]] by (simp add: new_batch_def)
  have "s' = s \<or> s' = set_db (apply_batch b (db s)) s"
    using assms rep_apply_async_db [of E _ b s]
    by (auto simp: ack_batch_def seq_defs Inr x split: if_splits prod.splits sum.splits)
  then show ?thesis using b by auto
qed

lemma rec_at_current:
  assumes "current_record E g t q off attempt s = Inr (Some st)"
  shows "rec_at (db s) g t q off = Some st"
  using current_record_spec [OF assms] by (auto simp: rec_at_def)

lemma change_invisible_db:
  assumes "recs_ok (db s) g t q" "i64_range (now + milliseconds invisible)"
    and "change_invisible E now g t q off attempt invisible s = (r, s')"
  shows "s' = s \<or> (\<exists>st st'. rec_at (db s) g t q off = Some st \<and> inflight_ok st' \<and> if_ordered st' = if_ordered st \<and>
    db s' = kv_set (inflight_key g t q off) (encode_inflight st') (db s))"
proof (cases "current_record E g t q off attempt s")
  case (Inl e)
  then show ?thesis using assms by (simp add: change_invisible_def change_invisible_locked_def seq_defs)
next
  case (Inr c)
  show ?thesis
  proof (cases c)
    case None
    then show ?thesis using assms Inr by (simp add: change_invisible_def change_invisible_locked_def seq_defs)
  next
    case (Some st)
    let ?st = "st\<lparr>if_expire := now + milliseconds invisible\<rparr>"
    let ?b = "bset (inflight_key g t q off) (encode_inflight ?st) new_batch"
    have rec: "rec_at (db s) g t q off = Some st" using rec_at_current Inr Some by simp
    then have "inflight_ok ?st"
      using recs_ok_inflight [OF assms(1)] assms(2) by (auto simp: inflight_ok_def)
    moreover have "s' = s \<or> s' = set_db (apply_batch ?b (db s)) s"
      using assms(3) Inr Some rep_apply_async_db [of E _ ?b s]
      by (auto simp: change_invisible_def change_invisible_locked_def seq_defs split: prod.splits sum.splits)
    ultimately show ?thesis using rec by (auto simp: kv_simps)
  qed
qed

lemma move_to_dlq_keeps:
  assumes "queue_ok (db s) g t q" "move_to_dlq E now rnd g t q off m attempts reason s = (r, s')"
  shows "queue_ok (db s') g t q"
  using move_to_dlq_spec [OF assms(2)] assms(1) same_queue_ok [OF same_aside_queue] queue_ok_del by metis

lemma forward_to_dlq_cases:
  assumes "forward_to_dlq E now rnd g t q off attempt s = (r, s')"
  obtains (none) "s' = s" | (gone) "db s' = kv_del (inflight_key g t q off) (db s)"
    | (dlq) m r1 where "move_to_dlq E now rnd g t q off m attempt reason_forwarded s = (r1, s')"
proof (cases "current_record E g t q off attempt s")
  case (Inr c)
  show thesis
  proof (cases c)
    case (Some st)
    show thesis
    proof (cases "st_get E s (msg_key t q off)")
      case get: (Inr raw)
      show thesis
      proof (cases raw)
        case None
        then obtain r1 where "rep_apply E (group_for_queue E t q) (bdelete (inflight_key g t q off) new_batch) s = (r1, s')"
          using assms Inr Some get by (auto simp: forward_to_dlq_def seq_defs split: prod.splits sum.splits)
        then show thesis using none gone by (auto simp: kv_simps dest!: rep_apply_db)
      next
        case v: (Some v)
        then show thesis
          using assms Inr Some get none dlq by (auto simp: forward_to_dlq_def seq_defs split: prod.splits sum.splits)
      qed
    qed (use assms Inr Some none in \<open>auto simp: forward_to_dlq_def seq_defs\<close>)
  qed (use assms Inr none in \<open>auto simp: forward_to_dlq_def seq_defs\<close>)
qed (use assms none in \<open>auto simp: forward_to_dlq_def seq_defs\<close>)

lemma reset_queue_ok:
  "queue_ok (apply_batch (bdelete_prefix (inflight_prefix g t q) (bset (cursor_key g t q) (put_u64 off) new_batch)) m) g t q"
proof -
  have "kv_get (apply_batch (bdelete_prefix (inflight_prefix g t q) b) m) (inflight_key g t q a) = None" for a b
    using infq.bounded by (simp add: kv_get_delete_prefix inflight_key_prefix)
  then show ?thesis by (simp add: queue_ok_def recs_ok_def one_ordered_def rec_at_def)
qed

section \<open>Reading the records\<close>

lemma inflight_key_own:
  assumes "name_ok g" "name_ok t" "prefix (inflight_prefix g t q) k" "parse_inflight_key k = Inr (g', t', q', off)"
  shows "k = inflight_key g t q off"
proof -
  have k: "k = inflight_key g' t' q' off" and n: "name_ok g'" "name_ok t'"
    using parse_inflight_key_sound [OF assms(4)] by auto
  obtain zs where "g' @ CHR ''/'' # t' @ CHR ''/'' # put_u32 q' @ put_u64 off = g @ CHR ''/'' # t @ CHR ''/'' # put_u32 q @ zs"
    using assms(3) by (auto simp: k inflight_key_prefix inflight_prefix_eq prefix_def)
  then have "g' = g \<and> t' = t \<and> put_u32 q' @ put_u64 off = put_u32 q @ zs"
    using n assms(1,2) by (simp add: cut_byte_inj name_ok_def)
  then show ?thesis by (simp add: k put_u32_inj)
qed

text \<open>What a complete scan has collected from the entries it has passed.\<close>

definition scanned :: "kv \<Rightarrow> bytes \<Rightarrow> bytes \<Rightarrow> u32 \<Rightarrow> ms \<Rightarrow> int \<Rightarrow> (bytes \<times> bytes) list \<Rightarrow> inflight_scan \<Rightarrow> bool" where
  "scanned m g t q now max_msgs ys sc \<longleftrightarrow>
     (\<forall>off st. (inflight_key g t q off) \<in> fst ` set ys \<longrightarrow> rec_at m g t q off = Some st \<longrightarrow> if_ordered st \<longrightarrow> sc_busy sc) \<and>
     (\<forall>(off, st) \<in> set (sc_renews sc). inflight_key g t q off \<in> fst ` set ys \<and> rec_at m g t q off = Some st \<and> if_expire st \<le> now) \<and>
     (\<forall>(off, a, ord) \<in> set (sc_reds sc). inflight_key g t q off \<in> fst ` set ys \<and>
        (\<exists>st. rec_at m g t q off = Some st \<and> if_attempts st = a \<and> if_ordered st = ord \<and> if_expire st \<le> now)) \<and>
     distinct (map fst (sc_renews sc) @ map fst (sc_reds sc)) \<and> int (length (sc_reds sc)) \<le> max 0 max_msgs"


lemma kv_range_entry:
  assumes "kv_ok m" "kv_range lo hi m = ys @ (k, v) # zs"
  shows "kv_get m k = Some v" "in_range lo hi k" "k \<notin> fst ` set ys"
    "(a, b) \<in> set ys \<Longrightarrow> a < k" "(a, b) \<in> set zs \<Longrightarrow> k < a"
proof -
  have "(k, v) \<in> set (kv_range lo hi m)" by (simp add: assms(2))
  then show "kv_get m k = Some v" "in_range lo hi k" using kv_range_mem [OF assms(1)] by blast+
  have "kv_ok (ys @ (k, v) # zs)" using kv_ok_range [OF assms(1), of lo hi] by (simp only: assms(2))
  then show "k \<notin> fst ` set ys" "(a, b) \<in> set ys \<Longrightarrow> a < k" "(a, b) \<in> set zs \<Longrightarrow> k < a"
    by (fastforce simp: kv_ok_def sorted_wrt_append)+
qed

lemma scanned_step:
  assumes "kv_ok m" "name_ok g" "name_ok t"
    and "kv_range (inflight_prefix g t q) (prefix_upper_bound (inflight_prefix g t q)) m = ys @ (k, v) # zs"
    and "scanned m g t q now max_msgs ys a" "scan_inflight l now max_msgs a k v = (Inr c, a1)"
  shows "c \<and> scanned m g t q now max_msgs (ys @ [(k, v)]) a1"
proof -
  note e = kv_range_entry [OF assms(1,4)]
  obtain g' t' q' off st where p: "parse_inflight_key k = Inr (g', t', q', off)" and d: "decode_inflight v = Inr st"
    using assms(6) by (auto simp: scan_inflight_def split: sum.splits)
  have k: "k = inflight_key g t q off"
    using inflight_key_own [OF assms(2,3) _ p] e(2) by (simp add: in_range_prefix)
  have rec: "rec_at m g t q off = Some st" using e(1) d by (simp add: rec_at_def k)
  have fresh: "off \<notin> fst ` set (sc_renews a)" "off \<notin> fst ` set (sc_reds a)"
    using assms(5) e(3) unfolding scanned_def k by (clarsimp, blast)+
  define b where "b = (if if_ordered st then a\<lparr>sc_busy := True\<rparr> else a)"
  have b: "sc_renews b = sc_renews a" "sc_reds b = sc_reds a" "sc_busy b \<longleftrightarrow> sc_busy a \<or> if_ordered st"
    by (simp_all add: b_def)
  have c: "c" and a1: "a1 = (if if_expire st \<le> now then
      (if renewable l st now then b\<lparr>sc_renews := sc_renews b @ [(off, st)]\<rparr>
       else if int (length (sc_reds b)) < max_msgs
         then b\<lparr>sc_reds := sc_reds b @ [(off, if_attempts st, if_ordered st)]\<rparr> else b) else b)"
    using assms(6) by (auto simp: scan_inflight_def p d b_def Let_def)
  have busy: "sc_busy a1 \<longleftrightarrow> sc_busy a \<or> if_ordered st" by (simp add: a1 b(3))
  have "scanned m g t q now max_msgs (ys @ [(k, v)]) a1"
    unfolding scanned_def
  proof (intro conjI)
    show "\<forall>off st. inflight_key g t q off \<in> fst ` set (ys @ [(k, v)]) \<longrightarrow> rec_at m g t q off = Some st \<longrightarrow>
        if_ordered st \<longrightarrow> sc_busy a1"
      using assms(5) rec by (auto simp: scanned_def busy k infq.key_eq)
    show "\<forall>(off, st)\<in>set (sc_renews a1). inflight_key g t q off \<in> fst ` set (ys @ [(k, v)]) \<and>
        rec_at m g t q off = Some st \<and> if_expire st \<le> now"
      using assms(5) rec by (auto simp: scanned_def a1 b k)
    show "\<forall>(off, a, ord)\<in>set (sc_reds a1). inflight_key g t q off \<in> fst ` set (ys @ [(k, v)]) \<and>
        (\<exists>st. rec_at m g t q off = Some st \<and> if_attempts st = a \<and> if_ordered st = ord \<and> if_expire st \<le> now)"
      using assms(5) rec by (auto simp: scanned_def a1 b k)
    show "distinct (map fst (sc_renews a1) @ map fst (sc_reds a1))"
      using assms(5) fresh by (auto simp: scanned_def a1 b)
    show "int (length (sc_reds a1)) \<le> max 0 max_msgs"
      using assms(5) by (auto simp: scanned_def a1 b)
  qed
  with c show ?thesis by simp
qed

lemma scan_inflight_spec:
  assumes "st_scan E s (inflight_prefix g t q) (prefix_upper_bound (inflight_prefix g t q)) 0 (scan_inflight l now max_msgs)
      \<lparr>sc_busy = False, sc_renews = [], sc_reds = []\<rparr> = (Inr u, sc)"
    and "kv_ok (db s)" "name_ok g" "name_ok t" "queue_ok (db s) g t q"
  shows "lock_ok (sc_busy sc) (rec_at (db s) g t q)"
    and "\<forall>(off, st) \<in> set (sc_renews sc). rec_at (db s) g t q off = Some st \<and> if_expire st \<le> now"
    and "\<forall>(off, a, ord) \<in> set (sc_reds sc).
        \<exists>st. rec_at (db s) g t q off = Some st \<and> if_attempts st = a \<and> if_ordered st = ord \<and> if_expire st \<le> now"
    and "distinct (map fst (sc_renews sc) @ map fst (sc_reds sc))" "int (length (sc_reds sc)) \<le> max 0 max_msgs"
proof -
  let ?kvs = "kv_range (inflight_prefix g t q) (prefix_upper_bound (inflight_prefix g t q)) (db s)"
  have sc: "scanned (db s) g t q now max_msgs ?kvs sc"
  proof (rule scan_run_all [OF assms(1)])
    show "scanned (db s) g t q now max_msgs [] \<lparr>sc_busy = False, sc_renews = [], sc_reds = []\<rparr>"
      by (simp add: scanned_def)
  qed (rule order_refl, erule (2) scanned_step [OF assms(2-4)])
  have all: "inflight_key g t q off \<in> fst ` set ?kvs" if some: "rec_at (db s) g t q off = Some st" for off st
  proof -
    obtain v where "kv_get (db s) (inflight_key g t q off) = Some v"
      using some by (auto simp: rec_at_def split: option.splits)
    then have "(inflight_key g t q off, v) \<in> set ?kvs"
      by (simp add: kv_range_mem [OF assms(2)] in_range_prefix inflight_key_prefix)
    then show ?thesis by force
  qed
  have "sc_busy sc" if "rec_at (db s) g t q off = Some st" "if_ordered st" for off st
    using sc all [OF that(1)] that unfolding scanned_def by blast
  then show "lock_ok (sc_busy sc) (rec_at (db s) g t q)"
    using assms(5) unfolding lock_ok_def locked_def queue_ok_def by blast
  show "\<forall>(off, st) \<in> set (sc_renews sc). rec_at (db s) g t q off = Some st \<and> if_expire st \<le> now"
    "\<forall>(off, a, ord) \<in> set (sc_reds sc).
        \<exists>st. rec_at (db s) g t q off = Some st \<and> if_attempts st = a \<and> if_ordered st = ord \<and> if_expire st \<le> now"
    "distinct (map fst (sc_renews sc) @ map fst (sc_reds sc))" "int (length (sc_reds sc)) \<le> max 0 max_msgs"
    using sc unfolding scanned_def by blast+
qed


section \<open>The dead letters of a group are in another topic\<close>

definition same_msgs :: "bytes \<Rightarrow> u32 \<Rightarrow> kv \<Rightarrow> kv \<Rightarrow> bool" where
  "same_msgs t q m m' \<longleftrightarrow> (\<forall>k. prefix (msg_queue_prefix t q) k \<longrightarrow> kv_get m' k = kv_get m k)"

lemma same_msgs_trans: "same_msgs t q a b \<Longrightarrow> same_msgs t q b c \<Longrightarrow> same_msgs t q a c"
  by (simp add: same_msgs_def)

lemma queue_prefix_on: "prefix (msg_queue_prefix t q) k \<Longrightarrow> prefix msg_prefix k \<and> \<not> off_log k"
  by (auto simp: msg_queue_prefix_eq off_log_def prefix_def)

lemma same_log_msgs: "same_log m m' \<Longrightarrow> same_msgs t q m m'"
  using queue_prefix_on by (auto simp: same_msgs_def same_log_def)

lemma other_queue_key:
  assumes "name_ok t" "name_ok t'" "t \<noteq> t'" "prefix (msg_queue_prefix t q) k"
  shows "k \<noteq> msg_key t' q' n"
proof
  assume "k = msg_key t' q' n"
  then obtain zs where "t' @ CHR ''/'' # put_u32 q' @ put_u64 n = t @ CHR ''/'' # put_u32 q @ zs"
    using assms(4) by (auto simp: msg_key_prefix msg_queue_prefix_eq prefix_def)
  then show False using assms(1-3) by (simp add: cut_byte_inj name_ok_def)
qed

lemma append_msg_elsewhere:
  assumes "append_msg E now rnd m s = (r, s')" "name_ok t" "t \<noteq> m_topic m"
  shows "same_msgs t q (db s) (db s')"
proof -
  have takes: "same_msgs t q (db s1) (db s2)" if "takes (m_topic m) q' raws idx p s1 s2" for q' raws idx p s1 s2
    using that other_queue_key [OF assms(2) _ assms(3)] queue_prefix_on
    by (auto simp: takes_def log_append_def same_msgs_def intro: same_log_msgs [unfolded same_msgs_def, rule_format])
  have quiet: "same_msgs t q (db s1) (db s2)" if "quiet s1 s2" for s1 s2
    using that same_log_msgs by (auto simp: quiet_def)
  show ?thesis
    using assms(1) unfolding append_msg_def split_def
    by (rule sbind_cases) (blast dest: append_order_moves movesD [OF quiet_finish] intro: takes quiet same_msgs_trans)+
qed

lemma move_to_dlq_elsewhere:
  fixes s :: "'z prod_node_scheme"
  assumes "move_to_dlq E now rnd g t' q' off m attempts reason s = (r, s')" "name_ok t" "t \<noteq> dlq_topic_name g"
  shows "same_msgs t q (db s) (db s')"
proof -
  have create: "moves (\<lambda>s s' :: 'z prod_node_scheme. same_msgs t q (db s) (db s')) (create_topic E now n k)" for n k
    by (rule movesI, drule movesD [OF quiet_create_topic]) (simp add: quiet_def same_log_msgs)
  have letter: "moves (\<lambda>s s' :: 'z prod_node_scheme. same_msgs t q (db s) (db s'))
      (write_dead_letter E now rnd (dlq_message g t' q' off m attempts reason))"
  proof (rule movesI)
    fix s s' :: "'z prod_node_scheme" and r
    let ?d = "dlq_message g t' q' off m attempts reason"
    assume w: "write_dead_letter E now rnd ?d s = (r, s')"
    have t: "t \<noteq> m_topic ?d" using assms(3) by (simp add: dlq_message_def)
    show "same_msgs t q (db s) (db s')"
    proof (cases "is_leader E (group_for_queue E (m_topic ?d) 0)")
      case True
      then obtain r1 where "append_msg E now rnd ?d s = (r1, s')"
        using w by (auto simp: write_dead_letter_def seq_defs split: prod.splits sum.splits)
      then show ?thesis by (rule append_msg_elsewhere [OF _ assms(2) t])
    next
      case False
      then obtain r1 where "forward_append E (group_for_queue E (m_topic ?d) 0) (encode_message (binary_encoding s) ?d) s = (r1, s')"
        using w by (auto simp: write_dead_letter_def seq_defs split: prod.splits sum.splits)
      then show ?thesis by (auto simp: same_msgs_def dest!: forward_append_spec)
    qed
  qed
  have drop: "moves (\<lambda>s s' :: 'z prod_node_scheme. same_msgs t q (db s) (db s'))
      (rep_apply E (group_for_queue E t' q') (bdelete (inflight_key g t' q' off) new_batch))"
    by (rule movesI, drule movesD [OF drop_record_log]) (simp add: log_kept_def same_log_msgs)
  show ?thesis
    using assms(1) unfolding move_to_dlq_def
    by (elim sbind_cases) (blast dest: movesD [OF create] movesD [OF letter] movesD [OF drop] intro: same_msgs_trans)+
qed



end
