(* ===== verification/Delivery_Safety.thy ===== *)
theory Delivery_Safety
  imports Lease_Table
begin

text \<open>
  What a consumer group is promised of one of its queues, whatever the disk and the replication
  layer do.  A take (\<open>receiveOnceLocked\<close> of \<^verbatim>\<open>internal/core/deliver/deliver.go\<close>)
  is followed through its phases: the scan of the inflight records, the renewals, the redeliveries
  with their dead letters, the scan of new messages and the batch.  Each phase keeps an invariant
  that relates the batch under construction to the table of deliveries; the last one gives the
  contract of the take.  Together with the operations on single records it makes the table's well
  formedness an invariant of everything a group can do to its queue.
\<close>

section \<open>What a take builds up\<close>

text \<open>The arguments of a take fit their Go types, with the times they are added to.\<close>

definition take_args :: "ms \<Rightarrow> int \<Rightarrow> int \<Rightarrow> lease \<Rightarrow> bool" where
  "take_args now invisible max_attempts l \<longleftrightarrow> i64_range now \<and> now + 300000 < 2 ^ 63 \<and>
     i64_range (now + milliseconds invisible) \<and> max_attempts < 2 ^ 31 \<and>
     (lease_enabled l \<longrightarrow> utf8 (ls_owner l) \<and> i64_range (now + milliseconds (ls_max_renew l)))"

text \<open>The writes of a batch are to records of this queue.\<close>

definition record_op :: "bytes \<Rightarrow> bytes \<Rightarrow> u32 \<Rightarrow> u64 \<Rightarrow> batch_op \<Rightarrow> bool" where
  "record_op g t q off x \<longleftrightarrow> x = BDelete (inflight_key g t q off) \<or>
     (\<exists>st. inflight_ok st \<and> x = BSet (inflight_key g t q off) (encode_inflight st))"

definition record_batch :: "bytes \<Rightarrow> bytes \<Rightarrow> u32 \<Rightarrow> u64 set \<Rightarrow> batch \<Rightarrow> bool" where
  "record_batch g t q A b \<longleftrightarrow> (\<forall>x \<in> set b. \<exists>off \<in> A. record_op g t q off x)"

lemma record_batch_simps:
  "record_batch g t q A new_batch"
  "record_batch g t q A b \<Longrightarrow> A \<subseteq> B \<Longrightarrow> record_batch g t q B b"
  "record_batch g t q A b \<Longrightarrow> off \<in> A \<Longrightarrow> record_batch g t q A (bdelete (inflight_key g t q off) b)"
  "record_batch g t q A b \<Longrightarrow> off \<in> A \<Longrightarrow> inflight_ok st \<Longrightarrow>
     record_batch g t q A (bset (inflight_key g t q off) (encode_inflight st) b)"
proof -
  show "record_batch g t q A b \<Longrightarrow> A \<subseteq> B \<Longrightarrow> record_batch g t q B b"
    unfolding record_batch_def by blast
qed (auto simp: record_batch_def record_op_def new_batch_def bdelete_def bset_def)

lemma record_batch_frame:
  assumes "record_batch g t q A b"
  shows "(\<And>off. off \<in> A \<Longrightarrow> k \<noteq> inflight_key g t q off) \<Longrightarrow> kv_get (apply_batch b m) k = kv_get m k"
    and "off \<notin> A \<Longrightarrow> kv_get (apply_batch b m) (inflight_key g t q off) = kv_get m (inflight_key g t q off)"
  using assms by (auto simp: record_batch_def record_op_def infq.key_eq intro!: apply_batch_frame)

lemma record_batch_recs: "record_batch g t q A b \<Longrightarrow> recs_ok m g t q \<Longrightarrow> recs_ok (apply_batch b m) g t q"
proof (induction b arbitrary: m)
  case (Cons x b)
  have "recs_ok (apply_op m x) g t q"
    using Cons.prems by (auto simp: record_batch_def record_op_def recs_ok_set recs_ok_del)
  then show ?case using Cons.IH Cons.prems by (simp add: apply_batch_Cons record_batch_def)
qed (simp add: kv_simps)

lemma record_batch_rec: "record_batch g t q A b \<Longrightarrow> off \<notin> A \<Longrightarrow> rec_at (apply_batch b m) g t q off = rec_at m g t q off"
  by (simp add: rec_at_def record_batch_frame(2))

text \<open>
  A message handed out: it is the stored one with its delivery count, its new record carries that
  count and hides it for at least the invisible time, and before the take it had an expired
  record of the delivery before, or none.
\<close>

definition handed :: "kv \<Rightarrow> bytes \<Rightarrow> bytes \<Rightarrow> u32 \<Rightarrow> ms \<Rightarrow> int \<Rightarrow> (u64 \<Rightarrow> inflight option) \<Rightarrow> u64 \<Rightarrow> message \<Rightarrow> bool" where
  "handed d g t q now invisible R off m \<longleftrightarrow>
     (\<exists>raw m0 st. stored d t q off = Some raw \<and> decode_message raw = Inr m0 \<and> m = m0\<lparr>m_attempt := if_attempts st\<rparr> \<and>
        R off = Some st \<and> now + milliseconds invisible \<le> if_expire st \<and>
        (case rec_at d g t q off of None \<Rightarrow> if_attempts st = 1 \<and> (if_ordered st \<longleftrightarrow> m_group m0 \<noteq> [])
         | Some st0 \<Rightarrow> if_expire st0 \<le> now \<and> if_attempts st = if_attempts st0 + 1 \<and> if_ordered st = if_ordered st0))"

lemma handed_other: "handed d g t q now invisible R off m \<Longrightarrow> a \<noteq> off \<Longrightarrow> handed d g t q now invisible (R(a := x)) off m"
  by (simp add: handed_def)

lemma handed_others:
  "list_all2 (handed d g t q now invisible R) offs ms \<Longrightarrow> a \<notin> set offs \<Longrightarrow>
    list_all2 (handed d g t q now invisible (R(a := x))) offs ms"
  by (erule list.rel_mono_strong) (auto intro: handed_other)

text \<open>How the node under a take may have changed since its start: messages were dead-lettered.\<close>

definition stable :: "bytes \<Rightarrow> bytes \<Rightarrow> u32 \<Rightarrow> kv \<Rightarrow> kv \<Rightarrow> bool" where
  "stable g t q d0 d \<longleftrightarrow> kv_ok d \<and> queue_ok d g t q \<and> kv_get d (cursor_key g t q) = kv_get d0 (cursor_key g t q) \<and>
     same_msgs t q d0 d"

definition taken_ok ::
    "bytes \<Rightarrow> bytes \<Rightarrow> u32 \<Rightarrow> ms \<Rightarrow> int \<Rightarrow> kv \<Rightarrow> kv \<Rightarrow> u64 set \<Rightarrow> taking \<Rightarrow> bool" where
  "taken_ok g t q now invisible d0 d left tk \<longleftrightarrow>
     (\<forall>off \<in> left. rec_at d g t q off = rec_at d0 g t q off) \<and>
     lock_ok (tk_busy tk) (rec_at (apply_batch (tk_batch tk) d) g t q) \<and>
     record_batch g t q ({off. rec_at d0 g t q off \<noteq> None} - left) (tk_batch tk) \<and>
     (\<forall>off. rec_at d g t q off \<noteq> None \<longrightarrow> rec_at d0 g t q off \<noteq> None) \<and>
     (\<exists>offs. distinct offs \<and> set offs \<subseteq> {off. rec_at d0 g t q off \<noteq> None} - left \<and>
        list_all2 (handed d0 g t q now invisible (rec_at (apply_batch (tk_batch tk) d) g t q)) offs (tk_out tk))"

lemma taken_okD:
  assumes "taken_ok g t q now invisible d0 d left tk"
  shows "off \<in> left \<Longrightarrow> rec_at d g t q off = rec_at d0 g t q off"
    and "lock_ok (tk_busy tk) (rec_at (apply_batch (tk_batch tk) d) g t q)"
    and "record_batch g t q ({off. rec_at d0 g t q off \<noteq> None} - left) (tk_batch tk)"
    and "rec_at d g t q off \<noteq> None \<Longrightarrow> rec_at d0 g t q off \<noteq> None"
    and "off \<in> left \<Longrightarrow> rec_at (apply_batch (tk_batch tk) d) g t q off = rec_at d0 g t q off"
  using assms record_batch_rec [of g t q _ "tk_batch tk" off d] by (auto simp: taken_ok_def)

lemma renew_ok:
  assumes "inflight_ok st" "i64_range (now + milliseconds invisible)"
  shows "inflight_ok (renew now invisible st)" "if_ordered (renew now invisible st) = if_ordered st"
  using assms by (auto simp: renew_def inflight_ok_def Let_def)

lemma renew_loop_ok:
  assumes "taken_ok g t q now invisible d d left tk" "tk_out tk = []"
    and "\<forall>(off, st) \<in> set rs. rec_at d g t q off = Some st" "recs_ok d g t q"
    and "i64_range (now + milliseconds invisible)" "distinct (map fst rs)"
    and "fst ` set rs \<subseteq> left"
  shows "taken_ok g t q now invisible d d (left - fst ` set rs) (renew_loop now invisible g t q rs tk)"
    and "tk_out (renew_loop now invisible g t q rs tk) = []"
proof -
  have "taken_ok g t q now invisible d d (left - fst ` set rs) (renew_loop now invisible g t q rs tk) \<and>
      tk_out (renew_loop now invisible g t q rs tk) = []"
    using assms
  proof (induction rs arbitrary: tk left)
    case (Cons e rs)
    obtain off st where e: "e = (off, st)" by (cases e)
    have rec: "rec_at d g t q off = Some st" and left: "off \<in> left" and fresh: "off \<notin> fst ` set rs"
      using Cons.prems(3,6,7) by (auto simp: e)
    let ?tk = "tk\<lparr>tk_batch := bset (inflight_key g t q off) (encode_inflight (renew now invisible st)) (tk_batch tk),
        tk_staged := True\<rparr>"
    note r = renew_ok [OF recs_ok_inflight [OF Cons.prems(4) rec] Cons.prems(5)]
    note D = taken_okD [OF Cons.prems(1)]
    have "taken_ok g t q now invisible d d (left - {off}) ?tk"
      unfolding taken_ok_def
    proof (intro conjI)
      show "lock_ok (tk_busy ?tk) (rec_at (apply_batch (tk_batch ?tk) d) g t q)"
        using lock_keep [OF D(2) _ r(2)] D(5) [OF left] rec by (simp add: kv_simps rec_set [OF r(1)])
      show "record_batch g t q ({a. rec_at d g t q a \<noteq> None} - (left - {off})) (tk_batch ?tk)"
        using rec r(1) by (auto intro!: record_batch_simps(4) record_batch_simps(2) [OF D(3)])
      show "\<exists>offs. distinct offs \<and> set offs \<subseteq> {off. rec_at d g t q off \<noteq> None} - (left - {off}) \<and>
        list_all2 (handed d g t q now invisible (rec_at (apply_batch (tk_batch ?tk) d) g t q)) offs (tk_out ?tk)"
        using Cons.prems(2) by (intro exI [of _ "[]"]) simp
    qed simp_all
    then have "taken_ok g t q now invisible d d (left - {off} - fst ` set rs) (renew_loop now invisible g t q rs ?tk) \<and>
        tk_out (renew_loop now invisible g t q rs ?tk) = []"
      using Cons.prems fresh by (intro Cons.IH) (auto simp: e)
    then show ?case by (simp add: e Diff_insert2 [symmetric] insert_Diff_if del: renew_loop.simps(1))
  qed simp
  then show "taken_ok g t q now invisible d d (left - fst ` set rs) (renew_loop now invisible g t q rs tk)"
    and "tk_out (renew_loop now invisible g t q rs tk) = []" by simp_all
qed


lemma milliseconds_mono: "a \<le> b \<Longrightarrow> milliseconds a \<le> milliseconds b"
  using zdiv_mono1 [of a b 1000000] zdiv_mono1 [of "- b" "- a" 1000000]
  by (auto simp: milliseconds_def pos_imp_zdiv_nonneg_iff intro: order_trans [of _ 0])

lemma backoff_bounds: "0 \<le> milliseconds (retry_backoff n) \<and> milliseconds (retry_backoff n) \<le> 300000"
proof -
  have "retry_backoff n = min retry_backoff_max (retry_backoff_base * 2 ^ nat (n - 2))"
    unfolding retry_backoff_def by (rule backoff_loop_min) (simp add: retry_backoff_base_def)
  then have "0 \<le> retry_backoff n" "retry_backoff n \<le> 300000000000"
    by (simp_all add: retry_backoff_max_def retry_backoff_base_def)
  then show ?thesis using zdiv_mono1 [of "retry_backoff n" 300000000000 1000000]
    by (simp add: milliseconds_def pos_imp_zdiv_nonneg_iff)
qed

lemma redelivery_expire_ok:
  assumes "take_args now invisible max_attempts l"
  shows "i64_range (redelivery_expire now invisible n ordered)"
    and "now + milliseconds invisible \<le> redelivery_expire now invisible n ordered"
  using assms backoff_bounds [of n] milliseconds_mono [of invisible "retry_backoff n"]
  by (auto simp: redelivery_expire_def take_args_def i64_range_def)

lemma delivery_fields [simp]:
  "if_expire (delivery l now e n ordered) = e" "if_attempts (delivery l now e n ordered) = n"
  "if_ordered (delivery l now e n ordered) = ordered"
  by (simp_all add: delivery_def lease_stamp_def inflight0_def)

lemma delivery_ok:
  assumes "take_args now invisible max_attempts l" "i64_range e" "- (2 ^ 31) \<le> n" "n < 2 ^ 31"
  shows "inflight_ok (delivery l now e n ordered)"
  using assms by (auto simp: delivery_def lease_stamp_def inflight_ok_def inflight0_def take_args_def i64_range_def)

lemma stable_refl: "kv_ok d \<Longrightarrow> queue_ok d g t q \<Longrightarrow> stable g t q d d"
  by (simp add: stable_def same_msgs_def)

lemma stable_stored: "stable g t q d0 d \<Longrightarrow> stored d t q off = stored d0 t q off"
  by (simp add: stable_def same_msgs_def stored_def msg_key_prefix)

lemma stable_dlq:
  assumes "stable g t q d0 (db s)" "move_to_dlq E now rnd g t q off m attempts reason s = (r, s')"
    and "name_ok t" "t \<noteq> dlq_topic_name g"
  shows "stable g t q d0 (db s')"
    and "is_ok r \<Longrightarrow> kv_get (db s') (inflight_key g t q a) =
      (if a = off then None else kv_get (db s) (inflight_key g t q a))"
proof -
  note spec = move_to_dlq_spec [OF assms(2)]
  consider "same_aside (db s) (db s')" | d where "same_aside (db s) d" "db s' = kv_del (inflight_key g t q off) d"
    using spec by blast
  then have "kv_get (db s') (cursor_key g t q) = kv_get (db s) (cursor_key g t q)"
    by cases (simp_all add: same_asideD kv_simps)
  then show "stable g t q d0 (db s')"
    using assms(1) conjunct1 [OF spec] move_to_dlq_keeps [OF _ assms(2)]
      same_msgs_trans [OF _ move_to_dlq_elsewhere [OF assms(2-4)]]
    by (simp add: stable_def kv_moves_def)
  show "kv_get (db s') (inflight_key g t q a) = (if a = off then None else kv_get (db s) (inflight_key g t q a))"
    if ok: "is_ok r"
  proof -
    obtain d where "same_aside (db s) d" "db s' = kv_del (inflight_key g t q off) d" using spec ok by blast
    then show ?thesis by (simp add: same_asideD kv_simps infq.key_eq)
  qed
qed

section \<open>One redelivery\<close>

text \<open>A record that is taken out, because its message is gone or is a dead letter now.\<close>

lemma taken_gone:
  assumes tk: "taken_ok g t q now invisible d0 d left tk" and left: "off \<in> left" and st: "rec_at d0 g t q off = Some st"
    and d': "\<And>a. a \<in> left - {off} \<Longrightarrow> rec_at d' g t q a = rec_at d g t q a"
      "\<And>a. rec_at d' g t q a \<noteq> None \<Longrightarrow> rec_at d g t q a \<noteq> None"
    and R': "rec_at (apply_batch (tk_batch tk') d') g t q = (rec_at (apply_batch (tk_batch tk) d) g t q)(off := None)"
    and tk': "tk_busy tk' = (if if_ordered st then False else tk_busy tk)" "tk_out tk' = tk_out tk"
      "tk_batch tk' = tk_batch tk \<or> tk_batch tk' = bdelete (inflight_key g t q off) (tk_batch tk)"
  shows "taken_ok g t q now invisible d0 d' (left - {off}) tk'"
proof -
  let ?A = "{off. rec_at d0 g t q off \<noteq> None}"
  let ?R = "rec_at (apply_batch (tk_batch tk) d) g t q"
  note D = taken_okD [OF tk]
  have R: "?R off = Some st" using D(5) [OF left] st by simp
  have A: "?A - left \<subseteq> ?A - (left - {off})" "off \<in> ?A - (left - {off})" using st by auto
  obtain offs where offs: "distinct offs" "set offs \<subseteq> ?A - left"
      "list_all2 (handed d0 g t q now invisible ?R) offs (tk_out tk)"
    using tk by (auto simp: taken_ok_def)
  have fresh: "off \<notin> set offs" using offs(2) left by auto
  show ?thesis
    unfolding taken_ok_def R'
  proof (intro conjI)
    show "lock_ok (tk_busy tk') (?R(off := None))" using lock_free [OF D(2) R] tk'(1) by simp
    show "record_batch g t q (?A - (left - {off})) (tk_batch tk')"
      using tk'(3) record_batch_simps(2) [OF D(3) A(1)] record_batch_simps(3) [OF _ A(2)] by auto
    show "\<exists>offs. distinct offs \<and> set offs \<subseteq> ?A - (left - {off}) \<and>
        list_all2 (handed d0 g t q now invisible (?R(off := None))) offs (tk_out tk')"
      using offs A(1) handed_others [OF offs(3) fresh] tk'(2) by (intro exI [of _ offs]) auto
  qed (use d' D(1,4) in auto)
qed

text \<open>A message that is handed out again.\<close>

lemma taken_again:
  assumes tk: "taken_ok g t q now invisible d0 d left tk" and left: "off \<in> left"
    and st: "rec_at d0 g t q off = Some st" "if_expire st \<le> now"
    and st': "inflight_ok st'" "if_ordered st' = if_ordered st" "if_attempts st' = if_attempts st + 1"
      "now + milliseconds invisible \<le> if_expire st'"
    and m: "stored d0 t q off = Some v" "decode_message v = Inr m"
  shows "taken_ok g t q now invisible d0 d (left - {off})
    (tk\<lparr>tk_batch := bset (inflight_key g t q off) (encode_inflight st') (tk_batch tk),
       tk_staged := True, tk_out := tk_out tk @ [m\<lparr>m_attempt := if_attempts st + 1\<rparr>]\<rparr>)" (is "taken_ok _ _ _ _ _ _ _ _ ?tk")
proof -
  let ?A = "{off. rec_at d0 g t q off \<noteq> None}"
  let ?R = "rec_at (apply_batch (tk_batch tk) d) g t q"
  note D = taken_okD [OF tk]
  have R: "?R off = Some st" using D(5) [OF left] st by simp
  have A: "?A - left \<subseteq> ?A - (left - {off})" "off \<in> ?A - (left - {off})" using st by auto
  obtain offs where offs: "distinct offs" "set offs \<subseteq> ?A - left"
      "list_all2 (handed d0 g t q now invisible ?R) offs (tk_out tk)"
    using tk by (auto simp: taken_ok_def)
  have fresh: "off \<notin> set offs" using offs(2) left by auto
  have R': "rec_at (apply_batch (tk_batch ?tk) d) g t q = ?R(off \<mapsto> st')" by (simp add: kv_simps rec_set [OF st'(1)])
  show ?thesis
    unfolding taken_ok_def R'
  proof (intro conjI)
    show "lock_ok (tk_busy ?tk) (?R(off \<mapsto> st'))" using lock_keep [OF D(2) R st'(2)] by simp
    show "record_batch g t q (?A - (left - {off})) (tk_batch ?tk)"
      using record_batch_simps(4) [OF record_batch_simps(2) [OF D(3) A(1)] A(2) st'(1)] by simp
    have "handed d0 g t q now invisible (?R(off \<mapsto> st')) off (m\<lparr>m_attempt := if_attempts st + 1\<rparr>)"
      using m st st' by (simp add: handed_def)
    then show "\<exists>offs. distinct offs \<and> set offs \<subseteq> ?A - (left - {off}) \<and>
        list_all2 (handed d0 g t q now invisible (?R(off \<mapsto> st'))) offs (tk_out ?tk)"
      using offs A fresh handed_others [OF offs(3) fresh]
      by (intro exI [of _ "offs @ [off]"]) (auto intro: list_all2_appendI)
  qed (use D(1,4) in auto)
qed

text \<open>A dead letter: its record is gone at once, before the batch is written.\<close>

lemma dlq_batch:
  assumes "record_batch g t q A b" "off \<notin> A"
    and "\<And>a. kv_get d' (inflight_key g t q a) = (if a = off then None else kv_get d (inflight_key g t q a))"
  shows "rec_at (apply_batch b d') g t q = (rec_at (apply_batch b d) g t q)(off := None)"
proof
  fix a
  show "rec_at (apply_batch b d') g t q a = ((rec_at (apply_batch b d) g t q)(off := None)) a"
    using record_batch_rec [OF assms(1), of off d'] apply_batch_local [of d' "inflight_key g t q a" d b]
      assms(2) assms(3) [of a]
    by (cases "a = off") (simp_all add: rec_at_def)
qed

text \<open>The four ways a redelivery goes.\<close>

lemma redeliver_cases:
  assumes "redeliver E now rnd g t q invisible max_attempts l (off, attempts, ordered) tk s = (r, s')"
  obtains (err) e where "r = Inl e" "s' = s"
    | (none) "r = Inr (tk\<lparr>tk_batch := bdelete (inflight_key g t q off) (tk_batch tk), tk_staged := True,
        tk_busy := (if ordered then False else tk_busy tk)\<rparr>)" "s' = s"
    | (dlq) m r1 where "move_to_dlq E now rnd g t q off m attempts reason_exhausted s = (r1, s')"
        "\<And>tk'. r = Inr tk' \<Longrightarrow> is_ok r1 \<and> tk' = tk\<lparr>tk_busy := (if ordered then False else tk_busy tk)\<rparr>"
    | (again) v m where "stored (db s) t q off = Some v" "decode_message v = Inr m" "attempts < max_attempts"
        "s' = s" "r = Inr (tk\<lparr>tk_batch := bset (inflight_key g t q off) (encode_inflight (delivery l now
            (redelivery_expire now invisible (attempts + 1) ordered) (attempts + 1) ordered)) (tk_batch tk),
          tk_staged := True, tk_out := tk_out tk @ [m\<lparr>m_attempt := attempts + 1\<rparr>]\<rparr>)"
proof (cases "st_get E s (msg_key t q off)")
  case (Inl e)
  then show thesis using assms by (intro err [of e]) (simp_all add: redeliver_def seq_defs)
next
  case get: (Inr raw)
  then have raw: "raw = stored (db s) t q off" by (auto simp: st_get_def stored_def split: if_splits)
  show thesis
  proof (cases raw)
    case None
    then show thesis using assms get by (intro none) (simp_all add: redeliver_def seq_defs)
  next
    case (Some v)
    show thesis
    proof (cases "decode_message v")
      case (Inl e)
      then show thesis using assms get Some by (intro err [of e]) (simp_all add: redeliver_def seq_defs)
    next
      case m: (Inr m)
      show thesis
      proof (cases "max_attempts \<le> attempts")
        case True
        obtain r1 s1 where mv: "move_to_dlq E now rnd g t q off m attempts reason_exhausted s = (r1, s1)"
          by (cases "move_to_dlq E now rnd g t q off m attempts reason_exhausted s")
        show thesis using assms get Some m True mv by (intro dlq [of m r1]) (auto simp: redeliver_def seq_defs split: sum.splits)
      next
        case False
        then show thesis using assms get Some m raw by (intro again) (auto simp: redeliver_def seq_defs)
      qed
    qed
  qed
qed

lemma redeliver_ok:
  assumes tk: "taken_ok g t q now invisible d0 (db s) left tk" and left: "off \<in> left"
    and st: "rec_at d0 g t q off = Some st" "if_expire st \<le> now" and args: "take_args now invisible max_attempts l"
    and d: "stable g t q d0 (db s)" and names: "name_ok t" "t \<noteq> dlq_topic_name g"
    and run: "redeliver E now rnd g t q invisible max_attempts l (off, if_attempts st, if_ordered st) tk s = (r, s')"
  shows "stable g t q d0 (db s') \<and> (\<forall>tk'. r = Inr tk' \<longrightarrow>
    taken_ok g t q now invisible d0 (db s') (left - {off}) tk' \<and> length (tk_out tk') \<le> Suc (length (tk_out tk)))"
proof -
  have inok: "inflight_ok st"
    using recs_ok_inflight [of "db s"] d taken_okD(1) [OF tk left] st(1) by (auto simp: stable_def queue_ok_def)
  show ?thesis
    using run
  proof (cases rule: redeliver_cases)
    case none
    have "taken_ok g t q now invisible d0 (db s) (left - {off})
        (tk\<lparr>tk_batch := bdelete (inflight_key g t q off) (tk_batch tk), tk_staged := True,
          tk_busy := (if if_ordered st then False else tk_busy tk)\<rparr>)"
      by (rule taken_gone [OF tk left st(1)]) (simp_all add: kv_simps rec_del)
    then show ?thesis using none d by simp
  next
    case (dlq m r1)
    note S = stable_dlq [OF d dlq(1) names]
    have "taken_ok g t q now invisible d0 (db s') (left - {off}) (tk\<lparr>tk_busy := (if if_ordered st then False else tk_busy tk)\<rparr>)"
      if ok: "is_ok r1"
      by (rule taken_gone [OF tk left st(1)])
        (use S(2) [OF ok] left dlq_batch [OF taken_okD(3) [OF tk] _ S(2) [OF ok]] in \<open>simp_all add: rec_at_def split: if_splits\<close>)
    then show ?thesis using S(1) dlq(2) by fastforce
  next
    case (again v m)
    let ?st = "delivery l now (redelivery_expire now invisible (if_attempts st + 1) (if_ordered st)) (if_attempts st + 1) (if_ordered st)"
    have "inflight_ok ?st"
      using inok again(3) args
      by (intro delivery_ok [OF args] redelivery_expire_ok(1) [OF args]) (auto simp: inflight_ok_def take_args_def)
    then show ?thesis
      using taken_again [OF tk left st, of ?st v m] again redelivery_expire_ok(2) [OF args] stable_stored [OF d] d by simp
  qed (use d in simp)
qed


lemma redeliver_loop_ok:
  assumes "taken_ok g t q now invisible d0 (db s) left tk" "distinct (map fst reds)" "fst ` set reds \<subseteq> left"
    and "\<And>off a ord. (off, a, ord) \<in> set reds \<Longrightarrow>
      \<exists>st. rec_at d0 g t q off = Some st \<and> if_attempts st = a \<and> if_ordered st = ord \<and> if_expire st \<le> now"
    and "take_args now invisible max_attempts l" "stable g t q d0 (db s)" "name_ok t" "t \<noteq> dlq_topic_name g"
    and "redeliver_loop E now rnd g t q invisible max_attempts l reds tk s = (r, s')"
  shows "stable g t q d0 (db s') \<and> (\<forall>tk'. r = Inr tk' \<longrightarrow>
    taken_ok g t q now invisible d0 (db s') (left - fst ` set reds) tk' \<and> length (tk_out tk') \<le> length (tk_out tk) + length reds)"
  using assms
proof (induction reds arbitrary: tk s left)
  case Nil
  then show ?case by (auto simp: sret_def)
next
  case (Cons x reds)
  obtain off a ord where x: "x = (off, a, ord)" by (cases x)
  obtain st where st: "rec_at d0 g t q off = Some st" "if_expire st \<le> now" "a = if_attempts st" "ord = if_ordered st"
    using Cons.prems(4) [of off a ord] by (auto simp: x)
  have left: "off \<in> left" using Cons.prems(3) by (simp add: x)
  have run: "sbind (redeliver E now rnd g t q invisible max_attempts l (off, if_attempts st, if_ordered st) tk)
      (redeliver_loop E now rnd g t q invisible max_attempts l reds) s = (r, s')"
    using Cons.prems(9) by (simp add: x st(3,4))
  show ?case
    using run
  proof (cases rule: sbind_cases)
    case (fail e)
    then show ?thesis
      using redeliver_ok [OF Cons.prems(1) left st(1,2) Cons.prems(5-8) fail(1)] by simp
  next
    case (ok tk1 s1)
    note one = redeliver_ok [OF Cons.prems(1) left st(1,2) Cons.prems(5-8) ok(1)]
    have "stable g t q d0 (db s') \<and> (\<forall>tk'. r = Inr tk' \<longrightarrow>
        taken_ok g t q now invisible d0 (db s') (left - {off} - fst ` set reds) tk' \<and>
        length (tk_out tk') \<le> length (tk_out tk1) + length reds)"
    proof (rule Cons.IH [OF _ _ _ Cons.prems(4,5) _ Cons.prems(7,8) ok(2)])
      show "taken_ok g t q now invisible d0 (db s1) (left - {off}) tk1" "stable g t q d0 (db s1)" using one by simp_all
      show "distinct (map fst reds)" "fst ` set reds \<subseteq> left - {off}" using Cons.prems(2,3) by (auto simp: x)
    qed simp
    moreover have "left - {off} - fst ` set reds = left - fst ` set (x # reds)" by (auto simp: x)
    ultimately show ?thesis using one by fastforce
  qed
qed

section \<open>Taking new messages\<close>

text \<open>
  What the producer guarantees of a queue's log: under its prefix there are only messages, each
  at the key of the offset it carries, and never at the last offset.
\<close>

definition log_wf :: "kv \<Rightarrow> bytes \<Rightarrow> u32 \<Rightarrow> bool" where
  "log_wf m t q \<longleftrightarrow> (\<forall>k v. prefix (msg_queue_prefix t q) k \<longrightarrow> kv_get m k = Some v \<longrightarrow>
     (\<exists>x. decode_message v = Inr x \<and> k = msg_key t q (m_offset x) \<and> m_offset x + 1 \<noteq> 0))"

text \<open>A message between two cursors is dealt with: it has a record, or the filter has refused it.\<close>

definition dealt :: "(u64 \<Rightarrow> inflight option) \<Rightarrow> filt \<Rightarrow> u64 \<Rightarrow> message \<Rightarrow> bool" where
  "dealt R f off m \<longleftrightarrow> R off \<noteq> None \<or> filter_match f m \<noteq> RTrue"

definition fetched ::
    "bytes \<Rightarrow> bytes \<Rightarrow> u32 \<Rightarrow> ms \<Rightarrow> int \<Rightarrow> filt \<Rightarrow> kv \<Rightarrow> kv \<Rightarrow> u64 \<Rightarrow> (bytes \<times> bytes) list \<Rightarrow> fetching \<Rightarrow> bool" where
  "fetched g t q now invisible f d0 d cursor ys tk \<longleftrightarrow>
     (let R = rec_at (apply_batch (tk_batch tk) d) g t q in
      lock_ok (tk_busy tk) R \<and> record_batch g t q UNIV (tk_batch tk) \<and>
      (\<forall>off st. rec_at d0 g t q off = Some st \<longrightarrow> now < if_expire st \<longrightarrow> R off = Some st) \<and>
      cursor \<le> ft_cursor tk \<and> (\<forall>off. R off \<noteq> None \<longrightarrow> off < ft_cursor tk) \<and>
      (ft_cursor tk = cursor \<or> (\<exists>off v. (msg_key t q off, v) \<in> set ys \<and> ft_cursor tk = off + 1 \<and> off + 1 \<noteq> 0)) \<and>
      (\<forall>off v m. (msg_key t q off, v) \<in> set ys \<longrightarrow> off < ft_cursor tk \<longrightarrow> decode_message v = Inr m \<longrightarrow> dealt R f off m) \<and>
      (\<exists>offs. distinct offs \<and> (\<forall>off \<in> set offs. off < ft_cursor tk) \<and>
         list_all2 (handed d0 g t q now invisible R) offs (tk_out tk)))"


lemma fetchedD:
  assumes "fetched g t q now invisible f d0 d cursor ys tk"
  shows "lock_ok (tk_busy tk) (rec_at (apply_batch (tk_batch tk) d) g t q)" "record_batch g t q UNIV (tk_batch tk)"
    and "cursor \<le> ft_cursor tk" "rec_at (apply_batch (tk_batch tk) d) g t q off \<noteq> None \<Longrightarrow> off < ft_cursor tk"
    and "ft_cursor tk = cursor \<or> (\<exists>off v. (msg_key t q off, v) \<in> set ys \<and> ft_cursor tk = off + 1 \<and> off + 1 \<noteq> 0)"
    and "(msg_key t q off, v) \<in> set ys \<Longrightarrow> off < ft_cursor tk \<Longrightarrow> decode_message v = Inr m \<Longrightarrow>
      dealt (rec_at (apply_batch (tk_batch tk) d) g t q) f off m"
    and "\<exists>offs. distinct offs \<and> (\<forall>off \<in> set offs. off < ft_cursor tk) \<and>
      list_all2 (handed d0 g t q now invisible (rec_at (apply_batch (tk_batch tk) d) g t q)) offs (tk_out tk)"
    and "rec_at d0 g t q off = Some st \<Longrightarrow> now < if_expire st \<Longrightarrow>
      rec_at (apply_batch (tk_batch tk) d) g t q off = Some st"
  using assms by (auto simp: fetched_def Let_def)

lemma less_succ: "a < b \<Longrightarrow> a + 1 \<le> (b :: u64)"
  using inc_le by blast

lemma succ_less: "a + 1 \<noteq> (0 :: u64) \<Longrightarrow> a < a + 1"
  using inc_less_eq_triv_imp [of a] by (force simp: not_le [symmetric])

lemma dealt_upd: "dealt R f off m \<Longrightarrow> dealt (R(a \<mapsto> x)) f off m"
  by (simp add: dealt_def)

text \<open>The next entry of the scan is at or after the cursor reached so far.\<close>

lemma next_entry:
  assumes "kv_ok d" "log_wf d t q"
    and "kv_range (msg_key t q cursor) (prefix_upper_bound (msg_queue_prefix t q)) d = ys @ (k, v) # zs"
    and "ft = cursor \<or> (\<exists>off v. (msg_key t q off, v) \<in> set ys \<and> ft = off + 1 \<and> off + 1 \<noteq> 0)"
  obtains m where "decode_message v = Inr m" "k = msg_key t q (m_offset m)" "m_offset m < m_offset m + 1"
    "ft \<le> m_offset m" "cursor \<le> m_offset m" "stored d t q (m_offset m) = Some v"
proof -
  note e = kv_range_entry [OF assms(1,3)]
  obtain u where u: "prefix_upper_bound (msg_queue_prefix t q) = Some u" using msgq.bounded by blast
  have "prefix (msg_queue_prefix t q) k"
    using msgq.prefix_below [OF u, of cursor k] e(2) by (simp add: in_range_def u)
  then obtain m where m: "decode_message v = Inr m" "k = msg_key t q (m_offset m)" "m_offset m + 1 \<noteq> 0"
    using assms(2) e(1) unfolding log_wf_def by blast
  have cur: "cursor \<le> m_offset m" using e(2) by (simp add: in_range_def m(2) msgq.key_le)
  have "ft \<le> m_offset m"
    using assms(4)
  proof (elim disjE exE conjE)
    fix off w
    assume "(msg_key t q off, w) \<in> set ys" "ft = off + 1"
    then show ?thesis using e(4) [of "msg_key t q off" w] less_succ by (simp add: m(2) msgq.key_less)
  qed (simp add: cur)
  then show thesis using m cur e(1) by (intro that [of m] succ_less) (auto simp: stored_def)
qed

lemma fetched_step:
  assumes d: "kv_ok d" "log_wf d t q"
    and kvs: "kv_range (msg_key t q cursor) (prefix_upper_bound (msg_queue_prefix t q)) d = ys @ (k, v) # zs"
    and tk: "fetched g t q now invisible f d0 d cursor ys tk" and passed: "\<And>off v. (msg_key t q off, v) \<in> set ys \<Longrightarrow> off < ft_cursor tk"
    and d0: "\<And>off. cursor \<le> off \<Longrightarrow> rec_at d0 g t q off = None" "\<And>off. stored d t q off = stored d0 t q off"
    and args: "take_args now invisible max_attempts l" and len: "int (length (tk_out tk)) < max_msgs"
    and run: "fetch_new now invisible g t q max_msgs f l tk k v = (Inr c, tk1)"
  shows "fetched g t q now invisible f d0 d cursor (ys @ [(k, v)]) tk1"
    and "c \<Longrightarrow> (msg_key t q off, w) \<in> set (ys @ [(k, v)]) \<Longrightarrow> off < ft_cursor tk1"
    and "int (length (tk_out tk1)) \<le> max_msgs" "c \<Longrightarrow> int (length (tk_out tk1)) < max_msgs"
proof -
  note D = fetchedD [OF tk]
  obtain m where m: "decode_message v = Inr m" "k = msg_key t q (m_offset m)" "m_offset m < m_offset m + 1"
    "ft_cursor tk \<le> m_offset m" "cursor \<le> m_offset m" "stored d t q (m_offset m) = Some v"
    by (rule next_entry [OF d kvs D(5)])
  let ?off = "m_offset m"
  let ?R = "rec_at (apply_batch (tk_batch tk) d) g t q"
  have Rnone: "?R ?off = None" using D(4) [of ?off] m(4) by (meson leD)
  have grows: "a < ft_cursor tk \<Longrightarrow> a < ?off + 1" for a using m(3,4) by order
  have olds: "off < ?off" if "(msg_key t q off, w) \<in> set ys" for off w
    using passed [OF that] m(4) by order
  let ?tk0 = "tk\<lparr>ft_cursor := ?off + 1, ft_skips := ft_skips tk @ [skip_reason_of f (filter_match f m)]\<rparr>"
  let ?st = "delivery l now (now + milliseconds invisible) 1 (m_group m \<noteq> [])"
  let ?tk1 = "tk\<lparr>ft_cursor := ?off + 1, tk_busy := (if m_group m \<noteq> [] then True else tk_busy tk),
     tk_batch := bset (inflight_key g t q ?off) (encode_inflight ?st) (tk_batch tk), tk_out := tk_out tk @ [m\<lparr>m_attempt := 1\<rparr>]\<rparr>"
  have st: "inflight_ok ?st" using args by (intro delivery_ok [OF args]) (simp_all add: take_args_def)
  have R1: "rec_at (apply_batch (tk_batch ?tk1) d) g t q = ?R(?off \<mapsto> ?st)" by (simp add: kv_simps rec_set [OF st])
  consider (skip) "filter_match f m \<noteq> RTrue" "c" "tk1 = ?tk0"
    | (block) "\<not> c" "tk1 = tk"
    | (give) "\<not> (m_group m \<noteq> [] \<and> tk_busy tk)" "tk1 = ?tk1" "c \<longleftrightarrow> int (length (tk_out ?tk1)) < max_msgs"
    using run by (auto simp: fetch_new_def m(1) Let_def split: if_splits)
  then have "fetched g t q now invisible f d0 d cursor (ys @ [(k, v)]) tk1 \<and>
      (c \<longrightarrow> ft_cursor tk1 = ?off + 1) \<and> int (length (tk_out tk1)) \<le> max_msgs \<and> (c \<longrightarrow> int (length (tk_out tk1)) < max_msgs)"
  proof cases
    case skip
    have "fetched g t q now invisible f d0 d cursor (ys @ [(k, v)]) ?tk0"
      unfolding fetched_def Let_def
    proof (intro conjI)
      show "\<exists>offs. distinct offs \<and> (\<forall>off\<in>set offs. off < ft_cursor ?tk0) \<and>
          list_all2 (handed d0 g t q now invisible (rec_at (apply_batch (tk_batch ?tk0) d) g t q)) offs (tk_out ?tk0)"
        using D(7) grows by auto
      show "\<forall>off v' m'. (msg_key t q off, v') \<in> set (ys @ [(k, v)]) \<longrightarrow> off < ft_cursor ?tk0 \<longrightarrow>
          decode_message v' = Inr m' \<longrightarrow> dealt (rec_at (apply_batch (tk_batch ?tk0) d) g t q) f off m'"
        using D(6) passed m(1) skip(1) by (auto simp: dealt_def m(2) msgq.key_eq)
      show "ft_cursor ?tk0 = cursor \<or> (\<exists>off v'. (msg_key t q off, v') \<in> set (ys @ [(k, v)]) \<and> ft_cursor ?tk0 = off + 1 \<and> off + 1 \<noteq> 0)"
        using m(2,3) by auto
      show "cursor \<le> ft_cursor ?tk0" using m(3,5) by simp
    qed (use D(1,2,4,8) grows in auto)
    then show ?thesis using skip len by simp
  next
    case block
    have "fetched g t q now invisible f d0 d cursor (ys @ [(k, v)]) tk"
      unfolding fetched_def Let_def
    proof (intro conjI)
      show "\<forall>off v' m'. (msg_key t q off, v') \<in> set (ys @ [(k, v)]) \<longrightarrow> off < ft_cursor tk \<longrightarrow>
          decode_message v' = Inr m' \<longrightarrow> dealt ?R f off m'"
        using D(6) m(4) by (auto simp: m(2) msgq.key_eq)
    qed (use D in auto)
    then show ?thesis using block len by simp
  next
    case give
    have "fetched g t q now invisible f d0 d cursor (ys @ [(k, v)]) ?tk1"
      unfolding fetched_def Let_def R1
    proof (intro conjI)
      show "lock_ok (tk_busy ?tk1) (?R(?off \<mapsto> ?st))" using lock_take [OF D(1), of ?st ?off] give(1) by simp
      show "record_batch g t q UNIV (tk_batch ?tk1)" using record_batch_simps(4) [OF D(2) UNIV_I st] by simp
      obtain offs where offs: "distinct offs" "\<forall>off \<in> set offs. off < ft_cursor tk"
          "list_all2 (handed d0 g t q now invisible ?R) offs (tk_out tk)" using D(7) by blast
      have new: "?off \<notin> set offs" using offs(2) m(4) by (auto simp: not_less)
      have "handed d0 g t q now invisible (?R(?off \<mapsto> ?st)) ?off (m\<lparr>m_attempt := 1\<rparr>)"
        using m(1,6) d0(1) [OF m(5)] d0(2) by (auto simp: handed_def)
      then show "\<exists>offs. distinct offs \<and> (\<forall>off\<in>set offs. off < ft_cursor ?tk1) \<and>
          list_all2 (handed d0 g t q now invisible (?R(?off \<mapsto> ?st))) offs (tk_out ?tk1)"
        using offs new m(3) grows handed_others [OF offs(3) new]
        by (intro exI [of _ "offs @ [?off]"]) (auto intro: list_all2_appendI)
      show "\<forall>off v' m'. (msg_key t q off, v') \<in> set (ys @ [(k, v)]) \<longrightarrow> off < ft_cursor ?tk1 \<longrightarrow>
          decode_message v' = Inr m' \<longrightarrow> dealt (?R(?off \<mapsto> ?st)) f off m'"
        using D(6) passed dealt_upd by (auto simp: dealt_def m(2) msgq.key_eq)
      show "ft_cursor ?tk1 = cursor \<or> (\<exists>off v'. (msg_key t q off, v') \<in> set (ys @ [(k, v)]) \<and> ft_cursor ?tk1 = off + 1 \<and> off + 1 \<noteq> 0)"
        using m(2,3) by auto
      show "cursor \<le> ft_cursor ?tk1" using m(3,5) by simp
      show "\<forall>off st. rec_at d0 g t q off = Some st \<longrightarrow> now < if_expire st \<longrightarrow> (?R(?off \<mapsto> ?st)) off = Some st"
        using D(8) d0(1) [OF m(5)] by auto
    qed (use D(4) grows m(3) in auto)
    then show ?thesis using give len by simp
  qed
  then show "fetched g t q now invisible f d0 d cursor (ys @ [(k, v)]) tk1"
    and "c \<Longrightarrow> (msg_key t q off, w) \<in> set (ys @ [(k, v)]) \<Longrightarrow> off < ft_cursor tk1"
    and "int (length (tk_out tk1)) \<le> max_msgs" "c \<Longrightarrow> int (length (tk_out tk1)) < max_msgs"
    using olds m(3) by (auto simp: m(2) msgq.key_eq intro: less_trans)
qed


lemma extend_fields [simp]:
  "tk_batch (taking.extend tk x) = tk_batch tk" "tk_busy (taking.extend tk x) = tk_busy tk"
  "tk_out (taking.extend tk x) = tk_out tk" "tk_staged (taking.extend tk x) = tk_staged tk"
  "ft_cursor (taking.extend tk \<lparr>ft_cursor = c, ft_skips = k\<rparr>) = c"
  by (simp_all add: taking.defs)

lemma fetched_staged [simp]: "fetched g t q now invisible f d0 d cursor ys (tk\<lparr>tk_staged := b\<rparr>) =
    fetched g t q now invisible f d0 d cursor ys tk"
  by (simp add: fetched_def)

lemma fetched_start:
  assumes "taken_ok g t q now invisible d0 d left tk" "queue_ok d0 g t q" "cursor = cursor_of d0 g t q"
    and "\<forall>off st. rec_at d0 g t q off = Some st \<longrightarrow> now < if_expire st \<longrightarrow> off \<in> left"
  shows "fetched g t q now invisible f d0 d cursor [] (taking.extend tk \<lparr>ft_cursor = cursor, ft_skips = []\<rparr>)"
proof -
  let ?A = "{off. rec_at d0 g t q off \<noteq> None}"
  note D = taken_okD [OF assms(1)]
  have low: "off < cursor" if "off \<in> ?A" for off using that assms(2,3) by (auto simp: queue_ok_def)
  have "rec_at (apply_batch (tk_batch tk) d) g t q off \<noteq> None \<Longrightarrow> off \<in> ?A" for off
    using record_batch_rec [OF D(3), of off d] D(4) [of off] by (cases "off \<in> ?A - left") auto
  moreover have "\<exists>offs. distinct offs \<and> (\<forall>off \<in> set offs. off < cursor) \<and>
      list_all2 (handed d0 g t q now invisible (rec_at (apply_batch (tk_batch tk) d) g t q)) offs (tk_out tk)"
    using assms(1) low unfolding taken_ok_def by (meson DiffD1 subset_iff)
  ultimately show ?thesis
    using D(2) record_batch_simps(2) [OF D(3) subset_UNIV] low D(5) assms(4) by (simp add: fetched_def Let_def)
qed

lemma log_wf_same: "same_msgs t q m m' \<Longrightarrow> log_wf m' t q \<longleftrightarrow> log_wf m t q"
  by (simp add: log_wf_def same_msgs_def)

text \<open>Nothing between the cursor and the cursor reached is left out of the scan.\<close>

lemma fetched_covers:
  assumes "kv_ok d" "fetched g t q now invisible f d0 d cursor ys tk"
    and "kv_range (msg_key t q cursor) (prefix_upper_bound (msg_queue_prefix t q)) d = ys @ zs"
    and "stored d t q off = Some v" "cursor \<le> off" "off < ft_cursor tk"
  shows "(msg_key t q off, v) \<in> set ys"
proof -
  obtain u where u: "prefix_upper_bound (msg_queue_prefix t q) = Some u" using msgq.bounded by blast
  have mem: "(msg_key t q off, v) \<in> set (ys @ zs)"
    using assms(1,3-5) kv_range_mem [OF assms(1)] msgq.key_below [OF u]
    by (simp flip: assms(3) add: stored_def in_range_def u msgq.key_le)
  obtain b w where b: "(msg_key t q b, w) \<in> set ys" "ft_cursor tk = b + 1" "b + 1 \<noteq> 0"
    using fetchedD(5) [OF assms(2)] assms(5,6) by (auto dest: leD)
  have le: "off \<le> b" using assms(6) b(2) less_succ [of b off] by (metis leD not_le_imp_less)
  have "kv_ok (ys @ zs)" using kv_ok_range [OF assms(1)] by (simp flip: assms(3))
  then have "(msg_key t q off, v) \<notin> set zs"
    using b(1) le by (fastforce simp: kv_ok_def sorted_wrt_append msgq.key_less)
  then show ?thesis using mem by simp
qed

lemma fetch_phase_ok:
  assumes tk: "taken_ok g t q now invisible d0 (db s) left tk" and d: "stable g t q d0 (db s)"
    and left: "\<forall>off st. rec_at d0 g t q off = Some st \<longrightarrow> now < if_expire st \<longrightarrow> off \<in> left"
    and d0: "queue_ok d0 g t q" "log_wf d0 t q" and cursor: "cursor = cursor_of d0 g t q"
    and args: "take_args now invisible max_attempts l" and len: "int (length (tk_out tk)) \<le> max 0 max_msgs"
    and run: "fetch_phase E now g t q max_msgs invisible f l cursor tk s = (r, s')"
  shows "db s' = db s" and "r = Inr tk1 \<Longrightarrow> int (length (tk_out tk1)) \<le> max 0 max_msgs \<and>
    (\<exists>ys. fetched g t q now invisible f d0 (db s) cursor ys tk1 \<and>
      (\<forall>off v. stored d0 t q off = Some v \<longrightarrow> cursor \<le> off \<longrightarrow> off < ft_cursor tk1 \<longrightarrow> (msg_key t q off, v) \<in> set ys))"
proof -
  let ?t0 = "taking.extend tk \<lparr>ft_cursor = cursor, ft_skips = []\<rparr>"
  let ?range = "kv_range (msg_key t q cursor) (prefix_upper_bound (msg_queue_prefix t q)) (db s)"
  have ok: "kv_ok (db s)" and wf: "log_wf (db s) t q"
    using d d0(2) log_wf_same by (auto simp: stable_def)
  note same = stable_stored [OF d]
  have start: "fetched g t q now invisible f d0 (db s) cursor [] ?t0" by (rule fetched_start [OF tk d0(1) cursor left])
  have new: "rec_at d0 g t q off = None" if "cursor \<le> off" for off
    using that d0(1) cursor leD by (fastforce simp: queue_ok_def)
  have "db s' = db s \<and> (r = Inr tk1 \<longrightarrow> int (length (tk_out tk1)) \<le> max 0 max_msgs \<and>
    (\<exists>ys. fetched g t q now invisible f d0 (db s) cursor ys tk1 \<and>
      (\<forall>off v. stored d0 t q off = Some v \<longrightarrow> cursor \<le> off \<longrightarrow> off < ft_cursor tk1 \<longrightarrow> (msg_key t q off, v) \<in> set ys)))"
  proof (cases "int (length (tk_out tk)) < max_msgs")
    case False
    then have "s' = s" "r = Inr ?t0" using run by (auto simp: fetch_phase_def sret_def)
    then show ?thesis using start len leD by (fastforce intro!: exI [of _ "[]"])
  next
    case True
    obtain res t1 where scan: "st_scan E s (msg_key t q cursor) (prefix_upper_bound (msg_queue_prefix t q)) scan_budget
        (fetch_new now invisible g t q max_msgs f l) ?t0 = (res, t1)" by (metis surj_pair)
    have db: "db s' = db s"
      using run True scan by (auto simp: fetch_phase_def count_skips_def split: sum.splits if_splits)
    show ?thesis
    proof (cases res)
      case (Inl e)
      then show ?thesis using run True scan db by (auto simp: fetch_phase_def)
    next
      case (Inr u)
      let ?P = "\<lambda>ys a. fetched g t q now invisible f d0 (db s) cursor ys a \<and> int (length (tk_out a)) < max_msgs \<and>
        (\<forall>off v. (msg_key t q off, v) \<in> set ys \<longrightarrow> off < ft_cursor a)"
      let ?Q = "\<lambda>ys a. fetched g t q now invisible f d0 (db s) cursor ys a \<and> int (length (tk_out a)) \<le> max_msgs"
      obtain ys zs where ys: "?range = ys @ zs" "?P ys t1 \<or> ?Q ys t1"
      proof (rule exE [OF scan_run [OF scan [unfolded Inr], of ?P ?Q]])
        show "?P [] ?t0" using start True by simp
        fix ys k v zs a c a1
        assume kvs: "?range = ys @ (k, v) # zs" and P: "?P ys a"
          and run1: "fetch_new now invisible g t q max_msgs f l a k v = (Inr c, a1)"
        have passed: "(msg_key t q off, v') \<in> set ys \<Longrightarrow> off < ft_cursor a" for off v' using P by blast
        note step = fetched_step [OF ok wf kvs conjunct1 [OF P] passed new same args conjunct1 [OF conjunct2 [OF P]] run1]
        show "if c then ?P (ys @ [(k, v)]) a1 else ?Q (ys @ [(k, v)]) a1"
          using step(1,2,3,4) by (cases c) simp_all
      qed blast
      have f1: "fetched g t q now invisible f d0 (db s) cursor ys t1" "int (length (tk_out t1)) \<le> max_msgs"
        using ys(2) by auto
      have r: "r = Inr (t1\<lparr>tk_staged := tk_staged t1 \<or> cursor < ft_cursor t1\<rparr>)"
        using run True scan Inr by (auto simp: fetch_phase_def)
      have "(msg_key t q off, v) \<in> set ys" if "stored d0 t q off = Some v" "cursor \<le> off" "off < ft_cursor t1" for off v
        by (rule fetched_covers [OF ok f1(1) ys(1)]) (use that same in auto)
      then show ?thesis using db f1 by (auto simp: r intro!: exI [of _ ys])
    qed
  qed
  then show "db s' = db s" and "r = Inr tk1 \<Longrightarrow> int (length (tk_out tk1)) \<le> max 0 max_msgs \<and>
    (\<exists>ys. fetched g t q now invisible f d0 (db s) cursor ys tk1 \<and>
      (\<forall>off v. stored d0 t q off = Some v \<longrightarrow> cursor \<le> off \<longrightarrow> off < ft_cursor tk1 \<longrightarrow> (msg_key t q off, v) \<in> set ys))"
    by blast+
qed


section \<open>A whole take\<close>

definition take_batch :: "bytes \<Rightarrow> bytes \<Rightarrow> u32 \<Rightarrow> u64 \<Rightarrow> fetching \<Rightarrow> batch" where
  "take_batch g t q cursor tk =
     (if cursor < ft_cursor tk then bset (cursor_key g t q) (put_u64 (ft_cursor tk)) (tk_batch tk) else tk_batch tk)"

lemma take_batch_ok:
  assumes tk: "fetched g t q now invisible f d0 d cursor ys tk" and d: "stable g t q d0 d" and cursor: "cursor = cursor_of d0 g t q"
  defines "m \<equiv> apply_batch (take_batch g t q cursor tk) d"
  shows "rec_at m g t q = rec_at (apply_batch (tk_batch tk) d) g t q" "cursor_of m g t q = ft_cursor tk" "stable g t q d0 d"
    "queue_ok m g t q" "kv_ok m" "same_msgs t q d0 m"
proof -
  note D = fetchedD [OF tk]
  let ?n = "apply_batch (tk_batch tk) d"
  have other: "kv_get m k = kv_get ?n k" if "k \<noteq> cursor_key g t q" for k
    using that by (simp add: m_def take_batch_def kv_simps)
  show rec: "rec_at m g t q = rec_at ?n g t q" by (simp add: rec_at_def other fun_eq_iff)
  have "kv_get ?n (cursor_key g t q) = kv_get d0 (cursor_key g t q)"
    using record_batch_frame(1) [OF D(2), of "cursor_key g t q" d] d by (simp add: stable_def)
  then show cur: "cursor_of m g t q = ft_cursor tk"
    using D(3) cursor by (auto simp: m_def take_batch_def cursor_of_def counter_of_def kv_simps not_less)
  have "recs_ok ?n g t q" using record_batch_recs [OF D(2)] d by (simp add: stable_def queue_ok_def)
  then have "recs_ok m g t q" by (simp add: recs_ok_def other)
  then show "queue_ok m g t q" using D(1,4) by (simp add: queue_ok_def rec cur lock_ok_def)
  show "stable g t q d0 d" by (rule d)
  show "kv_ok m" using d by (simp add: m_def stable_def)
  have "kv_get m k = kv_get d k" if pre: "prefix (msg_queue_prefix t q) k" for k
  proof -
    obtain zs where k: "k = msg_queue_prefix t q @ zs" using pre by (auto simp: prefix_def)
    have "k \<noteq> cursor_key g t q" "\<And>off. k \<noteq> inflight_key g t q off"
      by (simp_all add: k msg_queue_prefix_eq cursor_key_def inflight_key_def prefix_defs)
    then show ?thesis using other record_batch_frame(1) [OF D(2)] by simp
  qed
  then show "same_msgs t q d0 m" using d by (simp add: stable_def same_msgs_def)
qed

text \<open>What a take has done when it succeeds.\<close>

definition take_done ::
    "bytes \<Rightarrow> bytes \<Rightarrow> u32 \<Rightarrow> ms \<Rightarrow> int \<Rightarrow> int \<Rightarrow> filt \<Rightarrow> kv \<Rightarrow> kv \<Rightarrow> message list \<Rightarrow> bool" where
  "take_done g t q now max_msgs invisible f m m' out \<longleftrightarrow>
     int (length out) \<le> max 0 max_msgs \<and>
     (\<exists>offs. distinct offs \<and> list_all2 (handed m g t q now invisible (rec_at m' g t q)) offs out) \<and>
     (\<forall>off st. rec_at m g t q off = Some st \<longrightarrow> now < if_expire st \<longrightarrow> rec_at m' g t q off = Some st) \<and>
     cursor_of m g t q \<le> cursor_of m' g t q \<and>
     (\<forall>off v x. stored m t q off = Some v \<longrightarrow> decode_message v = Inr x \<longrightarrow>
        cursor_of m g t q \<le> off \<longrightarrow> off < cursor_of m' g t q \<longrightarrow> dealt (rec_at m' g t q) f off x)"

lemma take_phases:
  fixes s :: "'z deliver_node_scheme"
  assumes "receive_once_locked E now rnd g t q max_msgs invisible max_attempts f l s = (r, s')"
  obtains (scan) e where "r = Inl e" "s' = s"
    | (work) sc where "st_scan E s (inflight_prefix g t q) (prefix_upper_bound (inflight_prefix g t q)) 0 (scan_inflight l now max_msgs)
        \<lparr>sc_busy = False, sc_renews = [], sc_reds = []\<rparr> = (Inr (), sc)"
      "sbind (redeliver_loop E now rnd g t q invisible max_attempts l (sc_reds sc) (renew_loop now invisible g t q (sc_renews sc)
          \<lparr>tk_batch = new_batch, tk_staged = False, tk_busy = sc_busy sc, tk_out = []\<rparr>)) (\<lambda>tk.
       sbind (slift (read_counter E (cursor_key g t q))) (\<lambda>cursor.
       sbind (fetch_phase E now g t q max_msgs invisible f l cursor tk) (\<lambda>tk.
         if \<not> tk_staged tk then sret None
         else sbind (rep_apply_async E (group_for_queue E t q) (take_batch g t q cursor tk)) (\<lambda>p.
           sret (Some (tk_out tk, p)))))) s = (r, s')"
proof -
  from assms have run: "sbind (\<lambda>s. case st_scan E s (inflight_prefix g t q) (prefix_upper_bound (inflight_prefix g t q)) 0
      (scan_inflight l now max_msgs) \<lparr>sc_busy = False, sc_renews = [], sc_reds = []\<rparr> of
        (Inl e, _) \<Rightarrow> (Inl e, s) | (Inr _, sc) \<Rightarrow> (Inr sc, s)) (\<lambda>sc.
      sbind (redeliver_loop E now rnd g t q invisible max_attempts l (sc_reds sc) (renew_loop now invisible g t q (sc_renews sc)
          \<lparr>tk_batch = new_batch, tk_staged = False, tk_busy = sc_busy sc, tk_out = []\<rparr>)) (\<lambda>tk.
       sbind (slift (read_counter E (cursor_key g t q))) (\<lambda>cursor.
       sbind (fetch_phase E now g t q max_msgs invisible f l cursor tk) (\<lambda>tk.
         if \<not> tk_staged tk then sret None
         else sbind (rep_apply_async E (group_for_queue E t q) (take_batch g t q cursor tk)) (\<lambda>p.
           sret (Some (tk_out tk, p))))))) s = (r, s')"
    by (simp only: receive_once_locked_def Let_def take_batch_def)
  then show thesis
  proof (cases rule: sbind_cases)
    case (fail e)
    then show thesis using scan [of e] by (auto split: prod.splits sum.splits)
  next
    case (ok sc s1)
    then show thesis using work [of sc] by (auto split: prod.splits sum.splits)
  qed
qed

lemma read_counter_is: "read_counter E k s = Inr n \<Longrightarrow> n = counter_of (db s) k"
  by (auto simp: read_counter_def ebind_Inr st_get_def counter_of_def split: if_splits option.splits)

definition take_result ::
    "bytes \<Rightarrow> bytes \<Rightarrow> u32 \<Rightarrow> ms \<Rightarrow> int \<Rightarrow> int \<Rightarrow> filt \<Rightarrow> kv \<Rightarrow>
      (err + (message list \<times> pending) option) \<times> 'z deliver_node_scheme \<Rightarrow> bool" where
  "take_result g t q now max_msgs invisible f m = (\<lambda>(r, s').
     kv_ok (db s') \<and> queue_ok (db s') g t q \<and> same_msgs t q m (db s') \<and>
     (\<forall>out p. r = Inr (Some (out, p)) \<longrightarrow> pending_wait p = Inr () \<longrightarrow>
        take_done g t q now max_msgs invisible f m (db s') out) \<and>
     (r = Inr None \<longrightarrow> take_done g t q now max_msgs invisible f m (db s') []))"

lemma take_result_err: "stable g t q m (db s') \<Longrightarrow> take_result g t q now max_msgs invisible f m (Inl e, s')"
  by (simp add: take_result_def stable_def)

lemma take_result_none:
  assumes "stable g t q m (db s')"
    and "\<And>off st. rec_at m g t q off = Some st \<Longrightarrow> now < if_expire st \<Longrightarrow> rec_at (db s') g t q off = Some st"
  shows "take_result g t q now max_msgs invisible f m (Inr None, s')"
proof -
  have "cursor_of (db s') g t q = cursor_of m g t q"
    using assms(1) by (simp add: stable_def cursor_of_def counter_of_def)
  then show ?thesis
    using assms by (auto simp: take_result_def stable_def take_done_def intro: exI [of _ "[]"])
qed

text \<open>The second half of a take: the new messages and the batch.\<close>

lemma take_commit:
  fixes s :: "'z deliver_node_scheme"
  assumes tk: "fetched g t q now invisible f d0 (db s) cursor ys tk" and s: "stable g t q d0 (db s)" and cursor: "cursor = cursor_of d0 g t q"
    and ys: "\<And>off v. stored d0 t q off = Some v \<Longrightarrow> cursor \<le> off \<Longrightarrow> off < ft_cursor tk \<Longrightarrow> (msg_key t q off, v) \<in> set ys"
    and len: "int (length (tk_out tk)) \<le> max 0 max_msgs"
    and run: "sbind (rep_apply_async E (group_for_queue E t q) (take_batch g t q cursor tk)) (\<lambda>p. sret (Some (tk_out tk, p))) s = (r, s')"
  shows "take_result g t q now max_msgs invisible f d0 (r, s')"
proof -
  note B = take_batch_ok [OF tk s cursor]
  obtain x where a: "rep_apply_async E (group_for_queue E t q) (take_batch g t q cursor tk) s = (x, s')"
      and x: "r = (case x of Inl e \<Rightarrow> Inl e | Inr p \<Rightarrow> Inr (Some (tk_out tk, p)))"
    using run by (auto simp: seq_defs split: prod.splits sum.splits)
  have "kv_ok (db s') \<and> queue_ok (db s') g t q \<and> same_msgs t q d0 (db s')"
    using rep_apply_async_db [OF a] s B(4-6) by (auto simp: stable_def)
  moreover have "take_done g t q now max_msgs invisible f d0 (db s') out"
    if "r = Inr (Some (out, p))" "pending_wait p = Inr ()" for out p
  proof -
    have db: "db s' = apply_batch (take_batch g t q cursor tk) (db s)" and out: "out = tk_out tk"
      using rep_apply_async_ok [of E "group_for_queue E t q" "take_batch g t q cursor tk" s p s'] a x that
      by (auto split: sum.splits)
    show ?thesis
      unfolding take_done_def out db B(1,2)
      using len fetchedD(3,6,7,8) [OF tk] ys by (auto simp: cursor) blast
  qed
  ultimately show ?thesis using x by (auto simp: take_result_def split: sum.splits)
qed

lemma take_second_half:
  fixes s :: "'z deliver_node_scheme"
  assumes tk: "taken_ok g t q now invisible d0 (db s) left tk" and s: "stable g t q d0 (db s)"
    and left: "\<forall>off st. rec_at d0 g t q off = Some st \<longrightarrow> now < if_expire st \<longrightarrow> off \<in> left"
    and d0: "queue_ok d0 g t q" "log_wf d0 t q" and args: "take_args now invisible max_attempts l"
    and len: "int (length (tk_out tk)) \<le> max 0 max_msgs"
    and run: "sbind (slift (read_counter E (cursor_key g t q))) (\<lambda>cursor.
       sbind (fetch_phase E now g t q max_msgs invisible f l cursor tk) (\<lambda>tk.
         if \<not> tk_staged tk then sret None
         else sbind (rep_apply_async E (group_for_queue E t q) (take_batch g t q cursor tk)) (\<lambda>p.
           sret (Some (tk_out tk, p))))) s = (r, s')"
  shows "take_result g t q now max_msgs invisible f d0 (r, s')"
  using run
proof (cases rule: sbind_cases)
  case (fail e)
  then show ?thesis using take_result_err [OF s] by (simp add: slift_def)
next
  case (ok cursor s1)
  then have s1: "s1 = s" and c: "cursor = counter_of (db s) (cursor_key g t q)"
    using read_counter_is [of E "cursor_key g t q" s cursor] by (auto simp: slift_def)
  have cursor: "cursor = cursor_of d0 g t q" using s by (simp add: c stable_def cursor_of_def counter_of_def)
  from ok(2) [unfolded s1] show ?thesis
  proof (cases rule: sbind_cases)
    case (fail e)
    note F = fetch_phase_ok [OF tk s left d0 cursor args len fail(1)]
    show ?thesis using take_result_err [of g t q d0 s'] s fail(2) F(1) by simp
  next
    case (ok tk2 s2)
    note F = fetch_phase_ok [OF tk s left d0 cursor args len ok(1)]
    have s2: "stable g t q d0 (db s2)" using s F(1) by simp
    show ?thesis
    proof (cases "tk_staged tk2")
      case False
      then have "r = Inr None" "s' = s2" using ok(2) by (auto simp: sret_def)
      then show ?thesis
        using take_result_none [of g t q d0 s2] s2 taken_okD(1) [OF tk] left F(1) by simp
    next
      case True
      obtain ys where "fetched g t q now invisible f d0 (db s2) cursor ys tk2"
          "\<And>off v. stored d0 t q off = Some v \<Longrightarrow> cursor \<le> off \<Longrightarrow> off < ft_cursor tk2 \<Longrightarrow> (msg_key t q off, v) \<in> set ys"
          "int (length (tk_out tk2)) \<le> max 0 max_msgs"
        using F(2) [OF refl] F(1) by auto
      then show ?thesis using take_commit [OF _ s2 cursor] ok(2) True by simp
    qed
  qed
qed

lemma take_ok:
  fixes s :: "'z deliver_node_scheme"
  assumes ok: "kv_ok (db s)" "queue_ok (db s) g t q" "log_wf (db s) t q" and names: "name_ok g" "name_ok t" "t \<noteq> dlq_topic_name g"
    and args: "take_args now invisible max_attempts l"
    and run: "receive_once_locked E now rnd g t q max_msgs invisible max_attempts f l s = (r, s')"
  shows "take_result g t q now max_msgs invisible f (db s) (r, s')"
  using run
proof (cases rule: take_phases)
  case (scan e)
  then show ?thesis using take_result_err [OF stable_refl [OF ok(1,2)]] by simp
next
  case (work sc)
  let ?d0 = "db s"
  let ?t0 = "\<lparr>tk_batch = new_batch, tk_staged = False, tk_busy = sc_busy sc, tk_out = []\<rparr>"
  let ?t1 = "renew_loop now invisible g t q (sc_renews sc) ?t0"
  let ?left = "UNIV - fst ` set (sc_renews sc)"
  note S = scan_inflight_spec [OF work(1) ok(1) names(1,2) ok(2)]
  have "taken_ok g t q now invisible ?d0 ?d0 UNIV ?t0"
    using S(1) by (auto simp: taken_ok_def kv_simps record_batch_simps(1))
  then have t1: "taken_ok g t q now invisible ?d0 ?d0 ?left ?t1" "tk_out ?t1 = []"
    using renew_loop_ok [of g t q now invisible ?d0 UNIV ?t0 "sc_renews sc"] S(2,4) ok(2) args
    by (auto simp: queue_ok_def take_args_def)
  have reds: "distinct (map fst (sc_reds sc))" "fst ` set (sc_reds sc) \<subseteq> ?left" using S(4) by auto
  have red: "\<exists>st. rec_at ?d0 g t q off = Some st \<and> if_attempts st = a \<and> if_ordered st = ord \<and> if_expire st \<le> now"
    if "(off, a, ord) \<in> set (sc_reds sc)" for off a ord using S(3) that by blast
  note loop = redeliver_loop_ok [OF t1(1) reds red args stable_refl [OF ok(1,2)] names(2,3)]
  from work(2) show ?thesis
  proof (cases rule: sbind_cases)
    case (fail e)
    then show ?thesis using loop [OF _ fail(1)] take_result_err [of g t q ?d0 s'] by simp
  next
    case (ok tk s2)
    have s2: "stable g t q ?d0 (db s2)" and tk: "taken_ok g t q now invisible ?d0 (db s2) (?left - fst ` set (sc_reds sc)) tk"
        and len: "int (length (tk_out tk)) \<le> max 0 max_msgs"
      using loop [OF _ ok(1)] S(5) t1(2) by auto
    have "\<forall>off st. rec_at ?d0 g t q off = Some st \<longrightarrow> now < if_expire st \<longrightarrow> off \<in> ?left - fst ` set (sc_reds sc)"
      using S(2,3) by fastforce
    then show ?thesis by (rule take_second_half [OF tk s2 _ assms(2,3) args len ok(2)])
  qed
qed


section \<open>Every operation of a group on its queue\<close>

definition delivery_ok :: "kv \<Rightarrow> bytes \<Rightarrow> bytes \<Rightarrow> u32 \<Rightarrow> bool" where
  "delivery_ok m g t q \<longleftrightarrow> kv_ok m \<and> queue_ok m g t q \<and> log_wf m t q"

lemma delivery_ok_moves:
  "delivery_ok m g t q \<Longrightarrow> (kv_ok m \<Longrightarrow> kv_ok m') \<Longrightarrow> (queue_ok m g t q \<Longrightarrow> queue_ok m' g t q) \<Longrightarrow> same_msgs t q m m' \<Longrightarrow>
    delivery_ok m' g t q"
  by (simp add: delivery_ok_def log_wf_same)

lemma same_msgs_batch: "(\<And>x k. x \<in> set b \<Longrightarrow> op_hits x k \<Longrightarrow> off_log k) \<Longrightarrow> same_msgs t q m (apply_batch b m)"
  by (rule same_log_msgs [OF same_log_batch])

lemma same_msgs_record:
  "same_msgs t q m (kv_set (inflight_key g t' q' off) v m)" "same_msgs t q m (kv_del (inflight_key g t' q' off) m)"
  by (auto simp: same_msgs_def kv_simps msg_queue_prefix_eq inflight_key_def prefix_defs)

lemma receive_once_result:
  fixes s :: "'z deliver_node_scheme"
  assumes "delivery_ok (db s) g t q" "name_ok g" "name_ok t" "t \<noteq> dlq_topic_name g" "take_args now invisible max_attempts l"
    and "receive_once E now rnd g t q max_msgs invisible max_attempts f l s = (r, s')"
  shows "delivery_ok (db s') g t q" "r = Inr out \<Longrightarrow> take_done g t q now max_msgs invisible f (db s) (db s') out"
proof -
  obtain r1 s1 where r1: "receive_once_locked E now rnd g t q max_msgs invisible max_attempts f l s = (r1, s1)" by (metis surj_pair)
  have T: "take_result g t q now max_msgs invisible f (db s) (r1, s1)"
    using take_ok [OF _ _ _ assms(2-5) r1] assms(1) by (simp add: delivery_ok_def)
  have s1: "s' = s1" using assms(6) r1 by (auto simp: receive_once_def seq_defs split: sum.splits option.splits)
  show "delivery_ok (db s') g t q" using T assms(1) log_wf_same [of t q "db s" "db s1"] by (simp add: s1 take_result_def delivery_ok_def)
  show "take_done g t q now max_msgs invisible f (db s) (db s') out" if ok: "r = Inr out"
  proof (cases r1)
    case (Inr v)
    then show ?thesis
      using T ok assms(6) r1 unfolding s1
      by (cases v) (auto simp: receive_once_def seq_defs take_result_def take_done_def split: sum.splits)
  qed (use assms(6) r1 ok in \<open>simp add: receive_once_def seq_defs\<close>)
qed

lemma ack_batch_ok_step: "delivery_ok (db s) g t q \<Longrightarrow> ack_batch E g t q es s = (r, s') \<Longrightarrow> delivery_ok (db s') g t q"
  using ack_batch_db [of E g t q es s r s']
  by (auto elim!: delivery_ok_moves simp: queue_ok_deletes intro!: same_msgs_batch)

lemma change_invisible_step:
  assumes "delivery_ok (db s) g t q" "i64_range (now + milliseconds invisible)"
    and "change_invisible E now g t q off attempt invisible s = (r, s')"
  shows "delivery_ok (db s') g t q"
proof -
  have "recs_ok (db s) g t q" using assms(1) by (simp add: delivery_ok_def queue_ok_def)
  from change_invisible_db [OF this assms(2,3)] assms(1) show ?thesis
    by (auto elim!: delivery_ok_moves simp: queue_ok_update same_msgs_record)
qed

lemma forward_to_dlq_step:
  assumes "delivery_ok (db s) g t q" "name_ok t" "t \<noteq> dlq_topic_name g"
    and "forward_to_dlq E now rnd g t q off attempt s = (r, s')"
  shows "delivery_ok (db s') g t q"
  using assms(4)
proof (cases rule: forward_to_dlq_cases)
  case gone
  then show ?thesis using assms(1) by (auto elim!: delivery_ok_moves simp: queue_ok_del same_msgs_record)
next
  case (dlq m r1)
  then show ?thesis
    using assms(1) move_to_dlq_keeps [OF _ dlq] move_to_dlq_elsewhere [OF dlq assms(2,3)] move_to_dlq_spec [OF dlq]
    by (auto elim!: delivery_ok_moves simp: kv_moves_def)
qed (use assms(1) in simp)

lemma reset_cursor_step:
  assumes "delivery_ok (db s) g t q" "reset_cursor E g t q off s = (r, s')"
  shows "delivery_ok (db s') g t q"
proof -
  let ?b = "bdelete_prefix (inflight_prefix g t q) (bset (cursor_key g t q) (put_u64 off) new_batch)"
  obtain u where u: "prefix_upper_bound (inflight_prefix g t q) = Some u" using infq.bounded by blast
  have "same_msgs t q m (apply_batch ?b m)" for m
  proof (rule same_msgs_batch)
    fix x k
    assume "x \<in> set ?b" "op_hits x k"
    then have "k = cursor_key g t q \<or> prefix (inflight_prefix g t q) k"
      using prefix_upper_bound_exact [OF u, of k]
      by (auto simp: bdelete_prefix_def bdelete_range_def bset_def new_batch_def u)
    then show "off_log k" by (auto simp: off_log_def prefix_def inflight_prefix_eq cursor_key_def prefix_defs)
  qed
  then show ?thesis
    using assms by (auto simp: reset_cursor_def reset_queue_ok elim!: delivery_ok_moves dest!: rep_apply_db)
qed


text \<open>
  The operations of one group on one queue, in any order, at any time and with any outcome of the
  I/O; and everything else on the node, which leaves this group's records and cursor of the queue
  alone and keeps the queue's log what the producer makes it.
\<close>

inductive deliver_step ::
    "bytes \<Rightarrow> bytes \<Rightarrow> u32 \<Rightarrow> 'z deliver_node_scheme \<Rightarrow> 'z deliver_node_scheme \<Rightarrow> bool" for g t q where
  step_take: "receive_once E now rnd g t q max_msgs invisible max_attempts f l s = (r, s') \<Longrightarrow>
    take_args now invisible max_attempts l \<Longrightarrow> deliver_step g t q s s'"
| step_ack: "ack_batch E g t q es s = (r, s') \<Longrightarrow> deliver_step g t q s s'"
| step_invisible: "change_invisible E now g t q off attempt invisible s = (r, s') \<Longrightarrow>
    i64_range (now + milliseconds invisible) \<Longrightarrow> deliver_step g t q s s'"
| step_dlq: "forward_to_dlq E now rnd g t q off attempt s = (r, s') \<Longrightarrow> deliver_step g t q s s'"
| step_reset: "reset_cursor E g t q off s = (r, s') \<Longrightarrow> deliver_step g t q s s'"
| step_other: "same_queue g t q (db s) (db s') \<Longrightarrow> (kv_ok (db s) \<Longrightarrow> kv_ok (db s')) \<Longrightarrow>
    (log_wf (db s) t q \<Longrightarrow> log_wf (db s') t q) \<Longrightarrow> deliver_step g t q s s'"

inductive deliver_reach ::
    "bytes \<Rightarrow> bytes \<Rightarrow> u32 \<Rightarrow> 'z deliver_node_scheme \<Rightarrow> 'z deliver_node_scheme \<Rightarrow> bool" for g t q where
  reach_here: "deliver_reach g t q s s"
| reach_more: "deliver_reach g t q s s1 \<Longrightarrow> deliver_step g t q s1 s2 \<Longrightarrow> deliver_reach g t q s s2"

lemma deliver_step_keeps:
  assumes "deliver_step g t q s s'" "delivery_ok (db s) g t q" "name_ok g" "name_ok t" "t \<noteq> dlq_topic_name g"
  shows "delivery_ok (db s') g t q"
  using assms(1)
proof cases
  case (step_take E now rnd max_msgs invisible max_attempts f l r)
  then show ?thesis using receive_once_result(1) [OF assms(2-5)] by blast
next
  case (step_ack E es r)
  then show ?thesis using ack_batch_ok_step [OF assms(2)] by blast
next
  case (step_invisible E now off attempt invisible r)
  then show ?thesis using change_invisible_step [OF assms(2)] by blast
next
  case (step_dlq E now rnd off attempt r)
  then show ?thesis using forward_to_dlq_step [OF assms(2,4,5)] by blast
next
  case (step_reset E off r)
  then show ?thesis using reset_cursor_step [OF assms(2)] by blast
next
  case step_other
  then show ?thesis using assms(2) same_queue_ok [of g t q "db s" "db s'"] by (simp add: delivery_ok_def)
qed

lemma deliver_reach_keeps:
  "deliver_reach g t q s s' \<Longrightarrow> delivery_ok (db s) g t q \<Longrightarrow> name_ok g \<Longrightarrow> name_ok t \<Longrightarrow> t \<noteq> dlq_topic_name g \<Longrightarrow>
    delivery_ok (db s') g t q"
  by (induction rule: deliver_reach.induct) (use deliver_step_keeps in blast)+

text \<open>Appending is such a step of anything else, for a message that its encoding can carry.\<close>

lemma append_log_wf:
  assumes l: "log_append t' q' off [encode_message binary (placed now rnd x q' off)] idx m m'"
    and x: "message_ok (placed now rnd x q' off)" "binary \<Longrightarrow> meta_fits (placed now rnd x q' off)"
    and room: "off + 1 \<noteq> 0" and names: "name_ok t" "name_ok t'" and wf: "log_wf m t q"
  shows "log_wf m' t q"
  unfolding log_wf_def
proof (intro allI impI)
  fix k v
  assume k: "prefix (msg_queue_prefix t q) k" and v: "kv_get m' k = Some v"
  have dec: "decode_message (encode_message binary (placed now rnd x q' off)) = Inr (placed now rnd x q' off)"
    by (rule message_roundtrip [OF x])
  show "\<exists>x. decode_message v = Inr x \<and> k = msg_key t q (m_offset x) \<and> m_offset x + 1 \<noteq> 0"
  proof (cases "\<exists>n. k = msg_key t' q' n")
    case True
    then obtain n where n: "k = msg_key t' q' n" by blast
    obtain zs where "t' @ CHR ''/'' # put_u32 q' @ put_u64 n = t @ CHR ''/'' # put_u32 q @ zs"
      using k by (auto simp: n msg_key_prefix msg_queue_prefix_eq prefix_def)
    then have "t' = t \<and> put_u32 q' @ put_u64 n = put_u32 q @ zs"
      using names by (simp add: cut_byte_inj name_ok_def)
    then have same: "t' = t" "q' = q" by (simp_all add: put_u32_inj)
    have at: "stored m' t q n = Some v" using v by (simp add: stored_def n same)
    show ?thesis
    proof (cases "n = off")
      case True
      then have "v = encode_message binary (placed now rnd x q' off)"
        using l at names by (simp add: log_append_def same in_span_self)
      then show ?thesis using dec room by (simp add: n same True placed_def)
    next
      case False
      then have "\<not> in_span off (Suc 0) n" by (auto simp: in_span_def word_unat_eq_iff)
      then have "stored m t q n = Some v" using l at names by (simp add: log_append_def same)
      then show ?thesis using wf k by (simp add: log_wf_def stored_def n same)
    qed
  next
    case False
    then have "kv_get m k = Some v" using l v queue_prefix_on [OF k] by (simp add: log_append_def)
    then show ?thesis using wf k by (simp add: log_wf_def)
  qed
qed

lemma append_is_step:
  assumes run: "append_order E now rnd x s = (r, s')" and names: "name_ok t" and room: "room s 1"
    and x: "\<And>q off. message_ok (placed now rnd x q off) \<and> (binary_encoding s \<longrightarrow> meta_fits (placed now rnd x q off))"
    and kv: "kv_ok (db s) \<Longrightarrow> kv_ok (db s')"
  shows "deliver_step g t q s s'"
proof (rule step_other [OF _ kv])
  show "same_queue g t q (db s) (db s')"
    using append_order_moves [OF run] by (auto intro: same_aside_queue quiet_aside takes_aside)
  assume wf: "log_wf (db s) t q"
  have quiet: "log_wf (db s') t q" if "same_log (db s) (db s')"
    using wf log_wf_same [OF same_log_msgs [OF that]] by simp
  from append_order_spec [OF run] show "log_wf (db s') t q"
  proof (elim disjE exE conjE)
    fix q' p
    let ?off = "next_free s (m_topic x) q'"
    assume tk: "takes (m_topic x) q' [encode_message (binary_encoding s) (placed now rnd x q' ?off)]
        (index_keys (placed now rnd x q' ?off)) p s s'"
    have "unat ?off + 1 < 2 ^ 64" using room by (simp add: room_def)
    then have "unat (?off + 1) \<noteq> 0" by (simp add: unat_word_ariths)
    then have r: "?off + 1 \<noteq> 0" by (metis unat_0)
    from tk show ?thesis
      unfolding takes_def
      using append_log_wf [OF _ _ _ r names _ wf] x quiet by blast
  qed (use quiet in \<open>simp add: quiet_def\<close>)
qed


section \<open>An example queue\<close>

text \<open>An ordered delivery at offset 4 is in flight until 5000; the message at offset 5 is next.\<close>

definition hold_rec :: inflight where
  "hold_rec = inflight0\<lparr>if_expire := 5000, if_attempts := 1, if_ordered := True\<rparr>"

definition lane :: deliver_node where
  "lane = (shop_for ''web'')\<lparr>db := [(cursor_key ''web'' ''orders'' 1, put_u64 5),
     (inflight_key ''web'' ''orders'' 1 4, encode_inflight hold_rec),
     (msg_key ''orders'' 1 5, encode_message True shop_msg)]\<rparr>"

lemma hold_ok [simp]: "inflight_ok hold_rec"
  by (simp add: inflight_ok_def hold_rec_def inflight0_def i64_range_def)

lemma hold_decode [simp]: "decode_inflight (encode_inflight hold_rec) = Inr hold_rec"
  by (rule inflight_roundtrip) simp

lemma shop_offset [simp]: "m_offset shop_msg = 5"
  by (simp add: shop_msg_def)

lemma lane_ok: "delivery_ok (db lane) ''web'' ''orders'' 1"
proof -
  have rec: "rec_at (db lane) ''web'' ''orders'' 1 off = (if off = 4 then Some hold_rec else None)" for off
    by (auto simp: rec_at_def lane_def kv_get_def infq.key_eq)
  have "kv_ok (db lane)"
    by (simp add: lane_def kv_ok_def cursor_key_def inflight_key_def msg_key_def prefix_defs)
  moreover have "recs_ok (db lane) ''web'' ''orders'' 1"
    by (auto simp: recs_ok_def lane_def kv_get_def infq.key_eq)
  moreover have "cursor_of (db lane) ''web'' ''orders'' 1 = 5"
    by (simp add: cursor_of_def counter_of_def lane_def kv_get_def)
  moreover have "log_wf (db lane) ''orders'' 1"
    by (auto simp: log_wf_def lane_def kv_get_def shop_decode msg_queue_prefix_eq cursor_key_def inflight_key_def prefix_defs
        split: if_splits)
  ultimately show ?thesis by (auto simp: delivery_ok_def queue_ok_def one_ordered_def rec split: if_splits)
qed

lemma lane_names: "name_ok ''web''" "name_ok ''orders''" "''orders'' \<noteq> dlq_topic_name ''web''"
    "take_args 2000 30000000000 16 no_lease"
  by (simp_all add: name_ok_def dlq_topic_name_def dlq_prefix_def take_args_def i64_range_def milliseconds_def lease_enabled_def no_lease_def)

lemma lane_take:
  obtains s' where "receive_once standalone 2000 ''r'' ''web'' ''orders'' 1 10 30000000000 16 AllPass no_lease lane =
    (Inr [shop_msg\<lparr>m_attempt := 1\<rparr>], s')"
proof -
  let ?pfx = "inflight_prefix ''web'' ''orders'' 1"
  have r1: "kv_range ?pfx (prefix_upper_bound ?pfx) (db lane) = [(inflight_key ''web'' ''orders'' 1 4, encode_inflight hold_rec)]"
    by (simp add: kv_range_def in_range_prefix lane_def inflight_key_prefix) (simp add: inflight_prefix_eq cursor_key_def msg_key_def prefix_defs)
  have r2: "kv_range (msg_key ''orders'' 1 5) (prefix_upper_bound (msg_queue_prefix ''orders'' 1)) (db lane) =
      [(msg_key ''orders'' 1 5, encode_message True shop_msg)]"
    by (simp add: kv_range_def lane_def in_range_msg name_ok_def)
      (simp add: in_range_def cursor_key_def inflight_key_def msg_key_def prefix_defs)
  have cur: "kv_get (db lane) (cursor_key ''web'' ''orders'' 1) = Some (put_u64 5)" by (simp add: lane_def kv_get_def)
  have key: "parse_inflight_key (inflight_key ''web'' ''orders'' 1 4) = Inr (''web'', ''orders'', 1, 4)"
    by (rule parse_inflight_key_enc) (simp_all add: name_ok_def)
  have flags: "if_ordered hold_rec" "if_expire hold_rec = 5000" "m_offset shop_msg = 5" "m_group shop_msg = []"
    by (simp_all add: hold_rec_def shop_msg_def message0_def)
  have "fst (receive_once standalone 2000 ''r'' ''web'' ''orders'' 1 10 30000000000 16 AllPass no_lease lane) =
      Inr [shop_msg\<lparr>m_attempt := 1\<rparr>]"
    by (simp add: receive_once_def receive_once_locked_def seq_defs Let_def st_scan_def standalone_def r1 r2 scan_inflight_def
        key flags read_counter_def st_get_def cur fetch_phase_def fetch_new_def scan_budget_def shop_decode
        rep_apply_async_def taking.defs)
  then show ?thesis using that by (metis prod.collapse)
qed

section \<open>Properties\<close>

text \<open>C3: a consumer holds a message only under a durable lease of its own: a take hands out at most as
  many messages as were asked for, each at another offset of the queue; the message's delivery count
  is the one in the record now stored for it, which hides it for at least the invisible time; before
  the take that offset had no record, or one whose time was up and whose count was one less.  No
  record whose time is not up is touched, so a message that one consumer holds is not handed to
  another.\<close>

theorem take_leases_exclusively:
  fixes s :: "'z deliver_node_scheme"
  assumes "delivery_ok (db s) g t q" "name_ok g" "name_ok t" "t \<noteq> dlq_topic_name g" "take_args now invisible max_attempts l"
    and "receive_once E now rnd g t q max_msgs invisible max_attempts f l s = (Inr out, s')"
  shows "int (length out) \<le> max 0 max_msgs \<and>
    (\<exists>offs. distinct offs \<and> list_all2 (handed (db s) g t q now invisible (rec_at (db s') g t q)) offs out) \<and>
    (\<forall>off st. rec_at (db s) g t q off = Some st \<longrightarrow> now < if_expire st \<longrightarrow> rec_at (db s') g t q off = Some st)"
  using receive_once_result(2) [OF assms refl] by (simp add: take_done_def)

theorem take_leases_exclusively_witness:
  "\<exists>s'. receive_once standalone 2000 ''r'' ''web'' ''orders'' 1 10 30000000000 16 AllPass no_lease lane =
      (Inr [shop_msg\<lparr>m_attempt := 1\<rparr>], s') \<and>
    (\<exists>offs. distinct offs \<and> list_all2 (handed (db lane) ''web'' ''orders'' 1 2000 30000000000 (rec_at (db s') ''web'' ''orders'' 1)) offs
      [shop_msg\<lparr>m_attempt := 1\<rparr>])"
proof -
  obtain s' where r: "receive_once standalone 2000 ''r'' ''web'' ''orders'' 1 10 30000000000 16 AllPass no_lease lane =
    (Inr [shop_msg\<lparr>m_attempt := 1\<rparr>], s')" by (rule lane_take)
  show ?thesis using take_leases_exclusively [OF lane_ok lane_names r] r by blast
qed

text \<open>C4: a take skips no message: the group's cursor never moves back, and of every stored message that
  it passes there is now a record of its delivery, or the group's filter has refused it.\<close>

theorem take_skips_nothing:
  fixes s :: "'z deliver_node_scheme"
  assumes "delivery_ok (db s) g t q" "name_ok g" "name_ok t" "t \<noteq> dlq_topic_name g" "take_args now invisible max_attempts l"
    and "receive_once E now rnd g t q max_msgs invisible max_attempts f l s = (Inr out, s')"
  shows "cursor_of (db s) g t q \<le> cursor_of (db s') g t q \<and>
    (\<forall>off v x. stored (db s) t q off = Some v \<longrightarrow> decode_message v = Inr x \<longrightarrow>
       cursor_of (db s) g t q \<le> off \<longrightarrow> off < cursor_of (db s') g t q \<longrightarrow>
       rec_at (db s') g t q off \<noteq> None \<or> filter_match f x \<noteq> RTrue)"
  using receive_once_result(2) [OF assms refl] by (simp add: take_done_def dealt_def)

theorem take_skips_nothing_witness:
  "\<exists>s'. receive_once standalone 2000 ''r'' ''web'' ''orders'' 1 10 30000000000 16 AllPass no_lease lane =
      (Inr [shop_msg\<lparr>m_attempt := 1\<rparr>], s') \<and>
    cursor_of (db lane) ''web'' ''orders'' 1 \<le> cursor_of (db s') ''web'' ''orders'' 1"
proof -
  obtain s' where r: "receive_once standalone 2000 ''r'' ''web'' ''orders'' 1 10 30000000000 16 AllPass no_lease lane =
    (Inr [shop_msg\<lparr>m_attempt := 1\<rparr>], s')" by (rule lane_take)
  show ?thesis using take_skips_nothing [OF lane_ok lane_names r] r by blast
qed

text \<open>C5: whatever operations a group does on a queue, in any order and with any outcome of the I/O,
  among takes, acknowledgements, changes of the invisible time, dead-lettering and cursor resets,
  and whatever else happens on the node in between that leaves this group's records and cursor and
  the form of the queue's log alone: at most one record of the queue holds its
  order lock, every record decodes, and every record lies below the group's cursor, so that a
  message already in flight is never handed out as a new one.\<close>

theorem one_ordered_delivery:
  assumes "deliver_reach g t q s s'" "delivery_ok (db s) g t q" "name_ok g" "name_ok t" "t \<noteq> dlq_topic_name g"
  shows "one_ordered (rec_at (db s') g t q) \<and> recs_ok (db s') g t q \<and>
    (\<forall>off. rec_at (db s') g t q off \<noteq> None \<longrightarrow> off < cursor_of (db s') g t q)"
  using deliver_reach_keeps [OF assms] by (simp add: delivery_ok_def queue_ok_def)

theorem one_ordered_delivery_witness:
  "\<exists>s'. receive_once standalone 2000 ''r'' ''web'' ''orders'' 1 10 30000000000 16 AllPass no_lease lane =
      (Inr [shop_msg\<lparr>m_attempt := 1\<rparr>], s') \<and> one_ordered (rec_at (db s') ''web'' ''orders'' 1)"
proof -
  obtain s' where r: "receive_once standalone 2000 ''r'' ''web'' ''orders'' 1 10 30000000000 16 AllPass no_lease lane =
    (Inr [shop_msg\<lparr>m_attempt := 1\<rparr>], s')" by (rule lane_take)
  have "deliver_reach ''web'' ''orders'' 1 lane s'"
    using r lane_names(4) by (blast intro: reach_more reach_here step_take)
  from one_ordered_delivery [OF this lane_ok lane_names(1-3)] show ?thesis using r by blast
qed

text \<open>C6: while an ordered message of a queue is in flight, a take hands out no other ordered one: what
  it hands out are redeliveries of unordered messages and new messages without a group.\<close>

theorem order_lock_blocks:
  fixes s :: "'z deliver_node_scheme"
  assumes "delivery_ok (db s) g t q" "name_ok g" "name_ok t" "t \<noteq> dlq_topic_name g" "take_args now invisible max_attempts l"
    and "receive_once E now rnd g t q max_msgs invisible max_attempts f l s = (Inr out, s')"
    and "rec_at (db s) g t q a = Some held" "if_ordered held" "now < if_expire held"
  shows "\<exists>offs. list_all2 (\<lambda>off m. handed (db s) g t q now invisible (rec_at (db s') g t q) off m \<and>
    (case rec_at (db s) g t q off of None \<Rightarrow> m_group m = [] | Some st \<Rightarrow> \<not> if_ordered st)) offs out"
proof -
  have fin: "take_done g t q now max_msgs invisible f (db s) (db s') out" by (rule receive_once_result(2) [OF assms(1-6) refl])
  then obtain offs where offs: "list_all2 (handed (db s) g t q now invisible (rec_at (db s') g t q)) offs out"
    by (auto simp: take_done_def)
  have held: "rec_at (db s') g t q a = Some held" using fin assms(7,9) by (simp add: take_done_def)
  have one: "one_ordered (rec_at (db s') g t q)"
    using receive_once_result(1) [OF assms(1-6)] by (simp add: delivery_ok_def queue_ok_def)
  have "case rec_at (db s) g t q off of None \<Rightarrow> m_group m = [] | Some st \<Rightarrow> \<not> if_ordered st"
    if h: "handed (db s) g t q now invisible (rec_at (db s') g t q) off m" for off m
  proof -
    obtain st where st: "rec_at (db s') g t q off = Some st" using h by (auto simp: handed_def)
    have "off \<noteq> a" using h assms(7,9) by (auto simp: handed_def)
    then have "\<not> if_ordered st" using one st held assms(8) unfolding one_ordered_def by blast
    then show ?thesis using h st by (auto simp: handed_def split: option.splits)
  qed
  then have "list_all2 (\<lambda>off m. handed (db s) g t q now invisible (rec_at (db s') g t q) off m \<and>
    (case rec_at (db s) g t q off of None \<Rightarrow> m_group m = [] | Some st \<Rightarrow> \<not> if_ordered st)) offs out"
    using offs by (auto elim!: list.rel_mono_strong)
  then show ?thesis by blast
qed

theorem order_lock_blocks_witness:
  "\<exists>s'. receive_once standalone 2000 ''r'' ''web'' ''orders'' 1 10 30000000000 16 AllPass no_lease lane =
      (Inr [shop_msg\<lparr>m_attempt := 1\<rparr>], s') \<and>
    (\<exists>offs. list_all2 (\<lambda>off m. handed (db lane) ''web'' ''orders'' 1 2000 30000000000 (rec_at (db s') ''web'' ''orders'' 1) off m \<and>
      (case rec_at (db lane) ''web'' ''orders'' 1 off of None \<Rightarrow> m_group m = [] | Some st \<Rightarrow> \<not> if_ordered st)) offs
      [shop_msg\<lparr>m_attempt := 1\<rparr>])"
proof -
  obtain s' where r: "receive_once standalone 2000 ''r'' ''web'' ''orders'' 1 10 30000000000 16 AllPass no_lease lane =
    (Inr [shop_msg\<lparr>m_attempt := 1\<rparr>], s')" by (rule lane_take)
  have held: "rec_at (db lane) ''web'' ''orders'' 1 4 = Some hold_rec" by (simp add: rec_at_def lane_def kv_get_def)
  have flags: "if_ordered hold_rec" "2000 < if_expire hold_rec" by (simp_all add: hold_rec_def inflight0_def)
  show ?thesis using order_lock_blocks [OF lane_ok lane_names r held flags] r by blast
qed

end
