(* ===== verification/Delay.thy ===== *)
theory Delay
  imports Handover
begin

text \<open>
  \<^verbatim>\<open>internal/core/delay/delay.go\<close>: the scheduler that moves delayed messages from the staging
  area to their queues when they are due, and the recall of a delayed message.  A move and a recall
  are critical sections of \<open>moveMu\<close>; the scan that finds the due entries is not inside it.
\<close>

section \<open>Moving what is due\<close>

definition max_move_per_pass :: int where "max_move_per_pass = 512"

definition collect_due :: "(bytes \<times> bytes) list callback" where
  "collect_due dues k v = (Inr True, dues @ [(k, v)])"

definition scan_due :: "env \<Rightarrow> ms \<Rightarrow> 'z node_scheme \<Rightarrow> err + (bytes \<times> bytes) list" where
  "scan_due E now s =
     (case st_scan E s delay_prefix (Some (delay_scan_upper_bound now)) max_move_per_pass collect_due [] of
        (Inl e, _) \<Rightarrow> Inl e | (Inr _, dues) \<Rightarrow> Inr dues)"

text \<open>
  One entry: whether a message was moved and, independently, the error.  The entry is read again
  under the lock; an entry that does not decode is removed.
\<close>

definition move_one ::
    "env \<Rightarrow> ms \<Rightarrow> bytes \<Rightarrow> bytes \<Rightarrow> bytes \<Rightarrow> 'z prod_node_scheme \<Rightarrow> (bool \<times> err option) \<times> 'z prod_node_scheme" where
  "move_one E now rnd key raw s =
     (case st_get E s key of
        Inl e \<Rightarrow> ((False, Some e), s)
      | Inr None \<Rightarrow> ((False, None), s)
      | Inr (Some _) \<Rightarrow>
          (case decode_message raw of
             Inl _ \<Rightarrow>
               (case rep_apply E meta_group (bdelete key new_batch) s of
                  (Inl e, s1) \<Rightarrow> ((False, Some e), s1) | (Inr _, s1) \<Rightarrow> ((False, None), s1))
           | Inr m \<Rightarrow>
               (case enqueue E now rnd m raw s of
                  (Inl e, s1) \<Rightarrow> ((False, Some e), s1)
                | (Inr _, s1) \<Rightarrow>
                    (case rep_apply E meta_group (bdelete key new_batch) s1 of
                       (Inl e, s2) \<Rightarrow> ((True, Some e), s2) | (Inr _, s2) \<Rightarrow> ((True, None), s2)))))"

text \<open>A pass: the count of the messages moved, also when it stops with an error.  Every move reads
  the clock and the random source itself (\<open>ws\<close>).\<close>

fun move_loop ::
    "env \<Rightarrow> (nat \<Rightarrow> ms \<times> bytes) \<Rightarrow> (bytes \<times> bytes) list \<Rightarrow> int \<Rightarrow> 'z prod_node_scheme \<Rightarrow>
      (int \<times> err option) \<times> 'z prod_node_scheme" where
  "move_loop E ws [] moved s = ((moved, None), s)"
| "move_loop E ws ((key, raw) # dues) moved s =
     (case move_one E (fst (ws 0)) (snd (ws 0)) key raw s of
        ((ok, e), s1) \<Rightarrow>
          let moved = (if ok then moved + 1 else moved)
          in case e of
               Some e \<Rightarrow> ((moved, Some e), s1)
             | None \<Rightarrow> move_loop E (\<lambda>i. ws (i + 1)) dues moved s1)"

definition pass ::
    "env \<Rightarrow> ms \<Rightarrow> (nat \<Rightarrow> ms \<times> bytes) \<Rightarrow> 'z prod_node_scheme \<Rightarrow> (int \<times> err option) \<times> 'z prod_node_scheme" where
  "pass E now ws s =
     (if \<not> is_leader E meta_group then ((0, None), s)
      else case scan_due E now s of
        Inl e \<Rightarrow> ((0, Some e), s)
      | Inr dues \<Rightarrow> move_loop E ws dues 0 s)"

text \<open>
  The scheduler's loop over a schedule of turns: what the surroundings and the clock are in each,
  and whether the context is cancelled when the turn ends by waiting.  A full pass goes on at once.
\<close>

record delay_turn =
  dt_env :: env
  dt_now :: ms
  dt_moves :: "nat \<Rightarrow> ms \<times> bytes"
  dt_cancelled :: bool

fun run :: "delay_turn list \<Rightarrow> 'z prod_node_scheme \<Rightarrow> 'z prod_node_scheme" where
  "run [] s = s"
| "run (w # ws) s =
     (if \<not> is_leader (dt_env w) meta_group then (if dt_cancelled w then s else run ws s)
      else case pass (dt_env w) (dt_now w) (dt_moves w) s of
        ((moved, e), s1) \<Rightarrow>
          if e = None \<and> moved = max_move_per_pass then run ws s1
          else if dt_cancelled w then s1
          else run ws s1)"

section \<open>Recalling\<close>

definition recall ::
    "env \<Rightarrow> ms \<Rightarrow> bytes \<Rightarrow> ms \<Rightarrow> u64 \<Rightarrow> 'z node_scheme \<Rightarrow> (err + bytes) \<times> 'z node_scheme" where
  "recall E now topic due sq =
     (if \<not> is_leader E meta_group then sfail ErrNotLeader
      else if due \<le> now then sfail ErrRecallTooLate
      else sbind (slift (\<lambda>s. st_get E s (delay_key due sq))) (\<lambda>v.
        case v of
          None \<Rightarrow> sfail ErrRecallNotFound
        | Some v \<Rightarrow> sbind (slift (\<lambda>_. decode_message v)) (\<lambda>m.
            if m_topic m \<noteq> topic then sfail ErrRecallTopicMismatch
            else sbind (rep_apply E meta_group (bdelete (delay_key due sq) new_batch)) (\<lambda>_.
              sret (m_id m)))))"

section \<open>Collecting scans\<close>

lemma scan_collect:
  "scan_loop at_end limit n collect_due kvs acc = (Inr u, acc') \<Longrightarrow> 0 \<le> n \<Longrightarrow> n < limit \<Longrightarrow>
     acc' = acc @ take (nat (limit - n)) kvs"
proof (induction kvs arbitrary: n acc)
  case (Cons kv kvs)
  obtain k v where kv: "kv = (k, v)" by (cases kv)
  show ?case
  proof (cases "limit \<le> n + 1")
    case True
    then have "nat (limit - n) = 1" "0 < limit" using Cons.prems(2,3) by simp_all
    then show ?thesis using Cons.prems True by (auto simp: kv collect_due_def)
  next
    case False
    then have "acc' = (acc @ [kv]) @ take (nat (limit - (n + 1))) kvs"
      using Cons.prems by (intro Cons.IH) (simp_all add: kv collect_due_def)
    moreover have "nat (limit - n) = Suc (nat (limit - (n + 1)))" using False by simp
    ultimately show ?thesis by simp
  qed
qed simp

lemma scan_due_ok:
  "scan_due E now s = Inr dues \<Longrightarrow>
     dues = take 512 (kv_range delay_prefix (Some (delay_scan_upper_bound now)) (db s))"
  using scan_collect [of _ 512 0 _ "[]" "()" dues]
  by (auto simp: scan_due_def st_scan_def max_move_per_pass_def split: prod.splits sum.splits if_splits)


section \<open>One move\<close>

text \<open>The outcome of a move, by cases.\<close>

lemma move_one_cases:
  assumes "move_one E now rnd key raw s = ((ok, e), s')"
  obtains (gone) "s' = s" "\<not> ok" "e = None \<longleftrightarrow> kv_get (db s) key = None \<and> \<not> rd_fail E key"
      "e \<noteq> None \<longrightarrow> rd_fail E key"
    | (bad) x r where "kv_get (db s) key \<noteq> None" "decode_message raw = Inl x" "\<not> ok"
        "rep_apply E meta_group (bdelete key new_batch) s = (r, s')" "e = None \<longleftrightarrow> is_ok r"
    | (failed) m x where "kv_get (db s) key \<noteq> None" "decode_message raw = Inr m" "\<not> ok" "e = Some x"
        "enqueue E now rnd m raw s = (Inl x, s')"
    | (moved) m v s1 r where "kv_get (db s) key \<noteq> None" "decode_message raw = Inr m" "ok"
        "enqueue E now rnd m raw s = (Inr v, s1)"
        "rep_apply E meta_group (bdelete key new_batch) s1 = (r, s')" "e = None \<longleftrightarrow> is_ok r"
  using assms unfolding move_one_def
  by (auto simp: st_get_def split: sum.splits option.splits prod.splits if_splits)

text \<open>The two phases of a move as a handover.\<close>

lemma drop_delay_log:
  assumes "off_log key"
  shows "moves log_kept (rep_apply E g (bdelete key new_batch))"
  by (rule log_kept_apply) (use assms in \<open>auto simp: bdelete_def new_batch_def\<close>)

lemma move_one_phases:
  assumes "move_one E now rnd key raw s = ((ok, e), s')" "kv_get (db s) key \<noteq> None" "decode_message raw = Inr m"
    "\<not> rd_fail E key"
  obtains r where "sbind (enqueue E now rnd m raw) (\<lambda>_. rep_apply E meta_group (bdelete key new_batch)) s = (r, s')"
      "e = None \<longleftrightarrow> is_ok r" "is_ok r \<longrightarrow> ok" "ok \<longleftrightarrow> is_ok (fst (enqueue E now rnd m raw s))"
  using assms(1)
proof (cases rule: move_one_cases)
  case gone
  then show ?thesis using assms(2,4) by simp
qed (use that assms(3) in \<open>auto simp: sbind_def split: prod.splits sum.splits\<close>)

lemma move_one_spec:
  assumes "move_one E now rnd key raw s = ((ok, e), s')" "aside key"
  shows "(e = None \<longrightarrow> kv_get (db s') key = None) \<and> (kv_ok (db s) \<longrightarrow> kv_ok (db s')) \<and>
    (\<forall>k. aside k \<longrightarrow> k \<noteq> key \<longrightarrow> kv_get (db s') k = kv_get (db s) k) \<and>
    (kv_get (db s) key = None \<longrightarrow> s' = s \<and> \<not> ok) \<and>
    (ok \<or> kv_get (db s') key \<noteq> kv_get (db s) key \<longrightarrow>
       (\<exists>m. decode_message raw = Inr m \<and> enqueued E now rnd m raw s s') \<or> (\<not> ok \<and> \<not> is_ok (decode_message raw)))"
  using assms(1)
proof (cases rule: move_one_cases)
  case gone
  then show ?thesis by auto
next
  case (bad x r)
  then show ?thesis
    using rep_apply_db [of E meta_group "bdelete key new_batch" s r s'] rep_apply_ok [of E meta_group "bdelete key new_batch" s "()" s']
    by (cases r) (auto simp: kv_simps)
next
  case (failed m x)
  then show ?thesis
    using enqueue_spec [OF failed(5)] assms(2) by (auto simp: kv_moves_def same_asideD)
next
  case (moved m v s1 r)
  have w: "same_aside (db s) (db s1)" "kv_moves s s1"
    using enqueue_spec [OF moved(4)] by simp_all
  have "enqueued E now rnd m raw s s'"
    using enq.phases [of E now rnd m raw "\<lambda>_. rep_apply E meta_group (bdelete key new_batch)" s r s']
      drop_delay_log [of key E meta_group] assms(2) moved(4,5) by (auto simp: sbind_def aside_def)
  then show ?thesis
    using moved w assms(2) rep_apply_db [OF moved(5)] rep_apply_ok [of E meta_group "bdelete key new_batch" s1 "()" s']
    by (cases r) (auto simp: kv_simps kv_moves_def same_asideD)
qed

section \<open>What a pass does\<close>

lemma delay_prefix_aside: "prefix delay_prefix k \<Longrightarrow> aside k"
  by (auto simp: prefix_def aside_def off_log_def prefix_defs)

lemma due_entry:
  assumes "(k, v) \<in> set (kv_range delay_prefix (Some (delay_scan_upper_bound now)) m)"
  shows "prefix delay_prefix k \<and> k < delay_scan_upper_bound now \<and> (k, v) \<in> set m"
proof -
  have k: "delay_prefix \<le> k" "k < delay_scan_upper_bound now" "(k, v) \<in> set m"
    using assms by (auto simp: kv_range_def in_range_def)
  then show ?thesis
    using below_bound_prefix [of delay_prefix k] by (auto simp: delay_scan_upper_bound_def delay_key_def)
qed

lemma move_one_moves:
  assumes "move_one E now rnd key raw s = ((ok, None), s')" "kv_get (db s) key \<noteq> None"
  shows "ok \<longleftrightarrow> is_ok (decode_message raw)"
  using assms(1)
proof (cases rule: move_one_cases)
  case gone
  then show ?thesis using assms(2) by simp
qed auto

lemma move_loop_spec:
  assumes "move_loop E ws dues c s = ((n, None), s')" "\<forall>(k, v) \<in> set dues. aside k \<and> kv_get (db s) k = Some v"
    "distinct (map fst dues)"
  shows "n = c + int (length (filter (\<lambda>(k, v). is_ok (decode_message v)) dues)) \<and>
    (\<forall>k \<in> fst ` set dues. kv_get (db s') k = None) \<and>
    (\<forall>k. aside k \<longrightarrow> k \<notin> fst ` set dues \<longrightarrow> kv_get (db s') k = kv_get (db s) k)"
  using assms
proof (induction E ws dues c s rule: move_loop.induct)
  case (2 E ws key raw dues c s)
  obtain ok e s1 where m: "move_one E (fst (ws 0)) (snd (ws 0)) key raw s = ((ok, e), s1)" by (metis surj_pair)
  have e: "e = None" using "2.prems"(1) m by (cases e) (simp_all add: Let_def)
  have a: "aside key" "kv_get (db s) key = Some raw" using "2.prems"(2) by auto
  note sp = move_one_spec [OF m a(1)]
  have ok: "ok \<longleftrightarrow> is_ok (decode_message raw)" using move_one_moves [OF m [unfolded e]] a(2) by simp
  have loop: "move_loop E (\<lambda>i. ws (i + 1)) dues (if ok then c + 1 else c) s1 = ((n, None), s')"
    using "2.prems"(1) m e by (simp add: Let_def)
  have here: "\<forall>(k, v) \<in> set dues. aside k \<and> kv_get (db s1) k = Some v"
  proof clarify
    fix k v
    assume kv: "(k, v) \<in> set dues"
    then have "k \<noteq> key" using "2.prems"(3) by force
    then show "aside k \<and> kv_get (db s1) k = Some v" using kv "2.prems"(2) sp by auto
  qed
  have "n = (if ok then c + 1 else c) + int (length (filter (\<lambda>(k, v). is_ok (decode_message v)) dues)) \<and>
    (\<forall>k \<in> fst ` set dues. kv_get (db s') k = None) \<and>
    (\<forall>k. aside k \<longrightarrow> k \<notin> fst ` set dues \<longrightarrow> kv_get (db s') k = kv_get (db s1) k)"
    using "2.IH" [OF m [symmetric] refl refl e] loop here "2.prems"(3) by simp
  moreover have "key \<notin> fst ` set dues" using "2.prems"(3) by simp
  ultimately show ?case using sp e ok a(1) by auto
qed simp

section \<open>Deleting from the staging area\<close>

text \<open>The sequence counter never runs backwards, and an entry that is gone does not come back.\<close>

definition delay_moves :: "'z prod_node_scheme \<Rightarrow> 'z prod_node_scheme \<Rightarrow> bool" where
  "delay_moves s s' \<longleftrightarrow> (delays_ok s \<longrightarrow> delays_ok s' \<and> delay_counter (db s) \<le> delay_counter (db s') \<and>
     (\<forall>due n. i64_range due \<longrightarrow> n < delay_counter (db s) \<longrightarrow> staged (db s) due n = None \<longrightarrow>
        staged (db s') due n = None))"

definition delay_kept :: "'z prod_node_scheme \<Rightarrow> 'z prod_node_scheme \<Rightarrow> bool" where
  "delay_kept s s' \<longleftrightarrow> same_aside (db s) (db s') \<and> delay_next s' = delay_next s \<and> delay_loaded s' = delay_loaded s"

lemma delay_kept_moves: "delay_kept s s' \<Longrightarrow> delay_moves s s'"
  using same_aside_delays_ok [of s s'] unfolding delay_kept_def delay_moves_def by (elim conjE) (simp add: same_aside_delay)

lemma delay_kept_rel: "reflp delay_kept" "transp delay_kept"
  by (auto simp: delay_kept_def reflp_def transp_def intro: same_aside_trans)

lemma quiet_delay_kept: "quiet s s' \<Longrightarrow> delay_kept s s'"
  by (simp add: quiet_def delay_kept_def)

lemma takes_delay_kept: "takes t q raws idx p s s' \<Longrightarrow> delay_kept s s'"
  using takes_aside [of t q raws idx p s s'] unfolding delay_kept_def takes_def by blast

lemma append_msg_delay_kept: "append_msg E now rnd m s = (r, s') \<Longrightarrow> delay_kept s s'"
  unfolding append_msg_def split_def
  by (erule sbind_cases)
    (blast dest: append_order_moves movesD [OF quiet_finish] intro: takes_delay_kept quiet_delay_kept
      transpD [OF delay_kept_rel(2)])+

lemma enqueue_delay_kept:
  assumes "enqueue E now rnd m raw s = (r, s')"
  shows "delay_kept s s'"
proof (cases "is_leader E (group_for_queue E (m_topic m) (m_queue_id m))")
  case True
  then show ?thesis using assms append_msg_delay_kept by (simp add: enqueue_def)
next
  case False
  then obtain r1 where "forward_append E (group_for_queue E (m_topic m) (m_queue_id m)) raw s = (r1, s')"
    using assms by (auto simp: enqueue_def Let_def seq_defs split: prod.splits sum.splits)
  from forward_append_spec [OF this] show ?thesis by (auto simp: delay_kept_def)
qed

text \<open>Removing entries other than the counter.\<close>

lemma drop_delay_moves:
  assumes "rep_apply E g (bdelete key new_batch) s = (r, s')" "prefix delay_prefix key"
  shows "delay_moves s s'"
proof -
  have key: "key \<noteq> delay_alloc_key" using assms(2) by (auto simp: delay_alloc_key_def delay_prefix_def)
  have "delay_moves s (set_db (kv_del key (db s)) s)"
  proof -
    have "delay_counter (kv_del key (db s)) = delay_counter (db s)"
      using key by (simp add: delay_counter_def counter_of_def kv_simps)
    moreover have "staged (kv_del key (db s)) d n = (if delay_key d n = key then None else staged (db s) d n)" for d n
      by (simp add: staged_def kv_simps)
    ultimately show ?thesis
      by (simp add: delay_moves_def delays_ok_def next_seq_def set_db_def)
  qed
  moreover have "delay_moves s s" by (simp add: delay_moves_def)
  ultimately show ?thesis using rep_apply_db [OF assms(1)] by (auto simp: kv_simps)
qed

lemma delay_moves_trans: "delay_moves a b \<Longrightarrow> delay_moves b c \<Longrightarrow> delay_moves a c"
  unfolding delay_moves_def by (meson order_less_le_trans order_trans)

lemma move_one_delay_moves:
  assumes "move_one E now rnd key raw s = ((ok, e), s')" "prefix delay_prefix key"
  shows "delay_moves s s'"
  using assms(1)
proof (cases rule: move_one_cases)
  case gone
  then show ?thesis by (simp add: delay_moves_def)
next
  case (bad x r)
  then show ?thesis using drop_delay_moves [OF _ assms(2)] by blast
next
  case (failed m x)
  then show ?thesis using enqueue_delay_kept delay_kept_moves by blast
next
  case (moved m v s1 r)
  then show ?thesis
    using enqueue_delay_kept [OF moved(4)] delay_kept_moves drop_delay_moves [OF moved(5) assms(2)] delay_moves_trans
    by blast
qed

lemma order_delay_moves:
  assumes "append_delay_order E now rnd m s = (r, s')" "i64_range (m_deliver_at m)" "unat (next_seq s) + 1 < 2 ^ 64"
  shows "delay_moves s s'"
  unfolding delay_moves_def
proof (intro impI conjI allI)
  assume ok: "delays_ok s"
  then show "delays_ok s'" using delay_order_keeps [OF assms(1) ok assms(2,3)] by simp
  have le: "delay_counter (db s) \<le> next_seq s" using ok by (simp add: delays_ok_def)
  have up: "next_seq s < next_seq s + 1" using unat_succ [OF assms(3)] by (simp add: word_less_nat_alt)
  have "db s' = db s \<or> (\<exists>v. db s' = kv_set delay_alloc_key (put_u64 (next_seq s + 1))
      (kv_set (delay_key (m_deliver_at m) (next_seq s)) v (db s)))"
    using append_delay_order_spec [OF assms(1)] by blast
  then consider "db s' = db s" | v where "db s' = kv_set delay_alloc_key (put_u64 (next_seq s + 1))
      (kv_set (delay_key (m_deliver_at m) (next_seq s)) v (db s))" by blast
  then have grow: "delay_counter (db s) \<le> delay_counter (db s') \<and> (\<forall>due n. i64_range due \<longrightarrow> n < delay_counter (db s) \<longrightarrow>
      staged (db s) due n = None \<longrightarrow> staged (db s') due n = None)"
  proof cases
    case 2
    have "delay_counter (db s') = next_seq s + 1" by (simp add: 2 delay_counter_def counter_of_def kv_simps)
    moreover have "staged (db s') due n = staged (db s) due n" if "i64_range due" "n < delay_counter (db s)" for due n
      using that assms(2) le by (auto simp: 2 staged_def kv_simps delay_key_eq)
    ultimately show ?thesis using le up by auto
  qed simp
  then show "delay_counter (db s) \<le> delay_counter (db s')" by simp
  fix due n
  assume "i64_range due" "n < delay_counter (db s)" "staged (db s) due n = None"
  then show "staged (db s') due n = None" using grow by blast
qed

lemma forget_delay_moves: "db s' = db s \<Longrightarrow> \<not> delay_loaded s' \<Longrightarrow> delay_moves s s'"
  by (simp add: delay_moves_def delays_ok_def next_seq_def)

lemma step_delay_moves: "prod_step s s' \<Longrightarrow> delay_moves s s'"
proof (induction rule: prod_step.induct)
  case (step_create E now name n s r s')
  then show ?case using movesD [OF quiet_create_topic] by (blast intro: delay_kept_moves quiet_delay_kept)
next
  case (step_ensure E now name s r s')
  then show ?case using movesD [OF quiet_ensure_topic] by (blast intro: delay_kept_moves quiet_delay_kept)
next
  case (step_order E now rnd m s r s')
  then show ?case
    using append_order_moves [OF step_order(1)] by (blast intro: delay_kept_moves quiet_delay_kept takes_delay_kept)
next
  case (step_batch E now rnds ms s r s')
  then show ?case
    using batch_order_moves [OF step_batch] by (blast intro: delay_kept_moves quiet_delay_kept takes_delay_kept)
next
  case (step_delay E now rnd m s r s')
  then show ?case by (rule order_delay_moves)
next
  case (step_finish t p s r s')
  show ?case by (rule delay_kept_moves [OF quiet_delay_kept [OF movesD [OF quiet_finish step_finish]]])
next
  case (step_subscribe t s ch s')
  then show ?case by (blast intro: delay_kept_moves quiet_delay_kept quiet_subscribe)
next
  case (step_invalidate s)
  show ?case by (rule forget_delay_moves) (simp_all add: invalidate_counters_def)
next
  case (step_restart s)
  show ?case by (rule forget_delay_moves) (simp_all add: new_producer_def)
qed

section \<open>Moves and recalls, interleaved\<close>

text \<open>
  The node with the scheduler's view of it: the clock, the entries of the last scan that are still
  to be moved, and two histories, the keys whose move got past the second reading and tried to
  enqueue, and the keys whose recall reported success.
\<close>

record 'n delay_sys =
  clk :: ms
  nd :: 'n
  scanned :: "(bytes \<times> bytes) list"
  tried :: "bytes list"
  recalled :: "bytes list"

text \<open>The clock does not run backwards in these steps; any other critical section may come between.\<close>

inductive delay_step :: "'z prod_node_scheme delay_sys \<Rightarrow> 'z prod_node_scheme delay_sys \<Rightarrow> bool" where
  ds_tick: "clk y \<le> t \<Longrightarrow> t < 2 ^ 63 - 1 \<Longrightarrow> delay_step y (y\<lparr>clk := t\<rparr>)"
| ds_prod: "prod_step (nd y) s' \<Longrightarrow> delay_step y (y\<lparr>nd := s'\<rparr>)"
| ds_scan: "scan_due E (clk y) (nd y) = Inr dues \<Longrightarrow> delay_step y (y\<lparr>scanned := dues\<rparr>)"
| ds_move: "scanned y = (key, raw) # rest \<Longrightarrow> move_one E (clk y) rnd key raw (nd y) = ((ok, e), s') \<Longrightarrow>
    delay_step y (y\<lparr>nd := s', scanned := (if e = None then rest else []),
      tried := (if st_get E (nd y) key \<in> {Inl (ErrGet key), Inr None} then tried y else key # tried y)\<rparr>)"
| ds_recall: "recall E (clk y) topic due sq (nd y) = (r, s') \<Longrightarrow> i64_range due \<Longrightarrow>
    delay_step y (y\<lparr>nd := s', recalled := (if is_ok r then delay_key due sq # recalled y else recalled y)\<rparr>)"

inductive delay_reach :: "'z prod_node_scheme delay_sys \<Rightarrow> 'z prod_node_scheme delay_sys \<Rightarrow> bool" where
  delay_refl: "delay_reach y y"
| delay_more: "delay_reach x y \<Longrightarrow> delay_step y z \<Longrightarrow> delay_reach x z"

definition recall_ok :: "'z prod_node_scheme delay_sys \<Rightarrow> bool" where
  "recall_ok y \<longleftrightarrow> delays_ok (nd y) \<and> 0 \<le> clk y \<and> clk y < 2 ^ 63 - 1 \<and>
     (\<forall>k \<in> fst ` set (scanned y). prefix delay_prefix k \<and> k < delay_scan_upper_bound (clk y)) \<and>
     (\<forall>k \<in> set (tried y). k < delay_scan_upper_bound (clk y)) \<and>
     (\<forall>k \<in> set (recalled y). \<exists>due sq. k = delay_key due sq \<and> i64_range due \<and>
        sq < delay_counter (db (nd y)) \<and> staged (db (nd y)) due sq = None) \<and>
     set (recalled y) \<inter> set (tried y) = {}"

lemma bound_mono: "0 \<le> a \<Longrightarrow> a \<le> b \<Longrightarrow> b < 2 ^ 63 - 1 \<Longrightarrow> delay_scan_upper_bound a \<le> delay_scan_upper_bound b"
  using delay_key_less [of "a + 1" "b + 1" 0 0]
  by (cases "a = b") (auto simp: delay_scan_upper_bound_def i64_succ_eq i64_range_def)

text \<open>What a recall does when it reports success, and otherwise.\<close>

lemma recall_spec:
  assumes "recall E now topic due sq s = (r, s')"
  shows "s' = s \<and> \<not> is_ok r \<or>
    (now < due \<and> (\<exists>v m. staged (db s) due sq = Some v \<and> decode_message v = Inr m \<and> m_topic m = topic \<and>
       (is_ok r \<longrightarrow> r = Inr (m_id m))) \<and>
     (\<exists>r1. rep_apply E meta_group (bdelete (delay_key due sq) new_batch) s = (r1, s') \<and> is_ok r1 = is_ok r))"
  using assms
  by (auto simp: recall_def seq_defs st_get_def staged_def split: if_splits sum.splits option.splits prod.splits)

text \<open>A key that recall accepts at this clock is not one a move of what was due can have tried.\<close>

lemma due_later:
  "0 \<le> now \<Longrightarrow> now < due \<Longrightarrow> i64_range due \<Longrightarrow> now < 2 ^ 63 - 1 \<Longrightarrow> \<not> delay_key due sq < delay_scan_upper_bound now"
  using delay_scan_exact [of due now sq] by (simp add: i64_range_def delay_key_def)

lemma recalled_stays:
  assumes "delay_moves (nd y) s'" "delays_ok (nd y)"
    "k = delay_key due sq" "i64_range due" "sq < delay_counter (db (nd y))" "staged (db (nd y)) due sq = None"
  shows "\<exists>due sq. k = delay_key due sq \<and> i64_range due \<and> sq < delay_counter (db s') \<and> staged (db s') due sq = None"
proof -
  have "sq < delay_counter (db s')" "staged (db s') due sq = None"
    using assms unfolding delay_moves_def by (blast intro: order_less_le_trans)+
  then show ?thesis using assms(3,4) by blast
qed

lemma recall_ok_node:
  assumes "recall_ok y" "delay_moves (nd y) s'"
  shows "recall_ok (y\<lparr>nd := s'\<rparr>)"
proof -
  have "delays_ok s'" using assms by (simp add: recall_ok_def delay_moves_def)
  moreover have "\<exists>due sq. k = delay_key due sq \<and> i64_range due \<and> sq < delay_counter (db s') \<and> staged (db s') due sq = None"
    if "k \<in> set (recalled y)" for k
    using recalled_stays [OF assms(2)] assms(1) that unfolding recall_ok_def by blast
  ultimately show ?thesis using assms(1) by (simp add: recall_ok_def)
qed

lemma step_recall_ok: "delay_step y z \<Longrightarrow> recall_ok y \<Longrightarrow> recall_ok z"
proof (induction rule: delay_step.induct)
  case (ds_tick y t)
  have "delay_scan_upper_bound (clk y) \<le> delay_scan_upper_bound t"
    using ds_tick by (intro bound_mono) (simp_all add: recall_ok_def)
  then show ?case using ds_tick by (fastforce simp: recall_ok_def)
next
  case (ds_prod y s')
  then show ?case using recall_ok_node step_delay_moves by blast
next
  case (ds_scan E y dues)
  have "prefix delay_prefix k \<and> k < delay_scan_upper_bound (clk y)" if "k \<in> fst ` set dues" for k
    using scan_due_ok [OF ds_scan(1)] that due_entry by (fastforce dest: in_set_takeD)
  then show ?case using ds_scan(2) by (simp add: recall_ok_def)
next
  case (ds_move y key raw rest E rnd ok e s')
  have key: "prefix delay_prefix key" "key < delay_scan_upper_bound (clk y)"
    using ds_move(1,3) by (auto simp: recall_ok_def)
  have dm: "delay_moves (nd y) s'" by (rule move_one_delay_moves [OF ds_move(2) key(1)])
  have n: "recall_ok (y\<lparr>nd := s'\<rparr>)" by (rule recall_ok_node [OF ds_move(3) dm])
  have "st_get E (nd y) key \<in> {Inl (ErrGet key), Inr None}" if "key \<in> set (recalled y)"
    using ds_move(3) that by (auto simp: recall_ok_def st_get_def staged_def)
  then show ?case using n key ds_move(1) by (auto simp: recall_ok_def)
next
  case (ds_recall E y topic due sq r s')
  show ?case
  proof (cases "s' = nd y \<and> \<not> is_ok r")
    case True
    then show ?thesis using ds_recall(3) by simp
  next
    case False
    then obtain r1 where r1: "rep_apply E meta_group (bdelete (delay_key due sq) new_batch) (nd y) = (r1, s')"
        "is_ok r1 = is_ok r" and due: "clk y < due" and st: "staged (db (nd y)) due sq \<noteq> None"
      using recall_spec [OF ds_recall(1)] by auto
    have dm: "delay_moves (nd y) s'" by (rule drop_delay_moves [OF r1(1)]) (simp add: delay_key_def)
    have n: "recall_ok (y\<lparr>nd := s'\<rparr>)" by (rule recall_ok_node [OF ds_recall(3) dm])
    have "sq < delay_counter (db (nd y))" using ds_recall(2,3) st by (simp add: recall_ok_def delays_ok_def)
    moreover have "delay_counter (db (nd y)) \<le> delay_counter (db s')"
      using dm ds_recall(3) by (simp add: delay_moves_def recall_ok_def)
    ultimately have sq: "sq < delay_counter (db s')" by (rule order_less_le_trans)
    have "staged (db s') due sq = None" if "is_ok r"
      using rep_apply_ok_db [OF r1(1)] that r1(2) by (simp add: staged_def kv_simps)
    moreover have "delay_key due sq \<notin> set (tried y)"
      using due_later [of "clk y" due sq] due ds_recall(2,3) by (auto simp: recall_ok_def)
    ultimately show ?thesis using n sq ds_recall(2) by (auto simp: recall_ok_def)
  qed
qed

lemma reach_recall_ok: "delay_reach x y \<Longrightarrow> recall_ok x \<Longrightarrow> recall_ok y"
  by (induction rule: delay_reach.induct) (auto intro: step_recall_ok)

section \<open>A head that cannot be moved\<close>

text \<open>A node without faults that leads every group.\<close>

definition serves :: "env \<Rightarrow> bool" where
  "serves E \<longleftrightarrow> (\<forall>k. \<not> rd_fail E k \<and> \<not> it_open_fail E k \<and> \<not> it_end_fail E k) \<and> (\<forall>g. is_leader E g)"

lemma scan_collects:
  "0 \<le> n \<Longrightarrow> n < limit \<Longrightarrow> scan_loop (Inr ()) limit n collect_due kvs acc = (Inr (), acc @ take (nat (limit - n)) kvs)"
proof (induction kvs arbitrary: n acc)
  case (Cons kv kvs)
  obtain k v where kv: "kv = (k, v)" by (cases kv)
  have "nat (limit - n) = Suc (nat (limit - (n + 1)))" using Cons.prems by simp
  then show ?case using Cons by (auto simp: kv collect_due_def)
qed simp

lemma scan_due_serves:
  "serves E \<Longrightarrow> scan_due E now s = Inr (take 512 (kv_range delay_prefix (Some (delay_scan_upper_bound now)) (db s)))"
  using scan_collects [of 0 512] by (simp add: scan_due_def st_scan_def serves_def max_move_per_pass_def)

lemma topicless_append:
  assumes "\<not> bad_body m" "name_valid (m_topic m)" "get_topic s (m_topic m) = None" "\<not> auto_create s"
  shows "append_msg E now rnd m s = (Inl (ErrTopicNotFound (m_topic m)), s)"
  using assms by (simp add: append_msg_def append_order_def ensure_topic_def validate_name_def sbind_def)

lemma topicless_move:
  assumes "serves E" "kv_get (db s) key = Some v" "decode_message raw = Inr m" "\<not> bad_body m"
    "name_valid (m_topic m)" "get_topic s (m_topic m) = None" "\<not> auto_create s"
  shows "move_one E now rnd key raw s = ((False, Some (ErrTopicNotFound (m_topic m))), s)"
  using assms topicless_append [OF assms(4-7), of E now rnd]
  by (simp add: move_one_def st_get_def serves_def enqueue_def)

lemma topicless_pass:
  assumes "serves E" "kv_ok (db s)" "filter (\<lambda>(k, _). delay_prefix \<le> k) (db s) = (key, raw) # rest"
    "key < delay_scan_upper_bound now" "decode_message raw = Inr m" "\<not> bad_body m"
    "name_valid (m_topic m)" "get_topic s (m_topic m) = None" "\<not> auto_create s"
  shows "pass E now ws s = ((0, Some (ErrTopicNotFound (m_topic m))), s)"
proof -
  have "(key, raw) \<in> set (filter (\<lambda>(k, _). delay_prefix \<le> k) (db s))" by (simp only: assms(3) list.set_intros)
  then have here: "kv_get (db s) key = Some raw" using assms(2) by (simp add: kv_mem)
  have "kv_range delay_prefix (Some (delay_scan_upper_bound now)) (db s) =
      filter (\<lambda>(k, _). k < delay_scan_upper_bound now) (filter (\<lambda>(k, _). delay_prefix \<le> k) (db s))"
    by (simp add: kv_range_def in_range_def) (metis (mono_tags, lifting) case_prod_unfold)
  then obtain rest' where "kv_range delay_prefix (Some (delay_scan_upper_bound now)) (db s) = (key, raw) # rest'"
    using assms(3,4) by simp
  then have dues: "scan_due E now s = Inr ((key, raw) # take (512 - 1) rest')"
    by (simp only: scan_due_serves [OF assms(1)] take_Cons') simp
  show ?thesis
    using assms(1) topicless_move [OF assms(1) here assms(5-9), of "fst (ws 0)" "snd (ws 0)"]
    by (simp add: pass_def dues serves_def)
qed

section \<open>An example\<close>

lemma standalone_serves [simp]: "serves standalone" "is_leader standalone g"
  by (simp_all add: serves_def standalone_def)

definition held_msg :: message where
  "held_msg = message0\<lparr>m_id := ''A1'', m_topic := ''orders'', m_body := ''paid'', m_deliver_at := 1000\<rparr>"

definition orders_topic :: topic_config where
  "orders_topic = \<lparr>tc_name = ''orders'', tc_queues = 4, tc_created = 0, tc_retention = 1000\<rparr>"

definition held :: "(bytes, topic_config) omap \<Rightarrow> prod_node" where
  "held ts = \<lparr>
     db = [(delay_key 1000 0, encode_message True held_msg), (delay_alloc_key, put_u64 1)],
     sent = [], topics = ts, groups = [], auto_create = False, default_queues = 4, default_max = 16,
     qstates = [], rr = [], wakers = [], chan_count = 0, chans_closed = [],
     delay_next = 0, delay_loaded = False, binary_encoding = True\<rparr>"

lemma held_decode: "decode_message (encode_message True held_msg) = Inr held_msg"
proof -
  have "message_ok held_msg"
    by (simp add: message_ok_def text_ok_def held_msg_def message0_def props_ok_def digest_ok_def utf8_ascii code_def i64_range_def)
  moreover have "meta_fits held_msg"
    unfolding meta_fits_def by (rule less_trans [of _ 500], code_simp, simp)
  ultimately show ?thesis by (rule message_roundtrip)
qed

lemma held_ok [simp]: "kv_ok (db (held ts))"
  by (simp add: held_def kv_ok_def, code_simp)

lemma held_get:
  "kv_get (db (held ts)) (delay_key 1000 0) = Some (encode_message True held_msg)"
  "kv_get (db (held ts)) (alloc_key t q) = None"
  by (simp_all add: held_def kv_get_def alloc_key_def delay_key_def delay_alloc_key_def prefix_defs)

lemma held_moves:
  "\<exists>s1 s2. enqueue standalone now rnd held_msg raw (held [(''orders'', orders_topic)]) = (Inr s1, s2)"
proof -
  have "\<exists>m' s'. append_msg standalone now rnd held_msg (held [(''orders'', orders_topic)]) = (Inr m', s')"
  proof (rule append_live)
    show "kv_get (topics (held [(''orders'', orders_topic)])) (m_topic held_msg) = Some orders_topic"
      by (simp add: held_def held_msg_def kv_get_def)
    show "length b = 8" if "kv_get (db (held [(''orders'', orders_topic)])) (alloc_key (m_topic held_msg) q) = Some b" for q b
      using that by (simp add: held_get)
  qed (simp_all add: held_msg_def bad_body_def max_body_size_def orders_name orders_topic_def)
  then show ?thesis by (simp add: enqueue_def standalone_def)
qed

section \<open>Properties\<close>



text \<open>C26: a move never loses a message: after it the entry is still there as it was, or the message
  has been written to a queue of its topic here or taken by the leader of its queue's group, or the
  entry never decoded; a move that counts has written, and one without an error leaves no entry.\<close>

theorem move_never_loses:
  assumes "move_one E now rnd key raw s = ((ok, e), s')" "prefix delay_prefix key" "kv_get (db s) key = Some raw"
  shows "(kv_get (db s') key = Some raw \<or> \<not> is_ok (decode_message raw) \<or>
      (\<exists>m. decode_message raw = Inr m \<and> enqueued E now rnd m raw s s')) \<and>
    (ok \<longrightarrow> (\<exists>m. decode_message raw = Inr m \<and> enqueued E now rnd m raw s s')) \<and>
    (e = None \<longrightarrow> kv_get (db s') key = None)"
  using move_one_spec [OF assms(1) delay_prefix_aside [OF assms(2)]] assms(3) by auto

theorem move_never_loses_witness:
  "\<exists>s'. move_one standalone 2000 ''r'' (delay_key 1000 0) (encode_message True held_msg) (held [(''orders'', orders_topic)]) =
      ((True, None), s') \<and> kv_get (db s') (delay_key 1000 0) = None \<and>
     enqueued standalone 2000 ''r'' held_msg (encode_message True held_msg) (held [(''orders'', orders_topic)]) s'"
proof -
  obtain s' where m: "move_one standalone 2000 ''r'' (delay_key 1000 0) (encode_message True held_msg)
      (held [(''orders'', orders_topic)]) = ((True, None), s')"
    using held_moves [of 2000 "''r''" "encode_message True held_msg"]
    by (auto simp: move_one_def held_get held_decode rep_apply_standalone)
  show ?thesis
    using move_never_loses [OF m _ held_get(1)] m held_decode by (auto simp: delay_key_def)
qed

text \<open>A pass of the leader that ends without an error has emptied exactly what it saw: the at
  most 512 earliest entries that were due are gone, its count is the number of those that decode, and
  no entry that is due later is touched, so no message is moved early.\<close>

theorem pass_exact:
  assumes "pass E now ws s = ((n, None), s')" "is_leader E meta_group" "kv_ok (db s)"
    and "dues = take 512 (kv_range delay_prefix (Some (delay_scan_upper_bound now)) (db s))"
    and "0 \<le> now" "now < 2 ^ 63 - 1"
  shows "(\<forall>k \<in> fst ` set dues. kv_get (db s') k = None) \<and>
    n = int (length (filter (\<lambda>(k, v). is_ok (decode_message v)) dues)) \<and>
    (\<forall>due sq. now < due \<longrightarrow> i64_range due \<longrightarrow> staged (db s') due sq = staged (db s) due sq)"
proof -
  obtain d where d: "scan_due E now s = Inr d" and l: "move_loop E ws d 0 s = ((n, None), s')"
    using assms(1,2) by (auto simp: pass_def split: sum.splits)
  have dues: "d = dues" using scan_due_ok [OF d] assms(4) by simp
  have entry: "prefix delay_prefix k \<and> k < delay_scan_upper_bound now \<and> kv_get (db s) k = Some v"
    if "(k, v) \<in> set dues" for k v
    using that due_entry [of k v now "db s"] assms(3,4) by (auto simp: kv_mem dest: in_set_takeD)
  have dist: "distinct (map fst d)"
    using kv_ok_distinct [OF kv_ok_range [OF assms(3)]] by (simp add: dues assms(4) take_map [symmetric] distinct_take)
  have all: "\<forall>(k, v) \<in> set d. aside k \<and> kv_get (db s) k = Some v"
    using entry delay_prefix_aside by (auto simp: dues)
  note sp = move_loop_spec [OF l all dist]
  have "staged (db s') due sq = staged (db s) due sq" if "now < due" "i64_range due" for due sq
  proof -
    have "delay_key due sq \<notin> fst ` set d"
      using entry due_later [OF assms(5) that assms(6), of sq] by (auto simp: dues)
    then show ?thesis using sp by (simp add: staged_def)
  qed
  then show ?thesis using sp by (simp add: dues)
qed

theorem pass_exact_witness:
  "\<exists>s'. pass standalone 2000 (\<lambda>_. (2000, ''r'')) (held [(''orders'', orders_topic)]) = ((1, None), s') \<and>
     kv_get (db s') (delay_key 1000 0) = None"
proof -
  let ?s = "held [(''orders'', orders_topic)]"
  let ?dues = "take 512 (kv_range delay_prefix (Some (delay_scan_upper_bound 2000)) (db ?s))"
  have dues: "?dues = [(delay_key 1000 0, encode_message True held_msg)]"
    using delay_scan_exact [of 1000 2000 0]
    by (simp add: held_def kv_range_def in_range_def delay_scan_upper_bound_def delay_alloc_key_def delay_key_def prefix_defs)
  obtain s' where m: "move_one standalone 2000 ''r'' (delay_key 1000 0) (encode_message True held_msg) ?s = ((True, None), s')"
    using held_moves [of 2000 "''r''" "encode_message True held_msg"]
    by (auto simp: move_one_def held_get held_decode rep_apply_standalone)
  have p: "pass standalone 2000 (\<lambda>_. (2000, ''r'')) ?s = ((1, None), s')"
    using m by (simp add: pass_def scan_due_serves dues)
  show ?thesis using pass_exact [OF p _ held_ok refl] p by (simp add: dues)
qed

text \<open>C31: an entry whose topic is gone stops the delivery of every delayed message: with topics not
  created on demand, the earliest due entry of a deleted topic fails each pass before anything behind
  it is moved, and the scheduler, however long it runs on a healthy node, never changes anything.\<close>

theorem topicless_head_blocks:
  assumes "kv_ok (db s)" "filter (\<lambda>(k, _). delay_prefix \<le> k) (db s) = (key, raw) # rest"
    and "decode_message raw = Inr m" "\<not> bad_body m" "name_valid (m_topic m)"
    and "get_topic s (m_topic m) = None" "\<not> auto_create s"
    and "\<And>w. w \<in> set turns \<Longrightarrow> serves (dt_env w) \<and> key < delay_scan_upper_bound (dt_now w)"
  shows "run turns s = s"
  using assms(8)
proof (induction turns)
  case (Cons w turns)
  have "pass (dt_env w) (dt_now w) (dt_moves w) s = ((0, Some (ErrTopicNotFound (m_topic m))), s)"
    using Cons.prems [of w] topicless_pass [OF _ assms(1,2) _ assms(3-7)] by simp
  then show ?case using Cons by (auto simp: serves_def)
qed simp

theorem topicless_head_blocks_witness:
  "run (replicate 3 \<lparr>dt_env = standalone, dt_now = 2000, dt_moves = \<lambda>_. (2000, ''r''), dt_cancelled = False\<rparr>) (held []) = held []"
proof (rule topicless_head_blocks)
  show "filter (\<lambda>(k, _). delay_prefix \<le> k) (db (held [])) =
      (delay_key 1000 0, encode_message True held_msg) # [(delay_alloc_key, put_u64 1)]"
    by (simp add: held_def delay_alloc_key_def delay_key_def prefix_defs)
  show "serves (dt_env w) \<and> delay_key 1000 0 < delay_scan_upper_bound (dt_now w)"
    if "w \<in> set (replicate 3 \<lparr>dt_env = standalone, dt_now = 2000, dt_moves = \<lambda>_. (2000, ''r''), dt_cancelled = False\<rparr>)" for w
    using that delay_scan_exact [of 1000 2000 0] by auto
qed (simp_all add: held_decode, simp_all add: held_msg_def bad_body_def max_body_size_def orders_name get_topic_def held_def kv_get_def)

text \<open>
  With a clock that runs backwards a recall can be false: when the message was moved but the removal
  of its entry failed, a recall at an earlier clock reading still reports success.
\<close>

theorem clock_back_false_recall:
  assumes "move_one E now rnd (delay_key due sq) raw s = ((True, Some e), s')"
    and "kv_get (db s') (delay_key due sq) = Some raw" "decode_message raw = Inr m" "now' < due"
  shows "enqueued E now rnd m raw s s' \<and>
    recall standalone now' (m_topic m) due sq s' = (Inr (m_id m), set_db (kv_del (delay_key due sq) (db s')) s')"
  using move_one_spec [OF assms(1)] assms(2-4)
  by (auto simp: recall_def seq_defs rep_apply_standalone kv_simps)

end
