(* ===== verification/Txn.thy ===== *)
theory Txn
  imports Handover
begin

text \<open>
  \<^verbatim>\<open>internal/core/txn/txn.go\<close>: half messages.  A transactional message is staged under two
  keys, its body under the time of its next check and, under its transaction, the reference to that
  time; its producer ends the transaction by committing or rolling back, and a checker asks about
  those that stay undecided, reschedules them, and drops them after a number of checks.  Ending and
  checking a transaction are critical sections of its lock; the checker's scan is outside of it.
\<close>

section \<open>References\<close>

record half_ref =
  hr_next :: ms
  hr_checks :: int

definition half_ref0 :: half_ref where
  "half_ref0 = \<lparr>hr_next = 0, hr_checks = 0\<rparr>"

definition half_ref_names :: "bytes list" where
  "half_ref_names = [''next_check_ms'', ''checks'']"

definition half_ref_put :: "bytes \<Rightarrow> json \<Rightarrow> half_ref \<Rightarrow> half_ref option" where
  "half_ref_put f j r =
     (if f = ''next_check_ms'' then map_option (\<lambda>x. r\<lparr>hr_next := x\<rparr>) (as_int 64 (hr_next r) j)
      else map_option (\<lambda>x. r\<lparr>hr_checks := x\<rparr>) (as_int 64 (hr_checks r) j))"

definition half_ref_json :: "half_ref \<Rightarrow> json" where
  "half_ref_json r = JObj (field ''next_check_ms'' (num (hr_next r)) @ field ''checks'' (num (hr_checks r)) @ [])"

definition encode_half_ref :: "half_ref \<Rightarrow> bytes" where
  "encode_half_ref r = json_print (half_ref_json r)"

definition decode_half_ref :: "bytes \<Rightarrow> err + half_ref" where
  "decode_half_ref b =
     (case unmarshal half_ref_names half_ref_put b half_ref0 of None \<Rightarrow> Inl ErrJson | Some r \<Rightarrow> Inr r)"

section \<open>State\<close>

record txn_config =
  check_interval :: int
  max_checks :: int

text \<open>\<open>notified\<close> is what the checker has handed to the notifier.\<close>

record txn_node = prod_node +
  checks_total :: u64
  dropped_total :: u64
  notified :: "(message \<times> bytes) list"

section \<open>Staging and deciding\<close>

definition next_check :: "txn_config \<Rightarrow> ms \<Rightarrow> ms" where
  "next_check C now = now + milliseconds (check_interval C)"

definition stage ::
    "env \<Rightarrow> txn_config \<Rightarrow> ms \<Rightarrow> bytes \<Rightarrow> bytes \<Rightarrow> message \<Rightarrow> 'z prod_node_scheme \<Rightarrow>
      (err + message \<times> bytes) \<times> 'z prod_node_scheme" where
  "stage E C now rnd tx_rnd m =
     (if bad_body m then sfail (ErrBodySize (length (m_body m)))
      else sbind (ensure_topic E now (m_topic m)) (\<lambda>_.
        let m = stamp now rnd m; tx = new_message_id tx_rnd; nxt = next_check C now in
        sbind (sget binary_encoding) (\<lambda>binary.
        sbind (apply_or_forward E meta_group
          (bset (half_idx_key tx) (encode_half_ref \<lparr>hr_next = nxt, hr_checks = 0\<rparr>)
            (bset (half_key nxt tx) (encode_message binary m) new_batch))) (\<lambda>_.
        sret (m, tx)))))"

definition drop_half :: "bytes \<Rightarrow> bytes \<Rightarrow> batch" where
  "drop_half hk tx = bdelete (half_idx_key tx) (bdelete hk new_batch)"

text \<open>The result of ending is whether there was a half message to decide.\<close>

definition commit_half ::
    "env \<Rightarrow> ms \<Rightarrow> bytes \<Rightarrow> bytes \<Rightarrow> bytes \<Rightarrow> bytes \<Rightarrow> 'z prod_node_scheme \<Rightarrow> (err + bool) \<times> 'z prod_node_scheme" where
  "commit_half E now rnd hk tx raw =
     sbind (slift (\<lambda>_. decode_message raw)) (\<lambda>m.
     sbind (enqueue E now rnd m raw) (\<lambda>_.
     sbind (apply_or_forward E meta_group (drop_half hk tx)) (\<lambda>_. sret True)))"

definition end_tx ::
    "env \<Rightarrow> ms \<Rightarrow> bytes \<Rightarrow> bytes \<Rightarrow> bool \<Rightarrow> 'z prod_node_scheme \<Rightarrow> (err + bool) \<times> 'z prod_node_scheme" where
  "end_tx E now rnd tx do_commit =
     sbind (slift (\<lambda>s. st_get E s (half_idx_key tx))) (\<lambda>idx.
     case idx of
       None \<Rightarrow> if \<not> is_leader E meta_group then sfail ErrNotLeader else sret False
     | Some idx \<Rightarrow>
         sbind (slift (\<lambda>_. decode_half_ref idx)) (\<lambda>ref.
         let hk = half_key (hr_next ref) tx in
         sbind (slift (\<lambda>s. st_get E s hk)) (\<lambda>raw.
         case raw of
           None \<Rightarrow> sbind (apply_or_forward E meta_group (bdelete (half_idx_key tx) new_batch)) (\<lambda>_. sret False)
         | Some raw \<Rightarrow>
             if \<not> do_commit then sbind (apply_or_forward E meta_group (drop_half hk tx)) (\<lambda>_. sret True)
             else commit_half E now rnd hk tx raw)))"

section \<open>Checking\<close>

text \<open>One half message that is due: dropped after enough checks, else rescheduled; the result is
  whether its producer is to be asked.\<close>

definition check_one ::
    "env \<Rightarrow> txn_config \<Rightarrow> ms \<Rightarrow> bytes \<Rightarrow> bytes \<Rightarrow> 'z txn_node_scheme \<Rightarrow> (err + bool) \<times> 'z txn_node_scheme" where
  "check_one E C now hk tx =
     sbind (slift (\<lambda>s. st_get E s (half_idx_key tx))) (\<lambda>idx.
     case idx of
       None \<Rightarrow> sret False
     | Some idx \<Rightarrow>
         (case decode_half_ref idx of
            Inl _ \<Rightarrow> sbind (rep_apply E meta_group (drop_half hk tx)) (\<lambda>_. sret False)
          | Inr ref \<Rightarrow>
              let old = half_key (hr_next ref) tx in
              if max_checks C \<le> hr_checks ref then
                sbind (rep_apply E meta_group (drop_half old tx)) (\<lambda>_.
                sbind (smod (\<lambda>s. s\<lparr>dropped_total := dropped_total s + 1\<rparr>)) (\<lambda>_. sret False))
              else
                let nxt = next_check C now in
                sbind (slift (\<lambda>s. st_get E s old)) (\<lambda>raw.
                case raw of
                  None \<Rightarrow> sbind (rep_apply E meta_group (bdelete (half_idx_key tx) new_batch)) (\<lambda>_. sret False)
                | Some raw \<Rightarrow>
                    sbind (rep_apply E meta_group
                      (bset (half_idx_key tx) (encode_half_ref \<lparr>hr_next = nxt, hr_checks = hr_checks ref + 1\<rparr>)
                        (bset (half_key nxt tx) raw (bdelete old new_batch)))) (\<lambda>_.
                    sbind (smod (\<lambda>s. s\<lparr>checks_total := checks_total s + 1\<rparr>)) (\<lambda>_. sret True)))))"

definition drop_locked ::
    "env \<Rightarrow> bytes \<Rightarrow> bytes \<Rightarrow> 'z node_scheme \<Rightarrow> (err + unit) \<times> 'z node_scheme" where
  "drop_locked E tx hk = rep_apply E meta_group (drop_half hk tx)"

definition max_check_per_pass :: int where "max_check_per_pass = 256"

record half_scan =
  sc_bad :: "bytes list"
  sc_due :: "(bytes \<times> bytes \<times> bytes) list"

definition collect_half :: "half_scan callback" where
  "collect_half acc k v =
     (Inr True, case parse_half_key k of
        Inl _ \<Rightarrow> acc\<lparr>sc_bad := sc_bad acc @ [k]\<rparr>
      | Inr (_, tx) \<Rightarrow> acc\<lparr>sc_due := sc_due acc @ [(tx, v, k)]\<rparr>)"

definition scan_half :: "env \<Rightarrow> ms \<Rightarrow> 'z node_scheme \<Rightarrow> err + half_scan" where
  "scan_half E now s =
     (case st_scan E s half_prefix (Some (half_scan_upper_bound now)) max_check_per_pass collect_half
             \<lparr>sc_bad = [], sc_due = []\<rparr> of
        (Inl e, _) \<Rightarrow> Inl e | (Inr _, sc) \<Rightarrow> Inr sc)"

text \<open>One entry of the scan, \<open>now\<close> being the clock of its check.\<close>

definition check_entry ::
    "env \<Rightarrow> txn_config \<Rightarrow> ms \<Rightarrow> bytes \<times> bytes \<times> bytes \<Rightarrow> 'z txn_node_scheme \<Rightarrow> (err + unit) \<times> 'z txn_node_scheme" where
  "check_entry E C now = (\<lambda>(tx, raw, hk).
     case decode_message raw of
       Inl _ \<Rightarrow> drop_locked E tx hk
     | Inr m \<Rightarrow>
         sbind (check_one E C now hk tx) (\<lambda>send.
         if send then smod (\<lambda>s. s\<lparr>notified := notified s @ [(m, tx)]\<rparr>) else sret ()))"

fun check_loop ::
    "env \<Rightarrow> txn_config \<Rightarrow> (nat \<Rightarrow> ms) \<Rightarrow> (bytes \<times> bytes \<times> bytes) list \<Rightarrow> int \<Rightarrow> 'z txn_node_scheme \<Rightarrow>
      (int \<times> err option) \<times> 'z txn_node_scheme" where
  "check_loop E C clock [] handled s = ((handled, None), s)"
| "check_loop E C clock (d # ds) handled s =
     (case check_entry E C (clock 0) d s of
        (Inl e, s1) \<Rightarrow> ((handled, Some e), s1)
      | (Inr _, s1) \<Rightarrow> check_loop E C (\<lambda>i. clock (i + 1)) ds (handled + 1) s1)"

text \<open>The start of a pass: the scan, and the removal of keys that do not parse.\<close>

definition check_begin ::
    "env \<Rightarrow> ms \<Rightarrow> 'z node_scheme \<Rightarrow> (err + int \<times> (bytes \<times> bytes \<times> bytes) list) \<times> 'z node_scheme" where
  "check_begin E now =
     sbind (slift (scan_half E now)) (\<lambda>sc.
     sbind (if sc_bad sc = [] then sret ()
            else rep_apply E meta_group (foldl (\<lambda>b k. bdelete k b) new_batch (sc_bad sc))) (\<lambda>_.
     sret (int (length (sc_bad sc)), sc_due sc)))"

definition check_pass ::
    "env \<Rightarrow> txn_config \<Rightarrow> ms \<Rightarrow> (nat \<Rightarrow> ms) \<Rightarrow> 'z txn_node_scheme \<Rightarrow> (int \<times> err option) \<times> 'z txn_node_scheme" where
  "check_pass E C now clock s =
     (if \<not> is_leader E meta_group then ((0, None), s)
      else case check_begin E now s of
        (Inl e, s1) \<Rightarrow> ((0, Some e), s1)
      | (Inr (handled, dues), s1) \<Rightarrow> check_loop E C clock dues handled s1)"

record check_turn =
  ct_env :: env
  ct_now :: ms
  ct_clock :: "nat \<Rightarrow> ms"
  ct_cancelled :: bool

fun run_checker :: "txn_config \<Rightarrow> check_turn list \<Rightarrow> 'z txn_node_scheme \<Rightarrow> 'z txn_node_scheme" where
  "run_checker C [] s = s"
| "run_checker C (w # ws) s =
     (if \<not> is_leader (ct_env w) meta_group then (if ct_cancelled w then s else run_checker C ws s)
      else case check_pass (ct_env w) C (ct_now w) (ct_clock w) s of
        ((handled, e), s1) \<Rightarrow>
          if e = None \<and> handled = max_check_per_pass then run_checker C ws s1
          else if ct_cancelled w then s1
          else run_checker C ws s1)"

section \<open>References round trip\<close>

definition ref_ok :: "half_ref \<Rightarrow> bool" where
  "ref_ok r \<longleftrightarrow> i64_range (hr_next r) \<and> i64_range (hr_checks r)"

lemma good_half_ref: "ref_ok r \<Longrightarrow> good 0 (half_ref_json r)"
proof -
  assume "ref_ok r"
  moreover have "list_all utf8 half_ref_names"
    by (simp add: half_ref_names_def utf8_ascii code_def)
  ultimately have "\<forall>(k, j) \<in> set (field ''next_check_ms'' (num (hr_next r)) @ field ''checks'' (num (hr_checks r)) @ []).
     utf8 k \<and> good 1 j"
    by (intro good_member) (auto simp: half_ref_names_def ref_ok_def)
  then show ?thesis by (simp add: half_ref_json_def max_nesting_def del: set_append)
qed

lemma half_ref_roundtrip: "ref_ok r \<Longrightarrow> decode_half_ref (encode_half_ref r) = Inr r"
proof -
  assume ok: "ref_ok r"
  obtain ms where ms: "half_ref_json r = JObj ms" by (simp add: half_ref_json_def)
  have "set_fields half_ref_names half_ref_put ms half_ref0 = Some r"
    using ms unfolding half_ref_json_def json.inject
    by (elim subst)
      ((rule set_fields_step, simp add: half_ref_names_def,
        use ok in \<open>simp add: half_ref_put_def half_ref0_def ref_ok_def as_int_num\<close>, simp)+, simp)
  moreover have "json_parse (encode_half_ref r) = Some (JObj ms)"
    using json_parse_print [OF good_half_ref [OF ok]] by (simp only: encode_half_ref_def ms)
  ultimately show ?thesis by (simp add: decode_half_ref_def unmarshal_def)
qed

interpretation refc: codec encode_half_ref decode_half_ref ref_ok
  by unfold_locales (rule half_ref_roundtrip)

section \<open>The abstract transactions\<close>

text \<open>
  What the two families of keys stand for: the undecided transactions, each with its reference and
  the bytes of its message.
\<close>

definition half_view :: "kv \<Rightarrow> bytes \<Rightarrow> (half_ref \<times> bytes) option" where
  "half_view m tx =
     (case kv_get m (half_idx_key tx) of
        None \<Rightarrow> None
      | Some idx \<Rightarrow>
          (case decode_half_ref idx of
             Inl _ \<Rightarrow> None
           | Inr ref \<Rightarrow> map_option (Pair ref) (kv_get m (half_key (hr_next ref) tx))))"

definition halves_ok :: "kv \<Rightarrow> bool" where
  "halves_ok m \<longleftrightarrow>
     (\<forall>tx. kv_get m (half_idx_key tx) \<noteq> None \<longrightarrow>
        tx \<noteq> [] \<and> (\<exists>ref raw. half_view m tx = Some (ref, raw) \<and> ref_ok ref)) \<and>
     (\<forall>c tx. i64_range c \<longrightarrow> tx \<noteq> [] \<longrightarrow> kv_get m (half_key c tx) \<noteq> None \<longrightarrow>
        (\<exists>ref raw. half_view m tx = Some (ref, raw) \<and> hr_next ref = c))"

definition half_side :: "bytes \<Rightarrow> bool" where
  "half_side k \<longleftrightarrow> prefix half_prefix k \<or> prefix half_idx_prefix k"

lemma half_side_keys [simp]: "half_side (half_key c tx)" "half_side (half_idx_key tx)"
  by (simp_all add: half_side_def half_key_def half_idx_key_def)

lemma half_side_aside: "half_side k \<Longrightarrow> aside k"
  by (auto simp: half_side_def prefix_def aside_def off_log_def prefix_defs)

lemma half_keys_neq [simp]: "half_key c tx \<noteq> half_idx_key tx'" "half_idx_key tx' \<noteq> half_key c tx"
  by (simp_all add: half_key_def half_idx_key_def prefix_defs)

lemma half_idx_inj [simp]: "half_idx_key tx = half_idx_key tx' \<longleftrightarrow> tx = tx'"
  by (simp add: half_idx_key_def)

lemma half_key_inj:
  "i64_range c \<Longrightarrow> i64_range c' \<Longrightarrow> tx \<noteq> [] \<Longrightarrow> tx' \<noteq> [] \<Longrightarrow> half_key c tx = half_key c' tx' \<longleftrightarrow> c = c' \<and> tx = tx'"
  using halfk.enc_inj [of "(c, tx)" "(c', tx')"] by auto

definition same_halves :: "kv \<Rightarrow> kv \<Rightarrow> bool" where
  "same_halves m m' \<longleftrightarrow> (\<forall>k. half_side k \<longrightarrow> kv_get m' k = kv_get m k)"

lemma same_halves_refl [simp]: "same_halves m m"
  by (simp add: same_halves_def)

lemma same_halves_trans: "same_halves a b \<Longrightarrow> same_halves b c \<Longrightarrow> same_halves a c"
  by (simp add: same_halves_def)

lemma same_aside_halves: "same_aside m m' \<Longrightarrow> same_halves m m'"
  by (simp add: same_halves_def same_aside_def half_side_aside)

lemma same_halves_view: "same_halves m m' \<Longrightarrow> half_view m' = half_view m"
  by (rule ext) (simp add: half_view_def same_halves_def split: option.split sum.split)

lemma same_halves_ok: "same_halves m m' \<Longrightarrow> halves_ok m' = halves_ok m"
  using same_halves_view [of m m'] by (simp add: halves_ok_def same_halves_def)

lemma view_index: "half_view m tx = Some (ref, raw) \<Longrightarrow>
    kv_get m (half_key (hr_next ref) tx) = Some raw \<and>
    (\<exists>idx. kv_get m (half_idx_key tx) = Some idx \<and> decode_half_ref idx = Inr ref)"
  by (auto simp: half_view_def split: option.splits sum.splits)

lemma halves_okD:
  assumes "halves_ok m" "half_view m tx = Some (ref, raw)"
  shows "tx \<noteq> []" "ref_ok ref" "i64_range (hr_next ref)"
proof -
  have "kv_get m (half_idx_key tx) \<noteq> None" using view_index [OF assms(2)] by auto
  then have "tx \<noteq> [] \<and> (\<exists>ref raw. half_view m tx = Some (ref, raw) \<and> ref_ok ref)"
    using assms(1) unfolding halves_ok_def by blast
  then show "tx \<noteq> []" "ref_ok ref" "i64_range (hr_next ref)" using assms(2) by (auto simp: ref_ok_def)
qed

lemma no_view_no_keys:
  assumes "halves_ok m" "half_view m tx = None"
  shows "kv_get m (half_idx_key tx) = None" "i64_range c \<Longrightarrow> tx \<noteq> [] \<Longrightarrow> kv_get m (half_key c tx) = None"
  using assms unfolding halves_ok_def by (metis option.distinct(1))+

text \<open>The two writes: a transaction's pair of keys is set or removed as a whole.\<close>

lemma view_put:
  assumes "halves_ok m" "half_view m tx = None" "tx \<noteq> []" "ref_ok ref"
    and "\<And>k. half_side k \<Longrightarrow> kv_get m' k = (if k = half_idx_key tx then Some (encode_half_ref ref)
      else if k = half_key (hr_next ref) tx then Some raw else kv_get m k)"
  shows "halves_ok m' \<and> half_view m' = (half_view m)(tx \<mapsto> (ref, raw))"
proof -
  have next_ok: "i64_range (hr_next ref)" using assms(4) by (simp add: ref_ok_def)
  have dec: "decode_half_ref (encode_half_ref ref) = Inr ref" by (rule half_ref_roundtrip [OF assms(4)])
  have view: "half_view m' tx' = (if tx' = tx then Some (ref, raw) else half_view m tx')" for tx'
  proof (cases "tx' = tx")
    case False
    have idx: "kv_get m' (half_idx_key tx') = kv_get m (half_idx_key tx')" using False by (simp add: assms(5))
    show ?thesis
    proof (cases "half_view m tx'")
      case None
      then show ?thesis using False idx no_view_no_keys(1) [OF assms(1) None] by (simp add: half_view_def)
    next
      case (Some p)
      then obtain r w where p: "half_view m tx' = Some (r, w)" by (cases p) simp
      have "kv_get m' (half_key (hr_next r) tx') = kv_get m (half_key (hr_next r) tx')"
        using False halves_okD [OF assms(1) p] assms(3) next_ok by (simp add: assms(5) half_key_inj)
      then show ?thesis using False idx view_index [OF p] p by (auto simp: half_view_def)
    qed
  qed (simp add: half_view_def assms(5) dec)
  have "halves_ok m'"
    unfolding halves_ok_def
  proof (intro conjI allI impI)
    fix tx'
    assume k: "kv_get m' (half_idx_key tx') \<noteq> None"
    have "tx' = tx \<or> kv_get m (half_idx_key tx') \<noteq> None" using k by (auto simp: assms(5) split: if_splits)
    then show "tx' \<noteq> []" "\<exists>ref raw. half_view m' tx' = Some (ref, raw) \<and> ref_ok ref"
      using assms(1,3,4) view [of tx'] unfolding halves_ok_def by auto
  next
    fix c tx'
    assume c: "i64_range c" "tx' \<noteq> []" "kv_get m' (half_key c tx') \<noteq> None"
    then show "\<exists>ref raw. half_view m' tx' = Some (ref, raw) \<and> hr_next ref = c"
      using view [of tx'] no_view_no_keys(2) [OF assms(1,2), of c] assms(1,3) next_ok
      unfolding halves_ok_def by (cases "tx' = tx") (auto simp: assms(5) half_key_inj split: if_splits)
  qed
  then show ?thesis using view by auto
qed

lemma view_drop:
  assumes "halves_ok m" "half_view m tx = Some (ref, raw)"
    and "\<And>k. half_side k \<Longrightarrow> kv_get m' k = (if k = half_idx_key tx \<or> k = half_key (hr_next ref) tx then None else kv_get m k)"
  shows "halves_ok m' \<and> half_view m' = (half_view m)(tx := None)"
proof -
  note tx = halves_okD [OF assms(1,2)]
  have view: "half_view m' tx' = (if tx' = tx then None else half_view m tx')" for tx'
  proof (cases "tx' = tx")
    case False
    have idx: "kv_get m' (half_idx_key tx') = kv_get m (half_idx_key tx')" using False by (simp add: assms(3))
    show ?thesis
    proof (cases "half_view m tx'")
      case None
      then show ?thesis using False idx no_view_no_keys(1) [OF assms(1) None] by (simp add: half_view_def)
    next
      case (Some p)
      then obtain r w where p: "half_view m tx' = Some (r, w)" by (cases p) simp
      have "kv_get m' (half_key (hr_next r) tx') = kv_get m (half_key (hr_next r) tx')"
        using False halves_okD [OF assms(1) p] tx by (simp add: assms(3) half_key_inj)
      then show ?thesis using False idx view_index [OF p] p by (auto simp: half_view_def)
    qed
  qed (simp add: half_view_def assms(3))
  have "halves_ok m'"
    unfolding halves_ok_def
  proof (intro conjI allI impI)
    fix tx'
    assume k: "kv_get m' (half_idx_key tx') \<noteq> None"
    have "tx' \<noteq> tx \<and> kv_get m (half_idx_key tx') \<noteq> None" using k by (auto simp: assms(3) split: if_splits)
    then show "tx' \<noteq> []" "\<exists>ref raw. half_view m' tx' = Some (ref, raw) \<and> ref_ok ref"
      using assms(1) view [of tx'] unfolding halves_ok_def by auto
  next
    fix c tx'
    assume c: "i64_range c" "tx' \<noteq> []" "kv_get m' (half_key c tx') \<noteq> None"
    then have h: "kv_get m (half_key c tx') \<noteq> None" by (simp add: assms(3) split: if_splits)
    then obtain r w where r: "half_view m tx' = Some (r, w)" "hr_next r = c"
      using assms(1) c(1,2) unfolding halves_ok_def by blast
    have "tx' \<noteq> tx" using c(3) r assms(2) by (auto simp: assms(3))
    then show "\<exists>ref raw. half_view m' tx' = Some (ref, raw) \<and> hr_next ref = c" using r view by auto
  qed
  then show ?thesis using view by auto
qed

section \<open>The operations on the abstract transactions\<close>

lemma drop_half_get:
  "kv_get (apply_batch (drop_half hk tx) m) k = (if k = half_idx_key tx \<or> k = hk then None else kv_get m k)"
  by (simp add: drop_half_def kv_simps)

lemma half_side_hits:
  "x \<in> set (drop_half (half_key c t) tx) \<Longrightarrow> op_hits x k \<Longrightarrow> half_side k"
  by (auto simp: drop_half_def bdelete_def new_batch_def)

lemma half_side_off: "half_side k \<Longrightarrow> off_log k"
  using half_side_aside by (simp add: aside_def)

lemma leader_apply: "is_leader E g \<Longrightarrow> apply_or_forward E g b s = rep_apply E g b s"
  by (simp add: apply_or_forward_def)

text \<open>Dropping a transaction: it is open and goes, or it is not open and nothing of it is there.\<close>

lemma drop_spec:
  assumes "rep_apply E g (drop_half (half_key c tx) tx) s = (r, s')" "halves_ok (db s)" "i64_range c" "tx \<noteq> []"
    and "\<And>ref raw. half_view (db s) tx = Some (ref, raw) \<Longrightarrow> hr_next ref = c"
  shows "halves_ok (db s') \<and>
    (half_view (db s') = half_view (db s) \<and> (is_ok r \<longrightarrow> half_view (db s) tx = None) \<or>
     half_view (db s') = (half_view (db s))(tx := None))"
proof (cases "half_view (db s) tx")
  case None
  have "same_halves (db s) (apply_batch (drop_half (half_key c tx) tx) (db s))"
    using no_view_no_keys [OF assms(2) None] assms(3,4) by (simp add: same_halves_def drop_half_get)
  then show ?thesis
    using rep_apply_db [OF assms(1)] assms(2) same_halves_ok same_halves_view by (auto simp: None)
next
  case (Some p)
  then obtain ref raw where p: "half_view (db s) tx = Some (ref, raw)" by (cases p) simp
  have n: "hr_next ref = c" by (rule assms(5) [OF p])
  have v: "halves_ok (apply_batch (drop_half (half_key c tx) tx) (db s)) \<and>
      half_view (apply_batch (drop_half (half_key c tx) tx) (db s)) = (half_view (db s))(tx := None)"
    by (rule view_drop [OF assms(2) p]) (simp add: drop_half_get n)
  show ?thesis
    using rep_apply_db [OF assms(1)] rep_apply_ok_db [OF assms(1)] assms(2) v by auto
qed

lemma stage_spec:
  assumes "stage E C now rnd tx_rnd m s = (r, s')" "is_leader E meta_group" "halves_ok (db s)"
    and "half_view (db s) (new_message_id tx_rnd) = None" "new_message_id tx_rnd \<noteq> []" "i64_range (next_check C now)"
  shows "halves_ok (db s') \<and> ((\<not> is_ok r \<and> half_view (db s') = half_view (db s)) \<or>
    half_view (db s') = (half_view (db s))(new_message_id tx_rnd \<mapsto>
      (\<lparr>hr_next = next_check C now, hr_checks = 0\<rparr>, encode_message (binary_encoding s) (stamp now rnd m))))"
proof (cases "bad_body m")
  case True
  then show ?thesis using assms(1,3) by (auto simp: stage_def sfail_def)
next
  case False
  let ?tx = "new_message_id tx_rnd" and ?ref = "\<lparr>hr_next = next_check C now, hr_checks = 0\<rparr>"
  let ?b = "\<lambda>raw. bset (half_idx_key ?tx) (encode_half_ref ?ref) (bset (half_key (next_check C now) ?tx) raw new_batch)"
  let ?raw = "encode_message (binary_encoding s) (stamp now rnd m)"
  obtain r1 s1 where e: "ensure_topic E now (m_topic m) s = (r1, s1)" by fastforce
  have q: "quiet s s1" by (rule movesD [OF quiet_ensure_topic e])
  then have h: "same_halves (db s) (db s1)" and bin: "binary_encoding s1 = binary_encoding s"
    by (simp_all add: quiet_def same_aside_halves)
  note h1 = same_halves_view [OF h] same_halves_ok [OF h]
  show ?thesis
  proof (cases r1)
    case (Inl x)
    then show ?thesis using assms(1,3) False e h1 by (auto simp: stage_def sbind_def)
  next
    case (Inr tc)
    obtain r2 where a: "rep_apply E meta_group (?b ?raw) s1 = (r2, s')" and r: "is_ok r = is_ok r2"
      using assms(1,2) False e Inr
      by (auto simp: stage_def seq_defs leader_apply bin Let_def split: prod.splits sum.splits)
    have "ref_ok ?ref" using assms(6) by (simp add: ref_ok_def)
    then have "halves_ok (apply_batch (?b ?raw) (db s1)) \<and>
        half_view (apply_batch (?b ?raw) (db s1)) = (half_view (db s1))(?tx \<mapsto> (?ref, ?raw))"
      using assms(3-5) h1 by (intro view_put) (auto simp: kv_simps)
    then show ?thesis
      using rep_apply_db [OF a] rep_apply_ok_db [OF a] assms(3) h1 r by auto
  qed
qed

text \<open>Reading the index of a transaction that is open or not.\<close>

lemma read_half:
  assumes "halves_ok (db s)" "\<And>k. \<not> rd_fail E k"
  shows "half_view (db s) tx = None \<Longrightarrow> st_get E s (half_idx_key tx) = Inr None"
    and "half_view (db s) tx = Some (ref, raw) \<Longrightarrow> \<exists>idx. st_get E s (half_idx_key tx) = Inr (Some idx) \<and>
      decode_half_ref idx = Inr ref \<and> st_get E s (half_key (hr_next ref) tx) = Inr (Some raw)"
  using no_view_no_keys(1) [OF assms(1)] view_index [of "db s" tx] assms(2) by (auto simp: st_get_def)

lemma read_half_any:
  assumes "halves_ok (db s)"
  obtains (failed) e where "st_get E s (half_idx_key tx) = Inl e"
    | (none) "st_get E s (half_idx_key tx) = Inr None" "half_view (db s) tx = None"
    | (some) idx ref raw where "st_get E s (half_idx_key tx) = Inr (Some idx)" "decode_half_ref idx = Inr ref"
        "half_view (db s) tx = Some (ref, raw)"
        "st_get E s (half_key (hr_next ref) tx) \<in> {Inr (Some raw), Inl (ErrGet (half_key (hr_next ref) tx))}"
proof (cases "rd_fail E (half_idx_key tx)")
  case True
  then show thesis using failed by (simp add: st_get_def)
next
  case False
  show thesis
  proof (cases "half_view (db s) tx")
    case None
    then show thesis using none False no_view_no_keys(1) [OF assms None] by (simp add: st_get_def)
  next
    case (Some p)
    then obtain ref raw where p: "half_view (db s) tx = Some (ref, raw)" by (cases p) simp
    then show thesis using some False view_index [OF p] by (auto simp: st_get_def)
  qed
qed

text \<open>The second phase of a commit.\<close>

lemma drop_half_log:
  "moves log_kept (sbind (apply_or_forward E meta_group (drop_half (half_key c tx) tx)) (\<lambda>_. sret True))"
  by (intro log_kept_sbind log_kept_apply(2)) (auto intro: half_side_off half_side_hits)

lemma commit_spec:
  assumes "commit_half E now rnd (half_key (hr_next ref) tx) tx raw s = (r, s')" "is_leader E meta_group"
    and "halves_ok (db s)" "half_view (db s) tx = Some (ref, raw)"
  shows "halves_ok (db s') \<and> ((\<not> is_ok r \<and> half_view (db s') = half_view (db s)) \<or>
    (half_view (db s') = (half_view (db s))(tx := None) \<and>
     (\<exists>m. decode_message raw = Inr m \<and> enqueued E now rnd m raw s s'))) \<and> (is_ok r \<longrightarrow> r = Inr True)"
proof (cases "decode_message raw")
  case (Inl e)
  then show ?thesis using assms by (auto simp: commit_half_def seq_defs)
next
  case (Inr m)
  let ?hk = "half_key (hr_next ref) tx"
  have f: "sbind (enqueue E now rnd m raw) (\<lambda>_. sbind (apply_or_forward E meta_group (drop_half ?hk tx)) (\<lambda>_. sret True)) s = (r, s')"
    using assms(1) Inr by (simp add: commit_half_def sbind_def [of "slift _"] slift_def)
  from enq.phases [OF f drop_half_log] show ?thesis
  proof (elim disjE exE conjE)
    fix e
    assume "r = Inl e" "same_aside (db s) (db s')"
    then show ?thesis using same_aside_halves [of "db s" "db s'"] same_halves_view same_halves_ok assms(3) by fastforce
  next
    fix v s1
    assume h: "same_aside (db s) (db s1)" "enqueued E now rnd m raw s s'"
      and g: "sbind (apply_or_forward E meta_group (drop_half ?hk tx)) (\<lambda>_. sret True) s1 = (r, s')"
    have s1: "half_view (db s1) = half_view (db s)" "halves_ok (db s1)"
      using same_aside_halves [OF h(1)] same_halves_view same_halves_ok assms(3) by blast+
    obtain r2 where a: "rep_apply E meta_group (drop_half ?hk tx) s1 = (r2, s')" and r: "is_ok r = is_ok r2"
        "is_ok r \<longrightarrow> r = Inr True"
      using g assms(2) by (auto simp: seq_defs leader_apply split: prod.splits sum.splits)
    note tx = halves_okD [OF assms(3,4)]
    have "halves_ok (db s') \<and> (half_view (db s') = half_view (db s1) \<and> (is_ok r2 \<longrightarrow> half_view (db s1) tx = None) \<or>
        half_view (db s') = (half_view (db s1))(tx := None))"
      by (rule drop_spec [OF a s1(2) tx(3,1)]) (simp add: s1 assms(4))
    then show ?thesis using h(2) Inr r s1 assms(4) by auto
  qed
qed

text \<open>Ending a transaction: nothing to decide, or it is decided, or it is still open.\<close>

lemma end_spec:
  assumes "end_tx E now rnd tx c s = (r, s')" "is_leader E meta_group" "halves_ok (db s)"
  shows "halves_ok (db s') \<and>
    ((half_view (db s') = half_view (db s) \<and> r \<noteq> Inr True \<and> (r = Inr False \<longrightarrow> half_view (db s) tx = None \<and> s' = s)) \<or>
     (\<exists>ref raw. half_view (db s) tx = Some (ref, raw) \<and> half_view (db s') = (half_view (db s))(tx := None) \<and> r \<noteq> Inr False \<and>
       (if c then \<exists>m. decode_message raw = Inr m \<and> enqueued E now rnd m raw s s'
        else same_log (db s) (db s') \<and> sent s' = sent s)))"
  using assms(3)
proof (cases rule: read_half_any [of s E tx])
  case (failed e)
  then show ?thesis using assms by (auto simp: end_tx_def seq_defs)
next
  case none
  then show ?thesis using assms by (auto simp: end_tx_def seq_defs)
next
  case (some idx ref raw)
  let ?hk = "half_key (hr_next ref) tx"
  note tx = halves_okD [OF assms(3) some(3)]
  show ?thesis
  proof (cases "st_get E s ?hk")
    case (Inl e)
    then show ?thesis using assms some by (auto simp: end_tx_def Let_def seq_defs)
  next
    case (Inr x)
    then have x: "st_get E s ?hk = Inr (Some raw)" using some(4) by simp
    show ?thesis
    proof (cases c)
      case True
      then have f: "commit_half E now rnd ?hk tx raw s = (r, s')"
        using assms(1) some(1,2) x by (simp add: end_tx_def Let_def seq_defs)
      from commit_spec [OF f assms(2,3) some(3)] show ?thesis using some(3) True by auto
    next
      case False
      obtain r2 where a: "rep_apply E meta_group (drop_half ?hk tx) s = (r2, s')" and r: "is_ok r = is_ok r2"
          "is_ok r \<longrightarrow> r = Inr True"
        using assms(1,2) some(1,2) x False by (auto simp: end_tx_def Let_def seq_defs leader_apply split: prod.splits sum.splits)
      have d: "halves_ok (db s') \<and> (half_view (db s') = half_view (db s) \<and> (is_ok r2 \<longrightarrow> half_view (db s) tx = None) \<or>
          half_view (db s') = (half_view (db s))(tx := None))"
        by (rule drop_spec [OF a assms(3) tx(3,1)]) (simp add: some(3))
      have "same_log (db s) (apply_batch (drop_half ?hk tx) (db s))"
        by (rule same_log_batch) (auto intro: half_side_off half_side_hits)
      then have l: "same_log (db s) (db s')" "sent s' = sent s" using rep_apply_db [OF a] by auto
      show ?thesis using d l r some(3) False by auto
    qed
  qed
qed

text \<open>A check: nothing to do, or the transaction is dropped, or it is rescheduled and asked about.\<close>

lemma check_spec:
  assumes "check_one E C now (half_key c tx) tx s = (r, s')" "halves_ok (db s)"
    and "i64_range (next_check C now)" "max_checks C < 2 ^ 63"
  shows "halves_ok (db s') \<and>
    ((half_view (db s') = half_view (db s) \<and> r \<noteq> Inr True \<and> (half_view (db s) tx = None \<longrightarrow> s' = s)) \<or>
     (\<exists>ref raw. half_view (db s) tx = Some (ref, raw) \<and> max_checks C \<le> hr_checks ref \<and> r \<noteq> Inr True \<and>
        half_view (db s') = (half_view (db s))(tx := None)) \<or>
     (\<exists>ref raw. half_view (db s) tx = Some (ref, raw) \<and> hr_checks ref < max_checks C \<and> r \<noteq> Inr False \<and>
        half_view (db s') = (half_view (db s))(tx \<mapsto> (\<lparr>hr_next = next_check C now, hr_checks = hr_checks ref + 1\<rparr>, raw))))"
  using assms(2)
proof (cases rule: read_half_any [of s E tx])
  case (failed e)
  then show ?thesis using assms by (auto simp: check_one_def seq_defs)
next
  case none
  then show ?thesis using assms by (auto simp: check_one_def seq_defs)
next
  case (some idx ref raw)
  let ?old = "half_key (hr_next ref) tx"
  note tx = halves_okD [OF assms(2) some(3)]
  show ?thesis
  proof (cases "max_checks C \<le> hr_checks ref")
    case True
    obtain r2 s2 where a: "rep_apply E meta_group (drop_half ?old tx) s = (r2, s2)" and d: "db s' = db s2"
        and r: "is_ok r = is_ok r2" "r \<noteq> Inr True"
      using assms(1) some(1,2) True
      by (auto simp: check_one_def seq_defs Let_def split: prod.splits sum.splits)
    have "halves_ok (db s2) \<and> (half_view (db s2) = half_view (db s) \<and> (is_ok r2 \<longrightarrow> half_view (db s) tx = None) \<or>
        half_view (db s2) = (half_view (db s))(tx := None))"
      by (rule drop_spec [OF a assms(2) tx(3,1)]) (simp add: some(3))
    then show ?thesis using d r some(3) True by auto
  next
    case False
    show ?thesis
    proof (cases "st_get E s ?old")
      case (Inl e)
      then show ?thesis using assms some False by (auto simp: check_one_def Let_def seq_defs)
    next
      case (Inr x)
      then have x: "st_get E s ?old = Inr (Some raw)" using some(4) by simp
      let ?ref = "\<lparr>hr_next = next_check C now, hr_checks = hr_checks ref + 1\<rparr>"
      let ?b = "bset (half_idx_key tx) (encode_half_ref ?ref)
          (bset (half_key (next_check C now) tx) raw (bdelete ?old new_batch))"
      obtain r2 s2 where a: "rep_apply E meta_group ?b s = (r2, s2)" and d: "db s' = db s2"
          and r: "is_ok r = is_ok r2" "is_ok r \<longrightarrow> r = Inr True"
        using assms(1) some(1,2) False x
        by (auto simp: check_one_def seq_defs Let_def split: prod.splits sum.splits)
      let ?mid = "apply_batch (drop_half ?old tx) (db s)"
      have mid: "halves_ok ?mid \<and> half_view ?mid = (half_view (db s))(tx := None)"
        by (rule view_drop [OF assms(2) some(3)]) (simp add: drop_half_get)
      have "ref_ok ?ref" using tx(2) assms(3,4) False by (auto simp: ref_ok_def i64_range_def)
      then have "halves_ok (apply_batch ?b (db s)) \<and>
          half_view (apply_batch ?b (db s)) = (half_view ?mid)(tx \<mapsto> (?ref, raw))"
        using mid tx(1) by (intro view_put) (auto simp: kv_simps drop_half_get)
      then have "halves_ok (apply_batch ?b (db s)) \<and>
          half_view (apply_batch ?b (db s)) = (half_view (db s))(tx \<mapsto> (?ref, raw))"
        using mid by simp
      then show ?thesis
        using rep_apply_db [OF a] rep_apply_ok_db [OF a] assms(2) d r some(3) False by (auto elim: is_okE)
    qed
  qed
qed

section \<open>The scan\<close>

text \<open>What the scan collects: keys that do not parse, and the parsed ones with their values.\<close>

definition half_due :: "(bytes \<times> bytes) list \<Rightarrow> half_scan \<Rightarrow> bool" where
  "half_due kvs sc \<longleftrightarrow>
     (\<forall>k \<in> set (sc_bad sc). prefix half_prefix k \<and> (\<exists>e. parse_half_key k = Inl e)) \<and>
     (\<forall>(tx, v, k) \<in> set (sc_due sc). (k, v) \<in> set kvs \<and> (\<exists>c. parse_half_key k = Inr (c, tx)))"

lemma scan_half_ok:
  assumes "scan_half E now s = Inr sc" "kv_ok (db s)"
  shows "half_due (db s) sc"
proof -
  obtain u where "st_scan E s half_prefix (Some (half_scan_upper_bound now)) max_check_per_pass collect_half
      \<lparr>sc_bad = [], sc_due = []\<rparr> = (Inr u, sc)"
    using assms(1) by (auto simp: scan_half_def split: prod.splits sum.splits)
  then show ?thesis
  proof (rule st_scan_inv [of "half_due (db s)", rotated])
    fix a k v r a'
    assume "half_due (db s) a" "kv_get (db s) k = Some v" "collect_half a k v = (r, a')"
      and "in_range half_prefix (Some (half_scan_upper_bound now)) k"
    moreover from this(4) have "prefix half_prefix k"
      using below_bound_prefix [of half_prefix k] by (auto simp: in_range_def half_scan_upper_bound_def half_key_def)
    ultimately show "half_due (db s) a'"
      using kv_mem [OF assms(2), of k v]
      by (cases "parse_half_key k") (auto simp: half_due_def collect_half_def)
  qed (simp_all add: half_due_def assms(2))
qed


lemma get_bdeletes:
  "kv_get (apply_batch (foldl (\<lambda>b k. bdelete k b) b ks) m) k =
    (if k \<in> set ks then None else kv_get (apply_batch b m) k)"
  by (induction ks arbitrary: b) (auto simp: kv_simps)

lemma drop_bad:
  assumes "halves_ok m" "\<And>k. k \<in> bad \<Longrightarrow> prefix half_prefix k \<and> (\<exists>e. parse_half_key k = Inl e)"
    and "\<And>k. kv_get m' k = (if k \<in> bad then None else kv_get m k)"
  shows "halves_ok m' \<and> half_view m' = half_view m"
proof -
  have idx: "half_idx_key tx \<notin> bad" for tx
    using assms(2) [of "half_idx_key tx"] by (auto simp: half_idx_key_def prefix_defs)
  have key: "half_key c tx \<notin> bad" if "i64_range c" "tx \<noteq> []" for c tx
    using assms(2) [of "half_key c tx"] parse_half_key_enc [OF that] by auto
  have view: "half_view m' tx = half_view m tx" for tx
  proof (cases "half_view m tx")
    case None
    then show ?thesis
      using no_view_no_keys(1) [OF assms(1) None] idx [of tx] by (simp add: half_view_def assms(3))
  next
    case (Some p)
    then obtain ref raw where p: "half_view m tx = Some (ref, raw)" by (cases p) simp
    then show ?thesis
      using view_index [OF p] halves_okD [OF assms(1) p] idx [of tx] key [of "hr_next ref" tx]
      by (auto simp: half_view_def assms(3))
  qed
  then have "half_view m' = half_view m" by (rule ext)
  moreover have "halves_ok m'"
    using assms(1) idx key by (simp add: halves_ok_def assms(3) view)
  ultimately show ?thesis by blast
qed

lemma begin_spec:
  assumes "check_begin E now s = (r, s')" "halves_ok (db s)" "kv_ok (db s)"
  shows "halves_ok (db s') \<and> half_view (db s') = half_view (db s) \<and> kv_ok (db s') \<and>
    (\<forall>n dues. r = Inr (n, dues) \<longrightarrow> (\<exists>sc. dues = sc_due sc \<and> half_due (db s) sc))"
proof (cases "scan_half E now s")
  case (Inl e)
  then show ?thesis using assms by (auto simp: check_begin_def seq_defs)
next
  case (Inr sc)
  note due = scan_half_ok [OF Inr assms(3)]
  show ?thesis
  proof (cases "sc_bad sc = []")
    case True
    then show ?thesis using assms Inr due by (auto simp: check_begin_def seq_defs)
  next
    case False
    let ?b = "foldl (\<lambda>b k. bdelete k b) new_batch (sc_bad sc)"
    obtain r1 where a: "rep_apply E meta_group ?b s = (r1, s')" and r: "r = Inr (n, dues) \<Longrightarrow> dues = sc_due sc" for n dues
      using assms(1) Inr False by (auto simp: check_begin_def seq_defs split: prod.splits sum.splits)
    have "halves_ok (apply_batch ?b (db s)) \<and> half_view (apply_batch ?b (db s)) = half_view (db s)"
      by (rule drop_bad [OF assms(2), of "set (sc_bad sc)"])
        (use due in \<open>auto simp: half_due_def get_bdeletes kv_simps\<close>)
    then show ?thesis using rep_apply_db [OF a] assms(2,3) r due by auto
  qed
qed

section \<open>The producer leaves the half messages alone\<close>

lemma kv_moves_order: "moves kv_moves (append_order E now rnd m)"
  unfolding append_order_def take_offset_def order_batch_def Let_def split_def
  by (auto intro!: kv_moves_sbind kv_moves_registry kv_moves_select kv_moves_get_qstate kv_moves_async kv_moves_memory)

lemma kv_moves_rr: "moves kv_moves (select_rr E t n d)"
  by (rule kv_moves_same_db) (auto simp: select_rr_def Let_def split: if_splits)

lemma kv_moves_batch: "moves kv_moves (batch_order E now rnds ms)"
  unfolding batch_order_def take_offset_def order_batch_def Let_def split_def
  by (auto intro!: kv_moves_sbind kv_moves_registry kv_moves_rr kv_moves_get_qstate kv_moves_async kv_moves_memory)

lemma kv_moves_delay: "moves kv_moves (append_delay_order E now rnd m)"
proof -
  have "moves kv_moves (smod (\<lambda>s. s\<lparr>delay_next := n, delay_loaded := True\<rparr>))" for n
    by (simp add: moves_def kv_moves_def smod_def)
  then show ?thesis
    unfolding append_delay_order_def Let_def by (intro kv_moves_sbind kv_moves_async kv_moves_simple)
qed

lemma quiet_kv_halves: "quiet s s' \<Longrightarrow> same_halves (db s) (db s')"
  by (rule same_aside_halves [OF quiet_aside])

lemma step_halves: "prod_step s s' \<Longrightarrow> same_halves (db s) (db s') \<and> kv_moves s s'"
proof (induction rule: prod_step.induct)
  case (step_create E now name n s r s')
  then show ?case using movesD [OF quiet_create_topic] movesD [OF kv_moves_registry(2)] quiet_kv_halves by blast
next
  case (step_ensure E now name s r s')
  then show ?case using movesD [OF quiet_ensure_topic] movesD [OF kv_moves_registry(1)] quiet_kv_halves by blast
next
  case (step_order E now rnd m s r s')
  then show ?case
    using append_order_moves [OF step_order(1)] movesD [OF kv_moves_order step_order(1)] quiet_kv_halves
      same_aside_halves [OF takes_aside] by blast
next
  case (step_batch E now rnds ms s r s')
  then show ?case
    using batch_order_moves [OF step_batch] movesD [OF kv_moves_batch step_batch(1)] quiet_kv_halves
      same_aside_halves [OF takes_aside] by blast
next
  case (step_delay E now rnd m s r s')
  have "\<not> half_side (delay_key d n)" "\<not> half_side delay_alloc_key" for d n
    by (simp_all add: half_side_def delay_key_def delay_alloc_key_def prefix_defs)
  then have "same_halves (db s) (kv_set delay_alloc_key v (kv_set (delay_key d n) w (db s)))" for v w d n
    by (auto simp: same_halves_def kv_simps)
  then show ?case
    using append_delay_order_spec [OF step_delay(1)] movesD [OF kv_moves_delay step_delay(1)]
    by (elim disjE exE conjE) auto
next
  case (step_finish t p s r s')
  have "db s' = db s"
    using step_finish by (cases p) (auto simp: append_finish_def seq_defs split: sum.splits prod.splits)
  then show ?case by (simp add: kv_moves_def)
next
  case (step_subscribe t s ch s')
  then show ?case by (auto simp: subscribe_def kv_moves_def split: option.splits)
qed (simp_all add: invalidate_counters_def new_producer_def kv_moves_def)

section \<open>Staging, deciding and checking, interleaved\<close>

text \<open>
  The node that leads the metadata group with the checker's view of it: the entries of the last
  scan that are still to be handled, and three histories, the transactions ever staged, the ones an
  end has decided, and one entry for every time the checker decided to ask about a transaction.
\<close>

record 'n txn_sys =
  hn :: 'n
  pend :: "(bytes \<times> bytes \<times> bytes) list"
  used :: "bytes list"
  decided :: "bytes list"
  asked :: "bytes list"

text \<open>The random identifier of a new transaction is one that was never drawn before.\<close>

inductive txn_step :: "txn_config \<Rightarrow> 'z txn_node_scheme txn_sys \<Rightarrow> 'z txn_node_scheme txn_sys \<Rightarrow> bool"
  for C :: txn_config where
  tx_prod: "prod_step (hn y) s' \<Longrightarrow> txn_step C y (y\<lparr>hn := s'\<rparr>)"
| tx_stage: "stage E C now rnd tx_rnd m (hn y) = (r, s') \<Longrightarrow> is_leader E meta_group \<Longrightarrow> tx = new_message_id tx_rnd \<Longrightarrow>
    tx \<notin> set (used y) \<Longrightarrow> tx \<noteq> [] \<Longrightarrow> i64_range (next_check C now) \<Longrightarrow>
    txn_step C y (y\<lparr>hn := s', used := tx # used y\<rparr>)"
| tx_end: "end_tx E now rnd tx c (hn y) = (r, s') \<Longrightarrow> is_leader E meta_group \<Longrightarrow>
    txn_step C y (y\<lparr>hn := s', decided := (if r = Inr True then tx # decided y else decided y)\<rparr>)"
| tx_begin: "check_begin E now (hn y) = (r, s') \<Longrightarrow>
    txn_step C y (y\<lparr>hn := s', pend := (case r of Inl e \<Rightarrow> [] | Inr (n, dues) \<Rightarrow> dues)\<rparr>)"
| tx_drop: "pend y = (tx, raw, hk) # rest \<Longrightarrow> decode_message raw = Inl e \<Longrightarrow>
    drop_locked E tx hk (hn y) = (r, s') \<Longrightarrow>
    txn_step C y (y\<lparr>hn := s', pend := (if is_ok r then rest else [])\<rparr>)"
| tx_check: "pend y = (tx, raw, hk) # rest \<Longrightarrow> decode_message raw = Inr m \<Longrightarrow>
    check_one E C now hk tx (hn y) = (r, s') \<Longrightarrow> i64_range (next_check C now) \<Longrightarrow>
    txn_step C y (y\<lparr>hn := s', asked := (if r = Inr True then tx # asked y else asked y),
      pend := (if is_ok r then rest else [])\<rparr>)"

inductive txn_reach :: "txn_config \<Rightarrow> 'z txn_node_scheme txn_sys \<Rightarrow> 'z txn_node_scheme txn_sys \<Rightarrow> bool"
  for C :: txn_config where
  txn_refl: "txn_reach C y y"
| txn_more: "txn_reach C x y \<Longrightarrow> txn_step C y z \<Longrightarrow> txn_reach C x z"

definition asked_ok :: "txn_config \<Rightarrow> (half_ref \<times> bytes) option \<Rightarrow> nat \<Rightarrow> bool" where
  "asked_ok C v n \<longleftrightarrow> int n \<le> max_checks C \<and>
     (case v of None \<Rightarrow> True | Some (ref, _) \<Rightarrow> int n \<le> hr_checks ref \<and> hr_checks ref \<le> max_checks C)"

text \<open>An entry that is still to be handled: the body of its transaction has not changed, and one that
  does not decode has not been rescheduled.\<close>

definition pend_ok :: "(bytes \<Rightarrow> (half_ref \<times> bytes) option) \<Rightarrow> bytes \<times> bytes \<times> bytes \<Rightarrow> bool" where
  "pend_ok V = (\<lambda>(tx, raw, hk). \<exists>c. i64_range c \<and> tx \<noteq> [] \<and> hk = half_key c tx \<and>
     (\<forall>ref w. V tx = Some (ref, w) \<longrightarrow> w = raw \<and> (is_ok (decode_message raw) \<or> hr_next ref = c)))"

definition txn_ok :: "txn_config \<Rightarrow> 'z txn_node_scheme txn_sys \<Rightarrow> bool" where
  "txn_ok C y \<longleftrightarrow> kv_ok (db (hn y)) \<and> halves_ok (db (hn y)) \<and>
     (\<forall>tx. half_view (db (hn y)) tx \<noteq> None \<longrightarrow> tx \<in> set (used y)) \<and>
     (\<forall>tx \<in> set (decided y). tx \<in> set (used y) \<and> half_view (db (hn y)) tx = None) \<and>
     (\<forall>p \<in> set (pend y). fst p \<in> set (used y) \<and> pend_ok (half_view (db (hn y))) p) \<and>
     set (asked y) \<subseteq> set (used y) \<and>
     (\<forall>tx. asked_ok C (half_view (db (hn y)) tx) (count_list (asked y) tx))"

lemma kv_moves_forward: "moves kv_moves (apply_or_forward E g b)"
  by (auto simp: moves_def kv_moves_def dest: apply_or_forward_kv_ok)

lemma kv_moves_enqueue: "moves kv_moves (enqueue E now rnd m raw)"
  using enqueue_spec by (fastforce simp: moves_def)

lemma kv_moves_stage: "moves kv_moves (stage E C now rnd tx_rnd m)"
  unfolding stage_def Let_def by (auto intro!: kv_moves_sbind kv_moves_registry kv_moves_forward)

lemma kv_moves_end: "moves kv_moves (end_tx E now rnd tx c)"
  unfolding end_tx_def commit_half_def Let_def
  by (intro kv_moves_sbind kv_moves_simple)
    (auto intro!: kv_moves_sbind kv_moves_forward kv_moves_enqueue split: option.split)

lemma kv_moves_count: "moves kv_moves (smod (\<lambda>s. s\<lparr>dropped_total := f s\<rparr>))" "moves kv_moves (smod (\<lambda>s. s\<lparr>checks_total := f s\<rparr>))"
  by (simp_all add: moves_def kv_moves_def smod_def)

lemma kv_moves_check: "moves kv_moves (check_one E C now hk tx)"
  unfolding check_one_def Let_def
  by (intro kv_moves_sbind kv_moves_simple)
    (auto intro!: kv_moves_sbind kv_moves_apply kv_moves_count split: option.split sum.split)

text \<open>The changes a step can make to the abstract transactions.\<close>

lemma txn_ok_same:
  "txn_ok C y \<Longrightarrow> kv_ok (db s') \<Longrightarrow> halves_ok (db s') \<Longrightarrow> half_view (db s') = half_view (db (hn y)) \<Longrightarrow>
     txn_ok C (y\<lparr>hn := s'\<rparr>)"
  by (simp add: txn_ok_def)

lemma pend_ok_sub:
  "pend_ok V p \<Longrightarrow> V' (fst p) = V (fst p) \<or> V' (fst p) = None \<Longrightarrow> pend_ok V' p"
  by (cases p) (elim disjE; simp add: pend_ok_def; blast)

lemma txn_okD:
  assumes "txn_ok C y"
  shows "p \<in> set (pend y) \<Longrightarrow> fst p \<in> set (used y) \<and> pend_ok (half_view (db (hn y))) p"
    and "half_view (db (hn y)) tx \<noteq> None \<Longrightarrow> tx \<in> set (used y)"
    and "tx \<in> set (decided y) \<Longrightarrow> tx \<in> set (used y) \<and> half_view (db (hn y)) tx = None"
    and "asked_ok C (half_view (db (hn y)) tx) (count_list (asked y) tx)"
  using assms unfolding txn_ok_def by blast+

lemma txn_ok_none:
  assumes "txn_ok C y" "kv_ok (db s')" "halves_ok (db s')" "half_view (db s') = (half_view (db (hn y)))(tx := None)"
  shows "txn_ok C (y\<lparr>hn := s'\<rparr>)"
proof -
  have "pend_ok (half_view (db s')) p" if "p \<in> set (pend y)" for p
    by (rule pend_ok_sub [OF txn_okD(1) [OF assms(1) that, THEN conjunct2]]) (simp add: assms(4))
  moreover have "asked_ok C (half_view (db s') tx') (count_list (asked y) tx')" for tx'
    using assms(1) by (cases "tx' = tx") (auto simp: txn_ok_def asked_ok_def assms(4))
  ultimately show ?thesis using assms by (auto simp: txn_ok_def)
qed

lemma txn_ok_put:
  assumes "txn_ok C y" "kv_ok (db s')" "halves_ok (db s')" "0 \<le> max_checks C" "tx \<notin> set (used y)"
    "half_view (db s') = (half_view (db (hn y)))(tx \<mapsto> (\<lparr>hr_next = c, hr_checks = 0\<rparr>, raw))"
  shows "txn_ok C (y\<lparr>hn := s', used := tx # used y\<rparr>)"
proof -
  have "pend_ok (half_view (db s')) p" if "p \<in> set (pend y)" for p
    by (rule pend_ok_sub [OF txn_okD(1) [OF assms(1) that, THEN conjunct2]])
      (use txn_okD(1) [OF assms(1) that] assms(5) in \<open>auto simp: assms(6)\<close>)
  moreover have "asked_ok C (half_view (db s') tx') (count_list (asked y) tx')" for tx'
  proof (cases "tx' = tx")
    case True
    have "tx \<notin> set (asked y)" using assms(1,5) by (auto simp: txn_ok_def)
    then have "count_list (asked y) tx = 0" by (simp add: count_list_0_iff)
    then show ?thesis using True assms(4) by (simp add: asked_ok_def assms(6))
  qed (use assms(1) in \<open>simp add: txn_ok_def assms(6)\<close>)
  moreover have "tx' \<in> set (used y) \<and> half_view (db s') tx' = None" if "tx' \<in> set (decided y)" for tx'
    using assms(1,5) that by (auto simp: txn_ok_def assms(6))
  moreover have "tx' = tx \<or> tx' \<in> set (used y)" if "half_view (db s') tx' \<noteq> None" for tx'
    using assms(1) that by (cases "tx' = tx") (auto simp: txn_ok_def assms(6))
  ultimately show ?thesis using assms(1-3) unfolding txn_ok_def by simp blast
qed

lemma txn_ok_check:
  assumes "txn_ok C y" "kv_ok (db s')" "halves_ok (db s')" "half_view (db (hn y)) tx = Some (ref, raw)"
    "hr_checks ref < max_checks C" "is_ok (decode_message raw)"
    "half_view (db s') = (half_view (db (hn y)))(tx \<mapsto> (\<lparr>hr_next = c, hr_checks = hr_checks ref + 1\<rparr>, raw))"
  shows "txn_ok C (y\<lparr>hn := s'\<rparr>) \<and> txn_ok C (y\<lparr>hn := s', asked := tx # asked y\<rparr>)"
proof -
  have "pend_ok (half_view (db s')) p" if "p \<in> set (pend y)" for p
    using assms(1,4,6) that by (fastforce simp: txn_ok_def pend_ok_def assms(7))
  moreover have "asked_ok C (half_view (db s') tx') (count_list (asked y) tx') \<and>
      asked_ok C (half_view (db s') tx') (count_list (tx # asked y) tx')" for tx'
    using assms(1,4,5) by (cases "tx' = tx") (auto simp: txn_ok_def asked_ok_def assms(7) dest!: spec [of _ tx])
  moreover have "tx \<in> set (used y)" using assms(1,4) by (auto simp: txn_ok_def)
  moreover have "half_view (db s') tx' = None" if "tx' \<in> set (decided y)" for tx'
    using assms(1,4) that by (auto simp: txn_ok_def assms(7))
  moreover have "tx' \<in> set (used y)" if "half_view (db s') tx' \<noteq> None" for tx'
    using assms(1,4) that by (cases "tx' = tx") (auto simp: txn_ok_def assms(7))
  ultimately show ?thesis using assms(1-3) unfolding txn_ok_def by simp
qed

lemma txn_ok_pend: "txn_ok C y \<Longrightarrow> set p \<subseteq> set (pend y) \<Longrightarrow> txn_ok C (y\<lparr>pend := p\<rparr>)"
  by (auto simp: txn_ok_def)

lemma txn_ok_decided:
  "txn_ok C y \<Longrightarrow> tx \<in> set (used y) \<Longrightarrow> half_view (db (hn y)) tx = None \<Longrightarrow> txn_ok C (y\<lparr>decided := tx # decided y\<rparr>)"
  by (auto simp: txn_ok_def)

text \<open>Every step keeps the invariant.\<close>

lemma due_pend_ok:
  assumes "half_due m sc" "halves_ok m" "kv_ok m" "p \<in> set (sc_due sc)"
  shows "half_view m (fst p) \<noteq> None \<and> pend_ok (half_view m) p"
proof -
  obtain tx v k where p: "p = (tx, v, k)" by (cases p)
  have "(k, v) \<in> set m" and "\<exists>c. parse_half_key k = Inr (c, tx)"
    using assms(1,4) unfolding half_due_def p by blast+
  then obtain c where k: "half_key c tx = k" "i64_range c" "tx \<noteq> []" using parse_half_key_sound by blast
  have g: "kv_get m (half_key c tx) = Some v" using \<open>(k, v) \<in> set m\<close> assms(3) by (simp add: k kv_mem)
  then obtain ref raw where v: "half_view m tx = Some (ref, raw)" "hr_next ref = c"
    using assms(2) k(2,3) unfolding halves_ok_def by blast
  then show ?thesis using view_index [OF v(1)] g k by (auto simp: p pend_ok_def)
qed

lemma step_txn_ok:
  assumes "txn_step C y z" "txn_ok C y" "0 \<le> max_checks C" "max_checks C < 2 ^ 63"
  shows "txn_ok C z"
  using assms(1)
proof cases
  case (tx_prod s')
  have "same_halves (db (hn y)) (db s')" "kv_moves (hn y) s'" using step_halves [OF tx_prod(2)] by simp_all
  then have "txn_ok C (y\<lparr>hn := s'\<rparr>)"
    using assms(2) same_halves_view same_halves_ok
    by (intro txn_ok_same [OF assms(2)]) (auto simp: txn_ok_def kv_moves_def)
  then show ?thesis by (simp add: tx_prod)
next
  case (tx_stage E now rnd tx_rnd m r s' tx)
  have k: "kv_ok (db s')" using movesD [OF kv_moves_stage tx_stage(2)] assms(2) by (simp add: kv_moves_def txn_ok_def)
  have h: "halves_ok (db (hn y))" using assms(2) by (simp add: txn_ok_def)
  have none: "half_view (db (hn y)) tx = None" using txn_okD(2) [OF assms(2), of tx] tx_stage(5) by blast
  have sp: "halves_ok (db s') \<and> (half_view (db s') = half_view (db (hn y)) \<or>
      (\<exists>raw. half_view (db s') = (half_view (db (hn y)))(tx \<mapsto> (\<lparr>hr_next = next_check C now, hr_checks = 0\<rparr>, raw))))"
    using stage_spec [OF tx_stage(2,3) h] none tx_stage(4,6,7) by auto
  then have "txn_ok C (y\<lparr>hn := s', used := tx # used y\<rparr>)"
  proof (elim conjE disjE exE)
    assume "halves_ok (db s')" "half_view (db s') = half_view (db (hn y))"
    then have "txn_ok C (y\<lparr>hn := s'\<rparr>)" using txn_ok_same [OF assms(2) k] by blast
    then show ?thesis by (auto simp: txn_ok_def)
  qed (use txn_ok_put [OF assms(2) k _ assms(3) tx_stage(5)] in blast)
  then show ?thesis by (simp add: tx_stage)
next
  case (tx_end E now rnd tx c r s')
  have k: "kv_ok (db s')" using movesD [OF kv_moves_end tx_end(2)] assms(2) by (simp add: kv_moves_def txn_ok_def)
  have h: "halves_ok (db (hn y))" using assms(2) by (simp add: txn_ok_def)
  have sp: "halves_ok (db s') \<and> ((half_view (db s') = half_view (db (hn y)) \<and> r \<noteq> Inr True) \<or>
      (half_view (db (hn y)) tx \<noteq> None \<and> half_view (db s') = (half_view (db (hn y)))(tx := None)))"
    using end_spec [OF tx_end(2,3) h] by auto
  have "txn_ok C (y\<lparr>hn := s'\<rparr>)"
    using sp txn_ok_same [OF assms(2) k] txn_ok_none [OF assms(2) k] by blast
  moreover have "tx \<in> set (used y) \<and> half_view (db s') tx = None" if "r = Inr True"
    using sp that assms(2) by (auto simp: txn_ok_def)
  ultimately show ?thesis using txn_ok_decided [of C "y\<lparr>hn := s'\<rparr>" tx] by (auto simp: tx_end)
next
  case (tx_begin E now r s')
  have h: "halves_ok (db (hn y))" "kv_ok (db (hn y))" using assms(2) by (simp_all add: txn_ok_def)
  note sp = begin_spec [OF tx_begin(2) h]
  have ok: "txn_ok C (y\<lparr>hn := s'\<rparr>)" using sp txn_ok_same [OF assms(2)] by blast
  show ?thesis
  proof (cases r)
    case (Inl e)
    then show ?thesis using txn_ok_pend [OF ok, of "[]"] by (simp add: tx_begin)
  next
    case (Inr p)
    then obtain n dues sc where r: "r = Inr (n, dues)" "dues = sc_due sc" "half_due (db (hn y)) sc"
      using sp by (cases p) auto
    have "fst p \<in> set (used y) \<and> pend_ok (half_view (db (hn y))) p" if "p \<in> set dues" for p
      using due_pend_ok [OF r(3) h] that assms(2) by (auto simp: txn_ok_def r(2))
    then show ?thesis using ok sp by (simp add: tx_begin r(1) txn_ok_def)
  qed
next
  case (tx_drop tx raw hk rest e E r s')
  have h: "halves_ok (db (hn y))" using assms(2) by (simp add: txn_ok_def)
  have "pend_ok (half_view (db (hn y))) (tx, raw, hk)" using assms(2) tx_drop(2) by (auto simp: txn_ok_def)
  then obtain c where c: "i64_range c" "tx \<noteq> []" "hk = half_key c tx"
      and v: "\<And>ref w. half_view (db (hn y)) tx = Some (ref, w) \<Longrightarrow> hr_next ref = c"
    using tx_drop(3) by (auto simp: pend_ok_def)
  have d: "rep_apply E meta_group (drop_half (half_key c tx) tx) (hn y) = (r, s')"
    using tx_drop(4) by (simp add: drop_locked_def c)
  have k: "kv_ok (db s')" using movesD [OF kv_moves_apply d] assms(2) by (simp add: kv_moves_def txn_ok_def)
  have "halves_ok (db s') \<and> (half_view (db s') = half_view (db (hn y)) \<or>
      half_view (db s') = (half_view (db (hn y)))(tx := None))"
    using drop_spec [OF d h c(1,2)] v by blast
  then have "txn_ok C (y\<lparr>hn := s'\<rparr>)"
    using txn_ok_same [OF assms(2) k] txn_ok_none [OF assms(2) k] by blast
  then have "txn_ok C ((y\<lparr>hn := s'\<rparr>)\<lparr>pend := (if is_ok r then rest else [])\<rparr>)"
    by (rule txn_ok_pend) (use tx_drop(2) in auto)
  then show ?thesis by (simp add: tx_drop)
next
  case (tx_check tx raw hk rest m E now r s')
  have h: "halves_ok (db (hn y))" using assms(2) by (simp add: txn_ok_def)
  have "pend_ok (half_view (db (hn y))) (tx, raw, hk)" using assms(2) tx_check(2) by (auto simp: txn_ok_def)
  then obtain c where c: "hk = half_key c tx"
      and v: "\<And>ref w. half_view (db (hn y)) tx = Some (ref, w) \<Longrightarrow> w = raw"
    by (auto simp: pend_ok_def)
  have k: "kv_ok (db s')" using movesD [OF kv_moves_check tx_check(4)] assms(2) by (simp add: kv_moves_def txn_ok_def)
  let ?a = "if r = Inr True then tx # asked y else asked y"
  have "txn_ok C (y\<lparr>hn := s', asked := ?a\<rparr>)"
    using check_spec [OF tx_check(4) [unfolded c] h tx_check(5) assms(4)]
  proof (elim conjE disjE exE)
    assume "halves_ok (db s')" "half_view (db s') = half_view (db (hn y))" "r \<noteq> Inr True"
    then show ?thesis using txn_ok_same [OF assms(2) k] by simp
  next
    fix ref w
    assume "halves_ok (db s')" "half_view (db s') = (half_view (db (hn y)))(tx := None)" "r \<noteq> Inr True"
    then show ?thesis using txn_ok_none [OF assms(2) k] by simp
  next
    fix ref w
    assume "halves_ok (db s')" "half_view (db (hn y)) tx = Some (ref, w)" "hr_checks ref < max_checks C"
      "half_view (db s') = (half_view (db (hn y)))(tx \<mapsto> (\<lparr>hr_next = next_check C now, hr_checks = hr_checks ref + 1\<rparr>, w))"
    then show ?thesis using txn_ok_check [OF assms(2) k] v tx_check(3) by (cases "r = Inr True") simp_all
  qed
  then have "txn_ok C ((y\<lparr>hn := s', asked := ?a\<rparr>)\<lparr>pend := (if is_ok r then rest else [])\<rparr>)"
    by (rule txn_ok_pend) (use tx_check(2) in auto)
  then show ?thesis unfolding tx_check(1) .
qed

lemma reach_txn_ok:
  "txn_reach C x y \<Longrightarrow> txn_ok C x \<Longrightarrow> 0 \<le> max_checks C \<Longrightarrow> max_checks C < 2 ^ 63 \<Longrightarrow> txn_ok C y"
  by (induction rule: txn_reach.induct) (auto intro: step_txn_ok)

section \<open>An example\<close>

definition paid_msg :: message where
  "paid_msg = message0\<lparr>m_id := ''A1'', m_topic := ''orders'', m_body := ''paid''\<rparr>"

definition txn_conf :: txn_config where
  "txn_conf = \<lparr>check_interval = 30 * 1000000000, max_checks = 15\<rparr>"

definition tx0 :: txn_node where
  "tx0 = \<lparr>db = [], sent = [],
     topics = [(''orders'', \<lparr>tc_name = ''orders'', tc_queues = 4, tc_created = 0, tc_retention = 1000\<rparr>)],
     groups = [], auto_create = True, default_queues = 4, default_max = 16,
     qstates = [], rr = [], wakers = [], chan_count = 0, chans_closed = [],
     delay_next = 0, delay_loaded = False, binary_encoding = True,
     checks_total = 0, dropped_total = 0, notified = []\<rparr>"

definition sys0 :: "txn_node txn_sys" where
  "sys0 = \<lparr>hn = tx0, pend = [], used = [], decided = [], asked = []\<rparr>"

text \<open>A node on which nothing was staged yet.\<close>

definition fresh_sys :: "txn_config \<Rightarrow> 'z txn_node_scheme txn_sys \<Rightarrow> bool" where
  "fresh_sys C y \<longleftrightarrow> kv_ok (db (hn y)) \<and> same_halves [] (db (hn y)) \<and> pend y = [] \<and> used y = [] \<and>
     decided y = [] \<and> asked y = [] \<and> 0 \<le> max_checks C \<and> max_checks C < 2 ^ 63"

lemma fresh_txn_ok: "fresh_sys C y \<Longrightarrow> txn_ok C y"
proof -
  assume f: "fresh_sys C y"
  have "half_view [] tx = None" for tx by (simp add: half_view_def kv_simps)
  moreover have "halves_ok []" by (simp add: halves_ok_def kv_simps)
  ultimately have "half_view (db (hn y)) tx = None" "halves_ok (db (hn y))" for tx
    using f same_halves_view [of "[]" "db (hn y)"] same_halves_ok [of "[]" "db (hn y)"]
    by (simp_all add: fresh_sys_def)
  then show ?thesis using f by (simp add: txn_ok_def fresh_sys_def asked_ok_def)
qed

lemma reach_fresh: "txn_reach C x y \<Longrightarrow> fresh_sys C x \<Longrightarrow> txn_ok C y"
  using reach_txn_ok [of C x y] fresh_txn_ok [of C x] by (simp add: fresh_sys_def)

lemma sys0_fresh: "fresh_sys txn_conf sys0"
  by (simp add: fresh_sys_def sys0_def tx0_def txn_conf_def)

lemma standalone_meta [simp]: "is_leader standalone g" "\<not> rd_fail standalone k"
  by (simp_all add: standalone_def)

definition tx_id :: bytes where
  "tx_id = new_message_id ''0123456789abcdef''"

definition half_msg :: message where
  "half_msg = paid_msg\<lparr>m_born_at := 1000, m_store_at := 1000\<rparr>"

lemma tx_id_nonempty [simp]: "tx_id \<noteq> []"
  using length_new_message_id [of "''0123456789abcdef''"] by (auto simp: tx_id_def)

lemma half_decode: "decode_message (encode_message True half_msg) = Inr half_msg"
proof -
  have "message_ok half_msg"
    by (simp add: message_ok_def text_ok_def half_msg_def paid_msg_def message0_def props_ok_def digest_ok_def utf8_ascii code_def i64_range_def)
  moreover have "meta_fits half_msg"
    unfolding meta_fits_def by (rule less_trans [of _ 500], code_simp, simp)
  ultimately show ?thesis by (rule message_roundtrip)
qed

text \<open>Staging a message, rolling it back, and committing it.\<close>

definition tx1 :: txn_node where
  "tx1 = tx0\<lparr>db := kv_set (half_idx_key tx_id) (encode_half_ref \<lparr>hr_next = 31000, hr_checks = 0\<rparr>)
     (kv_set (half_key 31000 tx_id) (encode_message True half_msg) [])\<rparr>"

lemma next_31: "next_check txn_conf 1000 = 31000"
  by (simp add: next_check_def txn_conf_def milliseconds_def)

lemma tx0_stage:
  "stage standalone txn_conf 1000 ''r'' ''0123456789abcdef'' paid_msg tx0 = (Inr (half_msg, tx_id), tx1)"
proof -
  have "ensure_topic standalone 1000 ''orders'' tx0 =
      (Inr \<lparr>tc_name = ''orders'', tc_queues = 4, tc_created = 0, tc_retention = 1000\<rparr>, tx0)"
    by (simp add: ensure_topic_def validate_name_def orders_name get_topic_def tx0_def kv_get_def)
  moreover have "stamp 1000 ''r'' paid_msg = half_msg"
    by (simp add: stamp_def half_msg_def paid_msg_def message0_def)
  moreover have "\<not> bad_body paid_msg" "m_topic paid_msg = ''orders''"
    by (simp_all add: paid_msg_def bad_body_def max_body_size_def)
  moreover have "binary_encoding tx0" "db tx0 = []" by (simp_all add: tx0_def)
  ultimately show ?thesis
    by (simp add: stage_def seq_defs apply_or_forward_standalone Let_def tx_id_def [symmetric] next_31 tx1_def set_db_def kv_simps del: kv_set.simps)
qed

lemma tx1_view: "halves_ok (db tx1)" "half_view (db tx1) tx_id = Some (\<lparr>hr_next = 31000, hr_checks = 0\<rparr>, encode_message True half_msg)"
proof -
  have e: "halves_ok []" "half_view [] tx_id = None" by (simp_all add: halves_ok_def half_view_def kv_simps)
  have "halves_ok (db tx1) \<and> half_view (db tx1) = (half_view [])(tx_id \<mapsto> (\<lparr>hr_next = 31000, hr_checks = 0\<rparr>, encode_message True half_msg))"
    by (rule view_put [OF e]) (simp_all add: ref_ok_def i64_range_def tx1_def kv_simps del: kv_set.simps)
  then show "halves_ok (db tx1)" "half_view (db tx1) tx_id = Some (\<lparr>hr_next = 31000, hr_checks = 0\<rparr>, encode_message True half_msg)"
    by simp_all
qed

lemma tx1_commit:
  "\<exists>s'. end_tx standalone 2000 ''r'' tx_id True tx1 = (Inr True, s')"
proof -
  have "\<exists>m' s'. append_msg standalone 2000 ''r'' half_msg tx1 = (Inr m', s')"
  proof (rule append_live)
    show "kv_get (topics tx1) (m_topic half_msg) = Some \<lparr>tc_name = ''orders'', tc_queues = 4, tc_created = 0, tc_retention = 1000\<rparr>"
      by (simp add: tx1_def tx0_def half_msg_def paid_msg_def kv_get_def)
    have "alloc_key t q \<noteq> half_idx_key x" "alloc_key t q \<noteq> half_key d x" for t q x d
      by (simp_all add: alloc_key_def half_idx_key_def half_key_def prefix_defs)
    then show "length b = 8" if "kv_get (db tx1) (alloc_key (m_topic half_msg) q) = Some b" for q b
      using that by (simp add: tx1_def kv_simps del: kv_set.simps)
  qed (simp_all add: half_msg_def paid_msg_def bad_body_def max_body_size_def orders_name)
  then obtain m' s' where a: "enqueue standalone 2000 ''r'' half_msg (encode_message True half_msg) tx1 = (Inr m', s')"
    by (auto simp: enqueue_def)
  obtain idx where "st_get standalone tx1 (half_idx_key tx_id) = Inr (Some idx)"
      "decode_half_ref idx = Inr \<lparr>hr_next = 31000, hr_checks = 0\<rparr>"
      "st_get standalone tx1 (half_key 31000 tx_id) = Inr (Some (encode_message True half_msg))"
    using read_half(2) [OF tx1_view(1) standalone_meta(2) tx1_view(2)] by auto
  then show ?thesis
    using a by (simp add: end_tx_def commit_half_def seq_defs Let_def half_decode apply_or_forward_standalone)
qed

lemma reach_tx1: "txn_reach txn_conf sys0 (sys0\<lparr>hn := tx1, used := [tx_id]\<rparr>)"
proof -
  have "txn_step txn_conf sys0 (sys0\<lparr>hn := tx1, used := tx_id # used sys0\<rparr>)"
    by (rule txn_step.tx_stage [of standalone txn_conf 1000 "''r''" "''0123456789abcdef''" paid_msg])
      (simp_all add: tx0_stage sys0_def tx_id_def [symmetric] next_31 i64_range_def)
  then show ?thesis using txn_more [OF txn_refl] by (simp add: sys0_def)
qed

lemma reach_decided:
  "end_tx standalone 2000 ''r'' tx_id True tx1 = (Inr True, s') \<Longrightarrow>
     txn_reach txn_conf sys0 (sys0\<lparr>hn := s', used := [tx_id], decided := [tx_id]\<rparr>)"
proof -
  assume e: "end_tx standalone 2000 ''r'' tx_id True tx1 = (Inr True, s')"
  have "txn_step txn_conf (sys0\<lparr>hn := tx1, used := [tx_id]\<rparr>) (sys0\<lparr>hn := s', used := [tx_id], decided := [tx_id]\<rparr>)"
    using txn_step.tx_end [of standalone 2000 "''r''" tx_id True "sys0\<lparr>hn := tx1, used := [tx_id]\<rparr>" "Inr True" s' txn_conf] e
    by (simp add: sys0_def)
  then show ?thesis by (rule txn_more [OF reach_tx1])
qed

section \<open>Properties\<close>



text \<open>C27: a transaction that was decided stays decided: whatever stages, ends, checks, passes and
  other writes follow or run between, with identifiers that are drawn afresh, it never has a half message
  again, and ending or checking it once more reports that there is nothing to do and changes nothing.\<close>

theorem decided_stays_decided:
  assumes "txn_reach C y0 y" "fresh_sys C y0" "tx \<in> set (decided y)" "is_leader E meta_group" "\<And>k. \<not> rd_fail E k"
  shows "half_view (db (hn y)) tx = None \<and> kv_get (db (hn y)) (half_idx_key tx) = None \<and>
    end_tx E now rnd tx c (hn y) = (Inr False, hn y) \<and>
    check_one E C now hk tx (hn y) = (Inr False, hn y)"
proof -
  have ok: "txn_ok C y" using reach_fresh assms(1,2) by blast
  then have h: "halves_ok (db (hn y))" and v: "half_view (db (hn y)) tx = None"
    using txn_okD(3) [OF ok assms(3)] by (simp_all add: txn_ok_def)
  have "kv_get (db (hn y)) (half_idx_key tx) = None" by (rule no_view_no_keys(1) [OF h v])
  then show ?thesis using v assms(4,5) by (simp add: end_tx_def check_one_def seq_defs st_get_def)
qed

theorem decided_stays_decided_witness:
  "\<exists>s'. end_tx standalone 2000 ''r'' tx_id True tx1 = (Inr True, s') \<and> half_view (db s') tx_id = None \<and>
     end_tx standalone 3000 ''r'' tx_id True s' = (Inr False, s')"
proof -
  obtain s' where e: "end_tx standalone 2000 ''r'' tx_id True tx1 = (Inr True, s')" using tx1_commit by blast
  have "half_view (db s') tx_id = None \<and> kv_get (db s') (half_idx_key tx_id) = None \<and>
      end_tx standalone 3000 ''r'' tx_id True s' = (Inr False, s') \<and>
      check_one standalone txn_conf 3000 [] tx_id s' = (Inr False, s')"
    using decided_stays_decided [OF reach_decided [OF e] sys0_fresh, of tx_id standalone 3000 "''r''" True "[]"] by simp
  then show ?thesis using e by blast
qed

text \<open>C30: no producer is asked more than the configured number of times about a transaction, however
  often checks fail, passes repeat and other operations intervene; the count that is kept with the
  half message is never behind the number of questions.\<close>

theorem checks_bounded:
  assumes "txn_reach C y0 y" "fresh_sys C y0"
  shows "int (count_list (asked y) tx) \<le> max_checks C \<and>
    (\<forall>ref raw. half_view (db (hn y)) tx = Some (ref, raw) \<longrightarrow> int (count_list (asked y) tx) \<le> hr_checks ref)"
  using txn_okD(4) [OF reach_fresh [OF assms], of tx] by (auto simp: asked_ok_def)

theorem checks_bounded_witness:
  "half_view (db tx1) tx_id = Some (\<lparr>hr_next = 31000, hr_checks = 0\<rparr>, encode_message True half_msg) \<and>
   count_list (asked (sys0\<lparr>hn := tx1, used := [tx_id]\<rparr>)) tx_id = 0"
  using checks_bounded [OF reach_tx1 sys0_fresh, of tx_id] tx1_view(2) by simp

text \<open>C28: a commit never loses its message: the half message goes only when the message has been
  written to a queue of its topic here or taken by the leader of its queue's group, and a rollback
  writes and sends nothing.\<close>

theorem commit_never_loses:
  assumes "end_tx E now rnd tx c s = (r, s')" "is_leader E meta_group" "halves_ok (db s)"
    and "half_view (db s) tx = Some (ref, raw)"
  shows "half_view (db s') tx = Some (ref, raw) \<and> \<not> r = Inr True \<or>
    half_view (db s') tx = None \<and>
    (if c then \<exists>m. decode_message raw = Inr m \<and> enqueued E now rnd m raw s s'
     else same_log (db s) (db s') \<and> sent s' = sent s)"
  using end_spec [OF assms(1-3)] assms(4) by auto

theorem commit_never_loses_witness:
  "\<exists>s'. end_tx standalone 2000 ''r'' tx_id True tx1 = (Inr True, s') \<and> half_view (db s') tx_id = None \<and>
     enqueued standalone 2000 ''r'' half_msg (encode_message True half_msg) tx1 s'"
proof -
  obtain s' where e: "end_tx standalone 2000 ''r'' tx_id True tx1 = (Inr True, s')" using tx1_commit by blast
  show ?thesis
    using commit_never_loses [OF e standalone_meta(1) tx1_view] e by (auto simp: half_decode)
qed

end
