(* ===== verification/Seg_Frame.thy ===== *)
theory Seg_Frame
  imports Keys
begin

unbundle bit_operations_syntax

text \<open>
  \<^verbatim>\<open>internal/cluster/seglog/frame.go\<close>: the frame of one record of the segment log, a length,
  a CRC-32C, a type byte and the payload.  \<open>hash/crc32\<close> is modelled as it computes: a table
  of 256 entries made bit by bit, and one step per byte.
\<close>

section \<open>CRC-32C\<close>

definition crc_poly :: u32 where
  "crc_poly = 0x82F63B78"

text \<open>One bit of \<open>MakeTable\<close>, and a table entry.\<close>

definition crc_step :: "u32 \<Rightarrow> u32" where
  "crc_step c = (if bit c 0 then drop_bit 1 c XOR crc_poly else drop_bit 1 c)"

definition castagnoli :: "u32 \<Rightarrow> u32" where
  "castagnoli i = (crc_step ^^ 8) i"

definition byte_word :: "char \<Rightarrow> u32" where
  "byte_word b = word_of_int (of_char b)"

definition crc_byte :: "u32 \<Rightarrow> char \<Rightarrow> u32" where
  "crc_byte c b = castagnoli ((c XOR byte_word b) AND 255) XOR drop_bit 8 c"

definition crc_update :: "u32 \<Rightarrow> bytes \<Rightarrow> u32" where
  "crc_update c p = NOT (foldl crc_byte (NOT c) p)"

definition checksum :: "bytes \<Rightarrow> u32" where
  "checksum p = crc_update 0 p"

section \<open>Frames\<close>

definition rec_entry :: char where "rec_entry = CHR 0x01"
definition rec_hard_state :: char where "rec_hard_state = CHR 0x02"

definition frame_header_len :: nat where "frame_header_len = 8"
definition max_frame_len :: nat where "max_frame_len = 64 * 2 ^ 20"

definition append_frame :: "bytes \<Rightarrow> char \<Rightarrow> bytes \<Rightarrow> bytes" where
  "append_frame dst typ payload =
     dst @ put_u32 (of_nat (1 + length payload)) @ put_u32 (crc_update (crc_update 0 [typ]) payload) @ [typ] @ payload"

text \<open>
  The same frame with the message marshalled in place: room for the header is reserved first and
  filled in afterwards.  \<open>marshal\<close> is protobuf's encoder; \<^term>\<open>None\<close> is its error.
\<close>

definition append_frame_marshal :: "('m \<Rightarrow> bytes option) \<Rightarrow> bytes \<Rightarrow> char \<Rightarrow> 'm \<Rightarrow> bytes option" where
  "append_frame_marshal marshal dst typ msg =
     (let base = length dst in
      case marshal msg of
        None \<Rightarrow> None
      | Some b \<Rightarrow>
          let out = dst @ replicate 8 (CHR 0x00) @ [typ] @ b;
              payload_len = length out - base - frame_header_len - 1;
              body = drop (base + frame_header_len) out
          in Some (take base out @ put_u32 (of_nat (1 + payload_len)) @ put_u32 (checksum body) @ body))"

text \<open>\<^term>\<open>None\<close> is the torn frame; otherwise the type, the payload and the bytes consumed.\<close>

definition read_frame :: "bytes \<Rightarrow> (char \<times> bytes \<times> nat) option" where
  "read_frame buf =
     (if length buf < frame_header_len then None
      else
        let ln = unat (be_u32 (take 4 buf)) in
        if ln = 0 \<or> max_frame_len < ln \<or> length buf - frame_header_len < ln then None
        else
          let body = take ln (drop frame_header_len buf) in
          if checksum body \<noteq> be_u32 (take 4 (drop 4 buf)) then None
          else Some (hd body, tl body, frame_header_len + ln))"

section \<open>The checksum\<close>

lemma crc_update_append: "crc_update (crc_update c a) b = crc_update c (a @ b)"
  by (simp add: crc_update_def)

lemma crc_step_xor: "crc_step (x XOR y) = crc_step x XOR crc_step y"
proof -
  have "drop_bit 1 (x XOR y) = drop_bit 1 x XOR drop_bit 1 y" by simp
  then show ?thesis by (simp add: crc_step_def bit_xor_iff ac_simps)
qed

lemma crc_steps_xor: "(crc_step ^^ n) (x XOR y) = (crc_step ^^ n) x XOR (crc_step ^^ n) y"
  by (induction n) (simp_all add: crc_step_xor)

lemma word_xor_cancel: "a XOR p = b XOR p \<Longrightarrow> a = (b :: u32)"
proof -
  assume "a XOR p = b XOR p"
  then have "(a XOR p) XOR p = (b XOR p) XOR p" by simp
  then show "a = b" by (simp add: xor.assoc)
qed

lemma crc_poly_top: "bit crc_poly 31"
  by (simp add: crc_poly_def bit_simps)

lemma crc_step_top: "bit (crc_step c) 31 = bit c 0"
proof -
  have "\<not> bit (drop_bit 1 c) 31"
    by (auto simp: bit_simps dest: bit_imp_le_length)
  then show ?thesis by (simp add: crc_step_def bit_xor_iff crc_poly_top)
qed

lemma crc_step_inj: "crc_step x = crc_step y \<Longrightarrow> x = y"
proof -
  assume eq: "crc_step x = crc_step y"
  then have low: "bit x 0 = bit y 0" using crc_step_top by metis
  then have high: "drop_bit 1 x = drop_bit 1 y"
    using eq word_xor_cancel by (auto simp: crc_step_def split: if_splits)
  show "x = y"
  proof (rule bit_eqI)
    fix n
    show "bit x n = bit y n"
    proof (cases n)
      case (Suc k)
      have "bit (drop_bit 1 x) k = bit (drop_bit 1 y) k" by (simp only: high)
      then show ?thesis by (simp add: Suc bit_simps)
    qed (simp add: low)
  qed
qed

lemma crc_steps_inj: "(crc_step ^^ n) x = (crc_step ^^ n) y \<Longrightarrow> x = y"
  by (induction n) (auto dest: crc_step_inj)


lemma crc_steps_shift: "(\<And>i. i < n \<Longrightarrow> \<not> bit y i) \<Longrightarrow> (crc_step ^^ n) y = drop_bit n y"
proof (induction n arbitrary: y)
  case (Suc n)
  have "crc_step y = drop_bit 1 y" using Suc.prems [of 0] by (simp add: crc_step_def)
  moreover have "(crc_step ^^ n) (drop_bit 1 y) = drop_bit n (drop_bit 1 y)"
    using Suc.prems by (intro Suc.IH) (simp add: bit_simps)
  ultimately show ?case by (simp only: funpow_Suc_right comp_apply) simp
qed simp

lemma bit_255: "bit (255 :: u32) i \<longleftrightarrow> i < 8"
proof -
  have m: "(255 :: u32) = mask 8" by (simp add: mask_eq_exp_minus_1)
  show ?thesis unfolding m by (auto simp: bit_simps)
qed

lemma byte_word_high: "8 \<le> i \<Longrightarrow> \<not> bit (byte_word b) i"
proof -
  assume "8 \<le> i"
  moreover have "take_bit 8 (of_char b :: int) = of_char b"
    using of_char_int_bounds [of b] by (simp add: take_bit_int_eq_self)
  then have "\<not> bit (of_char b :: int) i" if "8 \<le> i" using that by (metis bit_take_bit_iff leD)
  ultimately show ?thesis by (auto simp: byte_word_def bit_simps)
qed

text \<open>A table step is eight bit steps on the state with the byte in it.\<close>

lemma crc_byte_steps: "crc_byte c b = (crc_step ^^ 8) (c XOR byte_word b)"
proof -
  let ?x = "c XOR byte_word b"
  have split: "?x = (?x AND 255) XOR (?x AND NOT 255)"
    by (rule bit_eqI) (auto simp: bit_simps bit_255)
  have "(crc_step ^^ 8) (?x AND NOT 255) = drop_bit 8 (?x AND NOT 255)"
    by (rule crc_steps_shift) (simp only: bit_and_iff bit_not_iff bit_255, simp)
  also have "\<dots> = drop_bit 8 c"
  proof (rule bit_eqI)
    fix n
    have "bit (?x AND NOT 255) (8 + n) = bit c (8 + n)"
      by (simp only: bit_and_iff bit_xor_iff bit_not_iff bit_255) (use byte_word_high [of "8 + n" b] in \<open>auto dest: bit_imp_le_length simp: possible_bit_word\<close>)
    then show "bit (drop_bit 8 (?x AND NOT 255)) n = bit (drop_bit 8 c) n" by (simp only: bit_drop_bit_eq comp_apply)
  qed
  finally have "(crc_step ^^ 8) ((?x AND 255) XOR (?x AND NOT 255)) = castagnoli (?x AND 255) XOR drop_bit 8 c"
    by (simp only: crc_steps_xor castagnoli_def)
  then show ?thesis by (simp only: split [symmetric] crc_byte_def)
qed

lemma byte_word_inj: "byte_word a = byte_word b \<Longrightarrow> a = b"
proof -
  assume "byte_word a = byte_word b"
  then have "uint (byte_word a) = uint (byte_word b)" by simp
  then have "(of_char a :: int) = of_char b"
    using of_char_int_bounds [of a] of_char_int_bounds [of b] by (simp add: byte_word_def uint_word_of_int)
  then show "a = b" by simp
qed

lemma crc_byte_inj: "crc_byte c b = crc_byte c' b \<Longrightarrow> c = c'" "crc_byte c b = crc_byte c b' \<Longrightarrow> b = b'"
  unfolding crc_byte_steps
  by (drule crc_steps_inj, erule word_xor_cancel)
    (drule crc_steps_inj, simp only: xor.commute [of c], drule word_xor_cancel, erule byte_word_inj)

lemma crc_fold_inj: "foldl crc_byte c p = foldl crc_byte c' p \<Longrightarrow> c = c'"
  by (induction p arbitrary: c c') (auto dest: crc_byte_inj(1))

lemma not_inj: "NOT (a :: u32) = NOT b \<Longrightarrow> a = b"
  by (metis bit.double_compl)

lemma checksum_one_byte:
  assumes "x \<noteq> y"
  shows "checksum (a @ x # b) \<noteq> checksum (a @ y # b)"
proof
  assume "checksum (a @ x # b) = checksum (a @ y # b)"
  then have "foldl crc_byte (crc_byte (foldl crc_byte (NOT 0) a) x) b = foldl crc_byte (crc_byte (foldl crc_byte (NOT 0) a) y) b"
    by (auto simp: checksum_def crc_update_def dest: not_inj)
  then show False using crc_fold_inj crc_byte_inj(2) assms by blast
qed


section \<open>Reading back\<close>

definition frame :: "char \<Rightarrow> bytes \<Rightarrow> bytes" where
  "frame typ payload = append_frame [] typ payload"

lemma append_frame_eq: "append_frame dst typ payload = dst @ frame typ payload"
  by (simp add: append_frame_def frame_def)

lemma length_frame [simp]: "length (frame typ payload) = frame_header_len + 1 + length payload"
  by (simp add: frame_def append_frame_def frame_header_len_def)

lemma frame_eq: "frame typ payload =
    put_u32 (of_nat (1 + length payload)) @ put_u32 (checksum (typ # payload)) @ typ # payload"
  by (simp add: frame_def append_frame_def checksum_def crc_update_append)

text \<open>Both writers produce the same bytes.\<close>

lemma append_frame_marshal_eq: "append_frame_marshal marshal dst typ msg = map_option (append_frame dst typ) (marshal msg)"
  by (simp add: append_frame_marshal_def Let_def frame_header_len_def append_frame_eq frame_eq split: option.splits)

lemma frame_len_fits: "1 + length payload \<le> max_frame_len \<Longrightarrow> unat (of_nat (1 + length payload) :: u32) = 1 + length payload"
  by (simp only: unat_of_nat take_bit_nat_eq_self_iff) (simp add: max_frame_len_def)

lemma read_frame_append:
  assumes "1 + length payload \<le> max_frame_len"
  shows "read_frame (frame typ payload @ rest) = Some (typ, payload, length (frame typ payload))"
  using frame_len_fits [OF assms] assms
  by (simp add: read_frame_def frame_eq frame_header_len_def Let_def)

lemma read_frame_sound:
  assumes "read_frame buf = Some (typ, payload, n)"
  shows "take n buf = frame typ payload" "n = length (frame typ payload)" "n \<le> length buf" "1 + length payload \<le> max_frame_len"
proof -
  let ?ln = "unat (be_u32 (take 4 buf))"
  let ?body = "take ?ln (drop 8 buf)"
  have c: "8 \<le> length buf" "?ln \<noteq> 0" "?ln \<le> max_frame_len" "?ln \<le> length buf - 8"
      "checksum ?body = be_u32 (take 4 (drop 4 buf))" "typ = hd ?body" "payload = tl ?body" "n = 8 + ?ln"
    using assms by (auto simp: read_frame_def Let_def frame_header_len_def not_less split: if_splits)
  have len0: "length ?body = ?ln" using c(4) by simp
  then have "?body \<noteq> []" using c(2) by (metis list.size(3))
  then have body: "?body = typ # payload" "length ?body = ?ln" using c(6,7) len0 by (metis list.collapse)+
  then have len: "1 + length payload = ?ln" by (metis length_Cons plus_1_eq_Suc)
  then show "1 + length payload \<le> max_frame_len" using c(3) by simp
  have h: "put_u32 (be_u32 (take 4 buf)) = take 4 buf" "put_u32 (be_u32 (take 4 (drop 4 buf))) = take 4 (drop 4 buf)"
    using c(1) by (simp_all add: put_u32_be)
  have "of_nat (1 + length payload) = be_u32 (take 4 buf)" by (simp only: len) simp
  then have "frame typ payload = take 4 buf @ take 4 (drop 4 buf) @ ?body"
    using body(1) c(5) h by (simp add: frame_eq del: of_nat_Suc of_nat_add)
  also have "\<dots> = take n buf"
    using c(1,8) by (simp add: take_add [symmetric] flip: append_assoc)
  finally show "take n buf = frame typ payload" by simp
  show "n = length (frame typ payload)" using c(8) len by (simp add: frame_header_len_def)
  show "n \<le> length buf" using c by simp
qed

text \<open>A frame that is not there in full is torn, wherever it is cut; so are zeros.\<close>

lemma read_frame_prefix:
  assumes "k < length (frame typ payload)" "1 + length payload \<le> max_frame_len"
  shows "read_frame (take k (frame typ payload)) = None"
proof (cases "k < 8")
  case False
  then have k: "min 4 k = 4" "min k 4 = 4" by simp_all
  have "take 4 (frame typ payload) = put_u32 (of_nat (1 + length payload))"
    by (simp add: frame_eq del: of_nat_Suc of_nat_add)
  then have "unat (be_u32 (take 4 (frame typ payload))) = 1 + length payload"
    using frame_len_fits [OF assms(2)] by simp
  then show ?thesis
    using assms(1) False unfolding read_frame_def Let_def by (auto simp: frame_header_len_def k)
qed (simp add: read_frame_def frame_header_len_def)

lemma be_u32_zeros: "be_u32 (replicate n (CHR 0x00)) = 0"
proof -
  have "be_val (replicate n (CHR 0x00)) = 0"
    by (induction n) (simp_all add: be_val_def)
  then show ?thesis by (simp add: be_u32_def)
qed

lemma read_frame_zeros: "read_frame (replicate n (CHR 0x00)) = None"
  by (simp add: read_frame_def Let_def be_u32_zeros)

lemma read_frame_Nil [simp]: "read_frame [] = None"
  by (simp add: read_frame_def frame_header_len_def)

text \<open>A byte of the record that is not the one that was written is always noticed.\<close>

lemma read_frame_bad_byte:
  assumes "i < 1 + length payload" "c \<noteq> (typ # payload) ! i" "1 + length payload \<le> max_frame_len"
  shows "read_frame ((frame typ payload)[frame_header_len + i := c] @ rest) = None"
proof -
  let ?b = "(typ # payload)[i := c]"
  have "checksum ?b \<noteq> checksum (typ # payload)"
    using checksum_one_byte [OF assms(2), of "take i (typ # payload)" "drop (Suc i) (typ # payload)"] assms(1)
    by (simp add: upd_conv_take_nth_drop id_take_nth_drop [symmetric] del: list_update.simps take_Cons' drop_Suc_Cons nth_Cons')
  moreover have "(frame typ payload)[frame_header_len + i := c] =
      put_u32 (of_nat (1 + length payload)) @ put_u32 (checksum (typ # payload)) @ ?b"
    by (simp add: frame_eq frame_header_len_def list_update_append)
  ultimately show ?thesis
    using frame_len_fits [OF assms(3)] by (simp add: read_frame_def frame_header_len_def Let_def del: list_update.simps)
qed

end
