(* ===== verification/Seg_Log.thy ===== *)
theory Seg_Log
  imports Seg_Frame GoStd Store
begin

text \<open>
  \<^verbatim>\<open>internal/cluster/seglog/seglog.go\<close> (and \<^verbatim>\<open>falloc_linux.go\<close>): the segmented append log
  that holds the hard state and the entries of one raft group, over a directory of files.  A file
  is its bytes together with what of them a power cut is bound to keep.  The protobuf encodings
  of \<open>raftpb\<close> are parameters, and so is which I/O call fails, named by its call site.
\<close>

section \<open>Files\<close>

record seg_file =
  sf_data :: bytes
  sf_dur :: nat        \<comment> \<open>how many leading bytes a power cut keeps\<close>
  sf_alloc :: nat      \<comment> \<open>the size an \<open>fdatasync\<close> can rely on\<close>
  sf_clean :: bool     \<comment> \<open>nothing is pending: a power cut changes nothing\<close>
  sf_linked :: bool    \<comment> \<open>the directory entry is on disk\<close>

datatype dirent = SubDir | SegFile seg_file

type_synonym seg_dir = "(bytes, dirent) omap"

definition zeros :: "nat \<Rightarrow> bytes" where
  "zeros n = replicate n (CHR 0x00)"

definition new_file :: seg_file where
  "new_file = \<lparr>sf_data = [], sf_dur = 0, sf_alloc = 0, sf_clean = False, sf_linked = False\<rparr>"

text \<open>\<open>WriteAt\<close>, \<open>Truncate\<close>, \<open>fallocate\<close>, \<open>fsync\<close>, \<open>fdatasync\<close>.\<close>

definition file_write :: "nat \<Rightarrow> bytes \<Rightarrow> seg_file \<Rightarrow> seg_file" where
  "file_write p b f =
     f\<lparr>sf_data := take p (sf_data f @ zeros (p - length (sf_data f))) @ b @ drop (p + length b) (sf_data f),
       sf_dur := min (sf_dur f) p, sf_clean := False\<rparr>"

definition file_truncate :: "nat \<Rightarrow> seg_file \<Rightarrow> seg_file" where
  "file_truncate k f =
     f\<lparr>sf_data := take k (sf_data f) @ zeros (k - length (sf_data f)),
       sf_dur := min (sf_dur f) k, sf_alloc := min (sf_alloc f) k, sf_clean := False\<rparr>"

definition file_alloc :: "nat \<Rightarrow> seg_file \<Rightarrow> seg_file" where
  "file_alloc n f =
     f\<lparr>sf_data := sf_data f @ zeros (n - length (sf_data f)), sf_alloc := max (sf_alloc f) n, sf_clean := False\<rparr>"

definition file_sync :: "seg_file \<Rightarrow> seg_file" where
  "file_sync f = f\<lparr>sf_dur := length (sf_data f), sf_alloc := length (sf_data f), sf_clean := True\<rparr>"

definition file_datasync :: "seg_file \<Rightarrow> seg_file" where
  "file_datasync f = f\<lparr>sf_dur := max (sf_dur f) (min (length (sf_data f)) (sf_alloc f))\<rparr>"

definition on_file :: "bytes \<Rightarrow> (seg_file \<Rightarrow> seg_file) \<Rightarrow> seg_dir \<Rightarrow> seg_dir" where
  "on_file name g dir = (case kv_get dir name of Some (SegFile f) \<Rightarrow> kv_set name (SegFile (g f)) dir | _ \<Rightarrow> dir)"

text \<open>\<open>syncDir\<close>: the names in the directory are on disk from here on.\<close>

fun link_ent :: "dirent \<Rightarrow> dirent" where
  "link_ent SubDir = SubDir"
| "link_ent (SegFile f) = SegFile (f\<lparr>sf_linked := True\<rparr>)"

definition link_all :: "seg_dir \<Rightarrow> seg_dir" where
  "link_all dir = List.map (apsnd link_ent) dir"

text \<open>\<open>OpenFile\<close> with \<open>O_CREATE\<close> and without \<open>O_TRUNC\<close>; \<^term>\<open>None\<close> where the name is a directory.\<close>

definition open_create :: "bytes \<Rightarrow> seg_dir \<Rightarrow> seg_dir option" where
  "open_create name dir =
     (case kv_get dir name of
        None \<Rightarrow> Some (kv_set name (SegFile new_file) dir)
      | Some (SegFile f) \<Rightarrow> Some dir
      | Some SubDir \<Rightarrow> None)"

section \<open>Errors, encodings, the environment\<close>

datatype seg_op = OMkdir | OReadDir | ORead u64 | OScanTruncate u64 | OOpenActive | OSyncNewDir | OPreallocate
  | OWriteAt | OSync | ORotTruncate | ORotSync | ORotClose | ORotCreate | ORotSyncDir | ORotPreallocate
  | ORotWriteHs | ORotSyncHs | ORemove u64 | OClose

datatype seg_error =
    IoErr seg_op
  | BadFrame u64 nat       \<comment> \<open>a damaged frame in a segment that is not the last\<close>
  | BadEntry u64 nat
  | BadHardState u64 nat
  | LogClosed
  | EncodeHs
  | EncodeEntry u64

record ('e, 'h) raft_codec =
  enc_entry :: "'e \<Rightarrow> bytes option"
  dec_entry :: "bytes \<Rightarrow> 'e option"
  ent_index :: "'e \<Rightarrow> u64"
  enc_hs :: "'h \<Rightarrow> bytes option"
  dec_hs :: "bytes \<Rightarrow> 'h option"

text \<open>
  \<open>sg_short\<close> is how many bytes a failing \<open>WriteAt\<close> had written, \<open>sg_prealloc\<close> whether the file
  system supports \<open>fallocate\<close>, \<open>sg_max_bytes\<close> the variable \<open>SegMaxBytes\<close>, \<open>sg_order\<close> the order
  in which Go iterates over a map.
\<close>

record seg_env =
  sg_fails :: "seg_op \<Rightarrow> bool"
  sg_short :: nat
  sg_prealloc :: bool
  sg_max_bytes :: nat
  sg_order :: "u64 list \<Rightarrow> u64 list"

text \<open>\<open>Log\<close>; \<open>sl_open\<close> is \<open>active != nil\<close>.\<close>

record 'h seg_log =
  sl_open :: bool
  sl_seq :: u64
  sl_size :: nat
  sl_last :: u64
  sl_hs :: "'h option"
  sl_max :: "(u64, u64) omap"
  sl_prealloc :: bool

record 'h seg_node =
  sn_dir :: seg_dir
  sn_log :: "'h seg_log"

definition dir_op :: "seg_env \<Rightarrow> seg_op \<Rightarrow> (seg_dir \<Rightarrow> seg_dir) \<Rightarrow> seg_dir \<Rightarrow> (seg_error + unit) \<times> seg_dir" where
  "dir_op env op g dir = (if sg_fails env op then (Inl (IoErr op), dir) else (Inr (), g dir))"

section \<open>Names\<close>

definition seg_suffix :: bytes where
  "seg_suffix = ''.seg''"

text \<open>\<open>%08d.seg\<close>.\<close>

definition seg_name :: "u64 \<Rightarrow> bytes" where
  "seg_name seq = (let d = fmt_nat (unat seq) in replicate (8 - length d) (CHR ''0'') @ d @ seg_suffix)"

definition seg_seq_of :: "bytes \<times> dirent \<Rightarrow> u64 option" where
  "seg_seq_of p =
     (case p of
        (_, SubDir) \<Rightarrow> None
      | (name, SegFile _) \<Rightarrow>
          if \<not> suffix seg_suffix name then None
          else map_option of_nat (parse_uint 64 (take (length name - length seg_suffix) name)))"

definition scan_seg_seqs :: "seg_env \<Rightarrow> seg_dir \<Rightarrow> seg_error + u64 list" where
  "scan_seg_seqs env dir =
     (if sg_fails env OReadDir then Inl (IoErr OReadDir) else Inr (sort (List.map_filter seg_seq_of dir)))"

definition all_zero :: "bytes \<Rightarrow> bool" where
  "all_zero b = list_all (\<lambda>c. c = CHR 0x00) b"

section \<open>Creating the directory\<close>

text \<open>
  \<open>mkdirAllSync\<close>, on a path written from its last name to its first.  \<open>tr_kind\<close> says whether a
  path is a directory, a file or nothing, \<open>tr_linked\<close> whether its name is on disk.
\<close>

record tree =
  tr_kind :: "bytes list \<Rightarrow> bool option"
  tr_linked :: "bytes list \<Rightarrow> bool"

datatype mkdir_error = NotADirectory "bytes list" | MkdirErr "bytes list" | SyncDirErr "bytes list"

definition make_dir :: "(bytes list \<Rightarrow> bool) \<Rightarrow> bytes list \<Rightarrow> tree \<Rightarrow> (mkdir_error + unit) \<times> tree" where
  "make_dir fails p t =
     (if fails p then (Inl (MkdirErr p), t)
      else (Inr (), t\<lparr>tr_kind := (tr_kind t)(p := Some True), tr_linked := (tr_linked t)(p := False)\<rparr>))"

definition sync_dir :: "(bytes list \<Rightarrow> bool) \<Rightarrow> bytes list \<Rightarrow> tree \<Rightarrow> (mkdir_error + unit) \<times> tree" where
  "sync_dir fails p t =
     (if fails p then (Inl (SyncDirErr p), t)
      else (Inr (), t\<lparr>tr_linked := (\<lambda>q. if q \<noteq> [] \<and> List.tl q = p then True else tr_linked t q)\<rparr>))"

fun mkdir_all_sync :: "(bytes list \<Rightarrow> bool) \<Rightarrow> (bytes list \<Rightarrow> bool) \<Rightarrow> bytes list \<Rightarrow> tree \<Rightarrow> (mkdir_error + unit) \<times> tree" where
  "mkdir_all_sync mf sf [] t =
     (case tr_kind t [] of
        Some True \<Rightarrow> (Inr (), t)
      | Some False \<Rightarrow> (Inl (NotADirectory []), t)
      | None \<Rightarrow> sbind (make_dir mf []) (\<lambda>_. sync_dir sf []) t)"
| "mkdir_all_sync mf sf (name # parent) t =
     (case tr_kind t (name # parent) of
        Some True \<Rightarrow> (Inr (), t)
      | Some False \<Rightarrow> (Inl (NotADirectory (name # parent)), t)
      | None \<Rightarrow>
          sbind (mkdir_all_sync mf sf parent) (\<lambda>_.
          sbind (make_dir mf (name # parent)) (\<lambda>_. sync_dir sf parent)) t)"

text \<open>When every existing name is on disk, success leaves the directory and every name on disk.\<close>

definition names_synced :: "tree \<Rightarrow> bool" where
  "names_synced t \<longleftrightarrow> (\<forall>q. q \<noteq> [] \<longrightarrow> tr_kind t q \<noteq> None \<longrightarrow> tr_linked t q)"

lemma mkdir_all_sync_ok:
  "mkdir_all_sync mf sf p t = (Inr u, t') \<Longrightarrow> names_synced t \<Longrightarrow> names_synced t' \<and> tr_kind t' p = Some True"
proof (induction p arbitrary: t t' u)
  case Nil
  then show ?case
    by (auto simp: make_dir_def sync_dir_def sbind_ok names_synced_def split: option.splits bool.splits if_splits)
next
  case (Cons name parent)
  show ?case
  proof (cases "tr_kind t (name # parent)")
    case None
    then obtain t1 where t1: "mkdir_all_sync mf sf parent t = (Inr (), t1)"
        "sbind (make_dir mf (name # parent)) (\<lambda>_. sync_dir sf parent) t1 = (Inr u, t')"
      using Cons.prems(1) by (auto simp: sbind_ok)
    then have "names_synced t1" using Cons.IH Cons.prems(2) by blast
    then show ?thesis
      using t1(2) by (auto simp: make_dir_def sync_dir_def sbind_ok names_synced_def split: if_splits)
  next
    case (Some k)
    then show ?thesis using Cons.prems by (cases k) auto
  qed
qed

section \<open>Scanning a segment\<close>

record ('e, 'h) replay =
  rp_hs :: "'h option"
  rp_ents :: "'e list"
  rp_last :: u64
  rp_max :: "(u64, u64) omap"

text \<open>The loop that drops the overwritten tail.\<close>

definition cut_tail :: "('e, 'h) raft_codec \<Rightarrow> u64 \<Rightarrow> 'e list \<Rightarrow> 'e list" where
  "cut_tail c idx ents = rev (dropWhile (\<lambda>e. idx \<le> ent_index c e) (rev ents))"

definition replay_entry :: "('e, 'h) raft_codec \<Rightarrow> u64 \<Rightarrow> 'e \<Rightarrow> ('e, 'h) replay \<Rightarrow> ('e, 'h) replay" where
  "replay_entry c seq e r =
     (let idx = ent_index c e;
          ents = (if idx \<le> rp_last r then cut_tail c idx (rp_ents r) else rp_ents r)
      in r\<lparr>rp_ents := ents @ [e], rp_last := idx, rp_max := kv_set seq idx (rp_max r)\<rparr>)"

datatype scan_cut = CutFrame | CutEntry | CutHs

text \<open>
  The inner loop: what is replayed, the offset it stops at, and why it stopped short of the end
  of the data.
\<close>

function scan_loop ::
    "('e, 'h) raft_codec \<Rightarrow> u64 \<Rightarrow> bytes \<Rightarrow> nat \<Rightarrow> ('e, 'h) replay \<Rightarrow> ('e, 'h) replay \<times> nat \<times> scan_cut option" where
  "scan_loop c seq data off r =
     (if \<not> off < length data then (r, off, None)
      else case read_frame (drop off data) of
        None \<Rightarrow> (r, off, Some CutFrame)
      | Some (typ, payload, n) \<Rightarrow>
          if typ = rec_entry then
            (case dec_entry c payload of
               None \<Rightarrow> (r, off, Some CutEntry)
             | Some e \<Rightarrow> scan_loop c seq data (off + n) (replay_entry c seq e r))
          else if typ = rec_hard_state then
            (case dec_hs c payload of
               None \<Rightarrow> (r, off, Some CutHs)
             | Some h \<Rightarrow> scan_loop c seq data (off + n) (r\<lparr>rp_hs := Some h\<rparr>))
          else scan_loop c seq data (off + n) r)"
  by pat_completeness auto

lemma read_frame_size: "read_frame buf = Some (typ, payload, n) \<Longrightarrow> 0 < n \<and> n \<le> length buf"
  using read_frame_sound(2,3) by fastforce

termination scan_loop
  by (relation "measure (\<lambda>(c, seq, data, off, r). length data - off)") (auto dest!: read_frame_size)

declare scan_loop.simps [simp del]

fun cut_error :: "u64 \<Rightarrow> nat \<Rightarrow> scan_cut \<Rightarrow> seg_error" where
  "cut_error seq off CutFrame = BadFrame seq off"
| "cut_error seq off CutEntry = BadEntry seq off"
| "cut_error seq off CutHs = BadHardState seq off"

text \<open>
  One segment.  A segment that is not the last is refused when it stops short; the last one is
  truncated to where the good frames end.
\<close>

definition scan_seg ::
    "seg_env \<Rightarrow> ('e, 'h) raft_codec \<Rightarrow> bool \<Rightarrow> u64 \<Rightarrow> ('e, 'h) replay \<Rightarrow> seg_dir
     \<Rightarrow> (seg_error + ('e, 'h) replay \<times> nat) \<times> seg_dir" where
  "scan_seg env c is_last seq r dir =
     (case kv_get dir (seg_name seq) of
        Some (SegFile f) \<Rightarrow>
          if sg_fails env (ORead seq) then (Inl (IoErr (ORead seq)), dir)
          else
            let r0 = (if is_last then r else r\<lparr>rp_max := kv_set seq 0 (rp_max r)\<rparr>) in
            (case scan_loop c seq (sf_data f) 0 r0 of
               (r', off, None) \<Rightarrow> (Inr (r', off), dir)
             | (r', off, Some why) \<Rightarrow>
                 if \<not> is_last then (Inl (cut_error seq off why), dir)
                 else sbind (dir_op env (OScanTruncate seq) (on_file (seg_name seq) (file_truncate off)))
                        (\<lambda>_. sret (r', off)) dir)
      | _ \<Rightarrow> (Inl (IoErr (ORead seq)), dir))"

fun scan_segs ::
    "seg_env \<Rightarrow> ('e, 'h) raft_codec \<Rightarrow> u64 list \<Rightarrow> ('e, 'h) replay \<times> nat \<Rightarrow> seg_dir
     \<Rightarrow> (seg_error + ('e, 'h) replay \<times> nat) \<times> seg_dir" where
  "scan_segs env c [] rn = sret rn"
| "scan_segs env c (seq # seqs) rn = sbind (scan_seg env c (seqs = []) seq (fst rn)) (scan_segs env c seqs)"

section \<open>Opening\<close>

definition prealloc_active :: "seg_env \<Rightarrow> seg_op \<Rightarrow> 'h seg_node \<Rightarrow> (seg_error + unit) \<times> 'h seg_node" where
  "prealloc_active env op n =
     (if sg_fails env op then (Inl (IoErr op), n)
      else if sg_prealloc env then
        (Inr (), n\<lparr>sn_dir := on_file (seg_name (sl_seq (sn_log n))) (file_alloc (sg_max_bytes env)) (sn_dir n),
                   sn_log := (sn_log n)\<lparr>sl_prealloc := True\<rparr>\<rparr>)
      else (Inr (), n\<lparr>sn_log := (sn_log n)\<lparr>sl_prealloc := False\<rparr>\<rparr>))"

definition open_active :: "seg_env \<Rightarrow> u64 \<Rightarrow> bool \<Rightarrow> seg_dir \<Rightarrow> (seg_error + unit) \<times> seg_dir" where
  "open_active env seq created dir =
     (if sg_fails env OOpenActive then (Inl (IoErr OOpenActive), dir)
      else case open_create (seg_name seq) dir of
        None \<Rightarrow> (Inl (IoErr OOpenActive), dir)
      | Some dir' \<Rightarrow> if created then dir_op env OSyncNewDir link_all dir' else (Inr (), dir'))"

definition empty_replay :: "('e, 'h) replay" where
  "empty_replay = \<lparr>rp_hs = None, rp_ents = [], rp_last = 0, rp_max = []\<rparr>"

text \<open>\<open>Open\<close>: the log, the newest hard state, the replayed entries, and the directory as it leaves it.\<close>

definition open_log ::
    "seg_env \<Rightarrow> ('e, 'h) raft_codec \<Rightarrow> seg_dir \<Rightarrow> (seg_error + 'h seg_log \<times> 'h option \<times> 'e list) \<times> seg_dir" where
  "open_log env c =
     sbind (dir_op env OMkdir id) (\<lambda>_.
     sbind (slift (scan_seg_seqs env)) (\<lambda>seqs.
     sbind (scan_segs env c seqs (empty_replay, 0)) (\<lambda>(r, size).
       let seq = (if seqs = [] then 1 else last seqs) in
       sbind (open_active env seq (seqs = [])) (\<lambda>_ dir.
         let l = \<lparr>sl_open = True, sl_seq = seq, sl_size = size, sl_last = rp_last r, sl_hs = rp_hs r,
                  sl_max = kv_del seq (rp_max r), sl_prealloc = False\<rparr>
         in (case prealloc_active env OPreallocate \<lparr>sn_dir = dir, sn_log = l\<rparr> of
               (Inl e, n) \<Rightarrow> (Inl e, sn_dir n)
             | (Inr _, n) \<Rightarrow> (Inr (sn_log n, rp_hs r, rp_ents r), sn_dir n))))))"

section \<open>Appending and rotating\<close>

definition on_active :: "(seg_file \<Rightarrow> seg_file) \<Rightarrow> 'h seg_node \<Rightarrow> 'h seg_node" where
  "on_active g n = n\<lparr>sn_dir := on_file (seg_name (sl_seq (sn_log n))) g (sn_dir n)\<rparr>"

definition on_log :: "('h seg_log \<Rightarrow> 'h seg_log) \<Rightarrow> 'h seg_node \<Rightarrow> 'h seg_node" where
  "on_log g n = n\<lparr>sn_log := g (sn_log n)\<rparr>"

definition seg_io :: "seg_env \<Rightarrow> seg_op \<Rightarrow> ('h seg_node \<Rightarrow> 'h seg_node) \<Rightarrow> 'h seg_node \<Rightarrow> (seg_error + unit) \<times> 'h seg_node" where
  "seg_io env op g n = (if sg_fails env op then (Inl (IoErr op), n) else (Inr (), g n))"

text \<open>\<open>WriteAt\<close> at the logical end; a failing call may have written part of the buffer.\<close>

definition write_active :: "seg_env \<Rightarrow> seg_op \<Rightarrow> bytes \<Rightarrow> 'h seg_node \<Rightarrow> (seg_error + unit) \<times> 'h seg_node" where
  "write_active env op b n =
     (let at = sl_size (sn_log n) in
      if sg_fails env op then (Inl (IoErr op), on_active (file_write at (take (sg_short env) b)) n)
      else (Inr (), on_log (\<lambda>l. l\<lparr>sl_size := at + length b\<rparr>) (on_active (file_write at b) n)))"

definition sync_active :: "seg_env \<Rightarrow> seg_op \<Rightarrow> 'h seg_node \<Rightarrow> (seg_error + unit) \<times> 'h seg_node" where
  "sync_active env op n = seg_io env op (on_active (if sl_prealloc (sn_log n) then file_datasync else file_sync)) n"

fun build_entries :: "('e, 'h) raft_codec \<Rightarrow> bytes \<Rightarrow> 'e list \<Rightarrow> seg_error + bytes" where
  "build_entries c buf [] = Inr buf"
| "build_entries c buf (e # es) =
     (case append_frame_marshal (enc_entry c) buf rec_entry e of
        None \<Rightarrow> Inl (EncodeEntry (ent_index c e))
      | Some b \<Rightarrow> build_entries c b es)"

definition build_buf :: "('e, 'h) raft_codec \<Rightarrow> 'h option \<Rightarrow> 'e list \<Rightarrow> seg_error + bytes" where
  "build_buf c hs ents =
     (case hs of
        None \<Rightarrow> build_entries c [] ents
      | Some h \<Rightarrow>
          (case append_frame_marshal (enc_hs c) [] rec_hard_state h of
             None \<Rightarrow> Inl EncodeHs
           | Some b \<Rightarrow> build_entries c b ents))"

definition create_segment :: "seg_env \<Rightarrow> u64 \<Rightarrow> 'h seg_node \<Rightarrow> (seg_error + unit) \<times> 'h seg_node" where
  "create_segment env seq n =
     (if sg_fails env ORotCreate then (Inl (IoErr ORotCreate), n)
      else case open_create (seg_name seq) (sn_dir n) of
        None \<Rightarrow> (Inl (IoErr ORotCreate), n)
      | Some dir \<Rightarrow> (Inr (), n\<lparr>sn_dir := dir\<rparr>))"

definition rewrite_hs :: "seg_env \<Rightarrow> ('e, 'h) raft_codec \<Rightarrow> 'h seg_node \<Rightarrow> (seg_error + unit) \<times> 'h seg_node" where
  "rewrite_hs env c n =
     (case sl_hs (sn_log n) of
        None \<Rightarrow> (Inr (), n)
      | Some h \<Rightarrow>
          (case enc_hs c h of
             None \<Rightarrow> (Inl EncodeHs, n)
           | Some payload \<Rightarrow>
               sbind (write_active env ORotWriteHs (append_frame [] rec_hard_state payload))
                 (\<lambda>_. sync_active env ORotSyncHs) n))"

text \<open>
  \<open>maybeRotate\<close>: the old segment is cut to its logical size, fsynced and closed; then the new one
  is made, its name synced, its room allocated, the newest hard state written to it again; only
  then may the old segment be reclaimed.
\<close>

definition rotate :: "seg_env \<Rightarrow> ('e, 'h) raft_codec \<Rightarrow> 'h seg_node \<Rightarrow> (seg_error + unit) \<times> 'h seg_node" where
  "rotate env c n =
     (let old = sl_seq (sn_log n); bytes = sl_size (sn_log n); max_index = sl_last (sn_log n) in
      sbind (seg_io env ORotTruncate (on_active (file_truncate bytes))) (\<lambda>_.
      sbind (seg_io env ORotSync (on_active file_sync)) (\<lambda>_.
      sbind (seg_io env ORotClose (on_log (\<lambda>l. l\<lparr>sl_open := False\<rparr>))) (\<lambda>_.
      sbind (create_segment env (old + 1)) (\<lambda>_.
      sbind (seg_io env ORotSyncDir (\<lambda>m. m\<lparr>sn_dir := link_all (sn_dir m)\<rparr>)) (\<lambda>_.
      sbind (smod (on_log (\<lambda>l. l\<lparr>sl_open := True, sl_seq := old + 1, sl_size := 0\<rparr>))) (\<lambda>_.
      sbind (prealloc_active env ORotPreallocate) (\<lambda>_.
      sbind (rewrite_hs env c) (\<lambda>_.
        smod (on_log (\<lambda>l. l\<lparr>sl_max := kv_set old max_index (sl_max l)\<rparr>)))))))))) n)"

definition maybe_rotate :: "seg_env \<Rightarrow> ('e, 'h) raft_codec \<Rightarrow> 'h seg_node \<Rightarrow> (seg_error + unit) \<times> 'h seg_node" where
  "maybe_rotate env c n =
     (if sl_size (sn_log n) < sg_max_bytes env then (Inr (), n) else rotate env c n)"

definition note_written :: "('e, 'h) raft_codec \<Rightarrow> 'h option \<Rightarrow> 'e list \<Rightarrow> 'h seg_log \<Rightarrow> 'h seg_log" where
  "note_written c hs ents l =
     l\<lparr>sl_hs := (case hs of None \<Rightarrow> sl_hs l | Some h \<Rightarrow> Some h),
       sl_last := (if ents = [] then sl_last l else ent_index c (last ents))\<rparr>"

text \<open>\<open>Append\<close>.\<close>

definition append_log ::
    "seg_env \<Rightarrow> ('e, 'h) raft_codec \<Rightarrow> 'h option \<Rightarrow> 'e list \<Rightarrow> bool \<Rightarrow> 'h seg_node \<Rightarrow> (seg_error + unit) \<times> 'h seg_node" where
  "append_log env c hs ents sync n =
     (if \<not> sl_open (sn_log n) then (Inl LogClosed, n)
      else case build_buf c hs ents of
        Inl e \<Rightarrow> (Inl e, n)
      | Inr buf \<Rightarrow>
          sbind (if buf = [] then sret () else write_active env OWriteAt buf) (\<lambda>_.
          sbind (smod (on_log (note_written c hs ents))) (\<lambda>_.
          sbind (if sync then sync_active env OSync else sret ()) (\<lambda>_.
            maybe_rotate env c))) n)"

text \<open>\<open>Sync\<close>, \<open>Close\<close>, \<open>TruncateTo\<close>.\<close>

definition sync_log :: "seg_env \<Rightarrow> 'h seg_node \<Rightarrow> (seg_error + unit) \<times> 'h seg_node" where
  "sync_log env n = (if \<not> sl_open (sn_log n) then (Inl LogClosed, n) else sync_active env OSync n)"

definition close_log :: "seg_env \<Rightarrow> 'h seg_node \<Rightarrow> (seg_error + unit) \<times> 'h seg_node" where
  "close_log env n =
     (if \<not> sl_open (sn_log n) then (Inr (), n)
      else (if sg_fails env OClose then Inl (IoErr OClose) else Inr (), on_log (\<lambda>l. l\<lparr>sl_open := False\<rparr>) n))"

fun truncate_loop :: "seg_env \<Rightarrow> u64 \<Rightarrow> u64 list \<Rightarrow> 'h seg_node \<Rightarrow> (seg_error + unit) \<times> 'h seg_node" where
  "truncate_loop env limit [] n = (Inr (), n)"
| "truncate_loop env limit (seq # seqs) n =
     (case kv_get (sl_max (sn_log n)) seq of
        None \<Rightarrow> truncate_loop env limit seqs n
      | Some m \<Rightarrow>
          if limit < m then truncate_loop env limit seqs n
          else if sg_fails env (ORemove seq) \<or> kv_get (sn_dir n) (seg_name seq) = None
            then (Inl (IoErr (ORemove seq)), n)
          else truncate_loop env limit seqs
                 (n\<lparr>sn_dir := kv_del (seg_name seq) (sn_dir n),
                    sn_log := (sn_log n)\<lparr>sl_max := kv_del seq (sl_max (sn_log n))\<rparr>\<rparr>))"

definition truncate_to :: "seg_env \<Rightarrow> u64 \<Rightarrow> 'h seg_node \<Rightarrow> (seg_error + unit) \<times> 'h seg_node" where
  "truncate_to env limit n = truncate_loop env limit (sg_order env (List.map fst (sl_max (sn_log n)))) n"

end
