(* ===== verification/Seg_Replay.thy ===== *)
theory Seg_Replay
  imports Seg_Log "HOL-Library.Multiset"
begin

text \<open>
  What the segment log reads back: the names of the segments in a directory, the records in a
  segment's bytes, and the replay of a sequence of records, later writes winning.
\<close>

section \<open>Names and directories\<close>

lemma digits_of_padded: "digits_of (replicate k (CHR ''0'') @ fmt_nat n) = Some n"
proof -
  have "dec_val (replicate k (CHR ''0'') @ s) = dec_val s" for s
    by (induction k) (simp_all add: dec_val_def digit_val_def code_def)
  moreover have "is_digit (CHR ''0'')" by (simp add: is_digit_def)
  ultimately show ?thesis using fmt_nat_digits [of n] by (auto simp: digits_of_def list_all_iff)
qed

lemma seg_seq_of_name [simp]: "seg_seq_of (seg_name s, SegFile f) = Some s"
proof -
  let ?d = "replicate (8 - length (fmt_nat (unat s))) (CHR ''0'') @ fmt_nat (unat s)"
  have name: "seg_name s = ?d @ seg_suffix" by (simp add: seg_name_def Let_def)
  have "parse_uint 64 ?d = Some (unat s)"
    using unsigned_less [of s] by (simp add: parse_uint_def digits_of_padded)
  then have "parse_uint 64 (take (length (seg_name s) - length seg_suffix) (seg_name s)) = Some (unat s)"
    by (simp add: name del: append_assoc)
  moreover have "suffix seg_suffix (seg_name s)" by (simp add: name suffix_def del: append_assoc)
  ultimately show ?thesis by (simp add: seg_seq_of_def)
qed

lemma seg_name_inj [simp]: "seg_name s = seg_name t \<longleftrightarrow> s = t"
  by (metis option.inject seg_seq_of_name)

definition dir_seqs :: "seg_dir \<Rightarrow> u64 list" where
  "dir_seqs dir = List.map_filter seg_seq_of dir"

lemma seq_of_file: "seg_seq_of (k, SegFile f) = seg_seq_of (k, SegFile g)"
  by (simp add: seg_seq_of_def)

lemma dir_seqs_Cons: "dir_seqs (p # d) = (case seg_seq_of p of None \<Rightarrow> dir_seqs d | Some s \<Rightarrow> s # dir_seqs d)"
  by (simp add: dir_seqs_def List.map_filter_simps split: option.splits)

lemma dir_seqs_update: "kv_ok dir \<Longrightarrow> kv_get dir k = Some (SegFile f) \<Longrightarrow> dir_seqs (kv_set k (SegFile g) dir) = dir_seqs dir"
proof (induction dir)
  case (Cons p d)
  obtain a b where p: "p = (a, b)" by (cases p)
  have "kv_ok d" using Cons.prems(1) by (auto simp: kv_ok_def)
  moreover have "kv_get d k = None" if "k < a"
    using Cons.prems(1) that by (force simp: p kv_ok_def kv_get_def map_of_eq_None_iff)
  ultimately show ?case
    using Cons seq_of_file [of k f g] by (auto simp: p dir_seqs_Cons kv_get_def split: if_splits option.splits)
qed (simp add: kv_get_def)

lemma dir_seqs_new:
  "kv_get dir k = None \<Longrightarrow> seg_seq_of (k, SegFile g) = Some s \<Longrightarrow> mset (dir_seqs (kv_set k (SegFile g) dir)) = add_mset s (mset (dir_seqs dir))"
  by (induction k "SegFile g" dir rule: kv_set.induct)
    (auto simp: dir_seqs_Cons kv_get_def dir_seqs_def [of "[]"] List.map_filter_simps split: if_splits option.splits)

lemma kv_del_unknown: "kv_get dir k = None \<Longrightarrow> kv_del k dir = dir"
  unfolding kv_del_def kv_get_def by (rule filter_True) (force simp: map_of_eq_None_iff)

lemma dir_seqs_del:
  "kv_ok dir \<Longrightarrow> kv_get dir (seg_name s) = Some (SegFile f) \<Longrightarrow> add_mset s (mset (dir_seqs (kv_del (seg_name s) dir))) = mset (dir_seqs dir)"
proof (induction dir)
  case (Cons p d)
  obtain a b where p: "p = (a, b)" by (cases p)
  have d: "kv_ok d" using Cons.prems(1) by (auto simp: kv_ok_def)
  show ?case
  proof (cases "a = seg_name s")
    case True
    then have "kv_get d (seg_name s) = None"
      using Cons.prems(1) by (force simp: p kv_ok_def kv_get_def map_of_eq_None_iff)
    then have "kv_del (seg_name s) d = d" by (rule kv_del_unknown)
    then show ?thesis using Cons.prems(2) True by (simp add: p kv_del_def kv_get_def dir_seqs_Cons)
  next
    case False
    have del: "kv_del (seg_name s) (p # d) = p # kv_del (seg_name s) d" using False by (simp add: p kv_del_def)
    have "kv_get d (seg_name s) = Some (SegFile f)" using Cons.prems(2) False by (simp add: p kv_get_def)
    then have ih: "add_mset s (mset (dir_seqs (kv_del (seg_name s) d))) = mset (dir_seqs d)" using Cons.IH d by blast
    show ?thesis unfolding del dir_seqs_Cons using ih by (auto split: option.split)
  qed
qed (simp add: kv_get_def)

lemma keys_link_all [simp]: "List.map fst (link_all dir) = List.map fst dir"
  by (induction dir) (auto simp: link_all_def)

lemma kv_ok_link [simp]: "kv_ok (link_all dir) = kv_ok dir"
  by (simp add: kv_ok_def)

lemma kv_get_link [simp]: "kv_get (link_all dir) k = map_option link_ent (kv_get dir k)"
  by (induction dir) (auto simp: link_all_def kv_get_def)

lemma dir_seqs_link [simp]: "dir_seqs (link_all dir) = dir_seqs dir"
proof (induction dir)
  case (Cons p d)
  have "seg_seq_of (apsnd link_ent p) = seg_seq_of p"
    by (cases p, cases "snd p") (auto simp: seg_seq_of_def split: prod.splits dirent.splits)
  moreover have "link_all (p # d) = apsnd link_ent p # link_all d" by (simp add: link_all_def)
  ultimately show ?case using Cons.IH by (simp add: dir_seqs_Cons split: option.split)
qed (simp add: link_all_def)

definition file_at :: "seg_dir \<Rightarrow> u64 \<Rightarrow> seg_file option" where
  "file_at dir s = (case kv_get dir (seg_name s) of Some (SegFile f) \<Rightarrow> Some f | _ \<Rightarrow> None)"

lemma file_atD: "file_at dir s = Some f \<longleftrightarrow> kv_get dir (seg_name s) = Some (SegFile f)"
  by (auto simp: file_at_def split: option.splits dirent.splits)

lemma file_at_link [simp]: "file_at (link_all dir) s = map_option (\<lambda>f. f\<lparr>sf_linked := True\<rparr>) (file_at dir s)"
  by (auto simp: file_at_def split: option.splits dirent.splits)

lemma on_file_at:
  assumes "kv_ok dir" "file_at dir s = Some f"
  shows "file_at (on_file (seg_name s) g dir) t = (if t = s then Some (g f) else file_at dir t)"
    "dir_seqs (on_file (seg_name s) g dir) = dir_seqs dir" "kv_ok (on_file (seg_name s) g dir)"
  using assms dir_seqs_update [OF assms(1), of "seg_name s" f "g f"]
  by (auto simp: on_file_def file_atD) (auto simp: file_at_def kv_simps)

section \<open>Records\<close>

datatype ('e, 'h) seg_rec = Ent 'e | Hs 'h

fun rec_payload :: "('e, 'h) raft_codec \<Rightarrow> ('e, 'h) seg_rec \<Rightarrow> bytes option" where
  "rec_payload c (Ent e) = enc_entry c e"
| "rec_payload c (Hs h) = enc_hs c h"

fun rec_type :: "('e, 'h) seg_rec \<Rightarrow> char" where
  "rec_type (Ent e) = rec_entry"
| "rec_type (Hs h) = rec_hard_state"

definition rec_bytes :: "('e, 'h) raft_codec \<Rightarrow> ('e, 'h) seg_rec \<Rightarrow> bytes" where
  "rec_bytes c r = frame (rec_type r) (the (rec_payload c r))"

definition recs_bytes :: "('e, 'h) raft_codec \<Rightarrow> ('e, 'h) seg_rec list \<Rightarrow> bytes" where
  "recs_bytes c rs = concat (List.map (rec_bytes c) rs)"

text \<open>A record that can be read back: its encoding exists and is within a frame's limit.\<close>

definition fits :: "('e, 'h) raft_codec \<Rightarrow> ('e, 'h) seg_rec \<Rightarrow> bool" where
  "fits c r \<longleftrightarrow> (case rec_payload c r of None \<Rightarrow> False | Some b \<Rightarrow> 1 + length b \<le> max_frame_len)"

text \<open>What the code relies on in \<open>raftpb\<close>: decoding gives back what was encoded.\<close>

definition codec_ok :: "('e, 'h) raft_codec \<Rightarrow> bool" where
  "codec_ok c \<longleftrightarrow> (\<forall>e b. enc_entry c e = Some b \<longrightarrow> dec_entry c b = Some e) \<and> (\<forall>h b. enc_hs c h = Some b \<longrightarrow> dec_hs c b = Some h)"

definition recs_of :: "'h option \<Rightarrow> 'e list \<Rightarrow> ('e, 'h) seg_rec list" where
  "recs_of hs ents = (case hs of None \<Rightarrow> [] | Some h \<Rightarrow> [Hs h]) @ List.map Ent ents"

lemma recs_bytes_simps [simp]:
  "recs_bytes c [] = []" "recs_bytes c (r # rs) = rec_bytes c r @ recs_bytes c rs"
  "recs_bytes c (rs @ qs) = recs_bytes c rs @ recs_bytes c qs"
  by (simp_all add: recs_bytes_def)

lemma rec_bytes_nonempty [simp]: "rec_bytes c r \<noteq> []"
  by (metis length_0_conv length_frame rec_bytes_def add_is_0 one_neq_zero)

lemma recs_bytes_Nil_iff [simp]: "recs_bytes c rs = [] \<longleftrightarrow> rs = []"
  by (cases rs) auto

lemma build_entries_ok: "build_entries c buf es = Inr out \<Longrightarrow> out = buf @ recs_bytes c (List.map Ent es)"
proof (induction es arbitrary: buf)
  case (Cons e es)
  then obtain b where b: "enc_entry c e = Some b" "build_entries c (append_frame buf rec_entry b) es = Inr out"
    by (auto simp: append_frame_marshal_eq split: option.splits)
  show ?case using Cons.IH [OF b(2)] b(1) by (simp add: append_frame_eq rec_bytes_def)
qed simp

lemma build_buf_ok: "build_buf c hs es = Inr out \<Longrightarrow> out = recs_bytes c (recs_of hs es)"
  by (cases hs) (auto simp: build_buf_def recs_of_def append_frame_marshal_eq append_frame_eq rec_bytes_def
      dest!: build_entries_ok split: option.splits)

lemma build_entries_total: "list_all (fits c) (List.map Ent es) \<Longrightarrow> \<exists>out. build_entries c buf es = Inr out"
  by (induction es arbitrary: buf) (auto simp: fits_def append_frame_marshal_eq split: option.splits)

lemma build_buf_total: "list_all (fits c) (recs_of hs es) \<Longrightarrow> build_buf c hs es = Inr (recs_bytes c (recs_of hs es))"
  using build_buf_ok [of c hs es] build_entries_total [of c es]
  by (cases hs) (fastforce simp: build_buf_def recs_of_def fits_def append_frame_marshal_eq split: option.splits)+

section \<open>Replaying\<close>

fun apply_rec :: "('e, 'h) raft_codec \<Rightarrow> u64 \<Rightarrow> ('e, 'h) seg_rec \<Rightarrow> ('e, 'h) replay \<Rightarrow> ('e, 'h) replay" where
  "apply_rec c seq (Ent e) r = replay_entry c seq e r"
| "apply_rec c seq (Hs h) r = r\<lparr>rp_hs := Some h\<rparr>"

definition apply_recs :: "('e, 'h) raft_codec \<Rightarrow> u64 \<Rightarrow> ('e, 'h) seg_rec list \<Rightarrow> ('e, 'h) replay \<Rightarrow> ('e, 'h) replay" where
  "apply_recs c seq rs r = fold (apply_rec c seq) rs r"

lemma scan_record:
  assumes "codec_ok c" "fits c rc"
  shows "scan_loop c seq (pre @ rec_bytes c rc @ rest) (length pre) r =
    scan_loop c seq (pre @ rec_bytes c rc @ rest) (length (pre @ rec_bytes c rc)) (apply_rec c seq rc r)"
proof -
  obtain b where b: "rec_payload c rc = Some b" "1 + length b \<le> max_frame_len"
    using assms(2) by (auto simp: fits_def split: option.splits)
  have rd: "read_frame (rec_bytes c rc @ rest) = Some (rec_type rc, b, length (rec_bytes c rc))"
    using read_frame_append [OF b(2)] b(1) by (simp add: rec_bytes_def)
  have "rec_hard_state \<noteq> rec_entry" by (simp add: rec_hard_state_def rec_entry_def)
  then show ?thesis
    using assms(1) b(1) rd by (subst scan_loop.simps) (cases rc, auto simp: codec_ok_def)
qed

lemma scan_records:
  assumes "codec_ok c" "list_all (fits c) rs"
  shows "scan_loop c seq (pre @ recs_bytes c rs @ rest) (length pre) r =
    scan_loop c seq (pre @ recs_bytes c rs @ rest) (length (pre @ recs_bytes c rs)) (apply_recs c seq rs r)"
  using assms(2)
proof (induction rs arbitrary: pre r)
  case (Cons x xs)
  then show ?case
    using scan_record [OF assms(1), of x seq pre "recs_bytes c xs @ rest" r]
      Cons.IH [of "pre @ rec_bytes c x" "apply_rec c seq x r"]
    by (simp add: apply_recs_def)
qed (simp add: apply_recs_def)

lemma scan_loop_end:
  assumes "codec_ok c" "list_all (fits c) rs" "read_frame rest = None"
  shows "scan_loop c seq (recs_bytes c rs @ rest) 0 r =
    (apply_recs c seq rs r, length (recs_bytes c rs), if rest = [] then None else Some CutFrame)"
  using scan_records [OF assms(1,2), of seq "[]" rest r] assms(3)
  by (simp add: scan_loop.simps [of _ _ _ "length _"])

text \<open>The part of a replay that does not depend on where the segments end.\<close>

definition view :: "('e, 'h) replay \<Rightarrow> 'h option \<times> 'e list \<times> u64" where
  "view r = (rp_hs r, rp_ents r, rp_last r)"

fun step_rec :: "('e, 'h) raft_codec \<Rightarrow> ('e, 'h) seg_rec \<Rightarrow> 'h option \<times> 'e list \<times> u64 \<Rightarrow> 'h option \<times> 'e list \<times> u64" where
  "step_rec c (Ent e) (hs, ents, lst) =
     (hs, (if ent_index c e \<le> lst then cut_tail c (ent_index c e) ents else ents) @ [e], ent_index c e)"
| "step_rec c (Hs h) (hs, ents, lst) = (Some h, ents, lst)"

definition replay_recs :: "('e, 'h) raft_codec \<Rightarrow> ('e, 'h) seg_rec list \<Rightarrow> 'h option \<times> 'e list \<times> u64" where
  "replay_recs c rs = fold (step_rec c) rs (None, [], 0)"

lemma view_apply [simp]: "view (apply_rec c seq rc r) = step_rec c rc (view r)"
  by (cases rc) (simp_all add: view_def replay_entry_def Let_def)

lemma view_applys [simp]: "view (apply_recs c seq rs r) = fold (step_rec c) rs (view r)"
  by (induction rs arbitrary: r) (simp_all add: apply_recs_def)

lemma view_max [simp]: "view (r\<lparr>rp_max := m\<rparr>) = view r"
  by (simp add: view_def)

lemma view_empty [simp]: "view empty_replay = (None, [], 0)"
  by (simp add: view_def empty_replay_def)

lemma replay_append: "replay_recs c (rs @ qs) = fold (step_rec c) qs (replay_recs c rs)"
  by (simp add: replay_recs_def)

text \<open>The specification of a write to the log: what is overwritten is gone, the new entries follow.\<close>

definition splice :: "('e, 'h) raft_codec \<Rightarrow> 'e list \<Rightarrow> 'e list \<Rightarrow> 'e list" where
  "splice c old new = (if new = [] then old else filter (\<lambda>e. ent_index c e < ent_index c (hd new)) old @ new)"

definition ascending :: "('e, 'h) raft_codec \<Rightarrow> 'e list \<Rightarrow> bool" where
  "ascending c es \<longleftrightarrow> sorted_wrt (<) (List.map (ent_index c) es)"

text \<open>A replayed log is ascending and ends at the last index.\<close>

fun view_ok :: "('e, 'h) raft_codec \<Rightarrow> 'h option \<times> 'e list \<times> u64 \<Rightarrow> bool" where
  "view_ok c (hs, ents, lst) \<longleftrightarrow> ascending c ents \<and> lst = (if ents = [] then 0 else ent_index c (last ents))"

lemma cut_tail_filter: "ascending c ents \<Longrightarrow> cut_tail c i ents = filter (\<lambda>e. ent_index c e < i) ents"
proof (induction ents rule: rev_induct)
  case (snoc x xs)
  have asc: "ascending c xs" "\<forall>e\<in>set xs. ent_index c e < ent_index c x"
    using snoc.prems by (auto simp: ascending_def sorted_wrt_append)
  show ?case
  proof (cases "i \<le> ent_index c x")
    case True
    then show ?thesis using snoc.IH [OF asc(1)] by (simp add: cut_tail_def)
  next
    case False
    then have "\<forall>e\<in>set xs. ent_index c e < i" using asc(2) by force
    then have "filter (\<lambda>e. ent_index c e < i) xs = xs" by simp
    then show ?thesis using False by (simp add: cut_tail_def not_le)
  qed
qed (simp add: cut_tail_def)

lemma step_entry: "view_ok c (hs, ents, lst) \<Longrightarrow> step_rec c (Ent e) (hs, ents, lst) =
    (hs, filter (\<lambda>x. ent_index c x < ent_index c e) ents @ [e], ent_index c e)"
proof -
  assume v: "view_ok c (hs, ents, lst)"
  then have asc: "ascending c ents" by simp
  have "filter (\<lambda>x. ent_index c x < ent_index c e) ents = ents" if big: "\<not> ent_index c e \<le> lst"
  proof (rule filter_True, rule ballI)
    fix x assume x: "x \<in> set ents"
    then obtain ys z where e: "ents = ys @ [z]" by (cases ents rule: rev_cases) auto
    then have "ent_index c x \<le> ent_index c z" using asc x by (auto simp: ascending_def sorted_wrt_append intro: less_imp_le)
    then show "ent_index c x < ent_index c e" using big v e by simp
  qed
  then show ?thesis using cut_tail_filter [OF asc] by simp
qed

lemma view_ok_step: "view_ok c v \<Longrightarrow> view_ok c (step_rec c rc v)"
proof -
  assume v: "view_ok c v"
  obtain hs ents lst where s: "v = (hs, ents, lst)" by (cases v) auto
  have "ascending c (filter (\<lambda>x. ent_index c x < i) ents)" for i
    using v by (auto simp: s ascending_def sorted_wrt_map sorted_wrt_filter)
  then show ?thesis
    using v step_entry [of c hs ents lst]
    by (cases rc) (auto simp: s ascending_def sorted_wrt_append simp del: step_rec.simps(1))
qed

lemma view_ok_fold: "view_ok c v \<Longrightarrow> view_ok c (fold (step_rec c) rs v)"
  by (induction rs arbitrary: v) (auto simp: view_ok_step)

lemma view_ok_replay: "view_ok c (replay_recs c rs)"
  unfolding replay_recs_def by (rule view_ok_fold) (simp add: ascending_def)

lemma fold_entries:
  assumes "view_ok c (hs, old, lst)" "ascending c new"
  shows "fold (step_rec c) (List.map Ent new) (hs, old, lst) =
    (hs, splice c old new, if new = [] then lst else ent_index c (last new))"
  using assms
proof (induction new rule: rev_induct)
  case (snoc x xs)
  have asc: "ascending c xs" "\<forall>e\<in>set xs. ent_index c e < ent_index c x"
    using snoc.prems(2) by (auto simp: ascending_def sorted_wrt_append)
  let ?v = "(hs, splice c old xs, if xs = [] then lst else ent_index c (last xs))"
  have f: "fold (step_rec c) (List.map Ent xs) (hs, old, lst) = ?v" using snoc asc(1) by blast
  then have v: "view_ok c ?v" using view_ok_fold [OF snoc.prems(1), of "List.map Ent xs"] by simp
  have "filter (\<lambda>e. ent_index c e < ent_index c x) (splice c old xs) @ [x] = splice c old (xs @ [x])"
  proof (cases xs)
    case (Cons y ys)
    then have "ent_index c y < ent_index c x" using asc(2) by simp
    then have "filter (\<lambda>e. ent_index c e < ent_index c x) (splice c old xs) = splice c old xs"
      using asc(2) by (intro filter_True) (auto simp: splice_def Cons)
    then show ?thesis by (simp add: splice_def Cons)
  qed (simp add: splice_def)
  then show ?case using step_entry [OF v, of x] f by simp
qed (simp add: splice_def)

theorem replay_write:
  assumes "replay_recs c rs = (hs0, old, lst)" "ascending c new"
  shows "replay_recs c (rs @ recs_of hs new) =
    (if hs = None then hs0 else hs, splice c old new, if new = [] then lst else ent_index c (last new))"
proof -
  have "view_ok c (h, old, lst)" for h using view_ok_replay [of c rs] assms(1) by simp
  then show ?thesis
    using fold_entries [OF _ assms(2)] by (cases hs) (auto simp: replay_append assms(1) recs_of_def)
qed

end
