(* ===== verification/Seg_Files.thy ===== *)
theory Seg_Files
  imports Seg_Replay
begin

text \<open>
  The invariant of an open segment log, and that \<open>Open\<close>, \<open>Append\<close>, the rotation and \<open>Sync\<close> keep it.
\<close>

section \<open>What a directory holds\<close>

fun ents_in :: "('e, 'h) seg_rec list \<Rightarrow> 'e list" where
  "ents_in [] = []"
| "ents_in (Ent e # rs) = e # ents_in rs"
| "ents_in (Hs h # rs) = ents_in rs"

text \<open>The largest index a closed segment stands for, as a scan finds it.\<close>

definition max_of :: "('e, 'h) raft_codec \<Rightarrow> ('e, 'h) seg_rec list \<Rightarrow> u64" where
  "max_of c ws = (if ents_in ws = [] then 0 else ent_index c (last (ents_in ws)))"

type_synonym ('e, 'h) seg_list = "(u64 \<times> ('e, 'h) seg_rec list) list"

definition all_recs :: "('e, 'h) seg_list \<Rightarrow> ('e, 'h) seg_rec list \<Rightarrow> ('e, 'h) seg_rec list" where
  "all_recs segs rs = concat (List.map snd segs) @ rs"

definition closed_ok :: "('e, 'h) raft_codec \<Rightarrow> seg_dir \<Rightarrow> u64 \<times> ('e, 'h) seg_rec list \<Rightarrow> bool" where
  "closed_ok c dir p \<longleftrightarrow>
     (\<exists>f. file_at dir (fst p) = Some f \<and> sf_data f = recs_bytes c (snd p) \<and> list_all (fits c) (snd p) \<and>
          sf_clean f \<and> sf_linked f)"

definition active_ok :: "('e, 'h) raft_codec \<Rightarrow> nat \<Rightarrow> ('e, 'h) seg_rec list \<Rightarrow> bytes \<Rightarrow> seg_file \<Rightarrow> bool" where
  "active_ok c M rs rest f \<longleftrightarrow>
     sf_data f = recs_bytes c rs @ rest \<and> list_all (fits c) rs \<and> sf_linked f \<and>
     length (recs_bytes c rs) \<le> max M (sf_alloc f)"

definition names_ok :: "('e, 'h) seg_list \<Rightarrow> u64 \<Rightarrow> seg_dir \<Rightarrow> bool" where
  "names_ok segs seq dir \<longleftrightarrow>
     kv_ok dir \<and> mset (dir_seqs dir) = mset (List.map fst segs @ [seq]) \<and> sorted_wrt (<) (List.map fst segs @ [seq])"

text \<open>
  Segments \<open>segs\<close> are closed and intact; the last one, \<open>seq\<close>, holds the records \<open>rs\<close> and then
  something that is not a frame: nothing, preallocated zeros, or a torn write.
\<close>

definition dir_ok :: "('e, 'h) raft_codec \<Rightarrow> nat \<Rightarrow> ('e, 'h) seg_list \<Rightarrow> u64 \<Rightarrow> ('e, 'h) seg_rec list \<Rightarrow> seg_dir \<Rightarrow> bool" where
  "dir_ok c M segs seq rs dir \<longleftrightarrow>
     names_ok segs seq dir \<and> list_all (closed_ok c dir) segs \<and>
     (\<exists>f rest. file_at dir seq = Some f \<and> read_frame rest = None \<and> active_ok c M rs rest f)"

text \<open>An environment in which no call fails.\<close>

definition quiet :: "seg_env \<Rightarrow> bool" where
  "quiet env \<longleftrightarrow> (\<forall>i. \<not> sg_fails env i)"

lemma quietD [simp]: "quiet env \<Longrightarrow> \<not> sg_fails env i"
  by (simp add: quiet_def)

definition scan_closed :: "('e, 'h) raft_codec \<Rightarrow> ('e, 'h) seg_list \<Rightarrow> ('e, 'h) replay \<Rightarrow> ('e, 'h) replay" where
  "scan_closed c segs r = fold (\<lambda>(s, ws) r. apply_recs c s ws (r\<lparr>rp_max := kv_set s 0 (rp_max r)\<rparr>)) segs r"

lemma scan_one_closed:
  assumes "\<not> sg_fails env (ORead (fst p))" "codec_ok c" "closed_ok c dir p"
  shows "scan_seg env c False (fst p) r dir =
    (Inr (apply_recs c (fst p) (snd p) (r\<lparr>rp_max := kv_set (fst p) 0 (rp_max r)\<rparr>), length (recs_bytes c (snd p))), dir)"
proof -
  obtain f where f: "file_at dir (fst p) = Some f" "sf_data f = recs_bytes c (snd p) @ []" "list_all (fits c) (snd p)"
    using assms(3) by (auto simp: closed_ok_def)
  show ?thesis
    using assms(1) f(1) scan_loop_end [OF assms(2) f(3) read_frame_Nil, of "fst p"] by (simp add: scan_seg_def file_atD f(2))
qed

lemma scan_segs_closed:
  assumes "\<And>p. p \<in> set segs \<Longrightarrow> \<not> sg_fails env (ORead (fst p))" "codec_ok c" "list_all (closed_ok c dir) segs" "seqs \<noteq> []"
  shows "\<exists>k'. scan_segs env c (List.map fst segs @ seqs) (r, k) dir = scan_segs env c seqs (scan_closed c segs r, k') dir"
  using assms(1,3)
proof (induction segs arbitrary: r k)
  case (Cons p ps)
  then show ?case
    using scan_one_closed [OF Cons.prems(1) assms(2), of p dir r] assms(4)
    by (simp add: sbind_def scan_closed_def split_beta)
qed (auto simp: scan_closed_def)

lemma view_scan_closed: "view (scan_closed c segs r) = fold (step_rec c) (concat (List.map snd segs)) (view r)"
  by (induction segs arbitrary: r) (auto simp: scan_closed_def)

lemma max_apply:
  "kv_get (rp_max (apply_recs c s ws r)) t =
     (if t = s \<and> ents_in ws \<noteq> [] then Some (ent_index c (last (ents_in ws))) else kv_get (rp_max r) t)"
proof (induction ws arbitrary: r)
  case (Cons w ws)
  then show ?case by (cases w) (auto simp: apply_recs_def replay_entry_def Let_def kv_simps)
qed (simp add: apply_recs_def)

lemma max_apply_ok: "kv_ok (rp_max r) \<Longrightarrow> kv_ok (rp_max (apply_recs c s ws r))"
proof (induction ws arbitrary: r)
  case (Cons w ws)
  then show ?case by (cases w) (auto simp: apply_recs_def replay_entry_def Let_def)
qed (simp add: apply_recs_def)

lemma max_scan_closed:
  assumes "distinct (List.map fst segs)" "kv_ok (rp_max r)"
  shows "kv_ok (rp_max (scan_closed c segs r)) \<and>
    kv_get (rp_max (scan_closed c segs r)) t =
       (case map_of segs t of Some ws \<Rightarrow> Some (max_of c ws) | None \<Rightarrow> kv_get (rp_max r) t)"
  using assms
proof (induction segs rule: rev_induct)
  case (snoc p ps)
  obtain s ws where p: "p = (s, ws)" by (cases p)
  have s: "map_of ps s = None" using snoc.prems(1) by (simp add: p map_of_eq_None_iff)
  have ih: "kv_ok (rp_max (scan_closed c ps r))"
      "kv_get (rp_max (scan_closed c ps r)) t = (case map_of ps t of Some ws \<Rightarrow> Some (max_of c ws) | None \<Rightarrow> kv_get (rp_max r) t)"
    using snoc by auto
  have un: "scan_closed c (ps @ [(s, ws)]) r =
      apply_recs c s ws ((scan_closed c ps r)\<lparr>rp_max := kv_set s 0 (rp_max (scan_closed c ps r))\<rparr>)"
    by (simp add: scan_closed_def)
  have "kv_ok (rp_max (scan_closed c (ps @ [(s, ws)]) r))" unfolding un by (rule max_apply_ok) (simp add: ih)
  then show ?case
    using ih(2) s by (auto simp: p) (auto simp: un max_apply kv_simps max_of_def map_add_def split: option.splits)
qed (auto simp: scan_closed_def)

section \<open>An open log\<close>

text \<open>What holds of the files between the steps of an operation.\<close>

definition files_ok :: "('e, 'h) raft_codec \<Rightarrow> nat \<Rightarrow> ('e, 'h) seg_list \<Rightarrow> ('e, 'h) seg_rec list \<Rightarrow> 'h seg_node \<Rightarrow> bool" where
  "files_ok c M segs rs n \<longleftrightarrow>
     names_ok segs (sl_seq (sn_log n)) (sn_dir n) \<and> list_all (closed_ok c (sn_dir n)) segs \<and>
     (\<exists>f z. file_at (sn_dir n) (sl_seq (sn_log n)) = Some f \<and> sf_data f = recs_bytes c rs @ zeros z \<and>
            list_all (fits c) rs \<and> sf_linked f \<and> (sl_prealloc (sn_log n) \<longrightarrow> M \<le> sf_alloc f)) \<and>
     sl_size (sn_log n) = length (recs_bytes c rs)"

text \<open>The memory of the log agrees with what a replay of the files gives.\<close>

definition max_ok :: "('e, 'h) raft_codec \<Rightarrow> ('e, 'h) seg_list \<Rightarrow> (u64, u64) omap \<Rightarrow> bool" where
  "max_ok c segs mx \<longleftrightarrow>
     kv_ok mx \<and>
     (\<forall>t. case map_of segs t of
            None \<Rightarrow> kv_get mx t = None
          | Some ws \<Rightarrow> \<exists>m. kv_get mx t = Some m \<and> (ents_in ws \<noteq> [] \<longrightarrow> m = max_of c ws))"

definition mem_ok :: "('e, 'h) raft_codec \<Rightarrow> ('e, 'h) seg_list \<Rightarrow> ('e, 'h) seg_rec list \<Rightarrow> 'h seg_log \<Rightarrow> bool" where
  "mem_ok c segs rs l \<longleftrightarrow>
     sl_open l \<and> (\<exists>ents. replay_recs c (all_recs segs rs) = (sl_hs l, ents, sl_last l)) \<and> max_ok c segs (sl_max l)"

definition within :: "nat \<Rightarrow> 'h seg_node \<Rightarrow> bool" where
  "within M n \<longleftrightarrow>
     (\<exists>f. file_at (sn_dir n) (sl_seq (sn_log n)) = Some f \<and> sl_size (sn_log n) \<le> max M (sf_alloc f))"

definition log_ok :: "('e, 'h) raft_codec \<Rightarrow> nat \<Rightarrow> ('e, 'h) seg_list \<Rightarrow> ('e, 'h) seg_rec list \<Rightarrow> 'h seg_node \<Rightarrow> bool" where
  "log_ok c M segs rs n \<longleftrightarrow> files_ok c M segs rs n \<and> within M n \<and> mem_ok c segs rs (sn_log n)"

lemma read_frame_zeros' [simp]: "read_frame (zeros z) = None"
  by (simp add: zeros_def read_frame_zeros)

lemma log_dir_ok: "log_ok c M segs rs n \<Longrightarrow> dir_ok c M segs (sl_seq (sn_log n)) rs (sn_dir n)"
  by (fastforce simp: log_ok_def files_ok_def within_def dir_ok_def active_ok_def)

lemma names_sort: "names_ok segs seq dir \<Longrightarrow> sort (dir_seqs dir) = List.map fst segs @ [seq]"
  unfolding names_ok_def by (metis properties_for_sort strict_sorted_imp_sorted)

lemma names_distinct: "names_ok segs seq dir \<Longrightarrow> distinct (List.map fst segs @ [seq])"
  unfolding names_ok_def by (metis strict_sorted_iff)

lemma on_active_dir:
  assumes "names_ok segs seq dir" "list_all (closed_ok c dir) segs" "file_at dir seq = Some f"
  shows "names_ok segs seq (on_file (seg_name seq) g dir)"
    "list_all (closed_ok c (on_file (seg_name seq) g dir)) segs"
    "file_at (on_file (seg_name seq) g dir) seq = Some (g f)"
proof -
  have kv: "kv_ok dir" using assms(1) by (simp add: names_ok_def)
  have "fst p \<noteq> seq" if "p \<in> set segs" for p using names_distinct [OF assms(1)] that by auto
  then show "list_all (closed_ok c (on_file (seg_name seq) g dir)) segs"
    using assms(2) by (auto simp: list_all_iff closed_ok_def on_file_at [OF kv assms(3)])
  show "names_ok segs seq (on_file (seg_name seq) g dir)" "file_at (on_file (seg_name seq) g dir) seq = Some (g f)"
    using assms(1) by (simp_all add: names_ok_def on_file_at [OF kv assms(3)])
qed

lemma scan_last:
  assumes "\<not> sg_fails env (ORead seq)" "\<not> sg_fails env (OScanTruncate seq)" "codec_ok c"
    "file_at dir seq = Some f" "active_ok c M rs rest f" "read_frame rest = None"
  shows "scan_segs env c [seq] (r, k) dir =
    (Inr (apply_recs c seq rs r, length (recs_bytes c rs)),
     if rest = [] then dir else on_file (seg_name seq) (file_truncate (length (recs_bytes c rs))) dir)"
proof -
  have "scan_loop c seq (sf_data f) 0 r =
      (apply_recs c seq rs r, length (recs_bytes c rs), if rest = [] then None else Some CutFrame)"
    using scan_loop_end [OF assms(3) _ assms(6), of rs seq r] assms(5) by (simp add: active_ok_def)
  then show ?thesis
    using assms(1,2,4) by (simp add: scan_seg_def sbind_def sret_def dir_op_def file_atD)
qed

lemma on_file_none: "kv_get (on_file name g dir) k = None \<longleftrightarrow> kv_get dir k = None"
  by (auto simp: on_file_def kv_simps split: option.splits dirent.splits)

text \<open>Opening a directory gives back the replay of its records, and a log in order.\<close>

lemma open_intact:
  assumes "quiet env" "codec_ok c" "dir_ok c (sg_max_bytes env) segs seq rs dir"
  obtains l dir' where
    "open_log env c dir = (Inr (l, fst (replay_recs c (all_recs segs rs)), fst (snd (replay_recs c (all_recs segs rs)))), dir')"
    "log_ok c (sg_max_bytes env) segs rs \<lparr>sn_dir = dir', sn_log = l\<rparr>" "sl_seq l = seq"
    "\<forall>ws\<in>set segs. kv_get (sl_max l) (fst ws) = Some (max_of c (snd ws))"
    "\<And>k. kv_get dir' k = None \<longleftrightarrow> kv_get dir k = None"
proof -
  let ?M = "sg_max_bytes env"
  obtain f rest where d: "names_ok segs seq dir" "list_all (closed_ok c dir) segs" "file_at dir seq = Some f"
      "read_frame rest = None" "active_ok c ?M rs rest f"
    using assms(3) by (auto simp: dir_ok_def)
  let ?r = "apply_recs c seq rs (scan_closed c segs empty_replay)"
  let ?sz = "length (recs_bytes c rs)"
  let ?cut = "if rest = [] then id else file_truncate ?sz"
  let ?dir1 = "if rest = [] then dir else on_file (seg_name seq) (file_truncate ?sz) dir"
  have seqs: "scan_seg_seqs env dir = Inr (List.map fst segs @ [seq])"
    using names_sort [OF d(1)] assms(1) by (simp add: scan_seg_seqs_def dir_seqs_def)
  obtain k where k: "scan_segs env c (List.map fst segs @ [seq]) (empty_replay, 0) dir =
      scan_segs env c [seq] (scan_closed c segs empty_replay, k) dir"
    using scan_segs_closed [OF _ assms(2) d(2), of env "[seq]" empty_replay 0] assms(1) by auto
  have scan: "scan_segs env c (List.map fst segs @ [seq]) (empty_replay, 0) dir = (Inr (?r, ?sz), ?dir1)"
    using k scan_last [OF _ _ assms(2) d(3,5,4)] assms(1) by simp
  have d1: "names_ok segs seq ?dir1" "list_all (closed_ok c ?dir1) segs" "file_at ?dir1 seq = Some (?cut f)"
    using d on_active_dir [OF d(1-3)] by auto
  let ?g = "if sg_prealloc env then file_alloc ?M else id"
  let ?dir2 = "if sg_prealloc env then on_file (seg_name seq) (file_alloc ?M) ?dir1 else ?dir1"
  have d2: "names_ok segs seq ?dir2" "list_all (closed_ok c ?dir2) segs" "file_at ?dir2 seq = Some (?g (?cut f))"
    using d1 on_active_dir [OF d1] by auto
  let ?l = "\<lparr>sl_open = True, sl_seq = seq, sl_size = ?sz, sl_last = rp_last ?r, sl_hs = rp_hs ?r,
      sl_max = kv_del seq (rp_max ?r), sl_prealloc = sg_prealloc env\<rparr>"
  have vw: "view ?r = replay_recs c (all_recs segs rs)"
    by (simp add: view_scan_closed replay_recs_def all_recs_def)
  have opn: "open_log env c dir = (Inr (?l, rp_hs ?r, rp_ents ?r), ?dir2)"
    using assms(1) d1(3) scan
    by (simp add: open_log_def sbind_def slift_def dir_op_def seqs open_active_def open_create_def file_atD
        prealloc_active_def split del: if_split) (simp add: Let_def)
  have cut: "sf_data (?cut f) = recs_bytes c rs" using d(5) by (simp add: active_ok_def file_truncate_def zeros_def)
  then have data: "sf_data (?g (?cut f)) = recs_bytes c rs @ zeros (if sg_prealloc env then ?M - ?sz else 0)"
    by (simp add: file_alloc_def zeros_def)
  have alloc: "?sz \<le> max ?M (sf_alloc (?g (?cut f)))" "sg_prealloc env \<longrightarrow> ?M \<le> sf_alloc (?g (?cut f))"
      "sf_linked (?g (?cut f))" "list_all (fits c) rs"
    using d(5) by (auto simp: active_ok_def file_alloc_def file_truncate_def)
  have "files_ok c ?M segs rs \<lparr>sn_dir = ?dir2, sn_log = ?l\<rparr>" "within ?M \<lparr>sn_dir = ?dir2, sn_log = ?l\<rparr>"
    using d2 data alloc unfolding files_ok_def within_def by auto
  note fw = this
  have dist: "distinct (List.map fst segs)" "map_of segs seq = None"
    using names_distinct [OF d(1)] by (auto simp: map_of_eq_None_iff)
  have emp: "kv_ok (rp_max empty_replay)" "kv_get (rp_max empty_replay) t = None" for t
    by (simp_all add: empty_replay_def kv_simps)
  have mx: "kv_get (sl_max ?l) t = (case map_of segs t of Some ws \<Rightarrow> Some (max_of c ws) | None \<Rightarrow> None)" for t
    using max_scan_closed [OF dist(1) emp(1), of c t] dist(2) emp(2) [of t]
    by (auto simp: kv_simps max_apply split: option.splits)
  have "kv_ok (sl_max ?l)" using max_scan_closed [OF dist(1) emp(1), of c] by (simp add: max_apply_ok)
  then have "max_ok c segs (sl_max ?l)" unfolding max_ok_def mx by (auto split: option.split)
  moreover have "\<exists>ents. replay_recs c (all_recs segs rs) = (sl_hs ?l, ents, sl_last ?l)"
    using vw [symmetric] by (auto simp: view_def)
  ultimately have "log_ok c ?M segs rs \<lparr>sn_dir = ?dir2, sn_log = ?l\<rparr>" using fw by (simp add: log_ok_def mem_ok_def)
  moreover have "\<forall>ws\<in>set segs. kv_get (sl_max ?l) (fst ws) = Some (max_of c (snd ws))"
    using mx dist(1) by (auto simp: map_of_is_SomeI)
  moreover have "kv_get ?dir2 k = None \<longleftrightarrow> kv_get dir k = None" for k by (simp add: on_file_none)
  ultimately show thesis using that [of ?l ?dir2] opn vw by (metis (no_types, lifting) fst_conv seg_log.select_convs(2) snd_conv view_def)
qed

section \<open>Writing\<close>

text \<open>All of what was written is on disk.\<close>

definition durable :: "'h seg_node \<Rightarrow> bool" where
  "durable n \<longleftrightarrow> (\<exists>f. file_at (sn_dir n) (sl_seq (sn_log n)) = Some f \<and> sl_size (sn_log n) \<le> sf_dur f)"

lemma log_files_ok: "log_ok c M segs rs n \<Longrightarrow> files_ok c M segs rs n"
  by (simp add: log_ok_def)

lemma seg_io_ok: "seg_io env i g n = (Inr u, n') \<longleftrightarrow> \<not> sg_fails env i \<and> n' = g n"
  by (auto simp: seg_io_def)

lemma write_active_ok: "write_active env i b n = (Inr u, n') \<longleftrightarrow> \<not> sg_fails env i \<and>
    n' = on_log (\<lambda>l. l\<lparr>sl_size := sl_size (sn_log n) + length b\<rparr>) (on_active (file_write (sl_size (sn_log n)) b) n)"
  by (auto simp: write_active_def Let_def)

lemma sync_active_ok: "sync_active env i n = (Inr u, n') \<longleftrightarrow> \<not> sg_fails env i \<and>
    n' = on_active (if sl_prealloc (sn_log n) then file_datasync else file_sync) n"
  by (auto simp: sync_active_def seg_io_ok)

lemma node_simps [simp]:
  "sn_log (on_active g n) = sn_log n" "sn_log (on_log h n) = h (sn_log n)" "sn_dir (on_log h n) = sn_dir n"
  "sn_dir (on_active g n) = on_file (seg_name (sl_seq (sn_log n))) g (sn_dir n)"
  by (simp_all add: on_active_def on_log_def)

lemma file_write_end: "sf_data f = d @ zeros z \<Longrightarrow> sf_data (file_write (length d) b f) = d @ b @ zeros (z - length b)"
  by (simp add: file_write_def zeros_def)

lemma file_keeps [simp]:
  "sf_linked (file_write p b f) = sf_linked f" "sf_alloc (file_write p b f) = sf_alloc f"
  "sf_linked (file_sync f) = sf_linked f" "sf_linked (file_datasync f) = sf_linked f"
  "sf_alloc (file_datasync f) = sf_alloc f" "sf_data (file_sync f) = sf_data f" "sf_data (file_datasync f) = sf_data f"
  "sf_linked (file_truncate k f) = sf_linked f" "sf_linked (file_alloc m f) = sf_linked f"
  by (simp_all add: file_write_def file_sync_def file_datasync_def file_truncate_def file_alloc_def)

lemma files_write:
  assumes "files_ok c M segs rs n" "list_all (fits c) new" "write_active env i (recs_bytes c new) n = (Inr u, n')"
  shows "files_ok c M segs (rs @ new) n'" "sn_log n' = (sn_log n)\<lparr>sl_size := length (recs_bytes c (rs @ new))\<rparr>"
proof -
  obtain f z where f: "names_ok segs (sl_seq (sn_log n)) (sn_dir n)" "list_all (closed_ok c (sn_dir n)) segs"
      "file_at (sn_dir n) (sl_seq (sn_log n)) = Some f" "sf_data f = recs_bytes c rs @ zeros z" "list_all (fits c) rs" "sf_linked f"
      "sl_prealloc (sn_log n) \<longrightarrow> M \<le> sf_alloc f" "sl_size (sn_log n) = length (recs_bytes c rs)"
    using assms(1) by (auto simp: files_ok_def)
  show "files_ok c M segs (rs @ new) n'"
    using assms(2,3) f(5-8) on_active_dir [OF f(1-3)] file_write_end [OF f(4), of "recs_bytes c new"]
    by (auto simp: files_ok_def write_active_ok)
  show "sn_log n' = (sn_log n)\<lparr>sl_size := length (recs_bytes c (rs @ new))\<rparr>"
    using assms(3) f(8) by (auto simp: write_active_ok)
qed

lemma files_sync:
  assumes "files_ok c M segs rs n" "sync_active env i n = (Inr u, n')"
  shows "files_ok c M segs rs n'" "sn_log n' = sn_log n"
    "sl_prealloc (sn_log n) \<Longrightarrow> sl_size (sn_log n) \<le> M \<Longrightarrow> durable n'" "\<not> sl_prealloc (sn_log n) \<Longrightarrow> durable n'"
proof -
  obtain f z where f: "names_ok segs (sl_seq (sn_log n)) (sn_dir n)" "list_all (closed_ok c (sn_dir n)) segs"
      "file_at (sn_dir n) (sl_seq (sn_log n)) = Some f" "sf_data f = recs_bytes c rs @ zeros z" "list_all (fits c) rs" "sf_linked f"
      "sl_prealloc (sn_log n) \<longrightarrow> M \<le> sf_alloc f" "sl_size (sn_log n) = length (recs_bytes c rs)"
    using assms(1) by (auto simp: files_ok_def)
  show "files_ok c M segs rs n'" "sn_log n' = sn_log n"
    using assms(2) f on_active_dir [OF f(1-3)] by (auto simp: files_ok_def sync_active_ok)
  show "sl_prealloc (sn_log n) \<Longrightarrow> sl_size (sn_log n) \<le> M \<Longrightarrow> durable n'" "\<not> sl_prealloc (sn_log n) \<Longrightarrow> durable n'"
    using assms(2) f(4,7,8) on_active_dir [OF f(1-3)]
    by (auto simp: durable_def sync_active_ok file_datasync_def file_sync_def)
qed

lemma files_log:
  assumes "files_ok c M segs rs n"
  shows "sl_seq (g (sn_log n)) = sl_seq (sn_log n) \<Longrightarrow> sl_size (g (sn_log n)) = sl_size (sn_log n) \<Longrightarrow>
    sl_prealloc (g (sn_log n)) = sl_prealloc (sn_log n) \<Longrightarrow> files_ok c M segs rs (on_log g n)"
  using assms by (auto simp: files_ok_def)

lemma replay_hs_in: "replay_recs c rs = (Some h, ents, lst) \<Longrightarrow> Hs h \<in> set rs"
proof (induction rs arbitrary: ents lst rule: rev_induct)
  case (snoc x xs)
  obtain h0 e0 l0 where v: "replay_recs c xs = (h0, e0, l0)" by (cases "replay_recs c xs") auto
  show ?case using snoc v by (cases x) (auto simp: replay_append)
qed (simp add: replay_recs_def)

lemma replay_hs_again: "replay_recs c rs = (Some h, ents, lst) \<Longrightarrow> replay_recs c (rs @ [Hs h]) = (Some h, ents, lst)"
  by (simp add: replay_append)

lemma dir_seqs_mem: "kv_get dir k = Some d \<Longrightarrow> seg_seq_of (k, d) = Some s \<Longrightarrow> s \<in> set (dir_seqs dir)"
  by (induction dir) (auto simp: kv_get_def dir_seqs_Cons split: if_splits option.splits)

section \<open>Rotation\<close>

text \<open>The old segment is closed with exactly its records; the new one is empty.\<close>

lemma close_old:
  assumes "files_ok c M segs rs n"
  defines "m \<equiv> on_active file_sync (on_active (file_truncate (sl_size (sn_log n))) n)"
  shows "names_ok segs (sl_seq (sn_log n)) (sn_dir m)" "list_all (closed_ok c (sn_dir m)) (segs @ [(sl_seq (sn_log n), rs)])"
proof -
  let ?s = "sl_seq (sn_log n)"
  obtain f z where f: "names_ok segs ?s (sn_dir n)" "list_all (closed_ok c (sn_dir n)) segs"
      "file_at (sn_dir n) ?s = Some f" "sf_data f = recs_bytes c rs @ zeros z" "list_all (fits c) rs" "sf_linked f"
      "sl_size (sn_log n) = length (recs_bytes c rs)"
    using assms(1) by (auto simp: files_ok_def)
  have 1: "names_ok segs ?s (sn_dir m)" "list_all (closed_ok c (sn_dir m)) segs"
      "file_at (sn_dir m) ?s = Some (file_sync (file_truncate (sl_size (sn_log n)) f))"
    using on_active_dir [OF on_active_dir [OF f(1-3)]] by (simp_all add: m_def)
  have "sf_data (file_truncate (sl_size (sn_log n)) f) = recs_bytes c rs" by (simp add: file_truncate_def f(4,7) zeros_def)
  then have "closed_ok c (sn_dir m) (?s, rs)" using f(5,6) 1(3) by (simp add: closed_ok_def) (simp add: file_sync_def)
  then show "names_ok segs ?s (sn_dir m)" "list_all (closed_ok c (sn_dir m)) (segs @ [(?s, rs)])" using 1 by simp_all
qed

lemma names_new:
  assumes "names_ok segs s dir" "s < s + 1" "open_create (seg_name (s + 1)) dir = Some dir'"
  shows "names_ok (segs @ [(s, rs)]) (s + 1) dir'" "file_at dir' (s + 1) = Some new_file" "t \<noteq> s + 1 \<Longrightarrow> file_at dir' t = file_at dir t"
proof -
  have kv: "kv_ok dir" and ms: "mset (dir_seqs dir) = mset (List.map fst segs @ [s])"
    and so: "sorted_wrt (<) (List.map fst segs @ [s])"
    using assms(1) by (auto simp: names_ok_def)
  have "s + 1 \<notin> set (List.map fst segs @ [s])" using so assms(2) by (auto simp: sorted_wrt_append)
  then have "s + 1 \<notin> set (dir_seqs dir)" using ms by (metis set_mset_mset)
  then have new: "kv_get dir (seg_name (s + 1)) = None" and dir': "dir' = kv_set (seg_name (s + 1)) (SegFile new_file) dir"
    using assms(3) dir_seqs_mem [of dir "seg_name (s + 1)"] by (auto simp: open_create_def split: option.splits dirent.splits)
  have "sorted_wrt (<) (List.map fst (segs @ [(s, rs)]) @ [s + 1])"
    using so assms(2) by (auto simp: sorted_wrt_append)
  then show "names_ok (segs @ [(s, rs)]) (s + 1) dir'"
    using kv ms dir_seqs_new [OF new, of new_file "s + 1"] by (simp add: names_ok_def dir')
  show "file_at dir' (s + 1) = Some new_file" by (simp add: dir' file_atD kv_simps)
  show "t \<noteq> s + 1 \<Longrightarrow> file_at dir' t = file_at dir t" by (simp add: dir' file_at_def kv_simps)
qed

lemma names_link: "names_ok segs s (link_all dir) = names_ok segs s dir"
  by (simp add: names_ok_def)

definition hs_recs :: "'h option \<Rightarrow> ('e, 'h) seg_rec list" where
  "hs_recs h = recs_of h []"

lemma prealloc_active_ok:
  "prealloc_active env i n = (Inr u, n') \<longleftrightarrow> \<not> sg_fails env i \<and>
     n' = on_log (\<lambda>l. l\<lparr>sl_prealloc := sg_prealloc env\<rparr>)
            (if sg_prealloc env then on_active (file_alloc (sg_max_bytes env)) n else n)"
  by (auto simp: prealloc_active_def on_active_def on_log_def)

lemma files_prealloc:
  assumes "files_ok c (sg_max_bytes env) segs [] n" "prealloc_active env i n = (Inr u, n')"
  shows "files_ok c (sg_max_bytes env) segs [] n'" "sn_log n' = (sn_log n)\<lparr>sl_prealloc := sg_prealloc env\<rparr>"
proof -
  let ?s = "sl_seq (sn_log n)"
  obtain f z where f: "names_ok segs ?s (sn_dir n)" "list_all (closed_ok c (sn_dir n)) segs"
      "file_at (sn_dir n) ?s = Some f" "sf_data f = zeros z" "sf_linked f" "sl_size (sn_log n) = 0"
    using assms(1) by (auto simp: files_ok_def)
  have "sf_data (file_alloc (sg_max_bytes env) f) = zeros (max z (sg_max_bytes env))"
    by (auto simp: file_alloc_def f(4) zeros_def max_def simp flip: replicate_add)
  then show "files_ok c (sg_max_bytes env) segs [] n'"
    using assms(2) f on_active_dir [OF f(1-3), of "file_alloc (sg_max_bytes env)"]
    by (auto simp: files_ok_def prealloc_active_ok) (auto simp: file_alloc_def)
  show "sn_log n' = (sn_log n)\<lparr>sl_prealloc := sg_prealloc env\<rparr>" using assms(2) by (auto simp: prealloc_active_ok)
qed

text \<open>Room for one hard state in a segment.\<close>

definition hs_small :: "('e, 'h) raft_codec \<Rightarrow> nat \<Rightarrow> bool" where
  "hs_small c M \<longleftrightarrow> (\<forall>h b. enc_hs c h = Some b \<longrightarrow> frame_header_len + 1 + length b \<le> M)"

lemma rewrite_hs_ok:
  assumes "files_ok c M segs [] n" "rewrite_hs env c n = (Inr u, n')" "hs_small c M"
    "\<And>h. sl_hs (sn_log n) = Some h \<Longrightarrow> fits c (Hs h)"
  shows "files_ok c M segs (hs_recs (sl_hs (sn_log n))) n' \<and> durable n' \<and> sl_size (sn_log n') \<le> M \<and>
    sn_log n' = (sn_log n)\<lparr>sl_size := sl_size (sn_log n')\<rparr>"
proof (cases "sl_hs (sn_log n)")
  case None
  then show ?thesis using assms(1,2) by (auto simp: rewrite_hs_def hs_recs_def recs_of_def files_ok_def durable_def)
next
  case (Some h)
  then have fit: "fits c (Hs h)" using assms(4) by blast
  then obtain b where b: "enc_hs c h = Some b" by (auto simp: fits_def split: option.splits)
  have fr: "append_frame [] rec_hard_state b = recs_bytes c [Hs h]" using b by (simp add: rec_bytes_def append_frame_eq)
  obtain m where m: "write_active env ORotWriteHs (recs_bytes c [Hs h]) n = (Inr (), m)" "sync_active env ORotSyncHs m = (Inr u, n')"
    using assms(2) Some b by (auto simp: rewrite_hs_def sbind_ok fr)
  note w = files_write [OF assms(1) _ m(1), simplified, OF fit]
  note s = files_sync [OF w(1) m(2)]
  have "length (recs_bytes c [Hs h]) \<le> M" using assms(3) b by (auto simp: hs_small_def rec_bytes_def)
  then have "sl_size (sn_log m) \<le> M" using w(2) by simp
  then show ?thesis using w s Some by (auto simp: hs_recs_def recs_of_def)
qed

text \<open>A rotation that succeeds.\<close>

lemma rotate_ok:
  assumes "files_ok c (sg_max_bytes env) segs rs n" "rotate env c n = (Inr u, n')" "hs_small c (sg_max_bytes env)"
    "\<And>h. sl_hs (sn_log n) = Some h \<Longrightarrow> fits c (Hs h)" "sl_seq (sn_log n) < sl_seq (sn_log n) + 1"
  shows "files_ok c (sg_max_bytes env) (segs @ [(sl_seq (sn_log n), rs)]) (hs_recs (sl_hs (sn_log n))) n' \<and> durable n' \<and>
    sl_size (sn_log n') \<le> sg_max_bytes env \<and> sl_open (sn_log n') \<and> sl_hs (sn_log n') = sl_hs (sn_log n) \<and>
    sl_last (sn_log n') = sl_last (sn_log n) \<and> sl_seq (sn_log n') = sl_seq (sn_log n) + 1 \<and>
    sl_max (sn_log n') = kv_set (sl_seq (sn_log n)) (sl_last (sn_log n)) (sl_max (sn_log n))"
proof -
  let ?s = "sl_seq (sn_log n)"
  let ?segs = "segs @ [(?s, rs)]"
  define m where "m = on_active file_sync (on_active (file_truncate (sl_size (sn_log n))) n)"
  note old = close_old [OF assms(1), folded m_def]
  have log_m: "sn_log m = sn_log n" by (simp add: m_def)
  obtain m1 m2 m3 where
      cr: "create_segment env (?s + 1) (on_log (\<lambda>l. l\<lparr>sl_open := False\<rparr>) m) = (Inr (), m1)" and
      pre: "prealloc_active env ORotPreallocate
        (on_log (\<lambda>l. l\<lparr>sl_open := True, sl_seq := ?s + 1, sl_size := 0\<rparr>) (m1\<lparr>sn_dir := link_all (sn_dir m1)\<rparr>)) = (Inr (), m2)" and
      hs: "rewrite_hs env c m2 = (Inr (), m3)" and
      n': "n' = on_log (\<lambda>l. l\<lparr>sl_max := kv_set ?s (sl_last (sn_log n)) (sl_max l)\<rparr>) m3"
    using assms(2) by (auto simp: rotate_def Let_def sbind_ok seg_io_ok smod_def m_def)
  obtain dir where dir: "open_create (seg_name (?s + 1)) (sn_dir m) = Some dir"
      "m1 = on_log (\<lambda>l. l\<lparr>sl_open := False\<rparr>) m\<lparr>sn_dir := dir\<rparr>"
    using cr by (auto simp: create_segment_def split: if_splits option.splits)
  note nm = names_new [OF old(1) assms(5) dir(1)]
  let ?m = "on_log (\<lambda>l. l\<lparr>sl_open := True, sl_seq := ?s + 1, sl_size := 0\<rparr>) (m1\<lparr>sn_dir := link_all (sn_dir m1)\<rparr>)"
  have ne: "fst p \<noteq> ?s + 1" if "p \<in> set ?segs" for p
    using names_distinct [OF nm(1) [of rs]] that by force
  have "list_all (closed_ok c (link_all dir)) ?segs"
    unfolding list_all_iff
  proof
    fix p assume p: "p \<in> set ?segs"
    then have "closed_ok c (sn_dir m) p" using old(2) by (simp only: list_all_iff)
    then show "closed_ok c (link_all dir) p" using nm(3) [OF ne [OF p]] by (auto simp: closed_ok_def)
  qed
  then have fm: "files_ok c (sg_max_bytes env) ?segs [] (on_log (\<lambda>l. l\<lparr>sl_prealloc := False\<rparr>) ?m)"
    using nm(1,2) dir(2) by (auto simp: files_ok_def names_link new_file_def zeros_def)
  have pre': "prealloc_active env ORotPreallocate (on_log (\<lambda>l. l\<lparr>sl_prealloc := False\<rparr>) ?m) = (Inr (), m2)"
    using pre by (auto simp: prealloc_active_ok on_log_def on_active_def)
  note p = files_prealloc [OF fm pre']
  have log2: "sl_hs (sn_log m2) = sl_hs (sn_log n)" "sl_last (sn_log m2) = sl_last (sn_log n)" "sl_open (sn_log m2)"
      "sl_max (sn_log m2) = sl_max (sn_log n)" "sl_seq (sn_log m2) = ?s + 1"
    using p(2) dir(2) log_m by simp_all
  have r: "files_ok c (sg_max_bytes env) ?segs (hs_recs (sl_hs (sn_log n))) m3 \<and> durable m3 \<and> sl_size (sn_log m3) \<le> sg_max_bytes env \<and>
      sn_log m3 = (sn_log m2)\<lparr>sl_size := sl_size (sn_log m3)\<rparr>"
    using rewrite_hs_ok [OF p(1) hs assms(3), unfolded log2(1), OF assms(4)] by blast
  then have lg: "sn_log m3 = (sn_log m2)\<lparr>sl_size := sl_size (sn_log m3)\<rparr>" by blast
  have log3: "sl_hs (sn_log m3) = sl_hs (sn_log n)" "sl_last (sn_log m3) = sl_last (sn_log n)" "sl_open (sn_log m3)"
      "sl_max (sn_log m3) = sl_max (sn_log n)" "sl_seq (sn_log m3) = ?s + 1"
    using arg_cong [OF lg, of sl_hs] arg_cong [OF lg, of sl_last] arg_cong [OF lg, of sl_open]
      arg_cong [OF lg, of sl_max] arg_cong [OF lg, of sl_seq] log2 by simp_all
  show ?thesis using r log3 by (auto simp: n' durable_def intro!: files_log)
qed

section \<open>Appending to an open log\<close>

lemma ents_in_append [simp]: "ents_in (rs @ qs) = ents_in rs @ ents_in qs"
  by (induction rs rule: ents_in.induct) simp_all

lemma ents_in_recs [simp]: "ents_in (recs_of hs es) = es"
proof -
  have "ents_in (List.map Ent es) = es" by (induction es) simp_all
  then show ?thesis by (cases hs) (simp_all add: recs_of_def)
qed

lemma replay_last:
  "snd (snd (fold (step_rec c) rs v)) = (if ents_in rs = [] then snd (snd v) else ent_index c (last (ents_in rs)))"
proof (induction rs arbitrary: v)
  case (Cons r rs)
  then show ?case by (cases r; cases v) auto
qed simp

lemma replay_hs: "fst (fold (step_rec c) rs v) = (case fst (replay_recs c rs) of None \<Rightarrow> fst v | Some h \<Rightarrow> Some h)"
proof (induction rs rule: rev_induct)
  case (snoc x xs)
  obtain h e l where w: "fold (step_rec c) xs v = (h, e, l)" by (cases "fold (step_rec c) xs v") auto
  obtain h' e' l' where w': "replay_recs c xs = (h', e', l')" by (cases "replay_recs c xs") auto
  then show ?case using snoc w by (cases x) (auto simp: replay_append)
qed (simp add: replay_recs_def)

lemma log_fits: "log_ok c M segs rs n \<Longrightarrow> list_all (fits c) (all_recs segs rs)"
  by (fastforce simp: log_ok_def files_ok_def all_recs_def closed_ok_def list_all_iff)

lemma log_hs_fits: "log_ok c M segs rs n \<Longrightarrow> sl_hs (sn_log n) = Some h \<Longrightarrow> fits c (Hs h)"
  using log_fits [of c M segs rs n] replay_hs_in [of c "all_recs segs rs" h]
  by (auto simp: log_ok_def mem_ok_def list_all_iff)

text \<open>The newest hard state is also in the active segment, so no closed segment is needed for it.\<close>

definition carried :: "('e, 'h) raft_codec \<Rightarrow> ('e, 'h) seg_list \<Rightarrow> ('e, 'h) seg_rec list \<Rightarrow> bool" where
  "carried c segs rs \<longleftrightarrow> fst (replay_recs c rs) = fst (replay_recs c (all_recs segs rs))"

lemma all_recs_snoc: "all_recs (segs @ [(s, ws)]) rs = all_recs segs ws @ rs" "all_recs segs (rs @ new) = all_recs segs rs @ new"
  by (simp_all add: all_recs_def)

lemma carried_append: "carried c segs rs \<Longrightarrow> carried c segs (rs @ new)"
  by (simp add: carried_def all_recs_snoc replay_append replay_hs split: option.split)

lemma replay_hs_recs: "replay_recs c rs = (h, ents, lst) \<Longrightarrow> replay_recs c (rs @ hs_recs h) = (h, ents, lst)"
  by (cases h) (auto simp: hs_recs_def recs_of_def replay_append)

lemma replay_only_hs: "fst (replay_recs c (hs_recs h)) = h"
  by (cases h) (auto simp: hs_recs_def recs_of_def replay_recs_def)

lemma names_map_of:
  assumes "names_ok segs s dir"
  shows "map_of (segs @ [(s, ws)]) t = (if t = s then Some ws else map_of segs t)"
proof -
  have "map_of segs s = None" using names_distinct [OF assms] by (simp add: map_of_eq_None_iff)
  then show ?thesis by (simp add: map_add_def split: option.split)
qed

lemma replay_hs_of: "fst (replay_recs c (recs_of hs es)) = hs"
proof -
  have "fst (fold (step_rec c) (List.map Ent es) v) = fst v" for v
  proof (induction es arbitrary: v)
    case (Cons e es)
    then show ?case by (cases v) simp
  qed simp
  then show ?thesis by (cases hs) (simp_all add: recs_of_def replay_recs_def)
qed

theorem append_log_ok:
  assumes log: "log_ok c (sg_max_bytes env) segs rs n"
    and ok: "append_log env c hs ents sync n = (Inr u, n')"
    and fit: "list_all (fits c) (recs_of hs ents)"
    and small: "hs_small c (sg_max_bytes env)"
    and room: "sl_seq (sn_log n) < sl_seq (sn_log n) + 1"
    and car: "carried c segs rs"
  shows "\<exists>segs' rs'. log_ok c (sg_max_bytes env) segs' rs' n' \<and> carried c segs' rs' \<and> (sync \<longrightarrow> durable n') \<and>
    replay_recs c (all_recs segs' rs') = replay_recs c (all_recs segs rs @ recs_of hs ents) \<and>
    ents_in (all_recs segs' rs') = ents_in (all_recs segs rs) @ ents"
proof -
  let ?M = "sg_max_bytes env"
  let ?new = "recs_of hs ents"
  have "\<exists>out. build_buf c hs ents = Inr out" using build_buf_total [OF fit] by simp
  moreover have opn: "sl_open (sn_log n)" using log by (simp add: log_ok_def mem_ok_def)
  ultimately have "\<exists>m1. (if ?new = [] then sret () else write_active env OWriteAt (recs_bytes c ?new)) n = (Inr (), m1) \<and>
      (\<exists>m2. (if sync then sync_active env OSync else sret ()) (on_log (note_written c hs ents) m1) = (Inr (), m2) \<and>
         maybe_rotate env c m2 = (Inr u, n'))"
    using ok by (simp add: append_log_def build_buf_total [OF fit] sbind_ok smod_def split del: if_split)
  then obtain m1 m2 where
      w: "(if ?new = [] then sret () else write_active env OWriteAt (recs_bytes c ?new)) n = (Inr (), m1)" and
      s: "(if sync then sync_active env OSync else sret ()) (on_log (note_written c hs ents) m1) = (Inr (), m2)" and
      r: "maybe_rotate env c m2 = (Inr u, n')" by blast
  have fi: "files_ok c ?M segs rs n" using log by (rule log_files_ok)
  have m1: "files_ok c ?M segs (rs @ ?new) m1 \<and> sn_log m1 = (sn_log n)\<lparr>sl_size := length (recs_bytes c (rs @ ?new))\<rparr>"
  proof (cases "?new = []")
    case True
    then have "m1 = n" using w by (simp add: sret_def)
    moreover have "sl_size (sn_log n) = length (recs_bytes c rs)" using fi by (simp add: files_ok_def)
    ultimately show ?thesis using fi True by (cases "sn_log n") simp
  next
    case False
    then show ?thesis using w files_write [OF fi fit, of env OWriteAt "()" m1] by simp
  qed
  let ?m1 = "on_log (note_written c hs ents) m1"
  have f1: "files_ok c ?M segs (rs @ ?new) ?m1"
    by (rule files_log [OF conjunct1 [OF m1]]) (simp_all add: note_written_def)
  have "files_ok c ?M segs (rs @ ?new) m2 \<and> sn_log m2 = sn_log ?m1 \<and> (sync \<longrightarrow> sl_size (sn_log m2) \<le> ?M \<longrightarrow> durable m2)"
  proof (cases sync)
    case True
    then have y: "sync_active env OSync ?m1 = (Inr (), m2)" using s by simp
    show ?thesis using files_sync [OF f1 y] by metis
  next
    case False
    then have "m2 = ?m1" using s by (simp add: sret_def)
    then show ?thesis using f1 False by simp
  qed
  then have m2: "files_ok c ?M segs (rs @ ?new) m2" "sn_log m2 = sn_log ?m1"
      "sync \<Longrightarrow> sl_size (sn_log m2) \<le> ?M \<Longrightarrow> durable m2" by blast+
  obtain e0 where rp: "replay_recs c (all_recs segs rs) = (sl_hs (sn_log n), e0, sl_last (sn_log n))"
    using log by (auto simp: log_ok_def mem_ok_def)
  let ?rp = "replay_recs c (all_recs segs (rs @ ?new))"
  have "fst ?rp = sl_hs (sn_log m2)" "snd (snd ?rp) = sl_last (sn_log m2)"
    unfolding all_recs_snoc replay_append replay_hs replay_last
    by (auto simp: rp m2(2) m1 note_written_def replay_hs_of split: option.split)
  then obtain e1 where rp1: "?rp = (sl_hs (sn_log m2), e1, sl_last (sn_log m2))" by (metis prod.collapse)
  have mx: "sl_max (sn_log m2) = sl_max (sn_log n)" "sl_open (sn_log m2)" "sl_seq (sn_log m2) = sl_seq (sn_log n)"
      "sl_size (sn_log m2) = length (recs_bytes c (rs @ ?new))"
    using opn by (simp_all add: m2(2) m1 note_written_def)
  show ?thesis
  proof (cases "sl_size (sn_log m2) < ?M")
    case True
    then have "n' = m2" using r by (simp add: maybe_rotate_def)
    moreover have "log_ok c ?M segs (rs @ ?new) m2"
      using m2(1) True mx log rp1 by (auto simp: log_ok_def mem_ok_def within_def files_ok_def)
    moreover have "sync \<longrightarrow> durable m2" using m2(3) True by auto
    moreover have "ents_in (all_recs segs (rs @ ?new)) = ents_in (all_recs segs rs) @ ents" by (simp add: all_recs_def)
    ultimately show ?thesis using carried_append [OF car] all_recs_snoc(2) by metis
  next
    case False
    have hsf: "fits c (Hs h)" if "sl_hs (sn_log m2) = Some h" for h
    proof -
      have "Hs h \<in> set (all_recs segs (rs @ ?new))" using replay_hs_in rp1 that by metis
      then show ?thesis using log_fits [OF log] fit by (auto simp: all_recs_snoc list_all_iff)
    qed
    have rot: "rotate env c m2 = (Inr u, n')" using r False by (simp add: maybe_rotate_def)
    note ro = rotate_ok [OF m2(1) rot small hsf, unfolded mx(1,3,4), OF _ room]
    let ?segs = "segs @ [(sl_seq (sn_log n), rs @ ?new)]"
    let ?rs = "hs_recs (sl_hs (sn_log m2)) :: ('a, 'b) seg_rec list"
    have rp2: "replay_recs c (all_recs ?segs ?rs) = ?rp"
      using replay_hs_recs [OF rp1] rp1 by (simp add: all_recs_snoc)
    have "carried c ?segs ?rs" by (simp only: carried_def rp2) (simp add: replay_only_hs rp1)
    moreover have "max_ok c ?segs (sl_max (sn_log n'))"
    proof -
      have 1: "map_of ?segs t = (if t = sl_seq (sn_log n) then Some (rs @ ?new) else map_of segs t)" for t
        by (rule names_map_of [of _ _ "sn_dir n"]) (use fi in \<open>simp add: files_ok_def\<close>)
      have 2: "max_of c (rs @ ?new) = sl_last (sn_log m2)" if "ents_in (rs @ ?new) \<noteq> []"
      proof -
        have "?rp = fold (step_rec c) (rs @ ?new) (replay_recs c (concat (List.map snd segs)))"
          by (simp only: all_recs_def replay_append)
        then have "snd (snd ?rp) = ent_index c (last (ents_in (rs @ ?new)))" by (simp only: replay_last that if_False)
        then show ?thesis using rp1 that by (simp only: max_of_def if_False snd_conv)
      qed
      have 3: "sl_max (sn_log n') = kv_set (sl_seq (sn_log n)) (sl_last (sn_log m2)) (sl_max (sn_log n))" using ro by simp
      have "max_ok c segs (sl_max (sn_log n))" using log by (simp add: log_ok_def mem_ok_def)
      then show ?thesis unfolding max_ok_def 1 3 kv_get_set using 2 by auto
    qed
    moreover have "within ?M n'" using ro by (auto simp: within_def files_ok_def)
    moreover have "mem_ok c ?segs ?rs (sn_log n')"
      using ro rp1 rp2 \<open>max_ok c ?segs (sl_max (sn_log n'))\<close> by (simp add: mem_ok_def)
    ultimately have "log_ok c ?M ?segs ?rs n'" using ro by (simp add: log_ok_def)
    moreover have "ents_in (all_recs ?segs ?rs) = ents_in (all_recs segs rs) @ ents" by (simp add: all_recs_def hs_recs_def)
    ultimately show ?thesis using ro rp2 \<open>carried c ?segs ?rs\<close> by (metis all_recs_snoc(2))
  qed
qed

theorem sync_log_ok:
  assumes "log_ok c (sg_max_bytes env) segs rs n" "sync_log env n = (Inr u, n')"
    "sl_size (sn_log n) \<le> sg_max_bytes env"
  shows "log_ok c (sg_max_bytes env) segs rs n' \<and> durable n'"
proof -
  have "sl_open (sn_log n)" using assms(1) by (simp add: log_ok_def mem_ok_def)
  then have s: "sync_active env OSync n = (Inr u, n')" using assms(2) by (simp add: sync_log_def)
  note f = files_sync [OF log_files_ok [OF assms(1)] s]
  have "durable n'" using f(3,4) assms(3) by blast
  moreover have "within (sg_max_bytes env) n'" using f(1,2) assms(3) by (auto simp: within_def files_ok_def)
  ultimately show ?thesis using assms(1) f(1,2) by (simp add: log_ok_def)
qed

end
