(* ===== verification/Seg_Safety.thy ===== *)
theory Seg_Safety
  imports Seg_Files
begin

text \<open>
  What the segment log promises: synced records survive a power cut, a torn tail is cut back to
  whole records, damage in a closed segment is refused, and reclaiming segments keeps every entry
  above the limit.
\<close>

section \<open>Power cuts\<close>

text \<open>
  What a file may look like after a power cut: what is durable stays, the rest is there up to
  some byte, and zeros may follow.  A file with nothing pending is as it was.
\<close>

definition lost :: "seg_file \<Rightarrow> bytes \<Rightarrow> bool" where
  "lost f b \<longleftrightarrow>
     (\<exists>k z. min (sf_dur f) (length (sf_data f)) \<le> k \<and> k \<le> length (sf_data f) \<and> b = take k (sf_data f) @ zeros z) \<and>
     (sf_clean f \<longrightarrow> b = sf_data f)"

definition on_disk :: "bytes \<Rightarrow> seg_file" where
  "on_disk b = \<lparr>sf_data = b, sf_dur = length b, sf_alloc = length b, sf_clean = True, sf_linked = True\<rparr>"

text \<open>A file whose name was not synced may be gone.\<close>

inductive power_cut :: "seg_dir \<Rightarrow> seg_dir \<Rightarrow> bool" where
  empty: "power_cut [] []"
| sub: "power_cut d d' \<Longrightarrow> power_cut ((k, SubDir) # d) ((k, SubDir) # d')"
| kept: "power_cut d d' \<Longrightarrow> lost f b \<Longrightarrow> power_cut ((k, SegFile f) # d) ((k, SegFile (on_disk b)) # d')"
| gone: "power_cut d d' \<Longrightarrow> \<not> sf_linked f \<Longrightarrow> power_cut ((k, SegFile f) # d) d'"

inductive_cases power_cutE: "power_cut (p # d) d'"

lemma power_cut_keys: "power_cut d d' \<Longrightarrow> set (List.map fst d') \<subseteq> set (List.map fst d)"
  by (induction rule: power_cut.induct) auto

lemma power_cut_kv_ok: "power_cut d d' \<Longrightarrow> kv_ok d \<Longrightarrow> kv_ok d'"
proof (induction rule: power_cut.induct)
  case (sub d d' k)
  then show ?case using power_cut_keys [OF sub.hyps] by (fastforce simp: kv_ok_def)
next
  case (kept d d' f b k)
  then show ?case using power_cut_keys [OF kept.hyps(1)] by (fastforce simp: kv_ok_def)
qed (auto simp: kv_ok_def)

lemma power_cut_seqs:
  assumes "power_cut d d'" "\<And>k f. (k, SegFile f) \<in> set d \<Longrightarrow> seg_seq_of (k, SegFile f) \<noteq> None \<Longrightarrow> sf_linked f"
  shows "dir_seqs d' = dir_seqs d"
  using assms
proof (induction rule: power_cut.induct)
  case (kept d d' f b k)
  have "dir_seqs d' = dir_seqs d" by (rule kept.IH) (use kept.prems in auto)
  then show ?case using seq_of_file [of k f "on_disk b"] by (simp add: dir_seqs_Cons split: option.split)
next
  case (gone d d' f k)
  have "seg_seq_of (k, SegFile f) = None"
    by (rule ccontr) (use gone.prems [of k f] gone.hyps in auto)
  moreover have "dir_seqs d' = dir_seqs d" by (rule gone.IH) (use gone.prems in auto)
  ultimately show ?case by (simp add: dir_seqs_Cons)
qed (auto simp: dir_seqs_Cons split: option.split)

lemma power_cut_file:
  assumes "power_cut d d'" "kv_ok d" "file_at d s = Some f" "sf_linked f"
  shows "\<exists>b. file_at d' s = Some (on_disk b) \<and> lost f b"
  using assms
proof (induction rule: power_cut.induct)
  case (sub d d' k)
  then show ?case by (auto simp: file_atD kv_get_def kv_ok_def split: if_splits)
next
  case (kept d d' g b k)
  then show ?case by (auto simp: file_atD kv_get_def kv_ok_def split: if_splits)
next
  case (gone d d' g k)
  then show ?case by (auto simp: file_atD kv_get_def kv_ok_def split: if_splits)
qed (simp add: file_at_def kv_get_def)

lemma seqs_name:
  assumes "names_ok segs seq dir" "(k, SegFile f) \<in> set dir" "seg_seq_of (k, SegFile f) = Some s"
    "\<forall>t\<in>set (List.map fst segs @ [seq]). file_at dir t \<noteq> None"
  shows "k = seg_name s"
proof -
  have kv: "kv_ok dir" using assms(1) by (simp add: names_ok_def)
  have "kv_get dir k = Some (SegFile f)"
    using assms(2) kv_mem [OF kv] by blast
  then have "s \<in> set (dir_seqs dir)" using dir_seqs_mem assms(3) by blast
  then have "s \<in> set (List.map fst segs @ [seq])" using assms(1) by (metis names_ok_def set_mset_mset)
  then obtain g where g: "(seg_name s, SegFile g) \<in> set dir"
    using assms(4) kv by (auto simp: file_atD kv_get_def dest: map_of_SomeD)
  have "distinct (dir_seqs dir)" using names_distinct [OF assms(1)] assms(1) by (metis mset_eq_imp_distinct_iff names_ok_def)
  then show ?thesis using assms(2,3) g
  proof (induction dir)
    case (Cons p d)
    have mem: "t \<in> set (dir_seqs d)" if "(a, h) \<in> set d" "seg_seq_of (a, h) = Some t" for a h t
      using that by (induction d) (auto simp: dir_seqs_Cons split: option.splits)
    show ?case using Cons mem [of k "SegFile f" s] mem [of "seg_name s" "SegFile g" s]
      by (auto simp: dir_seqs_Cons split: option.splits)
  qed simp
qed

lemma files_ok_all:
  assumes "files_ok c M segs rs n" "s \<in> set (List.map fst segs @ [sl_seq (sn_log n)])"
  shows "\<exists>f. file_at (sn_dir n) s = Some f \<and> sf_linked f"
  using assms by (auto simp: files_ok_def closed_ok_def list_all_iff)

lemma power_cut_names:
  assumes "files_ok c M segs rs n" "power_cut (sn_dir n) d'"
  shows "names_ok segs (sl_seq (sn_log n)) d'"
proof -
  let ?s = "sl_seq (sn_log n)"
  have nm: "names_ok segs ?s (sn_dir n)" using assms(1) by (simp add: files_ok_def)
  then have kv: "kv_ok (sn_dir n)" by (simp add: names_ok_def)
  have "sf_linked f" if p: "(k, SegFile f) \<in> set (sn_dir n)" "seg_seq_of (k, SegFile f) \<noteq> None" for k f
  proof -
    obtain s where s: "seg_seq_of (k, SegFile f) = Some s" using p(2) by auto
    have all: "\<forall>t\<in>set (List.map fst segs @ [?s]). file_at (sn_dir n) t \<noteq> None"
      using files_ok_all [OF assms(1)] by (metis option.distinct(1))
    have k: "k = seg_name s" by (rule seqs_name [OF nm p(1) s all])
    have "kv_get (sn_dir n) k = Some (SegFile f)"
      using p(1) kv_mem [OF kv] by blast
    then have f: "file_at (sn_dir n) s = Some f" "s \<in> set (dir_seqs (sn_dir n))"
      using dir_seqs_mem s by (auto simp: file_atD k)
    then have "s \<in> set (List.map fst segs @ [?s])" using nm by (metis names_ok_def set_mset_mset)
    then obtain g where "file_at (sn_dir n) s = Some g" "sf_linked g" using files_ok_all [OF assms(1)] by blast
    then show ?thesis using f(1) by simp
  qed
  then have "dir_seqs d' = dir_seqs (sn_dir n)" using power_cut_seqs [OF assms(2)] by blast
  then show ?thesis using nm power_cut_kv_ok [OF assms(2) kv] by (simp add: names_ok_def)
qed

lemma power_cut_closed:
  assumes "files_ok c M segs rs n" "power_cut (sn_dir n) d'"
  shows "list_all (closed_ok c d') segs"
proof -
  have kv: "kv_ok (sn_dir n)" using assms(1) by (simp add: files_ok_def names_ok_def)
  show ?thesis unfolding list_all_iff
  proof
    fix p assume "p \<in> set segs"
    then obtain f where f: "file_at (sn_dir n) (fst p) = Some f" "sf_data f = recs_bytes c (snd p)"
        "list_all (fits c) (snd p)" "sf_clean f" "sf_linked f"
      using assms(1) by (auto simp: files_ok_def closed_ok_def list_all_iff)
    then obtain b where "file_at d' (fst p) = Some (on_disk b)" "lost f b"
      using power_cut_file [OF assms(2) kv] by blast
    then show "closed_ok c d' p" using f by (auto simp: closed_ok_def lost_def on_disk_def)
  qed
qed

text \<open>When everything was synced, the directory holds the same records after the cut.\<close>

lemma power_cut_dir_ok:
  assumes "files_ok c M segs rs n" "durable n" "power_cut (sn_dir n) d'"
  shows "dir_ok c M segs (sl_seq (sn_log n)) rs d'"
proof -
  let ?s = "sl_seq (sn_log n)"
  have kv: "kv_ok (sn_dir n)" using assms(1) by (simp add: files_ok_def names_ok_def)
  obtain f z where f: "file_at (sn_dir n) ?s = Some f" "sf_data f = recs_bytes c rs @ zeros z" "list_all (fits c) rs" "sf_linked f"
      "sl_size (sn_log n) = length (recs_bytes c rs)"
    using assms(1) by (auto simp: files_ok_def)
  obtain b where b: "file_at d' ?s = Some (on_disk b)" "lost f b" using power_cut_file [OF assms(3) kv f(1,4)] by blast
  have dur: "length (recs_bytes c rs) \<le> sf_dur f" using assms(2) f(1,5) by (simp add: durable_def)
  obtain k z' where "min (sf_dur f) (length (sf_data f)) \<le> k" "b = take k (sf_data f) @ zeros z'" using b(2) by (auto simp: lost_def)
  then have "b = recs_bytes c rs @ zeros (min (k - length (recs_bytes c rs)) z + z')"
    using dur by (simp add: f(2) zeros_def replicate_add)
  then obtain y where y: "b = recs_bytes c rs @ zeros y" by blast
  then have "active_ok c M rs (zeros y) (on_disk b)" using f(3) by (simp add: active_ok_def on_disk_def)
  then show ?thesis
    using b(1) power_cut_names [OF assms(1,3)] power_cut_closed [OF assms(1,3)] read_frame_zeros' [of y]
    unfolding dir_ok_def by blast
qed

text \<open>
  What was written and not synced may be cut at any byte: what is left is the records before
  the cut, and possibly a torn frame.
\<close>

lemma cut_records:
  assumes "list_all (fits c) rs" "k \<le> length (recs_bytes c rs)"
  shows "\<exists>j rest. take k (recs_bytes c rs) = recs_bytes c (take j rs) @ rest \<and> read_frame rest = None \<and>
    (\<forall>i. length (recs_bytes c (take i rs)) \<le> k \<longrightarrow> i \<le> length rs \<longrightarrow> i \<le> j)"
  using assms
proof (induction rs arbitrary: k)
  case (Cons r rs)
  obtain b where b: "rec_payload c r = Some b" "1 + length b \<le> max_frame_len"
    using Cons.prems(1) by (auto simp: fits_def split: option.splits)
  show ?case
  proof (cases "k < length (rec_bytes c r)")
    case True
    then have "read_frame (take k (rec_bytes c r)) = None"
      using read_frame_prefix [OF _ b(2), of k "rec_type r"] b(1) by (simp add: rec_bytes_def)
    moreover have "i \<le> 0" if "length (recs_bytes c (take i (r # rs))) \<le> k" for i
      using that True by (cases i) auto
    ultimately show ?thesis using True by (intro exI [of _ 0] exI [of _ "take k (rec_bytes c r)"]) auto
  next
    case False
    have "k - length (rec_bytes c r) \<le> length (recs_bytes c rs)" "list_all (fits c) rs" using Cons.prems by auto
    then obtain j rest where j: "take (k - length (rec_bytes c r)) (recs_bytes c rs) = recs_bytes c (take j rs) @ rest"
        "read_frame rest = None"
        "\<forall>i. length (recs_bytes c (take i rs)) \<le> k - length (rec_bytes c r) \<longrightarrow> i \<le> length rs \<longrightarrow> i \<le> j"
      using Cons.IH [of "k - length (rec_bytes c r)"] by blast
    have "i \<le> Suc j" if "length (recs_bytes c (take i (r # rs))) \<le> k" "i \<le> length (r # rs)" for i
      using that j(3) False by (cases i) auto
    then show ?thesis using j(1,2) False by (intro exI [of _ "Suc j"] exI [of _ rest]) auto
  qed
qed (intro exI [of _ 0] exI [of _ "[]"], simp)

section \<open>Damage\<close>

text \<open>A closed segment that does not read to its end stops the log from opening.\<close>

lemma damaged_refused:
  assumes "quiet env" "codec_ok c" "names_ok (before @ (s, ws) # after) seq dir" "list_all (closed_ok c dir) before"
    "file_at dir s = Some f" "sf_data f = recs_bytes c good @ bad" "list_all (fits c) good" "bad \<noteq> []" "read_frame bad = None"
  shows "fst (open_log env c dir) = Inl (BadFrame s (length (recs_bytes c good)))"
proof -
  let ?later = "List.map fst after @ [seq]"
  have seqs: "scan_seg_seqs env dir = Inr (List.map fst before @ s # ?later)"
    using names_sort [OF assms(3)] assms(1) by (simp add: scan_seg_seqs_def dir_seqs_def)
  obtain k where k: "scan_segs env c (List.map fst before @ s # ?later) (empty_replay, 0) dir =
      scan_segs env c (s # ?later) (scan_closed c before empty_replay, k) dir"
    using scan_segs_closed [OF _ assms(2,4), of env "s # ?later" empty_replay 0] assms(1) by auto
  have "scan_segs env c (s # ?later) (scan_closed c before empty_replay, k) dir = (Inl (BadFrame s (length (recs_bytes c good))), dir)"
    using scan_loop_end [OF assms(2,7,9), of s] assms(1,5,6,8) by (simp add: sbind_def scan_seg_def file_atD Let_def)
  then show ?thesis
    using k assms(1) seqs by (simp add: open_log_def sbind_def slift_def dir_op_def)
qed

section \<open>Reclaiming segments\<close>

text \<open>Entries above a limit, as a replay of the entries alone builds them.\<close>

definition high :: "('e, 'h) raft_codec \<Rightarrow> u64 \<Rightarrow> 'e list \<Rightarrow> 'e list" where
  "high c limit es = filter (\<lambda>e. limit < ent_index c e) es"

definition high_step :: "('e, 'h) raft_codec \<Rightarrow> u64 \<Rightarrow> 'e \<Rightarrow> 'e list \<Rightarrow> 'e list" where
  "high_step c limit e hi =
     (if limit < ent_index c e then filter (\<lambda>x. ent_index c x < ent_index c e) hi @ [e] else [])"

lemma high_replay: "view_ok c v \<Longrightarrow>
    high c limit (fst (snd (fold (step_rec c) rs v))) = fold (high_step c limit) (ents_in rs) (high c limit (fst (snd v)))"
proof (induction rs arbitrary: v)
  case (Cons r rs)
  obtain h es l where v: "v = (h, es, l)" by (cases v) auto
  have "high c limit (fst (snd (step_rec c r v))) = fold (high_step c limit) (ents_in [r]) (high c limit es)"
  proof (cases r)
    case (Ent e)
    have "filter (\<lambda>x. limit < ent_index c x \<and> ent_index c x < ent_index c e) es = []" if "\<not> limit < ent_index c e"
      using that by (auto simp: filter_empty_conv)
    then show ?thesis using Cons.prems unfolding v Ent
      by (auto simp: step_entry high_def high_step_def conj_commute simp del: step_rec.simps(1))
  qed (simp add: v)
  moreover have "ents_in (r # rs) = ents_in [r] @ ents_in rs" by (cases r) simp_all
  ultimately show ?case using Cons.IH [OF view_ok_step [OF Cons.prems, of r]] by (simp add: v)
qed simp

lemma high_replay_recs: "high c limit (fst (snd (replay_recs c rs))) = fold (high_step c limit) (ents_in rs) []"
  unfolding replay_recs_def by (subst high_replay) (simp_all add: ascending_def high_def)

lemma high_fold_above: "\<forall>x\<in>set hi. limit < ent_index c x \<Longrightarrow> \<forall>x\<in>set (fold (high_step c limit) es hi). limit < ent_index c x"
proof (induction es arbitrary: hi)
  case (Cons e es)
  have "\<forall>x\<in>set (high_step c limit e hi). limit < ent_index c x" using Cons.prems by (auto simp: high_step_def)
  then show ?case using Cons.IH by simp
qed simp

text \<open>Every entry is written at most one above the one written before it.\<close>

definition gapless :: "('e, 'h) raft_codec \<Rightarrow> 'e list \<Rightarrow> bool" where
  "gapless c es = successively (\<lambda>a b. unat (ent_index c b) \<le> Suc (unat (ent_index c a))) es"

definition above :: "('e, 'h) raft_codec \<Rightarrow> u64 \<Rightarrow> 'e list \<Rightarrow> 'e list" where
  "above c limit es = rev (takeWhile (\<lambda>e. limit < ent_index c e) (rev es))"

lemma above_split:
  obtains "above c limit es = es"
  | pre e0 where "es = pre @ e0 # above c limit es" "\<not> limit < ent_index c e0"
proof (cases "dropWhile (\<lambda>e. limit < ent_index c e) (rev es)")
  case Nil
  then have "takeWhile (\<lambda>e. limit < ent_index c e) (rev es) = rev es" by (metis append_Nil2 takeWhile_dropWhile_id)
  then have "above c limit es = es" unfolding above_def by (simp only: rev_rev_ident)
  then show ?thesis by (rule that(1))
next
  case (Cons e0 pre)
  have "es = rev (rev es)" by simp
  also have "rev es = rev (above c limit es) @ e0 # pre"
    by (simp add: above_def Cons [symmetric])
  finally have "es = rev pre @ e0 # above c limit es" by simp
  moreover have "\<not> limit < ent_index c e0" using hd_dropWhile Cons by (metis list.distinct(1) list.sel(1))
  ultimately show ?thesis using that(2) by blast
qed

lemma high_from_above:
  assumes "gapless c es" "above c limit es \<noteq> []" "kept = pre @ above c limit es" "above c limit es = es \<longrightarrow> pre = []"
  shows "fold (high_step c limit) kept [] = fold (high_step c limit) es []"
proof (rule above_split [of c limit es])
  assume "above c limit es = es"
  then show ?thesis using assms(3,4) by simp
next
  fix p e0 assume e0: "es = p @ e0 # above c limit es" "\<not> limit < ent_index c e0"
  obtain f bs where f: "above c limit es = f # bs" using assms(2) by (cases "above c limit es") auto
  have "f \<in> set (above c limit es)" using f by simp
  then have lf: "limit < ent_index c f" unfolding above_def by (metis set_rev set_takeWhileD)
  have "unat (ent_index c f) \<le> Suc (unat (ent_index c e0))"
    using assms(1) e0(1) unfolding gapless_def f by (metis successively_append_iff successively.simps(3) list.sel(1))
  then have le: "unat (ent_index c f) \<le> Suc (unat limit)" using e0(2) by (simp add: word_le_nat_alt not_less)
  have "filter (\<lambda>x. ent_index c x < ent_index c f) (fold (high_step c limit) pre []) = []"
    using high_fold_above [of "[]" limit c pre] le by (fastforce simp: filter_empty_conv word_less_nat_alt)
  then have 1: "fold (high_step c limit) kept [] = fold (high_step c limit) bs [f]"
    using lf by (simp add: assms(3) f high_step_def)
  have "fold (high_step c limit) es [] = fold (high_step c limit) (f # bs) (high_step c limit e0 (fold (high_step c limit) p []))"
    by (subst e0(1)) (simp add: f)
  also have "\<dots> = fold (high_step c limit) bs [f]" using e0(2) lf by (simp add: high_step_def)
  finally show ?thesis using 1 by simp
qed

text \<open>Dropping blocks that end below the limit keeps the entries after the last one below it.\<close>

lemma drop_blocks:
  assumes "\<And>b. b \<in> set bs \<Longrightarrow> \<not> keep b \<Longrightarrow> snd b \<noteq> [] \<Longrightarrow> \<not> limit < ent_index c (last (snd b))"
  shows "\<exists>pre. concat (List.map snd (filter keep bs)) @ rest = pre @ above c limit (concat (List.map snd bs) @ rest) \<and>
    (above c limit (concat (List.map snd bs) @ rest) = concat (List.map snd bs) @ rest \<longrightarrow> pre = [])"
  using assms
proof (induction bs arbitrary: rest rule: rev_induct)
  case Nil
  have "rest = rev (dropWhile (\<lambda>e. limit < ent_index c e) (rev rest)) @ above c limit rest"
    unfolding above_def by (metis rev_append rev_rev_ident takeWhile_dropWhile_id)
  then show ?case by (intro exI [of _ "rev (dropWhile (\<lambda>e. limit < ent_index c e) (rev rest))"]) auto
next
  case (snoc b bs)
  show ?case
  proof (cases "keep b \<or> snd b = []")
    case True
    then show ?thesis using snoc.IH [of "snd b @ rest"] snoc.prems by auto
  next
    case False
    then have nb: "\<not> limit < ent_index c (last (snd b))" using snoc.prems by simp
    obtain ys y where b: "snd b = ys @ [y]" using False by (metis rev_exhaust)
    have ab: "above c limit (x @ snd b @ rest) = above c limit rest" for x
    proof (cases "takeWhile (\<lambda>e. limit < ent_index c e) (rev rest) = rev rest")
      case True
      then have "\<forall>e\<in>set rest. limit < ent_index c e" "rest = rev (takeWhile (\<lambda>e. limit < ent_index c e) (rev rest))"
        by (metis set_rev takeWhile_eq_all_conv) (simp only: rev_rev_ident True)
      then show ?thesis using nb by (simp add: above_def b takeWhile_append)
    next
      case ne: False
      then have "\<not> (\<forall>e\<in>set rest. limit < ent_index c e)" by (metis set_rev takeWhile_eq_all_conv)
      then show ?thesis by (auto simp: above_def takeWhile_append)
    qed
    have len: "length (above c limit rest) \<le> length rest" by (metis above_def length_rev length_takeWhile_le)
    have "above c limit rest \<noteq> concat (List.map snd bs) @ snd b @ rest"
    proof
      assume "above c limit rest = concat (List.map snd bs) @ snd b @ rest"
      then show False using len b by simp
    qed
    moreover obtain p where "rest = p @ above c limit rest"
      unfolding above_def by (metis rev_append rev_rev_ident takeWhile_dropWhile_id)
    ultimately show ?thesis using False ab [of "concat (List.map snd bs)"]
      by (intro exI [of _ "concat (List.map snd (filter keep bs)) @ p"]) simp
  qed
qed

text \<open>What the loop leaves: some closed segments are gone, each covered by the limit.\<close>

definition covered :: "('e, 'h) raft_codec \<Rightarrow> u64 \<Rightarrow> u64 \<times> ('e, 'h) seg_rec list \<Rightarrow> bool" where
  "covered c limit p \<longleftrightarrow> (ents_in (snd p) \<noteq> [] \<longrightarrow> max_of c (snd p) \<le> limit)"

lemma remove_segment:
  assumes "files_ok c M segs rs n" "max_ok c segs (sl_max (sn_log n))" "kv_get (sl_max (sn_log n)) s = Some m"
  defines "n' \<equiv> n\<lparr>sn_dir := kv_del (seg_name s) (sn_dir n), sn_log := (sn_log n)\<lparr>sl_max := kv_del s (sl_max (sn_log n))\<rparr>\<rparr>"
  defines "segs' \<equiv> filter (\<lambda>p. fst p \<noteq> s) segs"
  shows "files_ok c M segs' rs n'" "max_ok c segs' (sl_max (sn_log n'))" "within M n \<Longrightarrow> within M n'" "durable n \<Longrightarrow> durable n'"
    "p \<in> set segs \<Longrightarrow> fst p = s \<Longrightarrow> ents_in (snd p) \<noteq> [] \<Longrightarrow> max_of c (snd p) = m"
proof -
  let ?s = "sl_seq (sn_log n)"
  have nm: "names_ok segs ?s (sn_dir n)" using assms(1) by (simp add: files_ok_def)
  then have kv: "kv_ok (sn_dir n)" and ms: "mset (dir_seqs (sn_dir n)) = mset (List.map fst segs @ [?s])"
    and so: "sorted_wrt (<) (List.map fst segs @ [?s])"
    by (auto simp: names_ok_def)
  note dist = names_distinct [OF nm]
  obtain ws where ws: "map_of segs s = Some ws" using assms(2,3) by (auto simp: max_ok_def split: option.splits) (metis option.distinct(1) option.exhaust)
  then have in_segs: "(s, ws) \<in> set segs" by (rule map_of_SomeD)
  then have ne: "s \<noteq> ?s" using dist by force
  obtain f where f: "file_at (sn_dir n) s = Some f" using assms(1) in_segs by (fastforce simp: files_ok_def closed_ok_def list_all_iff)
  have fl: "file_at (kv_del (seg_name s) (sn_dir n)) t = (if t = s then None else file_at (sn_dir n) t)" for t
    by (simp add: file_at_def kv_simps)
  have keys: "List.map fst segs' = filter (\<lambda>t. t \<noteq> s) (List.map fst segs)"
    by (simp add: segs'_def filter_map comp_def)
  have "List.map fst segs' = remove1 s (List.map fst segs)"
    using dist by (simp add: keys distinct_remove1_removeAll removeAll_filter_not_eq eq_commute [of s])
  moreover have "s \<in># mset (List.map fst segs)" using in_segs by force
  ultimately have "add_mset s (mset (List.map fst segs')) = mset (List.map fst segs)" by simp
  note keys' = this
  have "add_mset s (mset (dir_seqs (kv_del (seg_name s) (sn_dir n)))) = add_mset ?s (mset (List.map fst segs))"
    using dir_seqs_del [OF kv f [unfolded file_atD]] ms by simp
  also have "\<dots> = add_mset s (mset (List.map fst segs' @ [?s]))"
    unfolding keys' [symmetric] by (simp add: add_mset_commute)
  finally have "mset (dir_seqs (kv_del (seg_name s) (sn_dir n))) = mset (List.map fst segs' @ [?s])"
    by (simp only: add_mset_add_mset_same_iff)
  moreover have "sorted_wrt (<) (List.map fst segs' @ [?s])"
    using so by (auto simp: keys sorted_wrt_append sorted_wrt_filter)
  ultimately have "names_ok segs' ?s (sn_dir n')" using kv by (simp add: names_ok_def n'_def)
  moreover have "list_all (closed_ok c (sn_dir n')) segs'"
    using assms(1) by (auto simp: files_ok_def closed_ok_def list_all_iff n'_def segs'_def fl)
  ultimately show "files_ok c M segs' rs n'" using assms(1) ne by (auto simp: files_ok_def n'_def fl)
  show "within M n \<Longrightarrow> within M n'" "durable n \<Longrightarrow> durable n'" using ne by (auto simp: within_def durable_def n'_def fl)
  have "map_of segs' t = (if t = s then None else map_of segs t)" for t
    unfolding segs'_def by (induction segs) auto
  moreover have "sl_max (sn_log n') = kv_del s (sl_max (sn_log n))" by (simp add: n'_def)
  ultimately show "max_ok c segs' (sl_max (sn_log n'))"
    using assms(2) unfolding max_ok_def by (simp only: kv_get_del) (auto simp: max_ok_def)
  show "p \<in> set segs \<Longrightarrow> fst p = s \<Longrightarrow> ents_in (snd p) \<noteq> [] \<Longrightarrow> max_of c (snd p) = m"
  proof -
    assume p: "p \<in> set segs" "fst p = s" "ents_in (snd p) \<noteq> []"
    then have "map_of segs s = Some (snd p)" using dist by (metis distinct_append map_append map_of_is_SomeI prod.collapse)
    then show ?thesis using assms(2,3) p(3) by (auto simp: max_ok_def split: option.splits) (metis option.inject)
  qed
qed

lemma truncate_loop_max:
  "truncate_loop env limit order n = (r, n') \<Longrightarrow> kv_get (sl_max (sn_log n')) t = Some m \<Longrightarrow> kv_get (sl_max (sn_log n)) t = Some m"
proof (induction order arbitrary: n)
  case (Cons s order)
  then show ?case by (fastforce simp: kv_simps split: option.splits if_splits)
qed simp

lemma truncate_loop_ok:
  assumes "truncate_loop env limit order n = (Inr u, n')" "files_ok c M segs rs n" "max_ok c segs (sl_max (sn_log n))"
  shows "\<exists>keep. files_ok c M (filter keep segs) rs n' \<and> max_ok c (filter keep segs) (sl_max (sn_log n')) \<and>
    (within M n \<longrightarrow> within M n') \<and> (durable n \<longrightarrow> durable n') \<and> sn_log n' = (sn_log n)\<lparr>sl_max := sl_max (sn_log n')\<rparr> \<and>
    (\<forall>p\<in>set segs. \<not> keep p \<longrightarrow> covered c limit p) \<and>
    (\<forall>t\<in>set order. \<forall>m. kv_get (sl_max (sn_log n')) t = Some m \<longrightarrow> limit < m)"
  using assms
proof (induction order arbitrary: n segs)
  case Nil
  then show ?case by (intro exI [of _ "\<lambda>_. True"]) auto
next
  case (Cons s order)
  show ?case
  proof (cases "\<exists>m. kv_get (sl_max (sn_log n)) s = Some m \<and> \<not> limit < m")
    case False
    then have rest: "truncate_loop env limit order n = (Inr u, n')"
      using Cons.prems(1) by (auto split: option.splits if_splits)
    then have "limit < m" if "kv_get (sl_max (sn_log n')) s = Some m" for m
      using truncate_loop_max [OF rest that] False by blast
    moreover obtain keep where "files_ok c M (filter keep segs) rs n'" "max_ok c (filter keep segs) (sl_max (sn_log n'))"
        "within M n \<longrightarrow> within M n'" "durable n \<longrightarrow> durable n'" "sn_log n' = (sn_log n)\<lparr>sl_max := sl_max (sn_log n')\<rparr>"
        "\<forall>p\<in>set segs. \<not> keep p \<longrightarrow> covered c limit p"
        "\<forall>t\<in>set order. \<forall>m. kv_get (sl_max (sn_log n')) t = Some m \<longrightarrow> limit < m"
      using Cons.IH [OF rest Cons.prems(2,3)] by blast
    ultimately show ?thesis by (intro exI [of _ keep] conjI) auto
  next
    case True
    then obtain m where m: "kv_get (sl_max (sn_log n)) s = Some m" "\<not> limit < m" by blast
    let ?n = "n\<lparr>sn_dir := kv_del (seg_name s) (sn_dir n), sn_log := (sn_log n)\<lparr>sl_max := kv_del s (sl_max (sn_log n))\<rparr>\<rparr>"
    let ?segs = "filter (\<lambda>p. fst p \<noteq> s) segs"
    have rest: "truncate_loop env limit order ?n = (Inr u, n')" using Cons.prems(1) m by (auto split: if_splits)
    note rem = remove_segment [OF Cons.prems(2,3) m(1)]
    obtain keep where k: "files_ok c M (filter keep ?segs) rs n'" "max_ok c (filter keep ?segs) (sl_max (sn_log n'))"
        "within M ?n \<longrightarrow> within M n'" "durable ?n \<longrightarrow> durable n'" "sn_log n' = (sn_log ?n)\<lparr>sl_max := sl_max (sn_log n')\<rparr>"
        "\<forall>p\<in>set ?segs. \<not> keep p \<longrightarrow> covered c limit p"
        "\<forall>t\<in>set order. \<forall>m. kv_get (sl_max (sn_log n')) t = Some m \<longrightarrow> limit < m"
      using Cons.IH [OF rest rem(1,2)] by blast
    let ?keep = "\<lambda>p. fst p \<noteq> s \<and> keep p"
    have "filter ?keep segs = filter keep ?segs" by (simp add: conj_commute)
    moreover have "covered c limit p" if "p \<in> set segs" "\<not> ?keep p" for p
    proof (cases "fst p = s")
      case True
      then show ?thesis using rem(5) [OF that(1) True] m(2) by (auto simp: covered_def)
    next
      case False
      then show ?thesis using k(6) that by (cases p) auto
    qed
    moreover have "kv_get (sl_max (sn_log n')) s = None"
    proof (rule ccontr)
      assume "kv_get (sl_max (sn_log n')) s \<noteq> None"
      then obtain x where "kv_get (sl_max (sn_log n')) s = Some x" by blast
      then show False using truncate_loop_max [OF rest] by (fastforce simp: kv_simps)
    qed
    moreover have "sn_log n' = (sn_log n)\<lparr>sl_max := sl_max (sn_log n')\<rparr>" using k(5) by simp
    moreover have "within M n \<longrightarrow> within M n'" "durable n \<longrightarrow> durable n'" using k(3,4) rem(3,4) by blast+
    ultimately show ?thesis using k(1,2,7) by (intro exI [of _ ?keep] conjI) (auto simp del: filter_filter)
  qed
qed

lemma replay_no_hs: "fst (replay_recs c rs) = None \<longleftrightarrow> (\<forall>h. Hs h \<notin> set rs)"
proof (induction rs rule: rev_induct)
  case (snoc x xs)
  obtain h e l where "replay_recs c xs = (h, e, l)" by (cases "replay_recs c xs") auto
  then show ?case using snoc by (cases x) (auto simp: replay_append)
qed (simp add: replay_recs_def)

theorem truncate_to_ok:
  assumes log: "log_ok c M segs rs n" and ok: "truncate_to env limit n = (Inr u, n')"
    and car: "carried c segs rs" and gap: "gapless c (ents_in (all_recs segs rs))"
    and lim: "limit < sl_last (sn_log n)" and order: "\<And>xs. set (sg_order env xs) = set xs"
  shows "\<exists>keep. log_ok c M (filter keep segs) rs n' \<and> carried c (filter keep segs) rs \<and> (durable n \<longrightarrow> durable n') \<and>
    (\<forall>p\<in>set segs. ents_in (snd p) \<noteq> [] \<longrightarrow> keep p = (limit < max_of c (snd p))) \<and>
    (\<forall>t m. kv_get (sl_max (sn_log n')) t = Some m \<longrightarrow> limit < m) \<and>
    fst (replay_recs c (all_recs (filter keep segs) rs)) = fst (replay_recs c (all_recs segs rs)) \<and>
    high c limit (fst (snd (replay_recs c (all_recs (filter keep segs) rs)))) = high c limit (fst (snd (replay_recs c (all_recs segs rs))))"
proof -
  have f: "files_ok c M segs rs n" "max_ok c segs (sl_max (sn_log n))" "within M n" "sl_open (sn_log n)"
    using log by (simp_all add: log_ok_def mem_ok_def)
  obtain keep where k: "files_ok c M (filter keep segs) rs n'" "max_ok c (filter keep segs) (sl_max (sn_log n'))"
      "within M n'" "durable n \<longrightarrow> durable n'" "sn_log n' = (sn_log n)\<lparr>sl_max := sl_max (sn_log n')\<rparr>"
      "\<forall>p\<in>set segs. \<not> keep p \<longrightarrow> covered c limit p"
      "\<forall>t\<in>set (List.map fst (sl_max (sn_log n))). \<forall>m. kv_get (sl_max (sn_log n')) t = Some m \<longrightarrow> limit < m"
    using truncate_loop_ok [OF ok [unfolded truncate_to_def] f(1,2)] f(3) order by auto
  let ?segs = "filter keep segs"
  have log': "sl_hs (sn_log n') = sl_hs (sn_log n)" "sl_last (sn_log n') = sl_last (sn_log n)" "sl_open (sn_log n')"
    using arg_cong [OF k(5), of sl_hs] arg_cong [OF k(5), of sl_last] arg_cong [OF k(5), of sl_open] f(4) by simp_all
  have ents: "ents_in (all_recs ss rs) = concat (List.map snd (List.map (\<lambda>p. (fst p, ents_in (snd p))) ss)) @ ents_in rs" for ss
    by (induction ss) (auto simp: all_recs_def)
  let ?E = "ents_in (all_recs segs rs)" and ?E' = "ents_in (all_recs ?segs rs)"
  let ?bs = "List.map (\<lambda>p. (keep p, ents_in (snd p))) segs"
  have E: "?E = concat (List.map snd ?bs) @ ents_in rs" "?E' = concat (List.map snd (filter fst ?bs)) @ ents_in rs"
    by (simp_all add: ents filter_map comp_def)
  have "\<not> limit < ent_index c (last (snd b))" if "b \<in> set ?bs" "\<not> fst b" "snd b \<noteq> []" for b
    using that k(6) by (auto simp: covered_def max_of_def not_less)
  then obtain pre where pre: "?E' = pre @ above c limit ?E" "above c limit ?E = ?E \<longrightarrow> pre = []"
    using drop_blocks [of ?bs fst limit c "ents_in rs"] unfolding E by blast
  obtain e0 where rp: "replay_recs c (all_recs segs rs) = (sl_hs (sn_log n), e0, sl_last (sn_log n))"
    using log by (auto simp: log_ok_def mem_ok_def)
  have lst: "?E \<noteq> []" "ent_index c (last ?E) = sl_last (sn_log n)"
    using replay_last [of c "all_recs segs rs" "(None, [], 0)"] rp lim by (auto simp: replay_recs_def split: if_splits)
  then have ne: "above c limit ?E \<noteq> []" using lim by (cases ?E rule: rev_cases) (auto simp: above_def)
  have "last ?E' = last (above c limit ?E)" using pre(1) ne by simp
  also have "\<dots> = last ?E" using ne above_split [of c limit ?E] by (metis last_appendR last_ConsR list.distinct(1))
  finally have lst': "last ?E' = last ?E" .
  have hi: "high c limit (fst (snd (replay_recs c (all_recs ?segs rs)))) = high c limit (fst (snd (replay_recs c (all_recs segs rs))))"
    unfolding high_replay_recs by (rule high_from_above [OF gap ne pre])
  have hs: "fst (replay_recs c (all_recs ?segs rs)) = fst (replay_recs c (all_recs segs rs))" "carried c ?segs rs"
  proof -
    show "fst (replay_recs c (all_recs ?segs rs)) = fst (replay_recs c (all_recs segs rs))"
    proof (cases "fst (replay_recs c rs)")
      case None
      then have "fst (replay_recs c (all_recs segs rs)) = None" using car by (simp add: carried_def)
      then have "\<forall>h. Hs h \<notin> set (all_recs segs rs)" by (subst (asm) replay_no_hs)
      then have "\<forall>h. Hs h \<notin> set (all_recs ?segs rs)" unfolding all_recs_def by fastforce
      then have "fst (replay_recs c (all_recs ?segs rs)) = None" by (subst replay_no_hs)
      then show ?thesis using None car by (simp add: carried_def)
    next
      case (Some h)
      then show ?thesis by (simp add: all_recs_def replay_append replay_hs)
    qed
    then show "carried c ?segs rs" using car by (simp add: carried_def)
  qed
  have "snd (snd (replay_recs c (all_recs ?segs rs))) = sl_last (sn_log n)"
    using pre(1) ne lst lst' by (simp add: replay_recs_def replay_last)
  then have "mem_ok c ?segs rs (sn_log n')"
    using hs(1) rp log' k(2) by (cases "replay_recs c (all_recs ?segs rs)") (simp add: mem_ok_def)
  then have "log_ok c M ?segs rs n'" using k(1,3) by (simp add: log_ok_def)
  moreover have left: "limit < m" if m: "kv_get (sl_max (sn_log n')) t = Some m" for t m
  proof -
    have "kv_get (sl_max (sn_log n)) t = Some m"
      using truncate_loop_max [OF ok [unfolded truncate_to_def] m] .
    then have "t \<in> set (List.map fst (sl_max (sn_log n)))"
      unfolding kv_get_def by (metis map_of_eq_None_iff option.distinct(1) set_map)
    then show ?thesis using k(7) m by blast
  qed
  moreover have "keep p = (limit < max_of c (snd p))" if p: "p \<in> set segs" "ents_in (snd p) \<noteq> []" for p
  proof (cases "keep p")
    case True
    have "distinct (List.map fst ?segs)" using k(1) names_distinct by (fastforce simp: files_ok_def)
    then have "map_of ?segs (fst p) = Some (snd p)" using p(1) True by (simp add: map_of_is_SomeI)
    then have "kv_get (sl_max (sn_log n')) (fst p) = Some (max_of c (snd p))"
      using k(2) p(2) by (fastforce simp: max_ok_def split: option.splits)
    then show ?thesis using left True by blast
  next
    case False
    then show ?thesis using k(6) p by (auto simp: covered_def not_less)
  qed
  ultimately show ?thesis using hi hs k(4) by (intro exI [of _ keep]) auto
qed

end
