(* ===== verification/Seg_Contract.thy ===== *)
theory Seg_Contract
  imports Seg_Safety
begin

text \<open>
  The contract of a segment log towards its caller, as properties, with an example log of two
  segments to which each of them is applied.
\<close>


section \<open>The contract of a segment log\<close>

text \<open>
  An open log in whose files the entries \<open>es\<close> were written, in this order and oldest first;
  and a directory that opens to a hard state and a list of entries.
\<close>

definition log_with :: "('e, 'h) raft_codec \<Rightarrow> nat \<Rightarrow> 'e list \<Rightarrow> 'h seg_node \<Rightarrow> bool" where
  "log_with c M es n \<longleftrightarrow> (\<exists>segs rs. log_ok c M segs rs n \<and> carried c segs rs \<and> ents_in (all_recs segs rs) = es)"

definition opens_to :: "('e, 'h) raft_codec \<Rightarrow> nat \<Rightarrow> seg_dir \<Rightarrow> 'h option \<Rightarrow> 'e list \<Rightarrow> bool" where
  "opens_to c M dir hs ents \<longleftrightarrow>
     (\<forall>env. quiet env \<longrightarrow> sg_max_bytes env = M \<longrightarrow> (\<exists>l dir'. open_log env c dir = (Inr (l, hs, ents), dir')))"

definition some_env :: "nat \<Rightarrow> bool \<Rightarrow> seg_env" where
  "some_env M pre = \<lparr>sg_fails = \<lambda>_. False, sg_short = 0, sg_prealloc = pre, sg_max_bytes = M, sg_order = id\<rparr>"

lemma some_env [simp]: "quiet (some_env M pre)" "sg_max_bytes (some_env M pre) = M" "sg_prealloc (some_env M pre) = pre"
    "sg_order (some_env M pre) = id"
  by (simp_all add: some_env_def quiet_def)

lemma opens_unique: "opens_to c M dir hs es \<Longrightarrow> opens_to c M dir hs' es' \<Longrightarrow> hs = hs' \<and> es = es'"
  unfolding opens_to_def using some_env(1,2) [of M True] by (metis Inr_inject fst_conv snd_conv)

lemma dir_opens:
  assumes "codec_ok c" "dir_ok c M segs seq rs dir" "replay_recs c (all_recs segs rs) = (hs, es, lst)"
  shows "opens_to c M dir hs es"
  unfolding opens_to_def
proof (intro allI impI)
  fix env :: seg_env assume e: "quiet env" "sg_max_bytes env = M"
  have "dir_ok c (sg_max_bytes env) segs seq rs dir" using assms(2) e(2) by simp
  then obtain l dir' where "open_log env c dir = (Inr (l, fst (replay_recs c (all_recs segs rs)), fst (snd (replay_recs c (all_recs segs rs)))), dir')"
    by (rule open_intact [OF e(1) assms(1)]) blast
  then show "\<exists>l dir'. open_log env c dir = (Inr (l, hs, es), dir')" by (simp add: assms(3))
qed

lemma log_opens: "codec_ok c \<Longrightarrow> log_ok c M segs rs n \<Longrightarrow> replay_recs c (all_recs segs rs) = (hs, es, lst) \<Longrightarrow> opens_to c M (sn_dir n) hs es"
  using dir_opens log_dir_ok by blast

lemma gapless_drop:
  assumes "gapless c (pre @ b @ post)" "b \<noteq> []" "\<not> limit < ent_index c (last b)" "pre \<noteq> [] \<longrightarrow> limit < ent_index c (last pre)"
  shows "gapless c (pre @ post)"
proof -
  have "unat (ent_index c (hd post)) \<le> Suc (unat (ent_index c (last pre)))" if "pre \<noteq> []" "post \<noteq> []"
  proof -
    have "unat (ent_index c (hd post)) \<le> Suc (unat (ent_index c (last b)))"
      using assms(1,2) that by (auto simp: gapless_def successively_append_iff)
    moreover have "unat (ent_index c (last b)) \<le> unat limit" "unat limit < unat (ent_index c (last pre))"
      using assms(3,4) that by (auto simp: word_le_nat_alt word_less_nat_alt)
    ultimately show ?thesis by linarith
  qed
  then show ?thesis using assms(1) by (auto simp: gapless_def successively_append_iff)
qed

lemma gapless_filter:
  assumes "gapless c (pre @ concat (List.map snd bs) @ post)" "pre \<noteq> [] \<longrightarrow> limit < ent_index c (last pre)"
    "\<forall>b\<in>set bs. snd b \<noteq> [] \<longrightarrow> (limit < ent_index c (last (snd b))) = keep b"
  shows "gapless c (pre @ concat (List.map snd (filter keep bs)) @ post)"
  using assms
proof (induction bs arbitrary: pre)
  case (Cons b bs)
  show ?case
  proof (cases "snd b = []")
    case True
    then show ?thesis using Cons by simp
  next
    case ne: False
    show ?thesis
    proof (cases "keep b")
      case True
      then show ?thesis using Cons.IH [of "pre @ snd b"] Cons.prems ne by simp
    next
      case False
      have "gapless c (pre @ concat (List.map snd bs) @ post)"
        by (rule gapless_drop [of c pre "snd b" _ limit]) (use Cons.prems ne False in auto)
      then show ?thesis using Cons.IH [of pre] Cons.prems(2,3) False by simp
    qed
  qed
qed simp


lemma power_cut_exists: "\<exists>d'. power_cut d d'"
proof (induction d)
  case (Cons p d)
  then obtain d' where d: "power_cut d d'" by blast
  have "lost f (sf_data f)" for f
    unfolding lost_def by (intro conjI impI exI [of _ "length (sf_data f)"] exI [of _ 0]) (simp_all add: zeros_def)
  then show ?case using d by (cases p; cases "snd p") (auto intro: power_cut.intros)
qed (auto intro: power_cut.intros)

text \<open>A directory without a segment opens to an empty log.\<close>

lemma open_fresh:
  fixes c :: "('e, 'h) raft_codec"
  assumes "quiet env" "kv_ok dir" "dir_seqs dir = []" "kv_get dir (seg_name 1) = None"
  obtains l dir' where "open_log env c dir = (Inr (l, None, []), dir')"
    "log_ok c (sg_max_bytes env) [] [] \<lparr>sn_dir = dir', sn_log = l\<rparr>" "sl_seq l = 1"
proof -
  let ?M = "sg_max_bytes env"
  let ?d0 = "kv_set (seg_name 1) (SegFile new_file) dir"
  let ?d1 = "link_all ?d0"
  let ?f1 = "new_file\<lparr>sf_linked := True\<rparr>"
  let ?f2 = "if sg_prealloc env then file_alloc ?M ?f1 else ?f1"
  let ?d2 = "if sg_prealloc env then on_file (seg_name 1) (file_alloc ?M) ?d1 else ?d1"
  let ?l = "\<lparr>sl_open = True, sl_seq = 1, sl_size = 0, sl_last = 0, sl_hs = None, sl_max = [], sl_prealloc = sg_prealloc env\<rparr>"
  have opn: "open_log env c dir = (Inr (?l, None, []), ?d2)"
    using assms by (simp add: open_log_def sbind_def slift_def sret_def dir_op_def scan_seg_seqs_def open_active_def open_create_def
        prealloc_active_def empty_replay_def kv_del_def dir_seqs_def [symmetric] split del: if_split) simp
  have nm: "names_ok ([] :: ('e, 'h) seg_list) 1 ?d1" using assms(2,3) dir_seqs_new [OF assms(4), of new_file 1] by (simp add: names_ok_def)
  have f1: "file_at ?d1 1 = Some ?f1" by (simp add: file_atD kv_simps)
  have "names_ok ([] :: ('e, 'h) seg_list) 1 ?d2" "file_at ?d2 1 = Some ?f2"
    using nm f1 on_active_dir [OF nm _ f1, of c "file_alloc ?M"] by auto
  moreover have "sf_data ?f2 = zeros (if sg_prealloc env then ?M else 0)" "sf_linked ?f2" "sg_prealloc env \<longrightarrow> ?M \<le> sf_alloc ?f2"
    by (simp_all add: file_alloc_def new_file_def zeros_def)
  ultimately have "log_ok c ?M [] [] \<lparr>sn_dir = ?d2, sn_log = ?l\<rparr>"
    by (simp add: log_ok_def files_ok_def within_def mem_ok_def max_ok_def all_recs_def replay_recs_def kv_simps split del: if_split) blast
  then show thesis using that opn by auto
qed

text \<open>The operations succeed when no call fails.\<close>

lemma kv_get_on_file: "k \<noteq> name \<Longrightarrow> kv_get (on_file name g dir) k = kv_get dir k"
  by (simp add: on_file_def kv_simps split: option.splits dirent.splits)

lemma rotate_succeeds:
  assumes "quiet env" "kv_get (sn_dir n) (seg_name (sl_seq (sn_log n) + 1)) = None" "sl_seq (sn_log n) < sl_seq (sn_log n) + 1"
    "\<And>h. sl_hs (sn_log n) = Some h \<Longrightarrow> enc_hs c h \<noteq> None"
  shows "\<exists>n'. rotate env c n = (Inr (), n')"
proof -
  let ?m = "on_log (\<lambda>l. l\<lparr>sl_open := False\<rparr>) (on_active file_sync (on_active (file_truncate (sl_size (sn_log n))) n))"
  have "kv_get (sn_dir ?m) (seg_name (sl_seq (sn_log n) + 1)) = None"
    using assms(2,3) by (simp add: kv_get_on_file)
  then obtain dir where cr: "create_segment env (sl_seq (sn_log n) + 1) ?m = (Inr (), ?m\<lparr>sn_dir := dir\<rparr>)"
    using assms(1) by (auto simp: create_segment_def open_create_def split: option.split)
  show ?thesis
  proof (cases "sl_hs (sn_log n)")
    case None
    then show ?thesis using assms(1) cr
      by (simp add: rotate_def Let_def sbind_def seg_io_def smod_def prealloc_active_def rewrite_hs_def)
  next
    case (Some h)
    then obtain b where "enc_hs c h = Some b" using assms(4) by blast
    then show ?thesis using assms(1) cr Some
      by (simp add: rotate_def Let_def sbind_def seg_io_def smod_def prealloc_active_def rewrite_hs_def write_active_def sync_active_def)
  qed
qed

lemma append_succeeds:
  assumes "quiet env" "log_ok c M segs rs n" "list_all (fits c) (recs_of hs ents)"
    "kv_get (sn_dir n) (seg_name (sl_seq (sn_log n) + 1)) = None" "sl_seq (sn_log n) < sl_seq (sn_log n) + 1"
  shows "\<exists>n'. append_log env c hs ents sync n = (Inr (), n')"
proof -
  let ?buf = "recs_bytes c (recs_of hs ents)"
  let ?n1 = "if ?buf = [] then n else on_log (\<lambda>l. l\<lparr>sl_size := sl_size (sn_log n) + length ?buf\<rparr>) (on_active (file_write (sl_size (sn_log n)) ?buf) n)"
  let ?n2 = "on_log (note_written c hs ents) ?n1"
  let ?n3 = "if sync then on_active (if sl_prealloc (sn_log ?n2) then file_datasync else file_sync) ?n2 else ?n2"
  have w: "(if ?buf = [] then sret () else write_active env OWriteAt ?buf) n = (Inr (), ?n1)"
    using assms(1) by (simp add: sret_def write_active_def Let_def)
  have s: "(if sync then sync_active env OSync else sret ()) ?n2 = (Inr (), ?n3)"
    using assms(1) by (simp add: sret_def sync_active_def seg_io_def)
  have seq: "sl_seq (sn_log ?n3) = sl_seq (sn_log n)" "sl_hs (sn_log ?n3) = (case hs of None \<Rightarrow> sl_hs (sn_log n) | Some h \<Rightarrow> Some h)"
    by (simp add: note_written_def) (cases hs; simp add: note_written_def)
  have "kv_get (sn_dir ?n3) (seg_name (sl_seq (sn_log n) + 1)) = None"
    using assms(4,5) by (simp add: kv_get_on_file note_written_def)
  moreover have "enc_hs c h \<noteq> None" if "sl_hs (sn_log ?n3) = Some h" for h
  proof -
    have "fits c (Hs h)"
      using that assms(3) log_hs_fits [OF assms(2)] unfolding seq by (cases hs) (auto simp: recs_of_def)
    then show ?thesis by (auto simp: fits_def split: option.splits)
  qed
  ultimately have "\<exists>n'. maybe_rotate env c ?n3 = (Inr (), n')"
    using rotate_succeeds [OF assms(1), of ?n3 c] assms(5) unfolding maybe_rotate_def seq by auto
  moreover have "append_log env c hs ents sync n = maybe_rotate env c ?n3"
    using assms(2) w s by (simp only: append_log_def log_ok_def mem_ok_def build_buf_total [OF assms(3)] sbind_def smod_def) simp
  ultimately show ?thesis by metis
qed

lemma max_ok_mem: "max_ok c segs mx \<Longrightarrow> kv_get mx s = Some m \<Longrightarrow> \<exists>ws. map_of segs s = Some ws"
  unfolding max_ok_def by (drule conjunct2, drule spec [of _ s]) (simp split: option.splits)

lemma truncate_loop_succeeds:
  assumes "quiet env" "files_ok c M segs rs n" "max_ok c segs (sl_max (sn_log n))"
  shows "\<exists>n'. truncate_loop env limit order n = (Inr (), n')"
  using assms(2,3)
proof (induction order arbitrary: n segs)
  case (Cons s order)
  show ?case
  proof (cases "kv_get (sl_max (sn_log n)) s")
    case None
    then show ?thesis using Cons.IH [OF Cons.prems] by simp
  next
    case (Some m)
    obtain ws where "map_of segs s = Some ws"
      using max_ok_mem [OF Cons.prems(2) Some] by blast
    then have "(s, ws) \<in> set segs" by (rule map_of_SomeD)
    then obtain d where "kv_get (sn_dir n) (seg_name s) = Some d"
      using Cons.prems(1) by (fastforce simp: files_ok_def closed_ok_def list_all_iff file_atD)
    then show ?thesis
      using Some assms(1) Cons.IH [OF Cons.prems] Cons.IH [OF remove_segment(1,2) [OF Cons.prems Some]] by simp
  qed
qed simp

lemma truncate_succeeds: "quiet env \<Longrightarrow> log_ok c M segs rs n \<Longrightarrow> \<exists>n'. truncate_to env limit n = (Inr (), n')"
  using truncate_loop_succeeds by (fastforce simp: truncate_to_def log_ok_def mem_ok_def)

section \<open>The properties\<close>

text \<open>C7: a write to the log is what a later open reads.  After a successful \<open>Append\<close> of a hard state
  and of ascending entries, to a log that would open to \<open>hs0\<close> and \<open>old\<close>, whatever segment
  rotation it made, opening the directory gives the new hard state (the old one where none was
  written) and the old entries below the first new index followed by exactly the new ones.
  Nothing else is required of the indices: entries that leave a gap after \<open>old\<close> are kept as
  they are, next to the old ones.
\<close>

theorem append_then_open:
  assumes "codec_ok c" "hs_small c (sg_max_bytes env)"
    and "log_with c (sg_max_bytes env) es n" "opens_to c (sg_max_bytes env) (sn_dir n) hs0 old"
    and "append_log env c hs ents sync n = (Inr (), n')"
    and "list_all (fits c) (recs_of hs ents)" "ascending c ents" "sl_seq (sn_log n) < sl_seq (sn_log n) + 1"
  shows "log_with c (sg_max_bytes env) (es @ ents) n' \<and>
    opens_to c (sg_max_bytes env) (sn_dir n') (if hs = None then hs0 else hs) (splice c old ents)"
proof -
  let ?M = "sg_max_bytes env"
  obtain segs rs where log: "log_ok c ?M segs rs n" "carried c segs rs" "ents_in (all_recs segs rs) = es"
    using assms(3) by (auto simp: log_with_def)
  obtain h0 e0 l0 where v: "replay_recs c (all_recs segs rs) = (h0, e0, l0)" by (cases "replay_recs c (all_recs segs rs)") auto
  then have old: "h0 = hs0" "e0 = old" using log_opens [OF assms(1) log(1) v] opens_unique assms(4) by blast+
  obtain segs' rs' where log': "log_ok c ?M segs' rs' n'" "carried c segs' rs'"
      "replay_recs c (all_recs segs' rs') = replay_recs c (all_recs segs rs @ recs_of hs ents)"
      "ents_in (all_recs segs' rs') = es @ ents"
    using append_log_ok [OF log(1) assms(5,6,2,8) log(2)] log(3) by metis
  have "opens_to c ?M (sn_dir n') (if hs = None then hs0 else hs) (splice c old ents)"
    by (rule log_opens [OF assms(1) log'(1)]) (simp only: log'(3) replay_write [OF v assms(7)] old)
  then show ?thesis using log' by (auto simp: log_with_def)
qed

text \<open>C8: what was written with a sync survives a power cut.  After a successful \<open>Append\<close> with
  \<open>sync\<close>, whatever bytes of unsynced data are lost, cut or replaced by zeros, the directory opens
  to the same hard state and entries.
\<close>

theorem synced_append_survives:
  assumes "codec_ok c" "hs_small c (sg_max_bytes env)"
    and "log_with c (sg_max_bytes env) es n" "opens_to c (sg_max_bytes env) (sn_dir n) hs0 old"
    and "append_log env c hs ents True n = (Inr (), n')"
    and "list_all (fits c) (recs_of hs ents)" "ascending c ents" "sl_seq (sn_log n) < sl_seq (sn_log n) + 1"
    and "power_cut (sn_dir n') d"
  shows "opens_to c (sg_max_bytes env) d (if hs = None then hs0 else hs) (splice c old ents)"
proof -
  let ?M = "sg_max_bytes env"
  obtain segs rs where log: "log_ok c ?M segs rs n" "carried c segs rs"
    using assms(3) by (auto simp: log_with_def)
  obtain h0 e0 l0 where v: "replay_recs c (all_recs segs rs) = (h0, e0, l0)" by (cases "replay_recs c (all_recs segs rs)") auto
  then have old: "h0 = hs0" "e0 = old" using log_opens [OF assms(1) log(1) v] opens_unique assms(4) by blast+
  obtain segs' rs' where log': "log_ok c ?M segs' rs' n'" "durable n'"
      "replay_recs c (all_recs segs' rs') = replay_recs c (all_recs segs rs @ recs_of hs ents)"
    using append_log_ok [OF log(1) assms(5,6,2,8) log(2)] by auto
  show ?thesis
    by (rule dir_opens [OF assms(1) power_cut_dir_ok [OF log_files_ok [OF log'(1)] log'(2) assms(9)]])
      (simp only: log'(3) replay_write [OF v assms(7)] old)
qed

text \<open>C9: reclaiming segments loses nothing above the limit.  A successful \<open>TruncateTo\<close> below the
  last index, of a log whose entries were written without gaps (overwriting allowed), leaves a
  directory that opens to the same hard state and to the same entries above the limit; every
  segment file left is the active one or has a recorded index above the limit.
\<close>

theorem truncation_keeps_live:
  assumes "codec_ok c" "log_with c M es n" "opens_to c M (sn_dir n) hs ents"
    and "truncate_to env limit n = (Inr (), n')" "\<And>xs. set (sg_order env xs) = set xs"
    and "gapless c es" "limit < sl_last (sn_log n)"
  shows "\<exists>es' ents'. log_with c M es' n' \<and> gapless c es' \<and> opens_to c M (sn_dir n') hs ents' \<and>
    high c limit ents' = high c limit ents \<and>
    (\<forall>s f. file_at (sn_dir n') s = Some f \<longrightarrow> s = sl_seq (sn_log n') \<or> (\<exists>m. kv_get (sl_max (sn_log n')) s = Some m \<and> limit < m))"
proof -
  obtain segs rs where log: "log_ok c M segs rs n" "carried c segs rs" "ents_in (all_recs segs rs) = es"
    using assms(2) by (auto simp: log_with_def)
  obtain h0 e0 l0 where v: "replay_recs c (all_recs segs rs) = (h0, e0, l0)" by (cases "replay_recs c (all_recs segs rs)") auto
  then have old: "h0 = hs" "e0 = ents" using log_opens [OF assms(1) log(1) v] opens_unique assms(3) by blast+
  obtain keep where k: "log_ok c M (filter keep segs) rs n'" "carried c (filter keep segs) rs"
      "\<forall>p\<in>set segs. ents_in (snd p) \<noteq> [] \<longrightarrow> keep p = (limit < max_of c (snd p))"
      "\<forall>t m. kv_get (sl_max (sn_log n')) t = Some m \<longrightarrow> limit < m"
      "fst (replay_recs c (all_recs (filter keep segs) rs)) = fst (replay_recs c (all_recs segs rs))"
      "high c limit (fst (snd (replay_recs c (all_recs (filter keep segs) rs)))) = high c limit (fst (snd (replay_recs c (all_recs segs rs))))"
    using truncate_to_ok [OF log(1) assms(4) log(2) _ assms(7,5)] assms(6) log(3) by blast
  let ?segs = "filter keep segs"
  obtain h1 e1 l1 where v1: "replay_recs c (all_recs ?segs rs) = (h1, e1, l1)" by (cases "replay_recs c (all_recs ?segs rs)") auto
  have "opens_to c M (sn_dir n') hs e1" using log_opens [OF assms(1) k(1) v1] k(5) v v1 old by simp
  moreover have "high c limit e1 = high c limit ents" using k(6) v v1 old by simp
  moreover have "gapless c (ents_in (all_recs ?segs rs))"
  proof -
    let ?bs = "List.map (\<lambda>p. (keep p, ents_in (snd p))) segs"
    have ents: "ents_in (all_recs ss rs) = concat (List.map (\<lambda>p. ents_in (snd p)) ss) @ ents_in rs" for ss
      by (induction ss) (auto simp: all_recs_def)
    have "gapless c ([] @ concat (List.map snd (filter fst ?bs)) @ ents_in rs)"
    proof (rule gapless_filter)
      show "gapless c ([] @ concat (List.map snd ?bs) @ ents_in rs)" using assms(6) log(3) ents [of segs] by (simp add: comp_def)
      show "\<forall>b\<in>set ?bs. snd b \<noteq> [] \<longrightarrow> (limit < ent_index c (last (snd b))) = fst b" using k(3) by (auto simp: max_of_def)
    qed simp
    then show ?thesis by (simp add: ents filter_map comp_def)
  qed
  moreover have "s = sl_seq (sn_log n') \<or> (\<exists>m. kv_get (sl_max (sn_log n')) s = Some m \<and> limit < m)"
    if f: "file_at (sn_dir n') s = Some f" for s f
  proof -
    have nm: "names_ok ?segs (sl_seq (sn_log n')) (sn_dir n')" and mx: "max_ok c ?segs (sl_max (sn_log n'))"
      using k(1) by (simp_all add: log_ok_def files_ok_def mem_ok_def)
    have "s \<in> set (dir_seqs (sn_dir n'))" using f dir_seqs_mem [of _ "seg_name s"] by (simp add: file_atD)
    then have "s \<in> set (List.map fst ?segs @ [sl_seq (sn_log n')])" using nm by (metis names_ok_def set_mset_mset)
    then have "s = sl_seq (sn_log n') \<or> s \<in> fst ` set ?segs" by auto
    moreover have "\<exists>m. kv_get (sl_max (sn_log n')) s = Some m" if "s \<in> fst ` set ?segs"
    proof -
      have "map_of ?segs s \<noteq> None" using that by (simp only: map_of_eq_None_iff not_not)
      then obtain ws where "map_of ?segs s = Some ws" by blast
      then show ?thesis using mx by (fastforce simp: max_ok_def split: option.splits)
    qed
    ultimately show ?thesis using k(4) by blast
  qed
  ultimately show ?thesis using k(1,2) unfolding log_with_def by blast
qed

text \<open>C38: a byte that rots in a closed segment is noticed.  If any byte of any record (its type or its
  payload) in a segment that is not the last has changed, \<open>Open\<close> refuses the log and names the
  segment and the offset of the damaged frame.
\<close>

theorem rotten_byte_refused:
  assumes "quiet env" "codec_ok c" "log_ok c M (before @ (s, good @ r # later) # after) rs n"
    and "file_at (sn_dir n) s = Some f" "rec_payload c r = Some b" "i < 1 + length b" "x \<noteq> (rec_type r # b) ! i"
    and "p = length (recs_bytes c good) + frame_header_len + i"
  shows "fst (open_log env c (on_file (seg_name s) (\<lambda>f. f\<lparr>sf_data := (sf_data f)[p := x]\<rparr>) (sn_dir n))) =
    Inl (BadFrame s (length (recs_bytes c good)))"
proof -
  let ?segs = "before @ (s, good @ r # later) # after" and ?seq = "sl_seq (sn_log n)"
  let ?g = "\<lambda>f. f\<lparr>sf_data := (sf_data f)[p := x]\<rparr>"
  let ?dir = "on_file (seg_name s) ?g (sn_dir n)"
  have nm: "names_ok ?segs ?seq (sn_dir n)" and cl: "list_all (closed_ok c (sn_dir n)) ?segs"
    using assms(3) by (simp_all add: log_ok_def files_ok_def)
  then have kv: "kv_ok (sn_dir n)" by (simp add: names_ok_def)
  note upd = on_file_at [OF kv assms(4), of ?g]
  have nm': "names_ok ?segs ?seq ?dir" using nm by (simp add: names_ok_def upd)
  have "fst q \<noteq> s" if "q \<in> set before" for q using names_distinct [OF nm] that by force
  then have before: "list_all (closed_ok c ?dir) before" using cl by (auto simp: list_all_iff closed_ok_def upd)
  have fit: "1 + length b \<le> max_frame_len" "list_all (fits c) good" and data: "sf_data f = recs_bytes c (good @ r # later)"
    using cl assms(4,5) by (auto simp: closed_ok_def fits_def)
  let ?bad = "(rec_bytes c r)[frame_header_len + i := x] @ recs_bytes c later"
  have rb: "rec_bytes c r = frame (rec_type r) b" using assms(5) by (simp add: rec_bytes_def)
  have "sf_data (?g f) = recs_bytes c good @ ?bad"
    using assms(6) by (simp add: data assms(8) list_update_append rb)
  moreover have "read_frame ?bad = None"
    unfolding rb by (rule read_frame_bad_byte [OF assms(6,7) fit(1)])
  moreover have "?bad \<noteq> []" by simp
  ultimately show ?thesis
    using damaged_refused [OF assms(1,2) nm' before _ _ fit(2), of "?g f" ?bad] upd(1) by simp
qed

text \<open>An unsynced tail may be cut at any byte and the log still opens, to the records before the
  cut: every record that was whole before the cut is replayed, a torn one is dropped.\<close>

theorem torn_tail_cut_to_records:
  assumes "codec_ok c" "log_ok c M segs rs n" "k \<le> length (recs_bytes c rs)"
  shows "\<exists>j hs ents lst. opens_to c M (on_file (seg_name (sl_seq (sn_log n))) (\<lambda>f. on_disk (take k (sf_data f))) (sn_dir n)) hs ents \<and>
    replay_recs c (all_recs segs (take j rs)) = (hs, ents, lst) \<and>
    (\<forall>i\<le>length rs. length (recs_bytes c (take i rs)) \<le> k \<longrightarrow> i \<le> j)"
proof -
  let ?seq = "sl_seq (sn_log n)"
  let ?dir = "on_file (seg_name ?seq) (\<lambda>f. on_disk (take k (sf_data f))) (sn_dir n)"
  obtain f z where f: "names_ok segs ?seq (sn_dir n)" "list_all (closed_ok c (sn_dir n)) segs" "file_at (sn_dir n) ?seq = Some f"
      "sf_data f = recs_bytes c rs @ zeros z" "list_all (fits c) rs"
    using assms(2) by (auto simp: log_ok_def files_ok_def)
  obtain j rest where j: "take k (recs_bytes c rs) = recs_bytes c (take j rs) @ rest" "read_frame rest = None"
      "\<forall>i. length (recs_bytes c (take i rs)) \<le> k \<longrightarrow> i \<le> length rs \<longrightarrow> i \<le> j"
    using cut_records [OF f(5) assms(3)] by blast
  have "list_all (fits c) (take j rs)" using f(5) by (metis append_take_drop_id list_all_append)
  then have "active_ok c M (take j rs) rest (on_disk (take k (sf_data f)))"
    using assms(3) j(1) by (simp add: active_ok_def on_disk_def f(4))
  then have "dir_ok c M segs ?seq (take j rs) ?dir"
    using on_active_dir [OF f(1-3)] j(2) unfolding dir_ok_def by blast
  moreover obtain hs ents lst where "replay_recs c (all_recs segs (take j rs)) = (hs, ents, lst)"
    by (cases "replay_recs c (all_recs segs (take j rs))") auto
  ultimately show ?thesis using dir_opens [OF assms(1)] j(3) by blast
qed

text \<open>What a frame holds is what was put in it.  The frame that the writer appends to its buffer
  for a message is read back as its type, its encoding and the bytes it took, whatever follows;
  and a frame cut anywhere short of its end is torn.\<close>

theorem frame_roundtrip:
  assumes "marshal msg = Some b" "1 + length b \<le> max_frame_len" "append_frame_marshal marshal buf ty msg = Some out"
  shows "read_frame (drop (length buf) out @ rest) = Some (ty, b, length out - length buf) \<and>
    (\<forall>k < length out - length buf. read_frame (take k (drop (length buf) out)) = None)"
proof -
  have "out = buf @ frame ty b" using assms(1,3) by (simp add: append_frame_marshal_eq append_frame_eq)
  then show ?thesis using read_frame_append [OF assms(2)] read_frame_prefix [OF _ assms(2)] by simp
qed


section \<open>An example\<close>

text \<open>Entries are an index and a byte, hard states are numbers.\<close>

definition demo :: "(u64 \<times> char, u64) raft_codec" where
  "demo = \<lparr>enc_entry = \<lambda>(i, x). Some (put_u64 i @ [x]),
           dec_entry = \<lambda>b. if length b = 9 then Some (be_u64 (take 8 b), last b) else None,
           ent_index = fst, enc_hs = \<lambda>h. Some (put_u64 h), dec_hs = get_u64\<rparr>"

lemma demo_simps [simp]: "enc_entry demo (i, x) = Some (put_u64 i @ [x])" "ent_index demo = fst" "enc_hs demo h = Some (put_u64 h)"
  by (simp_all add: demo_def)

lemma demo_fits: "fits demo r"
proof (cases r)
  case (Ent e)
  then show ?thesis by (cases e) (simp add: fits_def max_frame_len_def)
qed (simp add: fits_def max_frame_len_def)

lemma demo_ok: "codec_ok demo" "26 \<le> M \<Longrightarrow> hs_small demo M"
  by (auto simp: codec_ok_def hs_small_def demo_def frame_header_len_def)

lemma demo_all_fit: "list_all (fits demo) rs"
  by (simp add: list_all_iff demo_fits)

definition demo_segs :: "(u64 \<times> char, u64) seg_list" where
  "demo_segs = [(1, [Hs 7, Ent (1, CHR ''a''), Ent (2, CHR ''b''), Ent (3, CHR ''c'')])]"

definition demo_tail :: "(u64 \<times> char, u64) seg_rec list" where
  "demo_tail = [Hs 7, Ent (3, CHR ''d''), Ent (4, CHR ''e'')]"

definition demo_dir :: seg_dir where
  "demo_dir = [(seg_name 1, SegFile (on_disk (recs_bytes demo (snd (hd demo_segs))))),
               (seg_name 2, SegFile (on_disk (recs_bytes demo demo_tail)))]"

lemma demo_names: "seg_name 1 = ''00000001.seg''" "seg_name 2 = ''00000002.seg''"
  by code_simp+

lemma demo_replay: "replay_recs demo (all_recs demo_segs demo_tail) =
    (Some 7, [(1, CHR ''a''), (2, CHR ''b''), (3, CHR ''d''), (4, CHR ''e'')], 4)"
  by (simp add: replay_recs_def all_recs_def demo_segs_def demo_tail_def cut_tail_def) (simp add: word_le_nat_alt)

lemma demo_dir_ok: "dir_ok demo M demo_segs 2 demo_tail demo_dir"
proof -
  have "kv_ok demo_dir" unfolding demo_dir_def demo_names kv_ok_def by (simp add: less_char_def)
  moreover have "dir_seqs demo_dir = [1, 2]" by (simp add: demo_dir_def dir_seqs_def List.map_filter_simps)
  moreover have at: "file_at demo_dir 1 = Some (on_disk (recs_bytes demo (snd (hd demo_segs))))"
      "file_at demo_dir 2 = Some (on_disk (recs_bytes demo demo_tail))"
    by (simp_all add: demo_dir_def file_at_def kv_get_def)
  moreover have "\<exists>f rest. file_at demo_dir 2 = Some f \<and> read_frame rest = None \<and> active_ok demo M demo_tail rest f"
    by (intro exI [of _ "on_disk (recs_bytes demo demo_tail)"] exI [of _ "[]"])
      (simp add: at active_ok_def on_disk_def demo_all_fit)
  ultimately show ?thesis
    unfolding dir_ok_def names_ok_def by (auto simp: demo_segs_def closed_ok_def on_disk_def demo_fits)
qed

lemma demo_log:
  obtains n where "log_ok demo 128 demo_segs demo_tail n" "carried demo demo_segs demo_tail" "sl_seq (sn_log n) = 2"
    "kv_get (sn_dir n) (seg_name 3) = None" "opens_to demo 128 (sn_dir n) (Some 7) [(1, CHR ''a''), (2, CHR ''b''), (3, CHR ''d''), (4, CHR ''e'')]"
    "log_with demo 128 [(1, CHR ''a''), (2, CHR ''b''), (3, CHR ''c''), (3, CHR ''d''), (4, CHR ''e'')] n" "sl_last (sn_log n) = 4"
proof -
  have d: "dir_ok demo (sg_max_bytes (some_env 128 True)) demo_segs 2 demo_tail demo_dir" by (rule demo_dir_ok)
  obtain l dir' where l0: "log_ok demo (sg_max_bytes (some_env 128 True)) demo_segs demo_tail \<lparr>sn_dir = dir', sn_log = l\<rparr>" "sl_seq l = 2"
      "\<And>k. kv_get dir' k = None \<longleftrightarrow> kv_get demo_dir k = None"
    by (rule open_intact [OF some_env(1) demo_ok(1) d]) blast
  note l = l0 [unfolded some_env(2)]
  have "kv_get demo_dir (seg_name 3) = None" by (simp add: demo_dir_def kv_get_def)
  moreover have car: "carried demo demo_segs demo_tail"
    unfolding carried_def demo_replay by (simp add: replay_recs_def demo_tail_def)
  moreover have "ents_in (all_recs demo_segs demo_tail) = [(1, CHR ''a''), (2, CHR ''b''), (3, CHR ''c''), (3, CHR ''d''), (4, CHR ''e'')]"
    by (simp add: all_recs_def demo_segs_def demo_tail_def)
  moreover have "sl_last l = 4" using l(1) demo_replay by (auto simp: log_ok_def mem_ok_def)
  ultimately show thesis
    using that [of "\<lparr>sn_dir = dir', sn_log = l\<rparr>"] l log_opens [OF demo_ok(1) l(1) demo_replay] by (auto simp: log_with_def)
qed

text \<open>Two segments, an overwritten entry, and a write that overwrites another one.\<close>

lemma demo_append:
  obtains n n' where "log_with demo 128 [(1, CHR ''a''), (2, CHR ''b''), (3, CHR ''c''), (3, CHR ''d''), (4, CHR ''e'')] n"
    "opens_to demo 128 (sn_dir n) (Some 7) [(1, CHR ''a''), (2, CHR ''b''), (3, CHR ''d''), (4, CHR ''e'')]"
    "append_log (some_env 128 True) demo (Some 8) [(4, CHR ''f''), (5, CHR ''g'')] True n = (Inr (), n')"
    "sl_seq (sn_log n) < sl_seq (sn_log n) + 1"
proof (rule demo_log)
  fix n assume n: "log_ok demo 128 demo_segs demo_tail n" "sl_seq (sn_log n) = 2" "kv_get (sn_dir n) (seg_name 3) = None"
    "opens_to demo 128 (sn_dir n) (Some 7) [(1, CHR ''a''), (2, CHR ''b''), (3, CHR ''d''), (4, CHR ''e'')]"
    "log_with demo 128 [(1, CHR ''a''), (2, CHR ''b''), (3, CHR ''c''), (3, CHR ''d''), (4, CHR ''e'')] n"
  then obtain n' where "append_log (some_env 128 True) demo (Some 8) [(4, CHR ''f''), (5, CHR ''g'')] True n = (Inr (), n')"
    using append_succeeds [of "some_env 128 True" demo 128 demo_segs demo_tail n] demo_all_fit by fastforce
  then show thesis using that n by simp
qed

theorem append_then_open_witness:
  "\<exists>n n'. append_log (some_env 128 True) demo (Some 8) [(4, CHR ''f''), (5, CHR ''g'')] True n = (Inr (), n') \<and>
     opens_to demo 128 (sn_dir n) (Some 7) [(1, CHR ''a''), (2, CHR ''b''), (3, CHR ''d''), (4, CHR ''e'')] \<and>
     opens_to demo 128 (sn_dir n') (Some 8) [(1, CHR ''a''), (2, CHR ''b''), (3, CHR ''d''), (4, CHR ''f''), (5, CHR ''g'')]"
proof (rule demo_append)
  fix n n' assume n: "log_with demo 128 [(1, CHR ''a''), (2, CHR ''b''), (3, CHR ''c''), (3, CHR ''d''), (4, CHR ''e'')] n"
    "opens_to demo 128 (sn_dir n) (Some 7) [(1, CHR ''a''), (2, CHR ''b''), (3, CHR ''d''), (4, CHR ''e'')]"
    "append_log (some_env 128 True) demo (Some 8) [(4, CHR ''f''), (5, CHR ''g'')] True n = (Inr (), n')"
    "sl_seq (sn_log n) < sl_seq (sn_log n) + 1"
  have "opens_to demo 128 (sn_dir n') (Some 8) [(1, CHR ''a''), (2, CHR ''b''), (3, CHR ''d''), (4, CHR ''f''), (5, CHR ''g'')]"
    using append_then_open [OF demo_ok(1), of "some_env 128 True", simplified some_env, OF demo_ok(2) n(1,2,3) demo_all_fit _ n(4)]
    by (simp add: ascending_def splice_def)
  then show ?thesis using n by blast
qed

theorem synced_append_survives_witness:
  "\<exists>n n' d. append_log (some_env 128 True) demo (Some 8) [(4, CHR ''f''), (5, CHR ''g'')] True n = (Inr (), n') \<and> power_cut (sn_dir n') d \<and>
     opens_to demo 128 d (Some 8) [(1, CHR ''a''), (2, CHR ''b''), (3, CHR ''d''), (4, CHR ''f''), (5, CHR ''g'')]"
proof (rule demo_append)
  fix n n' assume n: "log_with demo 128 [(1, CHR ''a''), (2, CHR ''b''), (3, CHR ''c''), (3, CHR ''d''), (4, CHR ''e'')] n"
    "opens_to demo 128 (sn_dir n) (Some 7) [(1, CHR ''a''), (2, CHR ''b''), (3, CHR ''d''), (4, CHR ''e'')]"
    "append_log (some_env 128 True) demo (Some 8) [(4, CHR ''f''), (5, CHR ''g'')] True n = (Inr (), n')"
    "sl_seq (sn_log n) < sl_seq (sn_log n) + 1"
  obtain d where d: "power_cut (sn_dir n') d" using power_cut_exists by blast
  have "opens_to demo 128 d (Some 8) [(1, CHR ''a''), (2, CHR ''b''), (3, CHR ''d''), (4, CHR ''f''), (5, CHR ''g'')]"
    using synced_append_survives [OF demo_ok(1), of "some_env 128 True", simplified some_env, OF demo_ok(2) n(1,2,3) demo_all_fit _ n(4) d]
    by (simp add: ascending_def splice_def)
  then show ?thesis using n d by blast
qed

theorem truncation_keeps_live_witness:
  "\<exists>(n :: u64 seg_node) n' ents'. truncate_to (some_env 128 True) 3 n = (Inr (), n') \<and> opens_to demo 128 (sn_dir n') (Some 7) ents' \<and>
     high demo 3 ents' = [(4, CHR ''e'')]"
proof (rule demo_log)
  fix n assume n: "log_ok demo 128 demo_segs demo_tail n"
    "opens_to demo 128 (sn_dir n) (Some 7) [(1, CHR ''a''), (2, CHR ''b''), (3, CHR ''d''), (4, CHR ''e'')]"
    "log_with demo 128 [(1, CHR ''a''), (2, CHR ''b''), (3, CHR ''c''), (3, CHR ''d''), (4, CHR ''e'')] n" "sl_last (sn_log n) = 4"
  obtain n' where t: "truncate_to (some_env 128 True) 3 n = (Inr (), n')" using truncate_succeeds [OF some_env(1) n(1)] by blast
  have "gapless demo [(1, CHR ''a''), (2, CHR ''b''), (3, CHR ''c''), (3, CHR ''d''), (4, CHR ''e'')]" by (simp add: gapless_def)
  then obtain ents' where e: "opens_to demo 128 (sn_dir n') (Some 7) ents'"
      "high demo 3 ents' = high demo 3 [(1, CHR ''a''), (2, CHR ''b''), (3, CHR ''d''), (4, CHR ''e'')]"
    using truncation_keeps_live [OF demo_ok(1) n(3,2) t] n(4) by auto
  have "high demo 3 ents' = [(4, CHR ''e'')]" unfolding e(2) by (simp add: high_def)
  then show ?thesis using t e(1) by blast
qed

theorem rotten_byte_refused_witness:
  "\<exists>n :: u64 seg_node. file_at (sn_dir n) 1 \<noteq> None \<and>
     fst (open_log (some_env 128 True) demo (on_file (seg_name 1) (\<lambda>f. f\<lparr>sf_data := (sf_data f)[25 := CHR 0xFF]\<rparr>) (sn_dir n))) = Inl (BadFrame 1 17)"
proof (rule demo_log)
  fix n assume n: "log_ok demo 128 demo_segs demo_tail n"
  have "list_all (closed_ok demo (sn_dir n)) demo_segs" using n by (simp add: log_ok_def files_ok_def)
  then obtain f where f: "file_at (sn_dir n) 1 = Some f" by (auto simp: demo_segs_def closed_ok_def)
  have seg: "demo_segs = [] @ (1, [Hs 7] @ Ent (1, CHR ''a'') # [Ent (2, CHR ''b''), Ent (3, CHR ''c'')]) # []" by (simp add: demo_segs_def)
  have "length (recs_bytes demo [Hs 7]) = 17" by (simp add: rec_bytes_def frame_header_len_def)
  then have "fst (open_log (some_env 128 True) demo (on_file (seg_name 1) (\<lambda>f. f\<lparr>sf_data := (sf_data f)[25 := CHR 0xFF]\<rparr>) (sn_dir n))) =
      Inl (BadFrame 1 17)"
    using rotten_byte_refused [OF some_env(1) demo_ok(1) n [unfolded seg] f, of "put_u64 1 @ [CHR ''a'']" 0 "CHR 0xFF" 25]
    by (simp add: frame_header_len_def rec_entry_def)
  then show ?thesis using f by (intro exI [of _ n]) simp
qed

theorem torn_tail_cut_to_records_witness:
  "\<exists>(n :: u64 seg_node) ents. opens_to demo 128 (on_file (seg_name 2) (\<lambda>f. on_disk (take 40 (sf_data f))) (sn_dir n)) (Some 7) ents"
proof (rule demo_log)
  fix n assume n: "log_ok demo 128 demo_segs demo_tail n" "sl_seq (sn_log n) = 2"
  have len: "length (recs_bytes demo demo_tail) = 53" by (simp add: rec_bytes_def frame_header_len_def demo_tail_def)
  obtain j hs ents lst where o1: "opens_to demo 128 (on_file (seg_name 2) (\<lambda>f. on_disk (take 40 (sf_data f))) (sn_dir n)) hs ents"
      "replay_recs demo (all_recs demo_segs (take j demo_tail)) = (hs, ents, lst)"
    using torn_tail_cut_to_records [OF demo_ok(1) n(1), of 40] n(2) len by auto
  have seven: "h = 7" if "Hs h \<in> set (all_recs demo_segs (take j demo_tail))" for h
    using that set_take_subset [of j demo_tail] by (auto simp: all_recs_def demo_segs_def demo_tail_def)
  have "Hs 7 \<in> set (all_recs demo_segs (take j demo_tail))" by (simp add: all_recs_def demo_segs_def)
  then have "hs \<noteq> None" using replay_no_hs [of demo "all_recs demo_segs (take j demo_tail)"] o1(2) by auto
  then obtain h where h: "hs = Some h" by blast
  then have "hs = Some 7" using seven [OF replay_hs_in] o1(2) by blast
  then show ?thesis using o1(1) by blast
qed

theorem frame_roundtrip_witness:
  "read_frame (drop 0 (the (append_frame_marshal (enc_hs demo) [] rec_hard_state 7)) @ ''xyz'') = Some (rec_hard_state, put_u64 7, 17)"
  using frame_roundtrip [of "enc_hs demo" 7 "put_u64 7" "[]" rec_hard_state "frame rec_hard_state (put_u64 7)" "''xyz''"]
  by (simp add: max_frame_len_def append_frame_marshal_eq append_frame_eq frame_header_len_def)


end
