(* ===== verification/Snap_Stream.thy ===== *)
theory Snap_Stream
  imports Produce
begin

text \<open>
  \<^verbatim>\<open>internal/cluster/snapstream.go\<close>, the wire formats of \<^verbatim>\<open>snapinstall.go\<close> and the
  chunk builder of \<open>handleFetchSnapshot\<close> in \<^verbatim>\<open>manager.go\<close>: which keys of the shared store
  belong to a raft group, the enumeration of a group in chunks with a cursor, and the encodings
  a chunk travels in.  The closures of the source get the record \<open>scan_pos\<close> of what they
  capture.
\<close>

section \<open>The keys of a group\<close>

record key_range =
  kr_lower :: bytes
  kr_upper :: "bytes option"

definition range_of :: "bytes \<Rightarrow> key_range" where
  "range_of p = \<lparr>kr_lower = p, kr_upper = prefix_upper_bound p\<rparr>"

text \<open>A nil upper end compares as the empty key.\<close>

definition upper_bytes :: "key_range \<Rightarrow> bytes" where
  "upper_bytes r = (case kr_upper r of None \<Rightarrow> [] | Some u \<Rightarrow> u)"

fun ranges_disjoint :: "bytes option \<Rightarrow> key_range list \<Rightarrow> bool" where
  "ranges_disjoint before [] = True"
| "ranges_disjoint before (r # rs) =
     (if upper_bytes r \<le> kr_lower r then False
      else if (case before of None \<Rightarrow> False | Some u \<Rightarrow> kr_lower r < u) then False
      else ranges_disjoint (Some (upper_bytes r)) rs)"

definition meta_families :: "bytes list" where
  "meta_families = [delay_prefix, delay_alloc_key, half_prefix, half_idx_prefix, ''meta/'']"

definition data_families :: "bytes list" where
  "data_families = [msg_prefix, alloc_prefix, key_idx_prefix_c, cursor_prefix_c, inflight_prefix_c]"

definition group_families :: "u32 \<Rightarrow> bytes list" where
  "group_families g = (if g = meta_group then meta_families else data_families)"

definition group_key_ranges :: "u32 \<Rightarrow> err + key_range list" where
  "group_key_ranges g =
     (let rs = sort_key kr_lower (List.map range_of (group_families g))
      in if ranges_disjoint None rs then Inr rs else Inl ErrPanic)"

text \<open>\<open>1 + h.Sum32() % ng\<close>: no group to divide by is a run time panic.\<close>

definition queue_group :: "bytes \<Rightarrow> u32 \<Rightarrow> u32 \<Rightarrow> err + u32" where
  "queue_group topic q ng =
     (if ng = 0 then Inl ErrPanic else Inr (1 + fnv32a (topic @ put_u32 q) mod ng))"

definition parse_alloc_key :: "bytes \<Rightarrow> key_error + bytes \<times> u32" where
  "parse_alloc_key k =
     (case cut_prefix alloc_prefix k of
        None \<Rightarrow> Inl (BadPrefix k)
      | Some rest \<Rightarrow>
          (case cut_byte CHR ''/'' rest of
             None \<Rightarrow> Inl (BadShape k)
           | Some (topic, bin) \<Rightarrow> if length bin \<noteq> 4 then Inl (BadShape k) else Inr (topic, be_u32 bin)))"

definition lift_key :: "key_error + 'a \<Rightarrow> err + 'a" where
  "lift_key r = (case r of Inl e \<Rightarrow> Inl (ErrKey e) | Inr x \<Rightarrow> Inr x)"

definition key_queue :: "bytes \<Rightarrow> err + bytes \<times> u32" where
  "key_queue k =
     (if prefix msg_prefix k then ebind (lift_key (parse_msg_key k)) (\<lambda>(t, q, _). Inr (t, q))
      else if prefix alloc_prefix k then lift_key (parse_alloc_key k)
      else if prefix key_idx_prefix_c k then ebind (lift_key (parse_key_idx_key k)) (\<lambda>(t, _, _, q, _). Inr (t, q))
      else if prefix cursor_prefix_c k then lift_key (parse_cursor_topic_queue k)
      else if prefix inflight_prefix_c k then ebind (lift_key (parse_inflight_key k)) (\<lambda>(_, t, q, _). Inr (t, q))
      else Inl (ErrNoFamily k))"

definition key_group_of :: "bytes \<Rightarrow> u32 \<Rightarrow> err + u32" where
  "key_group_of k ng = ebind (key_queue k) (\<lambda>(t, q). queue_group t q ng)"

section \<open>One chunk of the enumeration\<close>

record 'e scan_pos =
  sp_last :: bytes
  sp_n :: int
  sp_skipped :: bool
  sp_emit :: 'e

definition scan_stop ::
    "u32 \<Rightarrow> u32 \<Rightarrow> bytes option \<Rightarrow> int \<Rightarrow> ('e \<Rightarrow> bytes \<Rightarrow> bytes \<Rightarrow> err option \<times> 'e) \<Rightarrow> 'e scan_pos callback" where
  "scan_stop g ng cur budget emit s k v =
     (if cur = Some k \<and> \<not> sp_skipped s then (Inr True, s\<lparr>sp_skipped := True\<rparr>)
      else
        (let s = s\<lparr>sp_skipped := True\<rparr>;
             deliver = (let s = s\<lparr>sp_last := k\<rparr>
               in case emit (sp_emit s) k v of
                    (Some e, es) \<Rightarrow> (Inl e, s\<lparr>sp_emit := es\<rparr>)
                  | (None, es) \<Rightarrow> (Inr (sp_n s + 1 < budget), s\<lparr>sp_emit := es, sp_n := sp_n s + 1\<rparr>))
         in if g = meta_group then deliver
            else case key_group_of k ng of
                   Inl e \<Rightarrow> (Inl e, s)
                 | Inr kg \<Rightarrow> if kg \<noteq> g then (Inr True, s) else deliver))"

text \<open>The cursor the next chunk starts from, whether the group is exhausted, and the error.\<close>

type_synonym scan_result = "bytes \<times> bool \<times> err option"

fun scan_ranges ::
    "env \<Rightarrow> read_view \<Rightarrow> u32 \<Rightarrow> u32 \<Rightarrow> bytes option \<Rightarrow> int \<Rightarrow> ('e \<Rightarrow> bytes \<Rightarrow> bytes \<Rightarrow> err option \<times> 'e)
      \<Rightarrow> key_range list \<Rightarrow> 'e scan_pos \<Rightarrow> scan_result \<times> 'e" where
  "scan_ranges E view g ng cur budget emit [] s = ((sp_last s, True, None), sp_emit s)"
| "scan_ranges E view g ng cur budget emit (r # rs) s =
     (let resume = (case cur of Some c \<Rightarrow> if sp_skipped s then None else Some c | None \<Rightarrow> None)
      in if (case resume of Some c \<Rightarrow> upper_bytes r \<le> c | None \<Rightarrow> False)
         then scan_ranges E view g ng cur budget emit rs s
         else
           (let lower = (case resume of Some c \<Rightarrow> if kr_lower r \<le> c then c else kr_lower r | None \<Rightarrow> kr_lower r)
            in case view_scan E view lower (kr_upper r) 0 (scan_stop g ng cur budget emit) s of
                 (Inl e, s') \<Rightarrow> ((sp_last s', False, Some e), sp_emit s')
               | (Inr u, s') \<Rightarrow>
                   if budget \<le> sp_n s' then ((sp_last s', False, None), sp_emit s')
                   else scan_ranges E view g ng cur budget emit rs s'))"

definition scan_group_keys ::
    "env \<Rightarrow> read_view \<Rightarrow> u32 \<Rightarrow> u32 \<Rightarrow> bytes option \<Rightarrow> int \<Rightarrow> ('e \<Rightarrow> bytes \<Rightarrow> bytes \<Rightarrow> err option \<times> 'e)
      \<Rightarrow> 'e \<Rightarrow> scan_result \<times> 'e" where
  "scan_group_keys E view g ng cur budget emit es =
     (if budget \<le> 0 then (([], False, Some (ErrScanBudget budget)), es)
      else case group_key_ranges g of
             Inl e \<Rightarrow> (([], False, Some e), es)
           | Inr rs \<Rightarrow> scan_ranges E view g ng cur budget emit rs
               \<lparr>sp_last = [], sp_n = 0, sp_skipped = False, sp_emit = es\<rparr>)"

section \<open>Encodings\<close>

definition encode_chunk :: "(bytes \<times> bytes) list \<Rightarrow> bytes" where
  "encode_chunk pairs =
     concat (List.map (\<lambda>(k, v). put_u32 (of_nat (length k)) @ k @ put_u32 (of_nat (length v)) @ v) pairs)"

text \<open>A field with its length in front; the error says which of the two is short.\<close>

definition take_field :: "bytes \<Rightarrow> err + bytes \<times> bytes" where
  "take_field b =
     (if length b < 4 then Inl (ErrChunkHead (length b))
      else (let n = be_u32 (take 4 b); rest = drop 4 b
            in if (of_nat (length rest) :: u32) < n then Inl (ErrChunkLen (unat n) (length rest))
               else Inr (take (unat n) rest, drop (unat n) rest)))"

lemma take_field_shorter: "take_field b = Inr (x, rest) \<Longrightarrow> length rest < length b"
  by (auto simp: take_field_def Let_def split: if_splits)

function decode_chunk :: "bytes \<Rightarrow> err + (bytes \<times> bytes) list" where
  "decode_chunk b =
     (if b = [] then Inr []
      else case take_field b of
             Inl e \<Rightarrow> Inl e
           | Inr (k, b1) \<Rightarrow>
               (case take_field b1 of
                  Inl e \<Rightarrow> Inl e
                | Inr (v, b2) \<Rightarrow> ebind (decode_chunk b2) (\<lambda>out. Inr ((k, v) # out))))"
  by pat_completeness auto
termination
  by (relation "measure length") (auto dest!: take_field_shorter)

declare decode_chunk.simps [simp del]

definition encode_snap_fetch_req :: "u32 \<Rightarrow> u64 \<Rightarrow> bytes \<Rightarrow> bytes" where
  "encode_snap_fetch_req g snap_id cursor =
     put_u32 g @ put_u64 snap_id @ put_u32 (of_nat (length cursor)) @ cursor"

definition decode_snap_fetch_resp :: "bytes \<Rightarrow> err + bool \<times> bytes \<times> bytes" where
  "decode_snap_fetch_resp resp =
     (if length resp < 5 then Inl (ErrFetchResponse (length resp))
      else (let fin = hd resp = CHR 0x01; nl = be_u32 (take 4 (drop 1 resp))
            in if (of_nat (length resp - 5) :: u32) < nl then Inl (ErrFetchCursor (unat nl) (length resp - 5))
               else Inr (fin, take (unat nl) (drop 5 resp), drop (5 + unat nl) resp)))"

text \<open>The size of a pair in a chunk, and the caller's \<open>emit\<close>, which ends a chunk at its budget.\<close>

definition pair_bytes :: "bytes \<times> bytes \<Rightarrow> int" where
  "pair_bytes p = 8 + int (length (fst p)) + int (length (snd p))"

definition chunk_emit ::
    "int \<Rightarrow> (bytes \<times> bytes) list \<times> int \<Rightarrow> bytes \<Rightarrow> bytes \<Rightarrow> err option \<times> (bytes \<times> bytes) list \<times> int" where
  "chunk_emit chunk_bytes es k v =
     (let pairs = fst es @ [(k, v)]; n = snd es + pair_bytes (k, v)
      in (if chunk_bytes \<le> n then Some ErrChunkFull else None, pairs, n))"

definition snapshot_chunk_keys :: int where
  "snapshot_chunk_keys = 2 ^ 20"

definition fetch_chunk :: "env \<Rightarrow> read_view \<Rightarrow> u32 \<Rightarrow> u32 \<Rightarrow> int \<Rightarrow> bytes \<Rightarrow> err + bytes" where
  "fetch_chunk E view g ng chunk_bytes cursor =
     (case scan_group_keys E view g ng (Some cursor) snapshot_chunk_keys (chunk_emit chunk_bytes) ([], 0) of
        ((nxt, fin, e), pairs, _) \<Rightarrow>
          (let fin = (if e = Some ErrChunkFull then False else fin);
               e = (if e = Some ErrChunkFull then None else e)
           in case e of
                Some x \<Rightarrow> Inl x
              | None \<Rightarrow> Inr ((if fin then [CHR 0x01] else [CHR 0x00]) @ put_u32 (of_nat (length nxt)) @ nxt
                            @ encode_chunk pairs)))"

section \<open>The ranges of a group\<close>

lemma group_ranges_all:
  "group_key_ranges meta_group = Inr (List.map range_of [delay_prefix, delay_alloc_key, half_prefix, half_idx_prefix, ''meta/''])"
  "g \<noteq> meta_group \<Longrightarrow> group_key_ranges g =
    Inr (List.map range_of [alloc_prefix, cursor_prefix_c, inflight_prefix_c, key_idx_prefix_c, msg_prefix])"
proof -
  have "group_key_ranges meta_group = Inr (List.map range_of [delay_prefix, delay_alloc_key, half_prefix, half_idx_prefix, ''meta/''])"
    by code_simp
  moreover have "(let rs = sort_key kr_lower (List.map range_of data_families) in if ranges_disjoint None rs then Inr rs else Inl ErrPanic) =
      (Inr (List.map range_of [alloc_prefix, cursor_prefix_c, inflight_prefix_c, key_idx_prefix_c, msg_prefix]) :: err + key_range list)"
    by code_simp
  ultimately show "group_key_ranges meta_group = Inr (List.map range_of [delay_prefix, delay_alloc_key, half_prefix, half_idx_prefix, ''meta/''])"
    "g \<noteq> meta_group \<Longrightarrow> group_key_ranges g =
      Inr (List.map range_of [alloc_prefix, cursor_prefix_c, inflight_prefix_c, key_idx_prefix_c, msg_prefix])"
    by (simp_all add: group_key_ranges_def group_families_def)
qed

text \<open>What the enumeration needs of its ranges: each ends, and they follow one another.\<close>

fun ordered_ranges :: "key_range list \<Rightarrow> bool" where
  "ordered_ranges [] = True"
| "ordered_ranges (r # rs) =
     (kr_upper r = Some (upper_bytes r) \<and> (\<forall>r'\<in>set rs. upper_bytes r \<le> kr_lower r') \<and> ordered_ranges rs)"

lemma group_ranges:
  obtains rs where "group_key_ranges g = Inr rs" "ordered_ranges rs" "rs \<noteq> []"
    "\<And>k. (\<exists>r\<in>set rs. in_range (kr_lower r) (kr_upper r) k) \<longleftrightarrow> (\<exists>p\<in>set (group_families g). prefix p k)"
proof -
  have o1: "ordered_ranges (List.map range_of [delay_prefix, delay_alloc_key, half_prefix, half_idx_prefix, ''meta/''])"
    by code_simp
  have o2: "ordered_ranges (List.map range_of [alloc_prefix, cursor_prefix_c, inflight_prefix_c, key_idx_prefix_c, msg_prefix])"
    by code_simp
  have r: "(\<exists>r\<in>set (List.map range_of ps). in_range (kr_lower r) (kr_upper r) k) \<longleftrightarrow> (\<exists>p\<in>set ps. prefix p k)" for ps k
    by (simp add: range_of_def in_range_prefix)
  show thesis
  proof (cases "g = meta_group")
    case True
    then show thesis
      by (intro that [OF _ o1]) (simp_all only: r, simp_all add: group_ranges_all group_families_def meta_families_def)
  next
    case False
    then show thesis
      by (intro that [OF _ o2]) (simp_all only: r, simp_all add: group_ranges_all group_families_def data_families_def, blast)
  qed
qed

definition in_group :: "u32 \<Rightarrow> u32 \<Rightarrow> bytes \<Rightarrow> bool" where
  "in_group g ng k \<longleftrightarrow>
     (\<exists>p\<in>set (group_families g). prefix p k) \<and> (g = meta_group \<or> key_group_of k ng = Inr g)"

definition group_pairs :: "u32 \<Rightarrow> u32 \<Rightarrow> kv \<Rightarrow> (bytes \<times> bytes) list" where
  "group_pairs g ng m = filter (\<lambda>(k, _). in_group g ng k) m"

text \<open>Every key of the group's families can be attributed to a group.\<close>

definition parsable :: "u32 \<Rightarrow> u32 \<Rightarrow> kv \<Rightarrow> bool" where
  "parsable g ng m \<longleftrightarrow> g = meta_group \<or>
     (\<forall>(k, _)\<in>set m. (\<exists>p\<in>set (group_families g). prefix p k) \<longrightarrow> is_ok (key_group_of k ng))"

definition after :: "bytes option \<Rightarrow> bytes \<Rightarrow> bool" where
  "after c k \<longleftrightarrow> (case c of None \<Rightarrow> True | Some x \<Rightarrow> x < k)"

lemma kv_set_eq: "kv_ok a \<Longrightarrow> kv_ok b \<Longrightarrow> set a = set b \<Longrightarrow> a = b"
  using map_of_inject_set [of a b] kv_ok_distinct [of a] kv_ok_distinct [of b] by (intro kv_ext) (auto simp: kv_get_def)

lemma concat_ranges:
  assumes "kv_ok m" "ordered_ranges rs"
  shows "concat (List.map (\<lambda>r. kv_range (kr_lower r) (kr_upper r) m) rs) =
    filter (\<lambda>(k, _). \<exists>r\<in>set rs. in_range (kr_lower r) (kr_upper r) k) m"
proof (rule kv_set_eq)
  show "kv_ok (concat (List.map (\<lambda>r. kv_range (kr_lower r) (kr_upper r) m) rs))"
    using assms(2)
  proof (induction rs)
    case (Cons r rs)
    have ab: "a < b" if "a \<in> fst ` set (kv_range (kr_lower r) (kr_upper r) m)" "r' \<in> set rs"
        "b \<in> fst ` set (kv_range (kr_lower r') (kr_upper r') m)" for a b r'
    proof -
      have "a < upper_bytes r" using that(1) Cons.prems by (auto simp: kv_range_def in_range_def)
      also have "upper_bytes r \<le> kr_lower r'" using Cons.prems that(2) by simp
      also have "kr_lower r' \<le> b" using that(3) by (auto simp: kv_range_def in_range_def)
      finally show ?thesis .
    qed
    then have "\<forall>a\<in>set (List.map fst (kv_range (kr_lower r) (kr_upper r) m)).
        \<forall>b\<in>set (List.map fst (concat (List.map (\<lambda>r. kv_range (kr_lower r) (kr_upper r) m) rs))). a < b"
      using ab by fastforce
    then show ?case
      using Cons kv_ok_range [OF assms(1), of "kr_lower r" "kr_upper r"] by (simp add: kv_ok_def sorted_wrt_append)
  qed simp
  show "kv_ok (filter (\<lambda>(k, _). \<exists>r\<in>set rs. in_range (kr_lower r) (kr_upper r) k) m)"
    by (rule kv_ok_filter [OF assms(1)])
  show "set (concat (List.map (\<lambda>r. kv_range (kr_lower r) (kr_upper r) m) rs)) =
      set (filter (\<lambda>(k, _). \<exists>r\<in>set rs. in_range (kr_lower r) (kr_upper r) k) m)"
    by (auto simp: kv_range_def)
qed

section \<open>The enumeration as a run over the group's pairs\<close>

text \<open>
  What the ranges, the cursor and the foreign keys come to: the pairs to send, one after the
  other, until the caller's \<open>emit\<close> or the budget ends the chunk.
\<close>

fun chunk_run ::
    "int \<Rightarrow> ('e \<Rightarrow> bytes \<Rightarrow> bytes \<Rightarrow> err option \<times> 'e) \<Rightarrow> (bytes \<times> bytes) list \<Rightarrow> bytes \<Rightarrow> int \<Rightarrow> 'e \<Rightarrow> scan_result \<times> 'e" where
  "chunk_run budget emit [] lst n es = ((lst, True, None), es)"
| "chunk_run budget emit ((k, v) # ps) lst n es =
     (case emit es k v of
        (Some e, es') \<Rightarrow> ((k, False, Some e), es')
      | (None, es') \<Rightarrow> if n + 1 < budget then chunk_run budget emit ps k (n + 1) es' else ((k, False, None), es'))"

lemma scan_loop_run:
  assumes "sp_n s < budget" "sorted_wrt (<) (List.map fst xs)" "\<And>c. cur = Some c \<Longrightarrow> \<forall>(k, v)\<in>set xs. c \<le> k"
    "\<And>c. cur = Some c \<Longrightarrow> sp_skipped s \<Longrightarrow> \<forall>(k, v)\<in>set xs. c < k"
    "g \<noteq> meta_group \<Longrightarrow> \<forall>(k, v)\<in>set xs. is_ok (key_group_of k ng)"
    "mine = (\<lambda>(k, v). after cur k \<and> (g = meta_group \<or> key_group_of k ng = Inr g))"
    "Store.scan_loop (Inr ()) 0 j (scan_stop g ng cur budget emit) xs s = (r, s')"
  shows "chunk_run budget emit (filter mine xs @ rest) (sp_last s) (sp_n s) (sp_emit s) =
     (case r of Inl e \<Rightarrow> ((sp_last s', False, Some e), sp_emit s')
      | Inr u \<Rightarrow> if budget \<le> sp_n s' then ((sp_last s', False, None), sp_emit s')
                 else chunk_run budget emit rest (sp_last s') (sp_n s') (sp_emit s')) \<and>
     (sp_n s' < budget \<longrightarrow> r = Inr () \<longrightarrow> (if xs = [] then s' = s else sp_skipped s'))"
  using assms(1-4,7) assms(5)
proof (induction xs arbitrary: s j)
  case Nil
  then show ?case by auto
next
  case (Cons p xs)
  obtain k v where p: "p = (k, v)" by (cases p)
  note sorted = Cons.prems(2)
  have gt: "\<forall>(k', v)\<in>set xs. k < k'" using sorted by (auto simp: p)
  show ?case
  proof (cases "cur = Some k \<and> \<not> sp_skipped s")
    case True
    have IH: "chunk_run budget emit (filter mine xs @ rest) (sp_last s) (sp_n s) (sp_emit s) =
        (case r of Inl e \<Rightarrow> ((sp_last s', False, Some e), sp_emit s')
          | Inr u \<Rightarrow> if budget \<le> sp_n s' then ((sp_last s', False, None), sp_emit s')
                     else chunk_run budget emit rest (sp_last s') (sp_n s') (sp_emit s')) \<and>
        (sp_n s' < budget \<longrightarrow> r = Inr () \<longrightarrow> (if xs = [] then s' = s\<lparr>sp_skipped := True\<rparr> else sp_skipped s'))"
      using Cons.IH [of "s\<lparr>sp_skipped := True\<rparr>" "j + 1"] Cons.prems True gt by (auto simp: p scan_stop_def)
    moreover have "\<not> mine p" using True by (simp add: assms(6) p after_def)
    ultimately show ?thesis by (auto split: if_splits)
  next
    case False
    let ?s = "s\<lparr>sp_skipped := True\<rparr>"
    have aft: "after cur k"
      using Cons.prems(3,4) False by (cases "cur") (fastforce simp: after_def p order_le_less)+
    show ?thesis
    proof (cases "g = meta_group \<or> key_group_of k ng = Inr g")
      case foreign: False
      then obtain kg where kg: "key_group_of k ng = Inr kg" "kg \<noteq> g"
        using Cons.prems(6) by (auto simp: p elim: is_okE)
      have "cur = Some c \<Longrightarrow> \<forall>(k, v)\<in>set xs. c < k" for c
        using aft gt by (fastforce simp: after_def)
      then have IH: "chunk_run budget emit (filter mine xs @ rest) (sp_last s) (sp_n s) (sp_emit s) =
          (case r of Inl e \<Rightarrow> ((sp_last s', False, Some e), sp_emit s')
            | Inr u \<Rightarrow> if budget \<le> sp_n s' then ((sp_last s', False, None), sp_emit s')
                       else chunk_run budget emit rest (sp_last s') (sp_n s') (sp_emit s')) \<and>
          (sp_n s' < budget \<longrightarrow> r = Inr () \<longrightarrow> (if xs = [] then s' = ?s else sp_skipped s'))"
        using Cons.IH [of ?s "j + 1"] Cons.prems False foreign kg by (auto simp: p scan_stop_def Let_def)
      moreover have "\<not> mine p" using foreign by (simp add: assms(6) p)
      ultimately show ?thesis by (auto split: if_splits)
    next
      case True
      have m: "mine p" using True aft by (simp add: assms(6) p)
      obtain e es where em: "emit (sp_emit s) k v = (e, es)" by (cases "emit (sp_emit s) k v")
      have st: "scan_stop g ng cur budget emit s k v =
          (case e of Some x \<Rightarrow> (Inl x, ?s\<lparr>sp_last := k, sp_emit := es\<rparr>)
           | None \<Rightarrow> (Inr (sp_n s + 1 < budget), ?s\<lparr>sp_last := k, sp_emit := es, sp_n := sp_n s + 1\<rparr>))"
        using False True em by (auto simp: scan_stop_def Let_def split: option.split)
      show ?thesis
      proof (cases "e = None \<and> sp_n s + 1 < budget")
        case go: True
        have "cur = Some c \<Longrightarrow> \<forall>(k, v)\<in>set xs. c < k" for c
          using aft gt by (fastforce simp: after_def)
        then have "chunk_run budget emit (filter mine xs @ rest) k (sp_n s + 1) es =
            (case r of Inl e \<Rightarrow> ((sp_last s', False, Some e), sp_emit s')
              | Inr u \<Rightarrow> if budget \<le> sp_n s' then ((sp_last s', False, None), sp_emit s')
                         else chunk_run budget emit rest (sp_last s') (sp_n s') (sp_emit s')) \<and>
            (sp_n s' < budget \<longrightarrow> r = Inr () \<longrightarrow>
              (if xs = [] then s' = ?s\<lparr>sp_last := k, sp_emit := es, sp_n := sp_n s + 1\<rparr> else sp_skipped s'))"
          using Cons.IH [of "?s\<lparr>sp_last := k, sp_emit := es, sp_n := sp_n s + 1\<rparr>" "j + 1"] Cons.prems go st
          by (auto simp: p)
        then show ?thesis using m go em by (auto simp: p split: if_splits)
      next
        case stop: False
        then show ?thesis
          using m em st Cons.prems(5) by (cases e) (auto simp: p)
      qed
    qed
  qed
qed

definition reads_ok :: "env \<Rightarrow> bool" where
  "reads_ok E \<longleftrightarrow> (\<forall>k. \<not> it_open_fail E k \<and> \<not> it_end_fail E k)"

lemma range_from:
  assumes "c = kr_lower r \<or> kr_lower r \<le> c \<and> (\<forall>k. P k \<longrightarrow> c \<le> k)"
  shows "filter (\<lambda>(k, v). P k \<and> Q k) (kv_range c u m) = filter (\<lambda>(k, v). P k \<and> Q k) (kv_range (kr_lower r) u m)"
  unfolding kv_range_def filter_filter using assms by (intro filter_cong) (auto simp: in_range_def dest: order_trans)

lemma range_past: "u \<le> c \<Longrightarrow> filter (\<lambda>(k, v). after (Some c) k \<and> Q k) (kv_range lo (Some u) m) = []"
  by (auto simp: filter_empty_conv kv_range_def in_range_def after_def)

lemma scan_ranges_run:
  assumes io: "reads_ok E" "\<not> closed view" "kv_ok (snap view)"
    and "sp_n s < budget" "ordered_ranges rs"
    "\<And>c r. cur = Some c \<Longrightarrow> sp_skipped s \<Longrightarrow> r \<in> set rs \<Longrightarrow> c < kr_lower r"
    "g \<noteq> meta_group \<Longrightarrow> \<forall>r\<in>set rs. \<forall>(k, v)\<in>set (kv_range (kr_lower r) (kr_upper r) (snap view)). is_ok (key_group_of k ng)"
    and mine: "mine = (\<lambda>(k, v). after cur k \<and> (g = meta_group \<or> key_group_of k ng = Inr g))"
  shows "scan_ranges E view g ng cur budget emit rs s =
    chunk_run budget emit (filter mine (concat (List.map (\<lambda>r. kv_range (kr_lower r) (kr_upper r) (snap view)) rs)))
      (sp_last s) (sp_n s) (sp_emit s)"
  using assms(4-7)
proof (induction rs arbitrary: s)
  case (Cons r rs)
  let ?m = "snap view"
  let ?ps = "filter mine (concat (List.map (\<lambda>r. kv_range (kr_lower r) (kr_upper r) ?m) rs))"
  have up: "kr_upper r = Some (upper_bytes r)" "ordered_ranges rs" "\<forall>r'\<in>set rs. upper_bytes r \<le> kr_lower r'"
    using Cons.prems(2) by simp_all
  define resume where "resume = (case cur of Some c \<Rightarrow> if sp_skipped s then None else Some c | None \<Rightarrow> None)"
  show ?case
  proof (cases "\<exists>c. resume = Some c \<and> upper_bytes r \<le> c")
    case True
    then obtain c where c: "cur = Some c" "\<not> sp_skipped s" "upper_bytes r \<le> c"
      by (auto simp: resume_def split: option.splits if_splits)
    then have "filter mine (kv_range (kr_lower r) (kr_upper r) ?m) = []"
      unfolding mine up(1) c(1) by (intro range_past) simp
    then show ?thesis using Cons.IH [OF Cons.prems(1) up(2)] Cons.prems c by simp
  next
    case False
    define lower where "lower = (case resume of Some c \<Rightarrow> if kr_lower r \<le> c then c else kr_lower r | None \<Rightarrow> kr_lower r)"
    define xs where "xs = kv_range lower (kr_upper r) ?m"
    have low: "kr_lower r \<le> lower" by (simp add: lower_def split: option.split)
    have inr: "\<forall>(k, v)\<in>set xs. lower \<le> k \<and> k < upper_bytes r \<and> (k, v) \<in> set (kv_range (kr_lower r) (kr_upper r) ?m)"
      using low up(1) by (auto simp: xs_def kv_range_def in_range_def)
    have sorted: "sorted_wrt (<) (List.map fst xs)"
      using kv_ok_range [OF io(3), of lower "kr_upper r"] by (simp add: xs_def kv_ok_def)
    have ge: "cur = Some c \<Longrightarrow> \<forall>(k, v)\<in>set xs. c \<le> k" for c
      using inr Cons.prems(3) [of c r] low
      by (cases "sp_skipped s") (auto simp: lower_def resume_def split: if_splits)
    have gt: "cur = Some c \<Longrightarrow> sp_skipped s \<Longrightarrow> \<forall>(k, v)\<in>set xs. c < k" for c
      using inr Cons.prems(3) [of c r] low by fastforce
    have parse: "g \<noteq> meta_group \<Longrightarrow> \<forall>(k, v)\<in>set xs. is_ok (key_group_of k ng)"
      using Cons.prems(4) inr by fastforce
    have same: "filter mine xs = filter mine (kv_range (kr_lower r) (kr_upper r) ?m)"
      unfolding mine xs_def using Cons.prems(3)
      by (intro range_from) (auto simp: lower_def resume_def after_def split: option.splits if_splits)
    obtain res s' where sl: "Store.scan_loop (Inr ()) 0 0 (scan_stop g ng cur budget emit) xs s = (res, s')"
      by (cases "Store.scan_loop (Inr ()) 0 0 (scan_stop g ng cur budget emit) xs s")
    note run = scan_loop_run [OF Cons.prems(1) sorted ge gt parse mine sl, of ?ps, unfolded same]
    have vs: "view_scan E view lower (kr_upper r) 0 (scan_stop g ng cur budget emit) s = (res, s')"
      using io(1,2) sl by (cases res) (simp_all add: view_scan_def reads_ok_def xs_def split: unit.split)
    have skip: "c < kr_lower r'" if "sp_n s' < budget" "res = Inr ()" "cur = Some c" "sp_skipped s'" "r' \<in> set rs" for c r'
    proof (cases "xs = []")
      case True
      then show ?thesis using run that Cons.prems(3) by auto
    next
      case False
      then obtain k v where "(k, v) \<in> set xs" by (cases xs) auto
      then have "c \<le> k" "k < upper_bytes r" using ge [OF that(3)] inr by auto
      then show ?thesis using up(3) that(5) by fastforce
    qed
    have "scan_ranges E view g ng cur budget emit (r # rs) s =
      (case res of Inl e \<Rightarrow> ((sp_last s', False, Some e), sp_emit s')
       | Inr u \<Rightarrow> if budget \<le> sp_n s' then ((sp_last s', False, None), sp_emit s')
                  else scan_ranges E view g ng cur budget emit rs s')"
      using False vs by (simp add: Let_def resume_def [symmetric] lower_def [symmetric]) (auto split: option.splits)
    also have "\<dots> = (case res of Inl e \<Rightarrow> ((sp_last s', False, Some e), sp_emit s')
       | Inr u \<Rightarrow> if budget \<le> sp_n s' then ((sp_last s', False, None), sp_emit s')
                  else chunk_run budget emit ?ps (sp_last s') (sp_n s') (sp_emit s'))"
      using Cons.IH [of s', OF _ up(2)] skip Cons.prems(4) by (auto split: sum.split)
    also have "\<dots> = chunk_run budget emit (filter mine (kv_range (kr_lower r) (kr_upper r) ?m) @ ?ps) (sp_last s) (sp_n s) (sp_emit s)"
      using run by simp
    finally show ?thesis by simp
  qed
qed simp

text \<open>The pairs of the group after the cursor.\<close>

definition rest_pairs :: "u32 \<Rightarrow> u32 \<Rightarrow> bytes option \<Rightarrow> kv \<Rightarrow> (bytes \<times> bytes) list" where
  "rest_pairs g ng cur m = filter (\<lambda>(k, _). after cur k) (group_pairs g ng m)"

lemma scan_group_keys_run:
  assumes "reads_ok E" "\<not> closed view" "kv_ok (snap view)" "parsable g ng (snap view)" "0 < budget"
  shows "scan_group_keys E view g ng cur budget emit es =
    chunk_run budget emit (rest_pairs g ng cur (snap view)) [] 0 es"
proof -
  let ?mine = "\<lambda>(k, v). after cur k \<and> (g = meta_group \<or> key_group_of k ng = Inr g)"
  obtain rs where rs: "group_key_ranges g = Inr rs" "ordered_ranges rs"
      "\<And>k. (\<exists>r\<in>set rs. in_range (kr_lower r) (kr_upper r) k) \<longleftrightarrow> (\<exists>p\<in>set (group_families g). prefix p k)"
    by (rule group_ranges) blast
  have parse: "g \<noteq> meta_group \<Longrightarrow> \<forall>r\<in>set rs. \<forall>(k, v)\<in>set (kv_range (kr_lower r) (kr_upper r) (snap view)). is_ok (key_group_of k ng)"
    using assms(4) rs(3) by (fastforce simp: parsable_def kv_range_def)
  have "filter ?mine (concat (List.map (\<lambda>r. kv_range (kr_lower r) (kr_upper r) (snap view)) rs)) = rest_pairs g ng cur (snap view)"
    unfolding concat_ranges [OF assms(3) rs(2)] rest_pairs_def group_pairs_def filter_filter
    by (intro filter_cong) (auto simp: in_group_def rs(3))
  then show ?thesis
    using scan_ranges_run [OF assms(1-3) _ rs(2) _ parse refl, where s = "\<lparr>sp_last = [], sp_n = 0, sp_skipped = False, sp_emit = es\<rparr>" and budget = budget
      and cur = cur and emit = emit]
      assms(5) by (simp add: scan_group_keys_def rs(1))
qed

section \<open>Chunks\<close>

definition total_bytes :: "(bytes \<times> bytes) list \<Rightarrow> int" where
  "total_bytes ps = sum_list (List.map pair_bytes ps)"

lemma total_bytes_simps [simp]:
  "total_bytes [] = 0" "total_bytes (p # ps) = pair_bytes p + total_bytes ps"
  "total_bytes (ps @ qs) = total_bytes ps + total_bytes qs"
  by (simp_all add: total_bytes_def)

lemma pair_bytes_pos: "8 \<le> pair_bytes p"
  by (simp add: pair_bytes_def)

lemma total_bytes_nonneg [simp]: "0 \<le> total_bytes ps"
proof (induction ps)
  case (Cons p ps)
  then show ?case using pair_bytes_pos [of p] by simp
qed simp

text \<open>
  A chunk is an initial part of what is left; one that is not the last has brought the cursor
  to its last key and is at least as big as the smaller of the two budgets.
\<close>

lemma chunk_run_emit:
  assumes "chunk_run budget (chunk_emit B) ps lst n (acc, b) = ((nxt, fin, e), acc', b')"
    "b < B" "8 * n \<le> b" "\<forall>p\<in>set ps. pair_bytes p \<le> P" "0 \<le> P"
  shows "\<exists>ys zs. ps = ys @ zs \<and> acc' = acc @ ys \<and> b' = b + total_bytes ys \<and> b' < B + P \<and>
    nxt = (if ys = [] then lst else fst (last ys)) \<and>
    (if fin then zs = [] \<and> e = None
     else ys \<noteq> [] \<and> min B (8 * budget) \<le> b' \<and> (e = None \<or> e = Some ErrChunkFull))"
  using assms
proof (induction ps arbitrary: lst n acc b)
  case Nil
  then show ?case by auto
next
  case (Cons p ps)
  obtain k v where p: "p = (k, v)" by (cases p)
  let ?b = "b + pair_bytes p"
  have em: "chunk_emit B (acc, b) k v = (if B \<le> ?b then Some ErrChunkFull else None, acc @ [p], ?b)"
    by (simp add: chunk_emit_def Let_def p)
  note P = pair_bytes_pos [of p]
  have bP: "?b < B + P" using Cons.prems(2,4) by simp
  consider "B \<le> ?b" | "?b < B" "n + 1 < budget" | "?b < B" "\<not> n + 1 < budget" by linarith
  then show ?case
  proof cases
    case 1
    then have "fin = False" "e = Some ErrChunkFull" "nxt = k" "acc' = acc @ [p]" "b' = ?b"
      using Cons.prems(1) by (auto simp: p em [unfolded p])
    then show ?thesis using 1 bP
      by (intro exI [of _ "[p]"] exI [of _ ps]) (simp add: p)
  next
    case 2
    then have run: "chunk_run budget (chunk_emit B) ps k (n + 1) (acc @ [p], ?b) = ((nxt, fin, e), acc', b')"
      using Cons.prems(1) by (simp add: p em [unfolded p])
    have "8 * (n + 1) \<le> ?b" using Cons.prems(3) P by simp
    from Cons.IH [OF run 2(1) this _ Cons.prems(5)] Cons.prems(4)
    obtain ys zs where y: "ps = ys @ zs" "acc' = (acc @ [p]) @ ys" "b' = ?b + total_bytes ys" "b' < B + P"
        "nxt = (if ys = [] then k else fst (last ys))"
        "if fin then zs = [] \<and> e = None
         else ys \<noteq> [] \<and> min B (8 * budget) \<le> b' \<and> (e = None \<or> e = Some ErrChunkFull)"
      by auto
    then show ?thesis
      by (intro exI [of _ "p # ys"] exI [of _ zs]) (auto simp: p split: if_splits)
  next
    case 3
    then have "fin = False" "e = None" "nxt = k" "acc' = acc @ [p]" "b' = ?b"
      using Cons.prems(1) by (auto simp: p em [unfolded p])
    moreover have "8 * budget \<le> ?b" using 3(2) Cons.prems(3) P by simp
    ultimately show ?thesis using bP
      by (intro exI [of _ "[p]"] exI [of _ ps]) (simp add: p)
  qed
qed

text \<open>Encodings read back.\<close>

lemma be_u32_len: "n < 2 ^ 32 \<Longrightarrow> unat (of_nat n :: u32) = n"
  by (simp add: unat_of_nat)

lemma take_field_enc:
  assumes "length x < 2 ^ 32" "length x + length rest < 2 ^ 32"
  shows "take_field (put_u32 (of_nat (length x)) @ x @ rest) = Inr (x, rest)"
proof -
  have "\<not> (of_nat (length x + length rest) :: u32) < of_nat (length x)"
    unfolding word_less_nat_alt be_u32_len [OF assms(1)] be_u32_len [OF assms(2)] by simp
  then show ?thesis using be_u32_len [OF assms(1)] by (simp add: take_field_def Let_def)
qed

lemma length_encode_chunk: "int (length (encode_chunk ps)) = total_bytes ps"
  by (induction ps) (auto simp: encode_chunk_def pair_bytes_def)

lemma encode_chunk_Cons:
  "encode_chunk ((k, v) # ps) = put_u32 (of_nat (length k)) @ k @ put_u32 (of_nat (length v)) @ v @ encode_chunk ps"
  by (simp add: encode_chunk_def)

lemma decode_encode_chunk: "total_bytes ps < 2 ^ 32 \<Longrightarrow> decode_chunk (encode_chunk ps) = Inr ps"
proof (induction ps)
  case Nil
  then show ?case by (simp add: encode_chunk_def decode_chunk.simps)
next
  case (Cons p ps)
  obtain k v where p: "p = (k, v)" by (cases p)
  have len: "int (length k) + int (length v) + int (length (encode_chunk ps)) + 8 < 2 ^ 32"
    using Cons.prems by (simp add: p length_encode_chunk pair_bytes_def)
  have "total_bytes ps < 2 ^ 32" using Cons.prems pair_bytes_pos [of p] by simp
  moreover have "put_u32 w @ x \<noteq> []" for w x by (metis append_is_Nil_conv length_put(2) list.size(3) zero_neq_numeral)
  ultimately show ?case
    unfolding p encode_chunk_Cons using Cons.IH len
    by (subst decode_chunk.simps) (simp add: take_field_enc ebind_Inr)
qed

text \<open>One request for a chunk.\<close>

definition fetch_response :: "bool \<Rightarrow> bytes \<Rightarrow> (bytes \<times> bytes) list \<Rightarrow> bytes" where
  "fetch_response fin nxt ys =
     (if fin then [CHR 0x01] else [CHR 0x00]) @ put_u32 (of_nat (length nxt)) @ nxt @ encode_chunk ys"

lemma decode_fetch_response:
  assumes "int (length nxt) + total_bytes ys < 2 ^ 32 - 4"
  shows "decode_snap_fetch_resp (fetch_response fin nxt ys) = Inr (fin, nxt, encode_chunk ys)"
proof -
  have len: "length nxt < 2 ^ 32" "length nxt + length (encode_chunk ys) < 2 ^ 32"
    using assms length_encode_chunk [of ys] by - (simp; linarith)+
  have "\<not> (of_nat (length nxt + length (encode_chunk ys)) :: u32) < of_nat (length nxt)"
    unfolding word_less_nat_alt be_u32_len [OF len(1)] be_u32_len [OF len(2)] by simp
  then show ?thesis using be_u32_len [OF len(1)]
    by (simp add: decode_snap_fetch_resp_def fetch_response_def Let_def)
qed

definition chunk_floor :: "int \<Rightarrow> int" where
  "chunk_floor B = min B (8 * snapshot_chunk_keys)"

lemma fetch_chunk_ok:
  assumes "reads_ok E" "\<not> closed view" "kv_ok (snap view)" "parsable g ng (snap view)" "0 < B" "0 \<le> P"
    "\<forall>p\<in>set (group_pairs g ng (snap view)). pair_bytes p \<le> P"
  obtains fin nxt ys zs where
    "fetch_chunk E view g ng B cursor = Inr (fetch_response fin nxt ys)"
    "rest_pairs g ng (Some cursor) (snap view) = ys @ zs" "total_bytes ys < B + P"
    "nxt = (if ys = [] then [] else fst (last ys))" "if fin then zs = [] else ys \<noteq> [] \<and> chunk_floor B \<le> total_bytes ys"
proof -
  let ?R = "rest_pairs g ng (Some cursor) (snap view)"
  obtain nxt fin e pairs b where run: "chunk_run snapshot_chunk_keys (chunk_emit B) ?R [] 0 ([], 0) = ((nxt, fin, e), pairs, b)"
    by (metis prod.exhaust)
  have "\<forall>p\<in>set ?R. pair_bytes p \<le> P" using assms(7) by (auto simp: rest_pairs_def)
  from chunk_run_emit [OF run assms(5) _ this assms(6)] obtain ys zs where
    y: "?R = ys @ zs" "pairs = ys" "b = total_bytes ys" "b < B + P"
      "nxt = (if ys = [] then [] else fst (last ys))"
      "if fin then zs = [] \<and> e = None
       else ys \<noteq> [] \<and> min B (8 * snapshot_chunk_keys) \<le> b \<and> (e = None \<or> e = Some ErrChunkFull)"
    by auto
  have "scan_group_keys E view g ng (Some cursor) snapshot_chunk_keys (chunk_emit B) ([], 0) = ((nxt, fin, e), pairs, b)"
    by (subst scan_group_keys_run [OF assms(1-4)]) (simp_all only: run, simp add: snapshot_chunk_keys_def)
  then have "fetch_chunk E view g ng B cursor = Inr (fetch_response fin nxt ys)"
    using y(2,6) by (auto simp: fetch_chunk_def fetch_response_def split: if_splits)
  then show thesis using y by (intro that) (auto simp: chunk_floor_def split: if_splits)
qed

lemma rest_pairs_step:
  assumes "kv_ok m" "rest_pairs g ng c m = ys @ zs" "ys \<noteq> []"
  shows "rest_pairs g ng (Some (fst (last ys))) m = zs"
proof -
  let ?G = "group_pairs g ng m"
  have ok: "kv_ok ?G" unfolding group_pairs_def by (rule kv_ok_filter [OF assms(1)])
  have sorted: "sorted_wrt (<) (List.map fst (ys @ zs))"
    using kv_ok_filter [OF ok, of "\<lambda>(k, _). after c k"] assms(2) by (simp add: rest_pairs_def kv_ok_def)
  have ly: "last ys \<in> set ys" using assms(3) by simp
  have mem: "last ys \<in> set (ys @ zs)" using assms(3) by simp
  then have "after c (fst (last ys))" using assms(2) by (auto simp flip: assms(2) simp: rest_pairs_def)
  then have "rest_pairs g ng (Some (fst (last ys))) m = filter (\<lambda>(k, _). after (Some (fst (last ys))) k) (rest_pairs g ng c m)"
    unfolding rest_pairs_def filter_filter
    by (intro filter_cong) (auto simp: after_def split: option.splits dest: order.strict_trans)
  also have "\<dots> = filter (\<lambda>(k, _). fst (last ys) < k) ys @ filter (\<lambda>(k, _). fst (last ys) < k) zs"
    by (simp add: assms(2) after_def)
  also have "filter (\<lambda>(k, _). fst (last ys) < k) ys = []"
  proof -
    have "k \<le> fst (last ys)" if "(k, v) \<in> set ys" for k v
    proof -
      have s: "sorted_wrt (<) (List.map fst (butlast ys) @ [fst (last ys)])"
        using sorted assms(3) by (metis append_butlast_last_id list.map(1) list.map(2) map_append sorted_wrt_append)
      have "(k, v) \<in> set (butlast ys @ [last ys])" using that assms(3) by simp
      then have "(k, v) \<in> set (butlast ys) \<or> (k, v) = last ys" by (auto simp del: append_butlast_last_id)
      then show ?thesis
      proof
        assume "(k, v) \<in> set (butlast ys)"
        then have "k \<in> set (List.map fst (butlast ys))" by force
        then have "k < fst (last ys)" using s unfolding sorted_wrt_append by (metis list.set_intros(1))
        then show ?thesis by simp
      next
        assume "(k, v) = last ys"
        then show ?thesis by (metis fst_conv order_refl)
      qed
    qed
    then show ?thesis by (fastforce simp: filter_empty_conv)
  qed
  also have "filter (\<lambda>(k, _). fst (last ys) < k) zs = zs"
    using sorted ly by (intro filter_True) (fastforce simp: sorted_wrt_append)
  finally show ?thesis by simp
qed

end
