(* ===== verification/Snap_Registry.thy ===== *)
theory Snap_Registry
  imports Snap_Stream
begin

text \<open>
  \<^verbatim>\<open>internal/cluster/snapshot.go\<close>: the registry of the read views that snapshots are served
  from, with its borrowing, renewal, revocation and garbage collection, the snapshot descriptor,
  and the generation of a snapshot; and \<open>handleFetchSnapshot\<close> of \<^verbatim>\<open>manager.go\<close>, which serves
  a chunk from a registered view.  Times are nanoseconds; the clock is an argument.
\<close>

section \<open>Descriptor\<close>

record snap_descriptor =
  sd_id :: u64
  sd_leader :: u64
  sd_index :: u64

definition encode_snap_descriptor :: "snap_descriptor \<Rightarrow> bytes" where
  "encode_snap_descriptor d = put_u64 (sd_id d) @ put_u64 (sd_leader d) @ put_u64 (sd_index d)"

definition decode_snap_descriptor :: "bytes \<Rightarrow> err + snap_descriptor" where
  "decode_snap_descriptor b =
     (if length b \<noteq> 24 then Inl (ErrDescriptor (length b))
      else Inr \<lparr>sd_id = be_u64 (take 8 b), sd_leader = be_u64 (take 8 (drop 8 b)), sd_index = be_u64 (drop 16 b)\<rparr>)"

section \<open>Registry\<close>

record snap_entry =
  se_view :: read_view
  se_created :: int
  se_born :: int
  se_revoked :: bool
  se_group :: u32
  se_index :: u64
  se_refs :: nat

text \<open>\<open>rg_closed\<close> are the ids whose view \<open>Close\<close> was called on, the newest first.\<close>

record registry =
  rg_ttl :: int
  rg_next :: u64
  rg_views :: "(u64, snap_entry) omap"
  rg_sent :: "(u32 \<times> u64) \<Rightarrow> u64 option"
  rg_closed :: "u64 list"

definition hard_ttl_factor :: int where
  "hard_ttl_factor = 10"

definition new_registry :: "int \<Rightarrow> registry" where
  "new_registry ttl = \<lparr>rg_ttl = ttl, rg_next = 0, rg_views = [], rg_sent = (\<lambda>_. None), rg_closed = []\<rparr>"

definition reg_create :: "'z node_scheme \<Rightarrow> int \<Rightarrow> u32 \<Rightarrow> u64 \<Rightarrow> registry \<Rightarrow> u64 \<times> registry" where
  "reg_create st now g index R =
     (let i = rg_next R + 1
      in (i, R\<lparr>rg_next := i,
               rg_views := kv_set i \<lparr>se_view = new_read_view st, se_created = now, se_born = now, se_revoked = False,
                 se_group = g, se_index = index, se_refs = 0\<rparr> (rg_views R)\<rparr>))"

definition reg_get :: "int \<Rightarrow> u64 \<Rightarrow> registry \<Rightarrow> read_view option \<times> registry" where
  "reg_get now i R =
     (case kv_get (rg_views R) i of
        None \<Rightarrow> (None, R)
      | Some e \<Rightarrow>
          if se_revoked e then (None, R)
          else (Some (se_view e),
                R\<lparr>rg_views := kv_set i (e\<lparr>se_refs := se_refs e + 1, se_created := now\<rparr>) (rg_views R)\<rparr>))"

definition note_sent :: "u32 \<Rightarrow> u64 \<Rightarrow> u64 \<Rightarrow> registry \<Rightarrow> registry" where
  "note_sent g to i R = R\<lparr>rg_sent := (rg_sent R)((g, to) \<mapsto> i)\<rparr>"

definition sent_to :: "u32 \<Rightarrow> u64 \<Rightarrow> registry \<Rightarrow> u64 option" where
  "sent_to g to R = rg_sent R (g, to)"

text \<open>The time of the last borrow and whether one is under way, for the snapshot a peer was sent.\<close>

definition peer_borrow :: "u32 \<Rightarrow> u64 \<Rightarrow> u64 \<Rightarrow> registry \<Rightarrow> (int \<times> bool) option" where
  "peer_borrow g to index R =
     (case rg_sent R (g, to) of
        None \<Rightarrow> None
      | Some i \<Rightarrow>
          (case kv_get (rg_views R) i of
             None \<Rightarrow> None
           | Some e \<Rightarrow>
               if se_revoked e \<or> se_group e \<noteq> g \<or> se_index e \<noteq> index then None
               else Some (se_created e, 0 < se_refs e)))"

definition close_view :: "u64 \<Rightarrow> registry \<Rightarrow> registry" where
  "close_view i R = R\<lparr>rg_views := kv_del i (rg_views R), rg_closed := i # rg_closed R\<rparr>"

definition reg_put :: "u64 \<Rightarrow> registry \<Rightarrow> registry" where
  "reg_put i R =
     (case kv_get (rg_views R) i of
        None \<Rightarrow> R
      | Some e \<Rightarrow>
          if se_refs e = 0 then R
          else if se_refs e - 1 = 0 \<and> se_revoked e then close_view i R
          else R\<lparr>rg_views := kv_set i (e\<lparr>se_refs := se_refs e - 1\<rparr>) (rg_views R)\<rparr>)"

definition reg_release :: "u64 \<Rightarrow> registry \<Rightarrow> registry" where
  "reg_release i R =
     (case kv_get (rg_views R) i of
        None \<Rightarrow> R
      | Some e \<Rightarrow> if se_refs e = 0 then close_view i R else R)"

definition was_created :: "u64 \<Rightarrow> registry \<Rightarrow> bool" where
  "was_created i R = (i \<le> rg_next R)"

text \<open>Which entries a collection removes, and which it revokes.\<close>

definition over_hard :: "int \<Rightarrow> int \<Rightarrow> snap_entry \<Rightarrow> bool" where
  "over_hard ttl now e \<longleftrightarrow> ttl * hard_ttl_factor \<le> now - se_born e"

definition gc_removes :: "int \<Rightarrow> int \<Rightarrow> snap_entry \<Rightarrow> bool" where
  "gc_removes ttl now e \<longleftrightarrow> se_refs e = 0 \<and> (ttl \<le> now - se_created e \<or> over_hard ttl now e \<or> se_revoked e)"

definition gc_entry :: "int \<Rightarrow> int \<Rightarrow> snap_entry \<Rightarrow> snap_entry" where
  "gc_entry ttl now e = (if over_hard ttl now e \<and> \<not> se_revoked e then e\<lparr>se_revoked := True\<rparr> else e)"

definition gc_once :: "int \<Rightarrow> registry \<Rightarrow> nat \<times> registry" where
  "gc_once now R =
     (let gone = filter (\<lambda>(_, e). gc_removes (rg_ttl R) now e) (rg_views R);
          left = filter (\<lambda>(_, e). \<not> gc_removes (rg_ttl R) now e) (rg_views R)
      in (length gone,
          R\<lparr>rg_views := List.map (apsnd (gc_entry (rg_ttl R) now)) left,
            rg_closed := rev (List.map fst gone) @ rg_closed R\<rparr>))"

section \<open>Snapshots\<close>

text \<open>
  \<open>groupStorage.Snapshot\<close>: under the apply lock the applied index and a view of the store are
  taken together; the term is looked up outside it, and a failure gives the view back.
\<close>

record 'cs snapshot_msg =
  sm_data :: bytes
  sm_index :: u64
  sm_term :: u64
  sm_conf :: 'cs

definition group_snapshot ::
    "(u64 \<Rightarrow> u64 option) \<Rightarrow> u64 \<Rightarrow> u32 \<Rightarrow> u64 \<Rightarrow> 'cs \<Rightarrow> 'z node_scheme \<Rightarrow> int \<Rightarrow> registry
      \<Rightarrow> 'cs snapshot_msg option \<times> registry" where
  "group_snapshot mem_term self g applied cs st now R =
     (case reg_create st now g applied R of
        (i, R1) \<Rightarrow>
          (case mem_term applied of
             None \<Rightarrow> (None, reg_release i R1)
           | Some t \<Rightarrow>
               (Some \<lparr>sm_data = encode_snap_descriptor \<lparr>sd_id = i, sd_leader = self, sd_index = applied\<rparr>,
                      sm_index = applied, sm_term = t, sm_conf = cs\<rparr>, R1)))"

definition handle_fetch_snapshot ::
    "env \<Rightarrow> u32 \<Rightarrow> int \<Rightarrow> int \<Rightarrow> bytes \<Rightarrow> registry \<Rightarrow> (err + bytes) \<times> registry" where
  "handle_fetch_snapshot E ng chunk_bytes now payload R =
     (if length payload < 16 then (Inl (ErrFetchRequest (length payload)), R)
      else
        (let g = be_u32 (take 4 payload); i = be_u64 (take 8 (drop 4 payload)); cl = be_u32 (take 4 (drop 12 payload))
         in if (of_nat (length payload - 16) :: u32) < cl then (Inl (ErrFetchCursor (unat cl) (length payload)), R)
            else if ng < g then (Inl (ErrFetchGroup g), R)
            else (case reg_get now i R of
                    (None, R1) \<Rightarrow> (Inl (ErrFetchUnknown i), R1)
                  | (Some view, R1) \<Rightarrow>
                      (fetch_chunk E view g ng chunk_bytes (take (unat cl) (drop 16 payload)), reg_put i R1))))"

section \<open>Borrowed views stay open\<close>

lemma decode_encode_descriptor: "decode_snap_descriptor (encode_snap_descriptor d) = Inr d"
  by (simp add: decode_snap_descriptor_def encode_snap_descriptor_def)

lemma kv_get_map: "kv_get (List.map (apsnd f) m) k = map_option f (kv_get m k)"
  by (induction m) (auto simp: kv_get_def)

lemma kv_ok_map: "kv_ok (List.map (apsnd f) m) = kv_ok m"
  by (simp add: kv_ok_def comp_def)

lemma kv_get_filter_val:
  "kv_ok m \<Longrightarrow> kv_get (filter (\<lambda>(k, v). P v) m) k = (case kv_get m k of None \<Rightarrow> None | Some v \<Rightarrow> if P v then Some v else None)"
proof (induction m)
  case (Cons p m)
  then have "kv_get m (fst p) = None"
    using kv_ok_distinct [OF Cons.prems] by (auto simp: kv_get_def map_of_eq_None_iff)
  then show ?case using Cons by (cases p) (auto simp: kv_get_def kv_ok_def split: option.split)
qed (simp add: kv_get_def)

lemma fst_filter_val:
  "kv_ok m \<Longrightarrow> k \<in> fst ` set (filter (\<lambda>(k, v). P v) m) \<longleftrightarrow> (\<exists>v. kv_get m k = Some v \<and> P v)"
  by (force simp flip: kv_mem)

lemma gc_views:
  assumes "kv_ok (rg_views R)"
  shows "kv_get (rg_views (snd (gc_once now R))) i =
    (case kv_get (rg_views R) i of None \<Rightarrow> None
     | Some e \<Rightarrow> if gc_removes (rg_ttl R) now e then None else Some (gc_entry (rg_ttl R) now e))"
  using kv_get_filter_val [OF assms, of "\<lambda>e. \<not> gc_removes (rg_ttl R) now e" i]
  by (simp add: gc_once_def Let_def kv_get_map split: option.split)

lemma gc_closed:
  assumes "kv_ok (rg_views R)"
  shows "set (rg_closed (snd (gc_once now R))) =
    set (rg_closed R) \<union> {i. \<exists>e. kv_get (rg_views R) i = Some e \<and> gc_removes (rg_ttl R) now e}"
  using fst_filter_val [OF assms, of _ "\<lambda>e. gc_removes (rg_ttl R) now e"]
  by (auto simp: gc_once_def Let_def)

text \<open>
  The registry under any interleaving of its users.  \<open>b i\<close> counts the borrows of \<open>i\<close> that
  have not been given back; a user gives back only what it borrowed, the 64 bit counter of ids has
  not wrapped, and \<open>Release\<close> and the
  collector may run at any time.
\<close>

inductive reg_step :: "registry \<times> (u64 \<Rightarrow> nat) \<Rightarrow> registry \<times> (u64 \<Rightarrow> nat) \<Rightarrow> bool" where
  step_create: "rg_next R < rg_next R + 1 \<Longrightarrow> reg_create (st :: node) now g index R = (i, R') \<Longrightarrow> reg_step (R, b) (R', b)"
| step_get: "reg_get now i R = (Some v, R') \<Longrightarrow> reg_step (R, b) (R', b(i := b i + 1))"
| step_miss: "reg_get now i R = (None, R') \<Longrightarrow> reg_step (R, b) (R', b)"
| step_put: "0 < b i \<Longrightarrow> reg_step (R, b) (reg_put i R, b(i := b i - 1))"
| step_release: "reg_step (R, b) (reg_release i R, b)"
| step_gc: "gc_once now R = (n, R') \<Longrightarrow> reg_step (R, b) (R', b)"
| step_sent: "reg_step (R, b) (note_sent g to i R, b)"

inductive reg_reach :: "int \<Rightarrow> registry \<times> (u64 \<Rightarrow> nat) \<Rightarrow> bool" for ttl where
  reach_new: "reg_reach ttl (new_registry ttl, \<lambda>_. 0)"
| reach_step: "reg_reach ttl s \<Longrightarrow> reg_step s s' \<Longrightarrow> reg_reach ttl s'"

inductive_cases reg_stepE: "reg_step (R, b) s'"

definition reg_ok :: "registry \<times> (u64 \<Rightarrow> nat) \<Rightarrow> bool" where
  "reg_ok s \<longleftrightarrow> (case s of (R, b) \<Rightarrow>
     kv_ok (rg_views R) \<and> distinct (rg_closed R) \<and>
     (\<forall>i. case kv_get (rg_views R) i of
            None \<Rightarrow> b i = 0
          | Some e \<Rightarrow> se_refs e = b i \<and> i \<le> rg_next R \<and> i \<notin> set (rg_closed R)) \<and>
     (\<forall>i\<in>set (rg_closed R). i \<le> rg_next R))"

lemma reg_okD:
  assumes "reg_ok (R, b)"
  shows "kv_ok (rg_views R)" "distinct (rg_closed R)"
    "kv_get (rg_views R) i = Some e \<Longrightarrow> se_refs e = b i \<and> i \<le> rg_next R \<and> i \<notin> set (rg_closed R)"
    "kv_get (rg_views R) i = None \<Longrightarrow> b i = 0"
    "i \<in> set (rg_closed R) \<Longrightarrow> i \<le> rg_next R"
  using assms unfolding reg_ok_def by (auto split: option.splits dest!: spec [of _ i])

lemma reg_okI:
  assumes "kv_ok (rg_views R)" "distinct (rg_closed R)"
    "\<And>i e. kv_get (rg_views R) i = Some e \<Longrightarrow> se_refs e = b i \<and> i \<le> rg_next R \<and> i \<notin> set (rg_closed R)"
    "\<And>i. kv_get (rg_views R) i = None \<Longrightarrow> b i = 0"
    "\<And>i. i \<in> set (rg_closed R) \<Longrightarrow> i \<le> rg_next R"
  shows "reg_ok (R, b)"
  using assms unfolding reg_ok_def by (auto split: option.split)

text \<open>An entry is replaced by one with the new count; or it is closed while nobody has it.\<close>

lemma reg_ok_set:
  assumes "reg_ok (R, b)" "kv_get (rg_views R) i = Some e" "se_refs e' = n"
  shows "reg_ok (R\<lparr>rg_views := kv_set i e' (rg_views R)\<rparr>, b(i := n))"
  using assms reg_okD [OF assms(1)] by (intro reg_okI) (auto simp: kv_simps split: if_splits)

lemma reg_ok_close:
  assumes "reg_ok (R, b)" "kv_get (rg_views R) i = Some e"
  shows "reg_ok (close_view i R, b(i := 0))"
  using assms reg_okD [OF assms(1)] by (intro reg_okI) (auto simp: kv_simps close_view_def split: if_splits)

lemma reg_ok_new: "reg_ok (new_registry ttl, \<lambda>_. 0)"
  by (simp add: reg_ok_def new_registry_def kv_simps)

lemma reg_step_ok:
  assumes "reg_step s s'" "reg_ok s"
  shows "reg_ok s'"
  using assms
proof (induction rule: reg_step.induct)
  case (step_create R st now g index i R' b)
  note D = reg_okD [OF step_create(3)]
  have lt: "rg_next R < rg_next R + 1" by (rule step_create(1))
  then have new: "kv_get (rg_views R) (rg_next R + 1) = None" "rg_next R + 1 \<notin> set (rg_closed R)"
    using D(3,5) [of "rg_next R + 1"] lt [folded not_le] by (cases "kv_get (rg_views R) (rg_next R + 1)"; blast)+
  have le: "i \<le> rg_next R \<Longrightarrow> i \<le> rg_next R + 1" for i using lt by simp
  have "R' = R\<lparr>rg_next := rg_next R + 1, rg_views := kv_set (rg_next R + 1) \<lparr>se_view = new_read_view st, se_created = now, se_born = now, se_revoked = False,
                 se_group = g, se_index = index, se_refs = 0\<rparr> (rg_views R)\<rparr>"
    using step_create(2) by (auto simp: reg_create_def Let_def)
  then show ?case using D new le D(4) [OF new(1)]
    by (intro reg_okI) (auto simp: kv_simps split: if_splits)
next
  case (step_get now i R v R' b)
  then show ?case using reg_okD [OF step_get(2)]
    by (auto simp: reg_get_def split: option.splits if_splits intro!: reg_ok_set)
next
  case (step_miss now i R R' b)
  then show ?case by (auto simp: reg_get_def split: option.splits if_splits)
next
  case (step_put b i R)
  note D = reg_okD [OF step_put(2)]
  obtain e where e: "kv_get (rg_views R) i = Some e" "se_refs e = b i"
    using D(3,4) [of i] step_put(1) by (cases "kv_get (rg_views R) i") auto
  then show ?case using reg_ok_set [OF step_put(2) e(1), of "e\<lparr>se_refs := b i - 1\<rparr>" "b i - 1"] reg_ok_close [OF step_put(2) e(1)] step_put(1)
    by (auto simp: reg_put_def)
next
  case (step_release R b i)
  note D = reg_okD [OF step_release]
  show ?case
  proof (cases "\<exists>e. kv_get (rg_views R) i = Some e \<and> se_refs e = 0")
    case True
    then obtain e where e: "kv_get (rg_views R) i = Some e" "se_refs e = 0" by blast
    then have "b(i := 0) = b" using D(3) by (auto simp: fun_eq_iff)
    then show ?thesis using reg_ok_close [OF step_release e(1)] e by (simp add: reg_release_def)
  next
    case False
    then show ?thesis using step_release by (auto simp: reg_release_def split: option.split)
  qed
next
  case (step_gc now R n R' b)
  note D = reg_okD [OF step_gc(2)]
  have R': "R' = snd (gc_once now R)" using step_gc(1) by simp
  have "distinct (rg_closed R')"
    using D(1-3) kv_ok_distinct [OF kv_ok_filter [OF D(1)]] unfolding R'
    by (auto simp: gc_once_def Let_def kv_mem)
  moreover have "kv_ok (rg_views R')" "rg_next R' = rg_next R"
    using kv_ok_filter [OF D(1)] by (simp_all add: R' gc_once_def Let_def kv_ok_map)
  moreover have "se_refs e' = b i \<and> i \<le> rg_next R \<and> i \<notin> set (rg_closed R')" if "kv_get (rg_views R') i = Some e'" for i e'
    using that D(3) [of i] unfolding R' gc_views [OF D(1)] gc_closed [OF D(1)]
    by (auto simp: gc_entry_def split: option.splits if_splits)
  moreover have "b i = 0" if "kv_get (rg_views R') i = None" for i
    using that D(3,4) [of i] unfolding R' gc_views [OF D(1)]
    by (auto simp: gc_removes_def split: option.splits if_splits)
  moreover have "i \<le> rg_next R" if "i \<in> set (rg_closed R')" for i
    using that D(3,5) [of i] unfolding R' gc_closed [OF D(1)] by auto
  ultimately show ?case by (intro reg_okI) auto
next
  case (step_sent R b g to i)
  then show ?case using reg_okD [OF step_sent] by (intro reg_okI) (auto simp: note_sent_def)
qed

lemma reg_reach_ok: "reg_reach ttl s \<Longrightarrow> reg_ok s"
  by (induction rule: reg_reach.induct) (simp_all add: reg_ok_new reg_step_ok)

section \<open>Properties\<close>

text \<open>C18: a view that is being read is never closed under its reader.  However the users of the
  registry, its releases and its collections interleave, an id with an outstanding borrow is
  registered, with exactly that count, and its view has not been closed; no view is ever closed
  twice; and a new snapshot gets an id that was never given out before.
\<close>

theorem borrowed_view_stays_open:
  assumes "reg_reach ttl (R, b)"
  shows "distinct (rg_closed R) \<and>
    (0 < b i \<longrightarrow> (\<exists>e. kv_get (rg_views R) i = Some e \<and> se_refs e = b i) \<and> i \<notin> set (rg_closed R)) \<and>
    (rg_next R < rg_next R + 1 \<longrightarrow>
      kv_get (rg_views R) (fst (reg_create (st :: node) now g index R)) = None \<and>
      fst (reg_create st now g index R) \<notin> set (rg_closed R))"
proof -
  note D = reg_okD [OF reg_reach_ok [OF assms]]
  have "kv_get (rg_views R) (rg_next R + 1) = None" "rg_next R + 1 \<notin> set (rg_closed R)" if "rg_next R < rg_next R + 1"
    using D(3,5) [of "rg_next R + 1"] that [folded not_le] by (cases "kv_get (rg_views R) (rg_next R + 1)"; blast)+
  moreover have "(\<exists>e. kv_get (rg_views R) i = Some e \<and> se_refs e = b i) \<and> i \<notin> set (rg_closed R)" if "0 < b i"
    using D(3,4) [of i] that by (cases "kv_get (rg_views R) i") auto
  ultimately show ?thesis using D(2) by (auto simp: reg_create_def Let_def)
qed


text \<open>A view borrowed, then collected past the hard limit, then given back.\<close>

definition demo_reg :: registry where
  "demo_reg = snd (reg_get 1 1 (snd (reg_create (\<lparr>db = [], sent = []\<rparr> :: node) 0 3 7 (new_registry 5))))"

lemma demo_reg_reach: "reg_reach 5 (demo_reg, (\<lambda>_. 0)(1 := 1))"
proof -
  let ?R1 = "snd (reg_create (\<lparr>db = [], sent = []\<rparr> :: node) 0 3 7 (new_registry 5))"
  have "reg_step (new_registry 5, \<lambda>_. 0) (?R1, \<lambda>_. 0)"
    by (rule step_create [where i = 1]) (simp_all add: new_registry_def reg_create_def)
  then have "reg_reach 5 (?R1, \<lambda>_. 0)" by (rule reach_step [OF reach_new])
  moreover have "reg_step (?R1, \<lambda>_. 0) (demo_reg, (\<lambda>_. 0)(1 := (\<lambda>_. 0) 1 + 1))"
    unfolding demo_reg_def by (rule step_get [where now = 1]) (auto simp: reg_get_def reg_create_def new_registry_def kv_get_def)
  ultimately show ?thesis using reach_step by fastforce
qed

theorem borrowed_view_stays_open_witness:
  "(\<exists>e. kv_get (rg_views demo_reg) 1 = Some e \<and> se_refs e = 1) \<and> 1 \<notin> set (rg_closed demo_reg) \<and>
    fst (reg_create (\<lparr>db = [], sent = []\<rparr> :: node) 9 3 8 demo_reg) \<notin> set (rg_closed demo_reg)"
proof -
  have "rg_next demo_reg < rg_next demo_reg + 1"
    by (simp add: demo_reg_def reg_get_def reg_create_def new_registry_def kv_get_def)
  then show ?thesis
    using borrowed_view_stays_open [OF demo_reg_reach, of 1 "\<lparr>db = [], sent = []\<rparr>" 9 3 8] by auto
qed


end
