(* ===== verification/Raft_Meta.thy ===== *)
theory Raft_Meta
  imports Store GoStd
begin

text \<open>
  \<^verbatim>\<open>internal/cluster/raftstore.go\<close>, the part that lives in the shared key value store: the
  keys under \<^verbatim>\<open>raft/\<close>, the applied index, the membership, the snapshot anchor and the install
  marker of a group, the number of groups, the clean shutdown mark, the boot generation and the
  recovery permit; and \<^verbatim>\<open>bootgen.go\<close>.  The protobuf encodings are the parameter
  \<open>meta_codec\<close>.
\<close>

section \<open>Keys\<close>

definition raft_prefix :: bytes where "raft_prefix = ''raft/''"
definition raft_prefix_end :: bytes where "raft_prefix_end = ''raft0''"
definition groups_key :: bytes where "groups_key = ''raft/groups''"
definition clean_shutdown_key :: bytes where "clean_shutdown_key = ''raft/clean_shutdown''"
definition pre_raft_key :: bytes where "pre_raft_key = ''raft/preraft''"
definition boot_gen_key :: bytes where "boot_gen_key = ''raft/bootgen''"
definition recover_permit_key :: bytes where "recover_permit_key = ''raft/local_recover_permit''"

definition group_key :: "u32 \<Rightarrow> bytes \<Rightarrow> bytes" where
  "group_key g name = raft_prefix @ fmt_nat (unat g) @ CHR ''/'' # name"

definition ent_prefix :: "u32 \<Rightarrow> bytes" where "ent_prefix g = group_key g ''ent/''"
definition ent_key :: "u32 \<Rightarrow> u64 \<Rightarrow> bytes" where "ent_key g index = ent_prefix g @ put_u64 index"
definition hs_key :: "u32 \<Rightarrow> bytes" where "hs_key g = group_key g ''hs''"
definition applied_key :: "u32 \<Rightarrow> bytes" where "applied_key g = group_key g ''applied''"
definition conf_key :: "u32 \<Rightarrow> bytes" where "conf_key g = group_key g ''conf''"
definition snap_key :: "u32 \<Rightarrow> bytes" where "snap_key g = group_key g ''snap''"
definition snap_install_key :: "u32 \<Rightarrow> bytes" where "snap_install_key g = group_key g ''snapinstall''"

lemmas raft_key_defs = groups_key_def clean_shutdown_key_def pre_raft_key_def boot_gen_key_def recover_permit_key_def
  group_key_def ent_prefix_def ent_key_def hs_key_def applied_key_def conf_key_def snap_key_def snap_install_key_def
  raft_prefix_def

section \<open>Group metadata\<close>

record conf_state =
  cs_voters :: "u64 list"
  cs_learners :: "u64 list"

definition empty_conf :: conf_state where
  "empty_conf = \<lparr>cs_voters = [], cs_learners = []\<rparr>"

record snap_meta =
  mt_index :: u64
  mt_term :: u64
  mt_conf :: conf_state

record meta_codec =
  enc_conf :: "conf_state \<Rightarrow> bytes option"
  dec_conf :: "bytes \<Rightarrow> conf_state option"
  enc_meta :: "snap_meta \<Rightarrow> bytes option"
  dec_meta :: "bytes \<Rightarrow> snap_meta option"

text \<open>\<open>Store.ApplyWith\<close>: a commit to the local store.\<close>

definition apply_with :: "env \<Rightarrow> batch \<Rightarrow> 'z node_scheme \<Rightarrow> (err + unit) \<times> 'z node_scheme" where
  "apply_with E b = rep_apply E meta_group b"

definition raft_applied :: "env \<Rightarrow> 'z node_scheme \<Rightarrow> u32 \<Rightarrow> err + u64" where
  "raft_applied E s g =
     ebind (st_get E s (applied_key g)) (\<lambda>d.
       case d of None \<Rightarrow> Inr 0
       | Some b \<Rightarrow> (case get_u64 b of None \<Rightarrow> Inl ErrPanic | Some v \<Rightarrow> Inr v))"

definition write_conf_state :: "meta_codec \<Rightarrow> u32 \<Rightarrow> conf_state \<Rightarrow> u64 \<Rightarrow> batch \<Rightarrow> err + batch" where
  "write_conf_state c g cs applied b =
     (case enc_conf c cs of
        None \<Rightarrow> Inl ErrMarshal
      | Some d \<Rightarrow> Inr (bset (applied_key g) (put_u64 applied) (bset (conf_key g) d b)))"

definition save_conf_state ::
    "env \<Rightarrow> meta_codec \<Rightarrow> u32 \<Rightarrow> conf_state \<Rightarrow> u64 \<Rightarrow> 'z node_scheme \<Rightarrow> (err + unit) \<times> 'z node_scheme" where
  "save_conf_state E c g cs applied s =
     (case write_conf_state c g cs applied new_batch of Inl e \<Rightarrow> (Inl e, s) | Inr b \<Rightarrow> apply_with E b s)"

definition load_with :: "env \<Rightarrow> 'z node_scheme \<Rightarrow> bytes \<Rightarrow> (bytes \<Rightarrow> 'a option) \<Rightarrow> err + 'a option" where
  "load_with E s k dec =
     ebind (st_get E s k) (\<lambda>d.
       case d of None \<Rightarrow> Inr None
       | Some b \<Rightarrow> (case dec b of None \<Rightarrow> Inl (ErrDecode k) | Some x \<Rightarrow> Inr (Some x)))"

definition load_conf_state :: "env \<Rightarrow> meta_codec \<Rightarrow> 'z node_scheme \<Rightarrow> u32 \<Rightarrow> err + conf_state option" where
  "load_conf_state E c s g = load_with E s (conf_key g) (dec_conf c)"

definition write_snap_meta :: "meta_codec \<Rightarrow> u32 \<Rightarrow> snap_meta \<Rightarrow> batch \<Rightarrow> err + batch" where
  "write_snap_meta c g meta b =
     (case enc_meta c meta of None \<Rightarrow> Inl ErrMarshal | Some d \<Rightarrow> Inr (bset (snap_key g) d b))"

definition save_snap_meta ::
    "env \<Rightarrow> meta_codec \<Rightarrow> u32 \<Rightarrow> snap_meta \<Rightarrow> 'z node_scheme \<Rightarrow> (err + unit) \<times> 'z node_scheme" where
  "save_snap_meta E c g meta s =
     (case write_snap_meta c g meta new_batch of Inl e \<Rightarrow> (Inl e, s) | Inr b \<Rightarrow> apply_with E b s)"

definition load_snap_meta :: "env \<Rightarrow> meta_codec \<Rightarrow> 'z node_scheme \<Rightarrow> u32 \<Rightarrow> err + snap_meta option" where
  "load_snap_meta E c s g = load_with E s (snap_key g) (dec_meta c)"

definition mark_installing ::
    "env \<Rightarrow> meta_codec \<Rightarrow> u32 \<Rightarrow> snap_meta \<Rightarrow> 'z node_scheme \<Rightarrow> (err + unit) \<times> 'z node_scheme" where
  "mark_installing E c g meta s =
     (case enc_meta c meta of
        None \<Rightarrow> (Inl ErrMarshal, s)
      | Some d \<Rightarrow> apply_with E (bset (snap_install_key g) d new_batch) s)"

definition load_installing :: "env \<Rightarrow> meta_codec \<Rightarrow> 'z node_scheme \<Rightarrow> u32 \<Rightarrow> err + snap_meta option" where
  "load_installing E c s g = load_with E s (snap_install_key g) (dec_meta c)"

text \<open>The store's half of \<open>ResetGroupProgress\<close>; the entries of an old data directory go with it.\<close>

definition reset_batch :: "u32 \<Rightarrow> batch" where
  "reset_batch g =
     bdelete (hs_key g)
       (bdelete_range (ent_key g 0) (case prefix_upper_bound (ent_prefix g) of None \<Rightarrow> [] | Some u \<Rightarrow> u)
         (bdelete (snap_install_key g) (bdelete (snap_key g) (bset (applied_key g) (put_u64 0) new_batch))))"

definition delete_installing_key :: "u32 \<Rightarrow> batch \<Rightarrow> batch" where
  "delete_installing_key g b = bdelete (snap_install_key g) b"

section \<open>Node metadata\<close>

definition ensure_groups :: "env \<Rightarrow> u32 \<Rightarrow> 'z node_scheme \<Rightarrow> (err + unit) \<times> 'z node_scheme" where
  "ensure_groups E n s =
     (case st_get E s groups_key of
        Inl e \<Rightarrow> (Inl e, s)
      | Inr None \<Rightarrow> apply_with E (bset groups_key (put_u32 n) new_batch) s
      | Inr (Some d) \<Rightarrow>
          (if length d < 4 then (Inl ErrPanic, s)
           else if be_u32 (take 4 d) \<noteq> n then (Inl (ErrGroupsChanged (be_u32 (take 4 d)) n), s)
           else (Inr (), s)))"

definition mark_clean_shutdown :: "env \<Rightarrow> 'z node_scheme \<Rightarrow> (err + unit) \<times> 'z node_scheme" where
  "mark_clean_shutdown E = apply_with E (bset clean_shutdown_key [CHR 0x01] new_batch)"

definition consume_clean_shutdown :: "env \<Rightarrow> 'z node_scheme \<Rightarrow> (err + bool) \<times> 'z node_scheme" where
  "consume_clean_shutdown E s =
     (case st_get E s clean_shutdown_key of
        Inl e \<Rightarrow> (Inl e, s)
      | Inr None \<Rightarrow> (Inr False, s)
      | Inr (Some d) \<Rightarrow>
          (case apply_with E (bdelete clean_shutdown_key new_batch) s of
             (Inl e, s') \<Rightarrow> (Inl e, s')
           | (Inr u, s') \<Rightarrow> (Inr True, s')))"

definition mark_pre_raft :: "env \<Rightarrow> 'z node_scheme \<Rightarrow> (err + unit) \<times> 'z node_scheme" where
  "mark_pre_raft E = apply_with E (bset pre_raft_key [CHR 0x01] new_batch)"

definition has_pre_raft :: "env \<Rightarrow> 'z node_scheme \<Rightarrow> err + bool" where
  "has_pre_raft E s = ebind (st_get E s pre_raft_key) (\<lambda>d. Inr (d \<noteq> None))"

definition load_boot_gen :: "env \<Rightarrow> 'z node_scheme \<Rightarrow> err + bytes option" where
  "load_boot_gen E s = st_get E s boot_gen_key"

definition save_boot_gen :: "env \<Rightarrow> bytes \<Rightarrow> 'z node_scheme \<Rightarrow> (err + unit) \<times> 'z node_scheme" where
  "save_boot_gen E gen = apply_with E (bset boot_gen_key gen new_batch)"

record recover_permit =
  pm_granted_at :: bytes
  pm_gen :: bytes

definition save_recover_permit :: "env \<Rightarrow> recover_permit \<Rightarrow> 'z node_scheme \<Rightarrow> (err + unit) \<times> 'z node_scheme" where
  "save_recover_permit E p =
     apply_with E (bset recover_permit_key (pm_granted_at p @ CHR 0x0A # pm_gen p) new_batch)"

definition parse_permit :: "bytes \<Rightarrow> recover_permit option" where
  "parse_permit d =
     (case cut_byte (CHR 0x0A) d of
        None \<Rightarrow> None
      | Some (t, gen) \<Rightarrow> if gen = [] then None else Some \<lparr>pm_granted_at = t, pm_gen = gen\<rparr>)"

definition load_recover_permit :: "env \<Rightarrow> 'z node_scheme \<Rightarrow> err + recover_permit option" where
  "load_recover_permit E s =
     ebind (st_get E s recover_permit_key) (\<lambda>d. Inr (case d of None \<Rightarrow> None | Some b \<Rightarrow> parse_permit b))"

text \<open>
  \<open>resolveBootGen\<close>: the override of the environment, else what the platform reads; an error
  (\<^term>\<open>None\<close>) and the empty string are both no generation.
\<close>

definition resolve_boot_gen :: "bytes \<Rightarrow> bytes option \<Rightarrow> bytes option" where
  "resolve_boot_gen override gen =
     (if override \<noteq> [] then Some override
      else case gen of None \<Rightarrow> None | Some v \<Rightarrow> if v = [] then None else Some v)"

section \<open>Membership from the log\<close>

datatype conf_change = AddNode u64 | AddLearner u64 | RemoveNode u64 | UpdateNode u64

definition remove_u64 :: "u64 \<Rightarrow> u64 list \<Rightarrow> u64 list" where
  "remove_u64 v xs = remove1 v xs"

fun apply_one :: "conf_change \<Rightarrow> conf_state \<Rightarrow> conf_state" where
  "apply_one (AddNode n) cs =
     \<lparr>cs_voters = remove_u64 n (cs_voters cs) @ [n], cs_learners = remove_u64 n (cs_learners cs)\<rparr>"
| "apply_one (AddLearner n) cs =
     \<lparr>cs_voters = remove_u64 n (cs_voters cs), cs_learners = remove_u64 n (cs_learners cs) @ [n]\<rparr>"
| "apply_one (RemoveNode n) cs =
     \<lparr>cs_voters = remove_u64 n (cs_voters cs), cs_learners = remove_u64 n (cs_learners cs)\<rparr>"
| "apply_one (UpdateNode n) cs = cs"

text \<open>
  An entry's index and what it holds: nothing about the membership, or the changes of a
  \<open>ConfChange\<close> or \<open>ConfChangeV2\<close>, \<^term>\<open>None\<close> where they do not decode.
\<close>

datatype conf_entry = NoConf | Changes "conf_change list option"

fun conf_state_from_entries :: "(u64 \<times> conf_entry) list \<Rightarrow> u64 \<Rightarrow> conf_state \<Rightarrow> err + conf_state" where
  "conf_state_from_entries [] upto_index cs = Inr cs"
| "conf_state_from_entries ((i, e) # es) upto_index cs =
     (if upto_index < i then Inr cs
      else case e of
             NoConf \<Rightarrow> conf_state_from_entries es upto_index cs
           | Changes None \<Rightarrow> Inl (ErrDecode (put_u64 i))
           | Changes (Some ch) \<Rightarrow> conf_state_from_entries es upto_index (fold apply_one ch cs))"

section \<open>Facts\<close>

lemma fmt_nat_no_slash: "CHR ''/'' \<notin> set (fmt_nat n)"
  using fmt_nat_digits [of n] by (auto simp: list_all_iff is_digit_def)

lemma fmt_nat_eq: "fmt_nat a = fmt_nat b \<longleftrightarrow> a = b"
  by (metis digits_of_fmt option.inject)

lemma group_key_inj: "group_key g a = group_key h b \<longleftrightarrow> g = h \<and> a = b"
proof
  assume "group_key g a = group_key h b"
  then have "fmt_nat (unat g) @ CHR ''/'' # a = fmt_nat (unat h) @ CHR ''/'' # b" by (simp add: group_key_def)
  then have "fmt_nat (unat g) = fmt_nat (unat h) \<and> a = b"
    using cut_byte_append [OF fmt_nat_no_slash] by (metis option.inject prod.inject)
  then show "g = h \<and> a = b" by (simp add: fmt_nat_eq word_unat_eq_iff)
qed simp

lemma ent_not_named: "\<not> prefix (ent_prefix g) (group_key h name)" if "\<not> prefix ''ent/'' name"
proof
  assume "prefix (ent_prefix g) (group_key h name)"
  then obtain r where "group_key h name = group_key g (''ent/'' @ r)" by (auto simp: prefix_def ent_prefix_def group_key_def)
  then have "name = ''ent/'' @ r" unfolding group_key_inj by blast
  then show False using that by simp
qed

lemma raft_keys_distinct [simp]:
  "conf_key g = conf_key h \<longleftrightarrow> g = h" "applied_key g = applied_key h \<longleftrightarrow> g = h" "snap_key g = snap_key h \<longleftrightarrow> g = h"
  "snap_install_key g = snap_install_key h \<longleftrightarrow> g = h" "hs_key g = hs_key h \<longleftrightarrow> g = h"
  "conf_key g \<noteq> applied_key h" "conf_key g \<noteq> snap_key h" "conf_key g \<noteq> snap_install_key h" "conf_key g \<noteq> hs_key h"
  "applied_key g \<noteq> conf_key h" "applied_key g \<noteq> snap_key h" "applied_key g \<noteq> snap_install_key h" "applied_key g \<noteq> hs_key h"
  "snap_key g \<noteq> conf_key h" "snap_key g \<noteq> applied_key h" "snap_key g \<noteq> snap_install_key h" "snap_key g \<noteq> hs_key h"
  "snap_install_key g \<noteq> conf_key h" "snap_install_key g \<noteq> applied_key h" "snap_install_key g \<noteq> snap_key h"
  "snap_install_key g \<noteq> hs_key h" "hs_key g \<noteq> conf_key h" "hs_key g \<noteq> applied_key h" "hs_key g \<noteq> snap_key h"
  "hs_key g \<noteq> snap_install_key h"
  by (simp_all add: conf_key_def applied_key_def snap_key_def snap_install_key_def hs_key_def group_key_inj)

lemma apply_with_db: "apply_with E b s = (r, s') \<Longrightarrow> s' = s \<or> s' = set_db (apply_batch b (db s)) s"
  unfolding apply_with_def by (rule rep_apply_db)

lemma apply_with_ok: "apply_with E b s = (Inr u, s') \<Longrightarrow> s' = set_db (apply_batch b (db s)) s"
  unfolding apply_with_def by (rule rep_apply_ok)

definition writes_ok :: "env \<Rightarrow> bool" where
  "writes_ok E \<longleftrightarrow> (\<forall>b. commit E meta_group b = Durable)"

lemma apply_with_succeeds: "writes_ok E \<Longrightarrow> apply_with E b s = (Inr (), set_db (apply_batch b (db s)) s)"
  by (simp add: apply_with_def rep_apply_def rep_apply_async_def writes_ok_def)

text \<open>A permit that was written is read back, for a time without a line break and a generation.\<close>

lemma permit_roundtrip:
  "CHR 0x0A \<notin> set (pm_granted_at p) \<Longrightarrow> pm_gen p \<noteq> [] \<Longrightarrow>
    parse_permit (pm_granted_at p @ CHR 0x0A # pm_gen p) = Some p"
  by (simp add: parse_permit_def cut_byte_append)

end
