(* ===== verification/Snap_Install.thy ===== *)
theory Snap_Install
  imports Snap_Registry Raft_Meta
begin

text \<open>
  The receiving side of a snapshot: \<open>wipeGroupKeys\<close> of \<^verbatim>\<open>internal/cluster/snapinstall.go\<close>,
  \<open>pullSnapshotChunks\<close> and \<open>installSnapshot\<close> of \<^verbatim>\<open>group.go\<close>, \<open>groupHasKeys\<close> of
  \<^verbatim>\<open>manager.go\<close>, and how \<open>buildGroup\<close> finishes an interrupted installation at a restart.  The
  control channel to the peer is the parameter \<open>ctl\<close> over a state \<open>'w\<close> of the rest of the
  world, raft's in-memory log the parameter \<open>mem_apply\<close>.
\<close>

section \<open>Clearing a group\<close>

definition wipe_step :: "u32 \<Rightarrow> u32 \<Rightarrow> batch callback" where
  "wipe_step g ng b k v =
     (case key_group_of k ng of
        Inl e \<Rightarrow> (Inl e, b)
      | Inr kg \<Rightarrow> (Inr True, if kg = g then bdelete k b else b))"

fun wipe_ranges :: "env \<Rightarrow> 'z node_scheme \<Rightarrow> u32 \<Rightarrow> u32 \<Rightarrow> key_range list \<Rightarrow> batch \<Rightarrow> err + batch" where
  "wipe_ranges E s g ng [] b = Inr b"
| "wipe_ranges E s g ng (r # rs) b =
     (if g = meta_group then wipe_ranges E s g ng rs (bdelete_range (kr_lower r) (upper_bytes r) b)
      else case st_scan E s (kr_lower r) (kr_upper r) 0 (wipe_step g ng) b of
             (Inl e, b') \<Rightarrow> Inl e
           | (Inr u, b') \<Rightarrow> wipe_ranges E s g ng rs b')"

definition wipe_group_keys :: "env \<Rightarrow> u32 \<Rightarrow> u32 \<Rightarrow> 'z node_scheme \<Rightarrow> (err + unit) \<times> 'z node_scheme" where
  "wipe_group_keys E g ng s =
     (case ebind (group_key_ranges g) (\<lambda>rs. wipe_ranges E s g ng rs new_batch) of
        Inl e \<Rightarrow> (Inl e, s)
      | Inr b \<Rightarrow> apply_with E b s)"

text \<open>Whether a group has any key: what a joining node asks its seeds.\<close>

definition has_key_step :: "u32 \<Rightarrow> u32 \<Rightarrow> bool callback" where
  "has_key_step g ng found k v =
     (if g = meta_group then (Inr False, True)
      else case key_group_of k ng of
             Inl e \<Rightarrow> (Inl e, found)
           | Inr kg \<Rightarrow> if kg \<noteq> g then (Inr True, found) else (Inr False, True))"

fun group_has_keys_in :: "env \<Rightarrow> 'z node_scheme \<Rightarrow> u32 \<Rightarrow> u32 \<Rightarrow> key_range list \<Rightarrow> err + bool" where
  "group_has_keys_in E s g ng [] = Inr False"
| "group_has_keys_in E s g ng (r # rs) =
     (case st_scan E s (kr_lower r) (kr_upper r) 0 (has_key_step g ng) False of
        (Inl e, found) \<Rightarrow> Inl e
      | (Inr u, found) \<Rightarrow> if found then Inr True else group_has_keys_in E s g ng rs)"

definition group_has_keys :: "env \<Rightarrow> 'z node_scheme \<Rightarrow> u32 \<Rightarrow> u32 \<Rightarrow> err + bool" where
  "group_has_keys E s g ng = ebind (group_key_ranges g) (\<lambda>rs. group_has_keys_in E s g ng rs)"

section \<open>Pulling the chunks\<close>

definition max_snapshot_chunks :: nat where
  "max_snapshot_chunks = 2 ^ 16"

definition max_snapshot_bytes :: int where
  "max_snapshot_bytes = 256 * 2 ^ 30"

type_synonym 'w control = "u64 \<Rightarrow> bytes \<Rightarrow> 'w \<Rightarrow> (err + bytes) \<times> 'w"

definition on_node :: "('s \<Rightarrow> ('e + 'a) \<times> 's) \<Rightarrow> 's \<times> 'w \<Rightarrow> ('e + 'a) \<times> 's \<times> 'w" where
  "on_node f p = (case f (fst p) of (r, s) \<Rightarrow> (r, s, snd p))"

definition on_world :: "('w \<Rightarrow> ('e + 'a) \<times> 'w) \<Rightarrow> 's \<times> 'w \<Rightarrow> ('e + 'a) \<times> 's \<times> 'w" where
  "on_world f p = (case f (snd p) of (r, w) \<Rightarrow> (r, fst p, w))"

definition set_pairs :: "(bytes \<times> bytes) list \<Rightarrow> batch" where
  "set_pairs pairs = foldl (\<lambda>b (k, v). bset k v b) new_batch pairs"

text \<open>\<open>n\<close> counts the chunks that may still be pulled, from \<open>maxSnapshotChunks\<close> down.\<close>

fun pull_chunks ::
    "env \<Rightarrow> 'w control \<Rightarrow> u32 \<Rightarrow> snap_descriptor \<Rightarrow> nat \<Rightarrow> bytes option \<Rightarrow> int \<Rightarrow> 'z node_scheme \<times> 'w
      \<Rightarrow> (err + unit) \<times> 'z node_scheme \<times> 'w" where
  "pull_chunks E ctl g desc 0 cursor nbytes = sfail ErrTooManyChunks"
| "pull_chunks E ctl g desc (Suc n) cursor nbytes =
     sbind (on_world (ctl (sd_leader desc) (encode_snap_fetch_req g (sd_id desc) (case cursor of None \<Rightarrow> [] | Some c \<Rightarrow> c))))
       (\<lambda>resp. sbind (slift (\<lambda>_. decode_snap_fetch_resp resp)) (\<lambda>(fin, nxt, chunk).
          if \<not> fin \<and> (case cursor of None \<Rightarrow> False | Some c \<Rightarrow> nxt \<le> c)
          then sfail (ErrCursorStuck nxt (the cursor))
          else
            sbind (slift (\<lambda>_. decode_chunk chunk)) (\<lambda>pairs.
            sbind (if pairs = [] then sret nbytes
                   else sbind (on_node (apply_with E (set_pairs pairs))) (\<lambda>_.
                     let total = nbytes + total_bytes pairs
                     in if max_snapshot_bytes < total then sfail (ErrTooManyBytes total) else sret total))
              (\<lambda>total. if fin then sret () else pull_chunks E ctl g desc n (Some nxt) total))))"

definition pull_snapshot_chunks ::
    "env \<Rightarrow> 'w control \<Rightarrow> u32 \<Rightarrow> snap_descriptor \<Rightarrow> 'z node_scheme \<times> 'w \<Rightarrow> (err + unit) \<times> 'z node_scheme \<times> 'w" where
  "pull_snapshot_chunks E ctl g desc = pull_chunks E ctl g desc max_snapshot_chunks None 0"

section \<open>Installing\<close>

record 'm raft_group = node +
  gr_mem :: 'm
  gr_applied :: u64
  gr_conf :: conf_state

text \<open>The batch that makes the installation complete: applied index, membership, anchor, no marker.\<close>

definition finish_batch :: "meta_codec \<Rightarrow> u32 \<Rightarrow> snap_meta \<Rightarrow> err + batch" where
  "finish_batch c g meta =
     ebind (write_conf_state c g (mt_conf meta) (mt_index meta) new_batch) (\<lambda>b.
     ebind (write_snap_meta c g meta b) (\<lambda>b. Inr (delete_installing_key g b)))"

definition finish_in_memory :: "(snap_meta \<Rightarrow> 'm \<Rightarrow> err + 'm) \<Rightarrow> snap_meta \<Rightarrow> 'm raft_group \<Rightarrow> (err + unit) \<times> 'm raft_group" where
  "finish_in_memory mem_apply meta s =
     (case mem_apply meta (gr_mem s) of
        Inl e \<Rightarrow> (Inl e, s)
      | Inr m \<Rightarrow> (Inr (), s\<lparr>gr_mem := m, gr_applied := mt_index meta, gr_conf := mt_conf meta\<rparr>))"

definition install_snapshot ::
    "env \<Rightarrow> meta_codec \<Rightarrow> (snap_meta \<Rightarrow> 'm \<Rightarrow> err + 'm) \<Rightarrow> 'w control \<Rightarrow> u32 \<Rightarrow> u32 \<Rightarrow> bytes \<Rightarrow> snap_meta
      \<Rightarrow> 'm raft_group \<times> 'w \<Rightarrow> (err + unit) \<times> 'm raft_group \<times> 'w" where
  "install_snapshot E c mem_apply ctl g ng data meta =
     sbind (slift (\<lambda>_. decode_snap_descriptor data)) (\<lambda>desc.
     sbind (on_node (mark_installing E c g meta)) (\<lambda>_.
     sbind (on_node (wipe_group_keys E g ng)) (\<lambda>_.
     sbind (pull_snapshot_chunks E ctl g desc) (\<lambda>_.
     sbind (slift (\<lambda>_. finish_batch c g meta)) (\<lambda>b.
     sbind (on_node (apply_with E b)) (\<lambda>_.
     on_node (finish_in_memory mem_apply meta)))))))"

section \<open>Clearing removes exactly the group\<close>

definition deletes :: "u32 \<Rightarrow> u32 \<Rightarrow> (bytes \<times> bytes) list \<Rightarrow> batch \<Rightarrow> batch" where
  "deletes g ng xs b = foldl (\<lambda>b (k, v). if key_group_of k ng = Inr g then bdelete k b else b) b xs"

lemma deletes_simps [simp]:
  "deletes g ng [] b = b"
  "deletes g ng ((k, v) # xs) b = deletes g ng xs (if key_group_of k ng = Inr g then bdelete k b else b)"
  by (simp_all add: deletes_def)

lemma wipe_scan:
  "\<forall>(k, v)\<in>set xs. is_ok (key_group_of k ng) \<Longrightarrow>
    Store.scan_loop (Inr ()) 0 n (wipe_step g ng) xs b = (Inr (), deletes g ng xs b)"
proof (induction xs arbitrary: n b)
  case (Cons p xs)
  then obtain kg where "key_group_of (fst p) ng = Inr kg" by (cases p) (auto elim: is_okE)
  then show ?case using Cons by (cases p) (auto simp: wipe_step_def)
qed simp

lemma kv_get_deletes:
  "kv_get (apply_batch (deletes g ng xs b) m) k =
    (if k \<in> fst ` set xs \<and> key_group_of k ng = Inr g then None else kv_get (apply_batch b m) k)"
proof (induction xs arbitrary: b)
  case (Cons p xs)
  then show ?case by (cases p) (simp add: kv_simps)
qed simp

lemma wipe_ranges_data:
  assumes "reads_ok E" "g \<noteq> meta_group"
    "\<forall>r\<in>set rs. \<forall>(k, v)\<in>set (kv_range (kr_lower r) (kr_upper r) (db s)). is_ok (key_group_of k ng)"
  obtains b' where "wipe_ranges E s g ng rs b = Inr b'"
    "\<And>m k. kv_get (apply_batch b' m) k =
      (if (\<exists>r\<in>set rs. k \<in> fst ` set (kv_range (kr_lower r) (kr_upper r) (db s))) \<and> key_group_of k ng = Inr g
       then None else kv_get (apply_batch b m) k)"
proof -
  have "\<exists>b'. wipe_ranges E s g ng rs b = Inr b' \<and>
    (\<forall>m k. kv_get (apply_batch b' m) k =
      (if (\<exists>r\<in>set rs. k \<in> fst ` set (kv_range (kr_lower r) (kr_upper r) (db s))) \<and> key_group_of k ng = Inr g
       then None else kv_get (apply_batch b m) k))"
    using assms(3)
  proof (induction rs arbitrary: b)
    case (Cons r rs)
    let ?xs = "kv_range (kr_lower r) (kr_upper r) (db s)"
    have "st_scan E s (kr_lower r) (kr_upper r) 0 (wipe_step g ng) b = (Inr (), deletes g ng ?xs b)"
      using assms(1) Cons.prems wipe_scan [of ?xs ng 0 g b] by (simp add: st_scan_def reads_ok_def)
    moreover obtain b' where "wipe_ranges E s g ng rs (deletes g ng ?xs b) = Inr b'"
      "\<forall>m k. kv_get (apply_batch b' m) k =
        (if (\<exists>r\<in>set rs. k \<in> fst ` set (kv_range (kr_lower r) (kr_upper r) (db s))) \<and> key_group_of k ng = Inr g
         then None else kv_get (apply_batch (deletes g ng ?xs b) m) k)"
      using Cons.IH [of "deletes g ng ?xs b"] Cons.prems by auto
    ultimately show ?case using assms(2) by (intro exI [of _ b']) (simp add: kv_get_deletes)
  qed simp
  then show thesis using that by blast
qed

lemma wipe_ranges_meta:
  "ordered_ranges rs \<Longrightarrow> \<exists>b'. wipe_ranges E s meta_group ng rs b = Inr b' \<and>
    (\<forall>m k. kv_get (apply_batch b' m) k =
      (if \<exists>r\<in>set rs. in_range (kr_lower r) (kr_upper r) k then None else kv_get (apply_batch b m) k))"
proof (induction rs arbitrary: b)
  case (Cons r rs)
  obtain b' where "wipe_ranges E s meta_group ng rs (bdelete_range (kr_lower r) (upper_bytes r) b) = Inr b'"
    "\<forall>m k. kv_get (apply_batch b' m) k =
      (if \<exists>r\<in>set rs. in_range (kr_lower r) (kr_upper r) k then None
       else kv_get (apply_batch (bdelete_range (kr_lower r) (upper_bytes r) b) m) k)"
    using Cons.IH [of "bdelete_range (kr_lower r) (upper_bytes r) b"] Cons.prems by auto
  moreover have "in_range (kr_lower r) (kr_upper r) k \<longleftrightarrow> kr_lower r \<le> k \<and> k < upper_bytes r" for k
    using Cons.prems by (simp add: in_range_def)
  ultimately show ?case by (intro exI [of _ b']) (simp add: kv_simps)
qed simp

lemma wipe_exact:
  assumes "reads_ok E" "writes_ok E" "kv_ok (db s)" "parsable g ng (db s)"
  obtains b where "wipe_group_keys E g ng s = (Inr (), set_db (apply_batch b (db s)) s)"
    "\<And>k. kv_get (apply_batch b (db s)) k = (if in_group g ng k then None else kv_get (db s) k)"
proof -
  obtain rs where rs: "group_key_ranges g = Inr rs" "ordered_ranges rs"
      "\<And>k. (\<exists>r\<in>set rs. in_range (kr_lower r) (kr_upper r) k) \<longleftrightarrow> (\<exists>p\<in>set (group_families g). prefix p k)"
    by (rule group_ranges) blast
  show thesis
  proof (cases "g = meta_group")
    case True
    obtain b where b: "wipe_ranges E s meta_group ng rs new_batch = Inr b"
      "\<forall>m k. kv_get (apply_batch b m) k =
        (if \<exists>r\<in>set rs. in_range (kr_lower r) (kr_upper r) k then None else kv_get (apply_batch new_batch m) k)"
      using wipe_ranges_meta [OF rs(2)] by blast
    show ?thesis
      by (rule that [of b])
        (use True b rs assms(2) in \<open>simp_all add: wipe_group_keys_def apply_with_succeeds in_group_def kv_simps\<close>)
  next
    case False
    have "\<forall>r\<in>set rs. \<forall>(k, v)\<in>set (kv_range (kr_lower r) (kr_upper r) (db s)). is_ok (key_group_of k ng)"
      using assms(4) False rs(3) by (fastforce simp: parsable_def kv_range_def)
    from wipe_ranges_data [OF assms(1) False this, of new_batch] obtain b where b:
      "wipe_ranges E s g ng rs new_batch = Inr b"
      "\<And>m k. kv_get (apply_batch b m) k =
        (if (\<exists>r\<in>set rs. k \<in> fst ` set (kv_range (kr_lower r) (kr_upper r) (db s))) \<and> key_group_of k ng = Inr g
         then None else kv_get (apply_batch new_batch m) k)"
      by blast
    have mem: "k \<in> fst ` set (kv_range lo hi (db s)) \<longleftrightarrow> kv_get (db s) k \<noteq> None \<and> in_range lo hi k" for k lo hi
    proof -
      have "k \<in> fst ` set (kv_range lo hi (db s)) \<longleftrightarrow> (\<exists>v. (k, v) \<in> set (kv_range lo hi (db s)))" by force
      then show ?thesis by (auto simp: kv_range_mem [OF assms(3)])
    qed
    have "kv_get (apply_batch b (db s)) k = (if in_group g ng k then None else kv_get (db s) k)" for k
      unfolding b(2) mem in_group_def rs(3) [symmetric] using False by (auto simp: kv_simps)
    then show ?thesis
      using that b(1) rs(1) assms(2) by (simp add: wipe_group_keys_def apply_with_succeeds)
  qed
qed

text \<open>Whatever fails, clearing touches nothing but keys of the group's families.\<close>

lemma scan_deletes:
  assumes "Store.scan_loop at_end 0 n (wipe_step g ng) xs b = (r, b')"
  shows "\<forall>x\<in>set b'. x \<in> set b \<or> (\<exists>k\<in>fst ` set xs. x = BDelete k)"
  using assms
proof (induction xs arbitrary: n b)
  case (Cons p xs)
  obtain k v where p: "p = (k, v)" by (cases p)
  show ?case
  proof (cases "key_group_of k ng")
    case (Inl e)
    then show ?thesis using Cons.prems by (simp add: p wipe_step_def)
  next
    case (Inr kg)
    then have st: "wipe_step g ng b k v = (Inr True, if kg = g then bdelete k b else b)" by (simp add: wipe_step_def)
    then have "Store.scan_loop at_end 0 (n + 1) (wipe_step g ng) xs (if kg = g then bdelete k b else b) = (r, b')"
      using Cons.prems st by (simp add: p)
    from Cons.IH [OF this] show ?thesis by (auto simp: p bdelete_def split: if_splits)
  qed
qed simp

lemma wipe_ranges_ops:
  "wipe_ranges E s g ng rs b = Inr b' \<Longrightarrow> ordered_ranges rs \<Longrightarrow>
    \<forall>x\<in>set b'. x \<in> set b \<or> (\<forall>k. op_hits x k \<longrightarrow> (\<exists>r\<in>set rs. in_range (kr_lower r) (kr_upper r) k))"
proof (induction rs arbitrary: b)
  case (Cons r rs)
  show ?case
  proof (cases "g = meta_group")
    case True
    then have "wipe_ranges E s g ng rs (bdelete_range (kr_lower r) (upper_bytes r) b) = Inr b'" using Cons.prems by simp
    from Cons.IH [OF this] show ?thesis using Cons.prems(2) by (auto simp: bdelete_range_def in_range_def)
  next
    case False
    obtain u b1 where sc: "st_scan E s (kr_lower r) (kr_upper r) 0 (wipe_step g ng) b = (Inr u, b1)" "wipe_ranges E s g ng rs b1 = Inr b'"
      using Cons.prems(1) False by (auto split: prod.splits sum.splits)
    have "\<forall>x\<in>set b1. x \<in> set b \<or> (\<exists>k. x = BDelete k \<and> in_range (kr_lower r) (kr_upper r) k)"
      using sc(1) scan_deletes [of _ 0 g ng "kv_range (kr_lower r) (kr_upper r) (db s)" b]
      by (fastforce simp: st_scan_def kv_range_def split: if_splits)
    then show ?thesis using Cons.IH [OF sc(2)] Cons.prems(2) by fastforce
  qed
qed simp

lemma raft_not_family: "prefix p k \<Longrightarrow> p \<in> set (group_families g) \<Longrightarrow> \<not> prefix raft_prefix k"
proof -
  assume "prefix p k" "p \<in> set (group_families g)"
  moreover have "\<forall>p\<in>set (meta_families @ data_families). hd p \<noteq> hd raft_prefix \<and> p \<noteq> []" by code_simp
  ultimately show ?thesis
    by (auto simp: group_families_def prefix_def raft_prefix_def split: if_splits)
      (metis UnI1 UnI2 hd_append2 list.sel(1))+
qed

lemma wipe_keeps_raft:
  assumes "wipe_group_keys E g ng s = (r, s')" "prefix raft_prefix k"
  shows "kv_get (db s') k = kv_get (db s) k"
proof -
  obtain rs where rs: "group_key_ranges g = Inr rs" "ordered_ranges rs"
      "\<And>k. (\<exists>r\<in>set rs. in_range (kr_lower r) (kr_upper r) k) \<longleftrightarrow> (\<exists>p\<in>set (group_families g). prefix p k)"
    by (rule group_ranges) blast
  show ?thesis
  proof (cases "wipe_ranges E s g ng rs new_batch")
    case (Inl e)
    then show ?thesis using assms(1) rs(1) by (simp add: wipe_group_keys_def)
  next
    case (Inr b)
    then have "apply_with E b s = (r, s')" using assms(1) rs(1) by (simp add: wipe_group_keys_def)
    moreover have "\<not> op_hits x k" if x: "x \<in> set b" for x
    proof
      assume "op_hits x k"
      then have "\<exists>r\<in>set rs. in_range (kr_lower r) (kr_upper r) k"
        using wipe_ranges_ops [OF Inr rs(2)] x by (auto simp: new_batch_def)
      then obtain p where "p \<in> set (group_families g)" "prefix p k" unfolding rs(3) by blast
      then show False using raft_not_family assms(2) by blast
    qed
    ultimately show ?thesis using apply_batch_frame [of b k "db s"] by (auto dest!: apply_with_db)
  qed
qed

section \<open>The chunks that arrive\<close>

definition put_pairs :: "(bytes \<times> bytes) list \<Rightarrow> kv \<Rightarrow> kv" where
  "put_pairs ps m = apply_batch (set_pairs ps) m"

lemma set_pairs_eq: "set_pairs ps = List.map (\<lambda>(k, v). BSet k v) ps"
  by (induction ps rule: rev_induct) (auto simp: set_pairs_def new_batch_def bset_def)

lemma put_pairs_append: "put_pairs (ps @ qs) m = put_pairs qs (put_pairs ps m)"
  by (simp add: put_pairs_def set_pairs_eq apply_batch_append)

lemma put_pairs_Nil [simp]: "put_pairs [] m = m"
  by (simp add: put_pairs_def set_pairs_eq kv_simps)

lemma kv_get_put_pairs:
  "distinct (List.map fst ps) \<Longrightarrow> kv_get (put_pairs ps m) k = (case map_of ps k of None \<Rightarrow> kv_get m k | Some v \<Rightarrow> Some v)"
proof (induction ps arbitrary: m)
  case (Cons p ps)
  have "put_pairs (p # ps) m = put_pairs ps (kv_set (fst p) (snd p) m)"
    by (cases p) (simp add: put_pairs_def set_pairs_eq apply_batch_Cons)
  moreover have "map_of ps (fst p) = None" using Cons.prems by (simp add: map_of_eq_None_iff)
  ultimately show ?case using Cons by (cases p) (auto simp: kv_simps split: option.split)
qed simp

lemma kv_ok_put_pairs [simp]: "kv_ok m \<Longrightarrow> kv_ok (put_pairs ps m)"
  by (simp add: put_pairs_def)

lemma put_pairs_keeps: "kv_get m k \<noteq> None \<Longrightarrow> kv_get (put_pairs ps m) k \<noteq> None"
proof (induction ps arbitrary: m)
  case (Cons p ps)
  have "put_pairs (p # ps) m = put_pairs ps (kv_set (fst p) (snd p) m)"
    by (cases p) (simp add: put_pairs_def set_pairs_eq apply_batch_Cons)
  then show ?case using Cons by (simp add: kv_simps)
qed simp

text \<open>The peer: a node whose registry holds a view, asked through its handler.\<close>

definition serves :: "registry \<Rightarrow> u64 \<Rightarrow> read_view \<Rightarrow> bool" where
  "serves R i view \<longleftrightarrow> (\<exists>e. kv_get (rg_views R) i = Some e \<and> se_view e = view \<and> \<not> se_revoked e)"

definition peer :: "env \<Rightarrow> u32 \<Rightarrow> int \<Rightarrow> int \<Rightarrow> registry control" where
  "peer E ng chunk_bytes now leader req R = handle_fetch_snapshot E ng chunk_bytes now req R"

lemma peer_answers:
  assumes "serves R (sd_id desc) view" "g \<le> ng" "length cursor < 2 ^ 32 - 16"
  obtains R' where "peer E ng B now (sd_leader desc) (encode_snap_fetch_req g (sd_id desc) cursor) R = (fetch_chunk E view g ng B cursor, R')"
    "serves R' (sd_id desc) view"
proof -
  obtain e where e: "kv_get (rg_views R) (sd_id desc) = Some e" "se_view e = view" "\<not> se_revoked e"
    using assms(1) by (auto simp: serves_def)
  let ?R1 = "R\<lparr>rg_views := kv_set (sd_id desc) (e\<lparr>se_refs := se_refs e + 1, se_created := now\<rparr>) (rg_views R)\<rparr>"
  have got: "reg_get now (sd_id desc) R = (Some view, ?R1)" using e by (simp add: reg_get_def)
  have "unat (of_nat (length cursor) :: u32) = length cursor" using assms(3) by (intro be_u32_len) simp
  then have "peer E ng B now (sd_leader desc) (encode_snap_fetch_req g (sd_id desc) cursor) R =
      (fetch_chunk E view g ng B cursor, reg_put (sd_id desc) ?R1)"
    using leD [OF assms(2)] got by (simp add: peer_def handle_fetch_snapshot_def encode_snap_fetch_req_def Let_def)
  moreover have "serves (reg_put (sd_id desc) ?R1) (sd_id desc) view"
    using e by (simp add: serves_def reg_put_def kv_simps)
  ultimately show thesis by (rule that)
qed

lemma pull_succeeds:
  assumes "reads_ok P" "\<not> closed view" "kv_ok (snap view)" "parsable g ng (snap view)" "g \<le> ng"
    and "writes_ok E" "0 < B" "B \<le> 2 ^ 30"
    and small: "\<forall>p\<in>set (group_pairs g ng (snap view)). pair_bytes p \<le> 2 ^ 30"
    and cur: "case cursor of None \<Rightarrow> left = group_pairs g ng (snap view)
         | Some c \<Rightarrow> left = rest_pairs g ng (Some c) (snap view) \<and> int (length c) \<le> 2 ^ 30"
    and room: "total_bytes left \<le> (int n - 1) * chunk_floor B" "nbytes + total_bytes left \<le> max_snapshot_bytes"
    and srv: "serves R (sd_id desc) view"
  obtains R' where "pull_chunks E (peer P ng B now) g desc n cursor nbytes (s, R) =
      (Inr (), set_db (put_pairs left (db s)) s, R')"
proof -
  have floor: "0 < chunk_floor B" using assms(7) by (simp add: chunk_floor_def snapshot_chunk_keys_def)
  have "\<exists>R'. pull_chunks E (peer P ng B now) g desc n cursor nbytes (s, R) = (Inr (), set_db (put_pairs left (db s)) s, R')"
    using cur room srv
  proof (induction n arbitrary: cursor left nbytes s R)
    case 0
    have "(int 0 - 1) * chunk_floor B < 0" using floor by simp
    then show ?case using 0 total_bytes_nonneg [of left] by linarith
  next
    case (Suc n)
    define c where "c = (case cursor of None \<Rightarrow> [] | Some c \<Rightarrow> c)"
    have left: "left = rest_pairs g ng (Some c) (snap view)" "int (length c) \<le> 2 ^ 30"
    proof -
      have "[] < k" if "in_group g ng k" for k
      proof -
        have "\<forall>p\<in>set (meta_families @ data_families). p \<noteq> []" by code_simp
        then have "k \<noteq> []" using that by (auto simp: in_group_def group_families_def split: if_splits)
        then show ?thesis by (cases k) simp_all
      qed
      then have "rest_pairs g ng (Some []) (snap view) = group_pairs g ng (snap view)"
        unfolding rest_pairs_def by (intro filter_True) (auto simp: group_pairs_def after_def)
      then show "left = rest_pairs g ng (Some c) (snap view)" "int (length c) \<le> 2 ^ 30"
        using Suc.prems(1) by (auto simp: c_def split: option.splits)
    qed
    have cl: "length c < 2 ^ 32 - 16" using left(2) by simp
    obtain R1 where R1: "peer P ng B now (sd_leader desc) (encode_snap_fetch_req g (sd_id desc) c) R = (fetch_chunk P view g ng B c, R1)"
        "serves R1 (sd_id desc) view"
      by (rule peer_answers [OF Suc.prems(4) assms(5) cl]) blast
    obtain fin nxt ys zs where f: "fetch_chunk P view g ng B c = Inr (fetch_response fin nxt ys)" "left = ys @ zs"
        "total_bytes ys < B + 2 ^ 30"
        "nxt = (if ys = [] then [] else fst (last ys))" "if fin then zs = [] else ys \<noteq> [] \<and> chunk_floor B \<le> total_bytes ys"
      by (rule fetch_chunk_ok [OF assms(1-4,7) _ small, of c, folded left(1)]) (simp, blast)
    have mem: "p \<in> set ys \<Longrightarrow> p \<in> set (group_pairs g ng (snap view)) \<and> c < fst p" for p
    proof -
      assume "p \<in> set ys"
      then have "p \<in> set (rest_pairs g ng (Some c) (snap view))" using f(2) left(1) by (metis UnI1 set_append)
      then show ?thesis by (auto simp: rest_pairs_def after_def)
    qed
    have nl: "int (length nxt) \<le> 2 ^ 30 - 8"
      using f(4) mem [of "last ys"] small by (cases "ys = []") (auto simp: pair_bytes_def)
    have dec: "decode_snap_fetch_resp (fetch_response fin nxt ys) = Inr (fin, nxt, encode_chunk ys)"
      by (rule decode_fetch_response) (use nl f(3) assms(8) in simp)
    have chunk: "decode_chunk (encode_chunk ys) = Inr ys"
      by (rule decode_encode_chunk) (use f(3) assms(8) in simp)
    have stuck: "\<not> (\<not> fin \<and> (case cursor of None \<Rightarrow> False | Some c \<Rightarrow> nxt \<le> c))"
    proof (cases fin)
      case False
      then have "last ys \<in> set ys" "nxt = fst (last ys)" using f(4,5) by auto
      then have "c < nxt" using mem [of "last ys"] by simp
      then show ?thesis by (auto simp: c_def not_le split: option.splits)
    qed simp
    have fits: "\<not> max_snapshot_bytes < nbytes + total_bytes ys"
      using Suc.prems(3) total_bytes_nonneg [of zs] unfolding f(2) total_bytes_simps by linarith
    have ctl: "peer P ng B now (sd_leader desc) (encode_snap_fetch_req g (sd_id desc) (case cursor of None \<Rightarrow> [] | Some c \<Rightarrow> c)) R =
        (Inr (fetch_response fin nxt ys), R1)"
      using R1(1) f(1) by (simp add: c_def)
    have step: "pull_chunks E (peer P ng B now) g desc (Suc n) cursor nbytes (s, R) =
        (if fin then (Inr (), set_db (put_pairs ys (db s)) s, R1)
         else pull_chunks E (peer P ng B now) g desc n (Some nxt) (nbytes + total_bytes ys) (set_db (put_pairs ys (db s)) s, R1))"
      using ctl dec chunk stuck fits apply_with_succeeds [OF assms(6), of "set_pairs ys" s]
      by (cases fin) (simp_all add: sbind_def slift_def sret_def sfail_def on_world_def on_node_def Let_def put_pairs_def [symmetric])
    show ?case
    proof (cases fin)
      case True
      then show ?thesis using step f(2,5) by simp
    next
      case False
      have zs: "zs = rest_pairs g ng (Some nxt) (snap view)"
        using rest_pairs_step [OF assms(3), of g ng "Some c" ys zs] f(2,4,5) left(1) False by simp
      have "\<exists>R'. pull_chunks E (peer P ng B now) g desc n (Some nxt) (nbytes + total_bytes ys) (set_db (put_pairs ys (db s)) s, R1) =
          (Inr (), set_db (put_pairs zs (db (set_db (put_pairs ys (db s)) s))) (set_db (put_pairs ys (db s)) s), R')"
      proof (rule Suc.IH)
        show "case Some nxt of None \<Rightarrow> zs = group_pairs g ng (snap view)
            | Some c \<Rightarrow> zs = rest_pairs g ng (Some c) (snap view) \<and> int (length c) \<le> 2 ^ 30"
          using zs nl by simp
        show "total_bytes zs \<le> (int n - 1) * chunk_floor B"
          using Suc.prems(2) f(2,5) False by (simp add: algebra_simps)
        show "nbytes + total_bytes ys + total_bytes zs \<le> max_snapshot_bytes" using Suc.prems(3) f(2) by simp
        show "serves R1 (sd_id desc) view" by (rule R1(2))
      qed
      then show ?thesis using step False f(2) by (auto simp: put_pairs_append set_db_def)
    qed
  qed
  then show thesis using that by blast
qed

section \<open>The whole installation\<close>

lemma parsable_get:
  "kv_ok m \<Longrightarrow> parsable g ng m \<longleftrightarrow> g = meta_group \<or>
    (\<forall>k. kv_get m k \<noteq> None \<longrightarrow> (\<exists>p\<in>set (group_families g). prefix p k) \<longrightarrow> is_ok (key_group_of k ng))"
  unfolding parsable_def by (fastforce simp: kv_mem)

lemma raft_keys_prefix [simp]:
  "prefix raft_prefix (conf_key g)" "prefix raft_prefix (applied_key g)" "prefix raft_prefix (snap_key g)"
  "prefix raft_prefix (snap_install_key g)" "prefix raft_prefix (hs_key g)" "prefix raft_prefix (ent_key g i)"
  by (simp_all add: conf_key_def applied_key_def snap_key_def snap_install_key_def hs_key_def ent_key_def ent_prefix_def group_key_def)

lemma raft_not_in_group [simp]: "prefix raft_prefix k \<Longrightarrow> \<not> in_group g ng k"
  using raft_not_family by (auto simp: in_group_def)

lemma map_of_group_pairs: "map_of (group_pairs g ng m) k = (if in_group g ng k then kv_get m k else None)"
  using kv_get_filter [of "in_group g ng" m k] by (simp add: group_pairs_def kv_get_def)

text \<open>The complete state an installation leaves in the store.\<close>

definition installed :: "meta_codec \<Rightarrow> u32 \<Rightarrow> snap_meta \<Rightarrow> kv \<Rightarrow> bool" where
  "installed c g meta m \<longleftrightarrow>
     kv_get m (conf_key g) = enc_conf c (mt_conf meta) \<and> kv_get m (applied_key g) = Some (put_u64 (mt_index meta)) \<and>
     kv_get m (snap_key g) = enc_meta c meta \<and> kv_get m (snap_install_key g) = None"

lemma finish_batch_ok:
  "finish_batch c g meta = Inr b \<longleftrightarrow> (\<exists>cb mb. enc_conf c (mt_conf meta) = Some cb \<and> enc_meta c meta = Some mb \<and>
    b = bdelete (snap_install_key g) (bset (snap_key g) mb (bset (applied_key g) (put_u64 (mt_index meta)) (bset (conf_key g) cb new_batch))))"
  by (auto simp: finish_batch_def ebind_Inr write_conf_state_def write_snap_meta_def delete_installing_key_def split: option.split)

lemma finish_installed: "finish_batch c g meta = Inr b \<Longrightarrow> installed c g meta (apply_batch b m)"
  by (auto simp: finish_batch_ok installed_def kv_simps)

lemma finish_frame:
  "finish_batch c g meta = Inr b \<Longrightarrow> k \<notin> {conf_key g, applied_key g, snap_key g, snap_install_key g} \<Longrightarrow>
    kv_get (apply_batch b m) k = kv_get m k"
  by (auto simp: finish_batch_ok kv_simps)

text \<open>C12: a snapshot arrives whole.  A node that pulls the chunks of a view its peer has registered,
  from the peer's own handler and whatever the chunk size, ends with exactly the view's pairs in
  the group's key space: each once, none of the old ones left, none of another group's keys
  touched, the applied index, membership and anchor of the snapshot in place and the install
  marker gone.
\<close>

theorem snapshot_install_exact:
  assumes "reads_ok P" "\<not> closed view" "kv_ok (snap view)" "parsable g ng (snap view)" "serves R i view"
    and "reads_ok E" "writes_ok E" "kv_ok (db s)" "parsable g ng (db s)" "g \<le> ng"
    and "0 < B" "B \<le> 2 ^ 30" "\<forall>p\<in>set (group_pairs g ng (snap view)). pair_bytes p \<le> 2 ^ 30"
    and "total_bytes (group_pairs g ng (snap view)) \<le> min max_snapshot_bytes (65535 * chunk_floor B)"
    and "enc_conf c (mt_conf meta) = Some cb" "enc_meta c meta = Some mb" "mem_apply meta (gr_mem s) = Inr m"
  shows "\<exists>s' R'. install_snapshot E c mem_apply (peer P ng B now) g ng
        (encode_snap_descriptor \<lparr>sd_id = i, sd_leader = leader, sd_index = index\<rparr>) meta (s, R) = (Inr (), s', R') \<and>
      gr_mem s' = m \<and> gr_applied s' = mt_index meta \<and> gr_conf s' = mt_conf meta \<and> installed c g meta (db s') \<and>
      (\<forall>k. k \<notin> {conf_key g, applied_key g, snap_key g, snap_install_key g} \<longrightarrow>
        kv_get (db s') k = (if in_group g ng k then kv_get (snap view) k else kv_get (db s) k))"
proof -
  let ?desc = "\<lparr>sd_id = i, sd_leader = leader, sd_index = index\<rparr>"
  let ?G = "group_pairs g ng (snap view)"
  let ?s1 = "set_db (kv_set (snap_install_key g) mb (db s)) s"
  have mark: "mark_installing E c g meta s = (Inr (), ?s1)"
    by (simp add: mark_installing_def assms(16) apply_with_succeeds [OF assms(7)] kv_simps)
  have ok1: "kv_ok (db ?s1)" using assms(8) by simp
  have par1: "parsable g ng (db ?s1)"
    using assms(9) raft_not_family [of _ "snap_install_key g"] unfolding parsable_get [OF ok1] parsable_get [OF assms(8)]
    by (auto simp: kv_simps)
  obtain b1 where wipe: "wipe_group_keys E g ng ?s1 = (Inr (), set_db (apply_batch b1 (db ?s1)) ?s1)"
      "\<And>k. kv_get (apply_batch b1 (db ?s1)) k = (if in_group g ng k then None else kv_get (db ?s1) k)"
    by (rule wipe_exact [OF assms(6,7) ok1 par1]) blast
  let ?s2 = "set_db (apply_batch b1 (db ?s1)) ?s1"
  have room: "total_bytes ?G \<le> (int max_snapshot_chunks - 1) * chunk_floor B" "0 + total_bytes ?G \<le> max_snapshot_bytes"
    using assms(14) by (simp_all add: max_snapshot_chunks_def)
  have c0: "case None of None \<Rightarrow> ?G = group_pairs g ng (snap view)
      | Some c \<Rightarrow> ?G = rest_pairs g ng (Some c) (snap view) \<and> int (length c) \<le> 2 ^ 30" by simp
  have srv: "serves R (sd_id ?desc) view" using assms(5) by simp
  obtain R' where pull: "pull_chunks E (peer P ng B now) g ?desc max_snapshot_chunks None 0 (?s2, R) =
      (Inr (), set_db (put_pairs ?G (db ?s2)) ?s2, R')"
    by (rule pull_succeeds [OF assms(1-4,10,7,11-13) c0 room srv]) blast
  let ?s3 = "set_db (put_pairs ?G (db ?s2)) ?s2"
  obtain b where fb: "finish_batch c g meta = Inr b" using assms(15,16) by (auto simp: finish_batch_ok)
  let ?s4 = "set_db (apply_batch b (db ?s3)) ?s3"
  let ?s5 = "?s4\<lparr>gr_mem := m, gr_applied := mt_index meta, gr_conf := mt_conf meta\<rparr>"
  have "finish_in_memory mem_apply meta ?s4 = (Inr (), ?s5)"
    using assms(17) by (simp add: finish_in_memory_def set_db_def)
  then have run: "install_snapshot E c mem_apply (peer P ng B now) g ng (encode_snap_descriptor ?desc) meta (s, R) = (Inr (), ?s5, R')"
    using pull wipe(1) mark fb apply_with_succeeds [OF assms(7), of b ?s3]
    by (simp add: install_snapshot_def pull_snapshot_chunks_def sbind_def slift_def on_node_def decode_encode_descriptor)
  have dist: "distinct (List.map fst ?G)"
    unfolding group_pairs_def by (rule kv_ok_distinct [OF kv_ok_filter [OF assms(3)]])
  have "kv_get (db ?s5) k = (if in_group g ng k then kv_get (snap view) k else kv_get (db s) k)"
    if k: "k \<notin> {conf_key g, applied_key g, snap_key g, snap_install_key g}" for k
  proof -
    have "kv_get (db ?s5) k = kv_get (put_pairs ?G (db ?s2)) k" using finish_frame [OF fb k] by (simp add: set_db_def)
    also have "\<dots> = (if in_group g ng k then kv_get (snap view) k else kv_get (db ?s2) k)"
      using wipe(2) [of k] unfolding kv_get_put_pairs [OF dist] map_of_group_pairs by (auto split: option.split)
    finally show ?thesis using wipe(2) [of k] k by (simp add: kv_simps)
  qed
  moreover have "installed c g meta (db ?s5)" using finish_installed [OF fb] by simp
  ultimately show ?thesis using run by (intro exI [of _ ?s5] exI [of _ R']) (simp only:, simp)
qed

text \<open>What an interruption leaves.\<close>

definition marked :: "u32 \<Rightarrow> 'z node_scheme \<times> 'w \<Rightarrow> bool" where
  "marked g p \<longleftrightarrow> kv_get (db (fst p)) (snap_install_key g) \<noteq> None"

lemma keeps_on_world: "keeps (marked g) (on_world f)"
  by (rule keepsI) (auto simp: marked_def on_world_def split: prod.splits)

lemma keeps_set_pairs: "keeps (marked g) (on_node (apply_with E (set_pairs ps)))"
proof (rule keepsI)
  fix p q :: "'z node_scheme \<times> 'w" and r
  assume p: "marked g p" "on_node (apply_with E (set_pairs ps)) p = (r, q)"
  then have "apply_with E (set_pairs ps) (fst p) = (r, fst q)" by (auto simp: on_node_def split: prod.splits)
  then show "marked g q"
    using p(1) put_pairs_keeps [of "db (fst p)" "snap_install_key g" ps]
    by (auto simp: marked_def put_pairs_def dest!: apply_with_db)
qed

lemma keeps_pull: "keeps (marked g) (pull_chunks E ctl h desc n cursor nbytes)"
  by (induction n arbitrary: cursor nbytes)
    (auto simp: Let_def intro!: keeps_sbind keeps_on_world keeps_set_pairs split: prod.splits)

lemma keeps_wipe: "keeps (marked g) (on_node (wipe_group_keys E h ng))"
  by (rule keepsI) (auto simp: marked_def on_node_def wipe_keeps_raft split: prod.splits)


section \<open>An example\<close>

text \<open>One data group; the peer has two messages of a queue, the receiver an old one.\<close>

definition demo_codec :: meta_codec where
  "demo_codec = \<lparr>enc_conf = \<lambda>_. Some ''c'', dec_conf = \<lambda>_. Some empty_conf, enc_meta = \<lambda>_. Some ''m'',
     dec_meta = \<lambda>_. Some \<lparr>mt_index = 7, mt_term = 2, mt_conf = empty_conf\<rparr>\<rparr>"

definition demo_meta :: snap_meta where
  "demo_meta = \<lparr>mt_index = 7, mt_term = 2, mt_conf = \<lparr>cs_voters = [1, 2], cs_learners = [3]\<rparr>\<rparr>"

definition demo_source :: node where
  "demo_source = \<lparr>db = [(msg_key ''t'' 0 0, ''x''), (msg_key ''t'' 0 1, ''y'')], sent = []\<rparr>"

definition demo_target :: "unit raft_group" where
  "demo_target = \<lparr>db = [(msg_key ''t'' 0 9, ''old'')], sent = [], gr_mem = (), gr_applied = 3, gr_conf = empty_conf\<rparr>"

definition demo_views :: registry where
  "demo_views = snd (reg_create demo_source 0 1 7 (new_registry 5))"

lemma demo_key_group: "key_group_of (msg_key ''t'' 0 i) 1 = Inr 1"
proof -
  have "prefix msg_prefix (msg_key ''t'' 0 i)" by (simp add: msg_key_def)
  then show ?thesis
    by (simp add: key_group_of_def key_queue_def parse_msg_key_enc name_ok_def lift_key_def queue_group_def)
qed

lemma demo_parsable: "list_all (\<lambda>(k, v). \<exists>i. k = msg_key ''t'' 0 i) m \<Longrightarrow> parsable 1 1 m"
  using demo_key_group by (fastforce simp: parsable_def list_all_iff)

lemma standalone_ok: "reads_ok standalone" "writes_ok standalone"
  by (simp_all add: reads_ok_def writes_ok_def standalone_def)

theorem snapshot_install_exact_witness:
  "\<exists>s' R'. install_snapshot standalone demo_codec (\<lambda>_ m. Inr m) (peer standalone 1 1 9) 1 1
        (encode_snap_descriptor \<lparr>sd_id = 1, sd_leader = 2, sd_index = 7\<rparr>) demo_meta (demo_target, demo_views) = (Inr (), s', R') \<and>
      kv_get (db s') (msg_key ''t'' 0 1) = Some ''y'' \<and> kv_get (db s') (msg_key ''t'' 0 9) = None \<and> gr_applied s' = 7"
proof -
  let ?view = "new_read_view demo_source"
  have keys: "msg_key ''t'' 0 i \<notin> {conf_key 1, applied_key 1, snap_key 1, snap_install_key 1}" for i
    by (auto simp: msg_key_def conf_key_def applied_key_def snap_key_def snap_install_key_def group_key_def raft_prefix_def msg_prefix_def)
  have grp: "in_group 1 1 (msg_key ''t'' 0 i)" for i
  proof -
    have "prefix msg_prefix (msg_key ''t'' 0 i)" by (simp add: msg_key_def)
    then show ?thesis using demo_key_group [of i] by (auto simp: in_group_def group_families_def meta_group_def data_families_def)
  qed
  have src: "snap ?view = [(msg_key ''t'' 0 0, ''x''), (msg_key ''t'' 0 1, ''y'')]" by (simp add: new_read_view_def demo_source_def)
  have G: "group_pairs 1 1 (snap ?view) = snap ?view" by (simp add: group_pairs_def src grp)
  have len: "length (msg_key ''t'' 0 i) = 18" for i by (simp add: msg_key_def msg_prefix_def)
  have "msg_key ''t'' 0 0 < msg_key ''t'' 0 1" by (simp add: msg_key_prefix string_append_less put_u64_less)
  then have ok: "kv_ok (snap ?view)" "kv_ok (db demo_target)" by (simp_all add: src kv_ok_def demo_target_def)
  have par: "parsable 1 1 (snap ?view)" "parsable 1 1 (db demo_target)"
    by (rule demo_parsable; auto simp: src demo_target_def)+
  have srv: "serves demo_views 1 ?view"
    by (simp add: serves_def demo_views_def reg_create_def new_registry_def kv_get_def)
  have "\<exists>s' R'. install_snapshot standalone demo_codec (\<lambda>_ m. Inr m) (peer standalone 1 1 9) 1 1
        (encode_snap_descriptor \<lparr>sd_id = 1, sd_leader = 2, sd_index = 7\<rparr>) demo_meta (demo_target, demo_views) = (Inr (), s', R') \<and>
      gr_mem s' = gr_mem demo_target \<and> gr_applied s' = mt_index demo_meta \<and> gr_conf s' = mt_conf demo_meta \<and>
      installed demo_codec 1 demo_meta (db s') \<and>
      (\<forall>k. k \<notin> {conf_key 1, applied_key 1, snap_key 1, snap_install_key 1} \<longrightarrow>
        kv_get (db s') k = (if in_group 1 1 k then kv_get (snap ?view) k else kv_get (db demo_target) k))"
    by (rule snapshot_install_exact [OF standalone_ok(1) _ ok(1) par(1) srv standalone_ok ok(2) par(2)])
      (simp_all add: new_read_view_def demo_codec_def G pair_bytes_def len chunk_floor_def snapshot_chunk_keys_def max_snapshot_bytes_def
        src [unfolded new_read_view_def, simplified] G [unfolded src])
  moreover have "kv_get (snap ?view) (msg_key ''t'' 0 1) = Some ''y''" "kv_get (snap ?view) (msg_key ''t'' 0 9) = None"
    by (simp_all add: src kv_get_def msg_key_prefix put_u64_inj)
  ultimately show ?thesis using keys grp by (fastforce simp: demo_meta_def)
qed

lemma demo_wipe:
  fixes s :: "'z node_scheme"
  assumes "db s = kv_set (snap_install_key 1) d [(msg_key ''t'' 0 9, ''old'')]"
  obtains b where "wipe_group_keys standalone 1 1 s = (Inr (), set_db (apply_batch b (db s)) s)"
    "kv_get (apply_batch b (db s)) (msg_key ''t'' 0 9) = None"
    "kv_get (apply_batch b (db s)) (snap_install_key 1) = Some d" "kv_ok (db s)" "parsable 1 1 (db s)"
proof -
  define m0 where "m0 = [(msg_key ''t'' 0 9, ''old'')]"
  have s: "db s = kv_set (snap_install_key 1) d m0" by (simp only: assms m0_def)
  have ok: "kv_ok m0" by (simp add: kv_ok_def m0_def)
  have ok1: "kv_ok (db s)" by (simp only: s kv_ok_set [OF ok])
  have "parsable 1 1 m0" unfolding m0_def by (rule demo_parsable) auto
  then have par: "parsable 1 1 (db s)"
    using raft_not_family [of _ "snap_install_key 1"] unfolding parsable_get [OF ok1] parsable_get [OF ok]
    by (auto simp: kv_simps s)
  obtain b where "wipe_group_keys standalone 1 1 s = (Inr (), set_db (apply_batch b (db s)) s)"
      "\<And>k. kv_get (apply_batch b (db s)) k = (if in_group 1 1 k then None else kv_get (db s) k)"
    by (rule wipe_exact [OF standalone_ok ok1 par]) blast
  moreover have "in_group 1 1 (msg_key ''t'' 0 9)"
  proof -
    have "prefix msg_prefix (msg_key ''t'' 0 9)" by (simp add: msg_key_def)
    then show ?thesis using demo_key_group [of 9] by (auto simp: in_group_def group_families_def meta_group_def data_families_def)
  qed
  ultimately show thesis using that ok1 par by (simp add: s kv_simps)
qed


end
