(* ===== verification/Raft_Store.thy ===== *)
theory Raft_Store
  imports Seg_Contract Snap_Install
begin

text \<open>
  \<^verbatim>\<open>internal/cluster/raftstore.go\<close>, the part that keeps the raft log: each group's segment log,
  opened at its first use, with the cache that \<open>Load\<close> answers from; the old form of the log in
  the key value store and its migration; truncation, the reset of a group, and the raising of
  terms before a local recovery.
\<close>

section \<open>State\<close>

record hard_state =
  hs_term :: u64
  hs_vote :: u64
  hs_commit :: u64

definition empty_hs :: hard_state where
  "empty_hs = \<lparr>hs_term = 0, hs_vote = 0, hs_commit = 0\<rparr>"

datatype rs_error = RsStore err | RsSeg seg_error | RsRemove | RsBeyondAnchor u64 | RsUnclean

text \<open>
  \<open>ln_dirs\<close> is what is in \<^verbatim>\<open>raftlog/<g>\<close>, empty where there is no such directory;
  \<open>ln_open\<close> the open log of a group and the \<open>logRecovered\<close> cache beside it.
\<close>

record 'e log_node = node +
  ln_dirs :: "u32 \<Rightarrow> seg_dir"
  ln_open :: "u32 \<Rightarrow> (hard_state seg_log \<times> hard_state option \<times> 'e list) option"

text \<open>
  What surrounds the store: the key value store, the file system under the segment logs, and
  \<open>os.RemoveAll\<close>, which removes everything (\<^term>\<open>None\<close>) or fails and leaves some of it.
\<close>

record rs_env =
  re_store :: env
  re_seg :: seg_env
  re_remove :: "seg_dir \<Rightarrow> seg_dir option"

type_synonym 'e log_codec = "('e, hard_state) raft_codec"

definition in_store :: "('s \<Rightarrow> (err + 'a) \<times> 's) \<Rightarrow> 's \<Rightarrow> (rs_error + 'a) \<times> 's" where
  "in_store f s = (case f s of (Inl e, s') \<Rightarrow> (Inl (RsStore e), s') | (Inr x, s') \<Rightarrow> (Inr x, s'))"

definition ask_store :: "('s \<Rightarrow> err + 'a) \<Rightarrow> 's \<Rightarrow> (rs_error + 'a) \<times> 's" where
  "ask_store f = in_store (slift f)"

section \<open>Open logs\<close>

definition get_log :: "rs_env \<Rightarrow> 'e log_codec \<Rightarrow> u32 \<Rightarrow> 'e log_node \<Rightarrow> (rs_error + unit) \<times> 'e log_node" where
  "get_log E c g s =
     (case ln_open s g of
        Some _ \<Rightarrow> (Inr (), s)
      | None \<Rightarrow>
          (case open_log (re_seg E) c (ln_dirs s g) of
             (Inl e, d) \<Rightarrow> (Inl (RsSeg e), s\<lparr>ln_dirs := (ln_dirs s)(g := d)\<rparr>)
           | (Inr (l, hs, ents), d) \<Rightarrow>
               (Inr (), s\<lparr>ln_dirs := (ln_dirs s)(g := d), ln_open := (ln_open s)(g \<mapsto> (l, hs, ents))\<rparr>)))"

text \<open>A call on the open log of a group.\<close>

definition in_log ::
    "(hard_state seg_node \<Rightarrow> (seg_error + unit) \<times> hard_state seg_node) \<Rightarrow> u32 \<Rightarrow> 'e log_node
      \<Rightarrow> (rs_error + unit) \<times> 'e log_node" where
  "in_log f g s =
     (case ln_open s g of
        None \<Rightarrow> (Inl (RsSeg LogClosed), s)
      | Some (l, hs, ents) \<Rightarrow>
          (case f \<lparr>sn_dir = ln_dirs s g, sn_log = l\<rparr> of
             (r, n) \<Rightarrow>
               (case r of Inl e \<Rightarrow> Inl (RsSeg e) | Inr u \<Rightarrow> Inr u,
                s\<lparr>ln_dirs := (ln_dirs s)(g := sn_dir n), ln_open := (ln_open s)(g \<mapsto> (sn_log n, hs, ents))\<rparr>)))"

definition wipe_log :: "rs_env \<Rightarrow> u32 \<Rightarrow> 'e log_node \<Rightarrow> (rs_error + unit) \<times> 'e log_node" where
  "wipe_log E g s =
     (let s' = s\<lparr>ln_open := (ln_open s)(g := None)\<rparr>;
          closing = (case ln_open s g of
              None \<Rightarrow> Inr ()
            | Some (l, _) \<Rightarrow> fst (close_log (re_seg E) \<lparr>sn_dir = ln_dirs s g, sn_log = l\<rparr>))
      in case closing of
           Inl e \<Rightarrow> (Inl (RsSeg e), s')
         | Inr u \<Rightarrow>
             (case re_remove E (ln_dirs s g) of
                Some d \<Rightarrow> (Inl RsRemove, s'\<lparr>ln_dirs := (ln_dirs s)(g := d)\<rparr>)
              | None \<Rightarrow> (Inr (), s'\<lparr>ln_dirs := (ln_dirs s)(g := [])\<rparr>)))"

definition sync_group :: "rs_env \<Rightarrow> 'e log_codec \<Rightarrow> u32 \<Rightarrow> 'e log_node \<Rightarrow> (rs_error + unit) \<times> 'e log_node" where
  "sync_group E c g = sbind (get_log E c g) (\<lambda>_. in_log (sync_log (re_seg E)) g)"

text \<open>The cache after a write: what is at or above the first new index is cut from its end.\<close>

definition refresh_cache :: "'e log_codec \<Rightarrow> u32 \<Rightarrow> hard_state option \<Rightarrow> 'e list \<Rightarrow> 'e log_node \<Rightarrow> 'e log_node" where
  "refresh_cache c g hs ents s =
     (case ln_open s g of
        None \<Rightarrow> s
      | Some (l, hs0, old) \<Rightarrow>
          s\<lparr>ln_open := (ln_open s)(g \<mapsto>
              (l, if hs = None then hs0 else hs,
               if ents = [] then old else cut_tail c (ent_index c (hd ents)) old @ ents))\<rparr>)"

definition persist ::
    "rs_env \<Rightarrow> 'e log_codec \<Rightarrow> u32 \<Rightarrow> hard_state option \<Rightarrow> 'e list \<Rightarrow> bool \<Rightarrow> 'e log_node \<Rightarrow> (rs_error + unit) \<times> 'e log_node" where
  "persist E c g hs ents sync =
     sbind (get_log E c g) (\<lambda>_.
     sbind (in_log (append_log (re_seg E) c hs ents sync) g) (\<lambda>_.
     smod (refresh_cache c g hs ents)))"

fun sync_logs :: "rs_env \<Rightarrow> u32 list \<Rightarrow> 'e log_node \<Rightarrow> (rs_error + unit) \<times> 'e log_node" where
  "sync_logs E [] = sret ()"
| "sync_logs E (g # gs) = sbind (in_log (sync_log (re_seg E)) g) (\<lambda>_. sync_logs E gs)"

text \<open>Closing forgets every handle, whatever \<open>Close\<close> returns.\<close>

definition close_logs :: "'e log_node \<Rightarrow> 'e log_node" where
  "close_logs s = s\<lparr>ln_open := \<lambda>_. None\<rparr>"

section \<open>Loading\<close>

definition legacy_pending :: "env \<Rightarrow> u32 \<Rightarrow> 'z node_scheme \<Rightarrow> err + bool" where
  "legacy_pending E g s =
     (case st_get E s (hs_key g) of
        Inl e \<Rightarrow> Inl e
      | Inr (Some d) \<Rightarrow> Inr True
      | Inr None \<Rightarrow>
          (case st_scan E s (ent_prefix g) (prefix_upper_bound (ent_prefix g)) 1 (\<lambda>found k v. (Inr False, True)) False of
             (Inl e, found) \<Rightarrow> Inl e
           | (Inr u, found) \<Rightarrow> Inr found))"

definition collect_entry :: "'e log_codec \<Rightarrow> 'e list callback" where
  "collect_entry c acc k v = (case dec_entry c v of None \<Rightarrow> (Inl (ErrDecode k), acc) | Some e \<Rightarrow> (Inr True, acc @ [e]))"

definition load_legacy ::
    "env \<Rightarrow> 'e log_codec \<Rightarrow> meta_codec \<Rightarrow> u32 \<Rightarrow> 'z node_scheme \<Rightarrow> err + hard_state \<times> 'e list \<times> snap_meta option" where
  "load_legacy E c mc g s =
     ebind (st_get E s (hs_key g)) (\<lambda>d.
     ebind (case d of None \<Rightarrow> Inr empty_hs
            | Some b \<Rightarrow> (case dec_hs c b of None \<Rightarrow> Inl (ErrDecode (hs_key g)) | Some h \<Rightarrow> Inr h)) (\<lambda>hs.
     case st_scan E s (ent_prefix g) (prefix_upper_bound (ent_prefix g)) 0 (collect_entry c) [] of
       (Inl e, ents) \<Rightarrow> Inl e
     | (Inr u, ents) \<Rightarrow> ebind (load_snap_meta E mc s g) (\<lambda>m. Inr (hs, ents, m))))"

definition load ::
    "rs_env \<Rightarrow> 'e log_codec \<Rightarrow> meta_codec \<Rightarrow> u32 \<Rightarrow> 'e log_node
      \<Rightarrow> (rs_error + hard_state \<times> 'e list \<times> snap_meta option) \<times> 'e log_node" where
  "load E c mc g =
     sbind (ask_store (legacy_pending (re_store E) g)) (\<lambda>pending.
       if pending then ask_store (load_legacy (re_store E) c mc g)
       else
         sbind (get_log E c g) (\<lambda>_.
         sbind (sget (\<lambda>s. ln_open s g)) (\<lambda>cached.
         sbind (ask_store (\<lambda>s. load_snap_meta (re_store E) mc s g)) (\<lambda>m.
           sret (case cached of
                   None \<Rightarrow> (empty_hs, [], m)
                 | Some (_, hs, ents) \<Rightarrow> ((case hs of None \<Rightarrow> empty_hs | Some h \<Rightarrow> h), ents, m))))))"

section \<open>Migration\<close>

definition migrate_chunk_entries :: nat where
  "migrate_chunk_entries = 1024"

function persist_chunks ::
    "rs_env \<Rightarrow> 'e log_codec \<Rightarrow> u32 \<Rightarrow> hard_state option \<Rightarrow> 'e list \<Rightarrow> 'e log_node \<Rightarrow> (rs_error + unit) \<times> 'e log_node" where
  "persist_chunks E c g hs ents =
     (let rest = drop migrate_chunk_entries ents
      in sbind (persist E c g hs (take migrate_chunk_entries ents) (rest = [])) (\<lambda>_.
           if rest = [] then sret () else persist_chunks E c g None rest))"
  by pat_completeness auto
termination
  by (relation "measure (\<lambda>(_, _, _, _, ents). length ents)") (auto simp: migrate_chunk_entries_def)

declare persist_chunks.simps [simp del]

definition drop_legacy_batch :: "u32 \<Rightarrow> batch" where
  "drop_legacy_batch g =
     bdelete_range (ent_key g 0) (case prefix_upper_bound (ent_prefix g) of None \<Rightarrow> [] | Some u \<Rightarrow> u)
       (bdelete (hs_key g) new_batch)"

definition migrate_log :: "rs_env \<Rightarrow> 'e log_codec \<Rightarrow> meta_codec \<Rightarrow> u32 \<Rightarrow> 'e log_node \<Rightarrow> (rs_error + unit) \<times> 'e log_node" where
  "migrate_log E c mc g =
     sbind (ask_store (legacy_pending (re_store E) g)) (\<lambda>pending.
       if \<not> pending then sret ()
       else
         sbind (wipe_log E g) (\<lambda>_.
         sbind (ask_store (load_legacy (re_store E) c mc g)) (\<lambda>(hs, ents, _).
         sbind (persist_chunks E c g (Some hs) ents) (\<lambda>_.
         in_store (apply_with (re_store E) (drop_legacy_batch g))))))"

section \<open>Truncation, reset, terms\<close>

definition truncate_log :: "rs_env \<Rightarrow> 'e log_codec \<Rightarrow> meta_codec \<Rightarrow> u32 \<Rightarrow> u64 \<Rightarrow> 'e log_node \<Rightarrow> (rs_error + unit) \<times> 'e log_node" where
  "truncate_log E c mc g limit =
     sbind (ask_store (\<lambda>s. load_snap_meta (re_store E) mc s g)) (\<lambda>m.
       if (case m of None \<Rightarrow> True | Some meta \<Rightarrow> mt_index meta < limit) then sfail (RsBeyondAnchor limit)
       else
         sbind (get_log E c g) (\<lambda>_.
         sbind (in_log (truncate_to (re_seg E) limit) g) (\<lambda>_.
         smod (\<lambda>s. case ln_open s g of
                 None \<Rightarrow> s
               | Some (l, hs, ents) \<Rightarrow>
                   s\<lparr>ln_open := (ln_open s)(g \<mapsto> (l, hs, dropWhile (\<lambda>e. ent_index c e \<le> limit) ents))\<rparr>))))"

definition reset_group_progress :: "rs_env \<Rightarrow> u32 \<Rightarrow> 'e log_node \<Rightarrow> (rs_error + unit) \<times> 'e log_node" where
  "reset_group_progress E g =
     sbind (in_store (apply_with (re_store E) (reset_batch g))) (\<lambda>_. wipe_log E g)"

definition bump_hs :: "hard_state \<Rightarrow> hard_state" where
  "bump_hs h = \<lparr>hs_term = hs_term h + 1, hs_vote = 0, hs_commit = hs_commit h\<rparr>"

definition bump_group :: "rs_env \<Rightarrow> 'e log_codec \<Rightarrow> meta_codec \<Rightarrow> u32 \<Rightarrow> 'e log_node \<Rightarrow> (rs_error + unit) \<times> 'e log_node" where
  "bump_group E c mc g =
     sbind (load E c mc g) (\<lambda>(hs, _, _).
     sbind (ask_store (legacy_pending (re_store E) g)) (\<lambda>pending.
       if pending then
         (case enc_hs c (bump_hs hs) of
            None \<Rightarrow> sfail (RsStore ErrMarshal)
          | Some d \<Rightarrow> in_store (apply_with (re_store E) (bset (hs_key g) d new_batch)))
       else persist E c g (Some (bump_hs hs)) [] True))"

fun bump_groups :: "rs_env \<Rightarrow> 'e log_codec \<Rightarrow> meta_codec \<Rightarrow> u32 list \<Rightarrow> 'e log_node \<Rightarrow> (rs_error + unit) \<times> 'e log_node" where
  "bump_groups E c mc [] = sret ()"
| "bump_groups E c mc (g # gs) = sbind (bump_group E c mc g) (\<lambda>_. bump_groups E c mc gs)"

text \<open>The groups \<open>0\<close> to \<open>dataGroups\<close>.\<close>

definition group_ids :: "u32 \<Rightarrow> u32 list" where
  "group_ids ng = List.map of_nat [0..<Suc (unat ng)]"

definition bump_terms_into :: "rs_env \<Rightarrow> 'e log_codec \<Rightarrow> meta_codec \<Rightarrow> u32 \<Rightarrow> 'e log_node \<Rightarrow> (rs_error + unit) \<times> 'e log_node" where
  "bump_terms_into E c mc ng = bump_groups E c mc (group_ids ng)"

definition force_local_recover :: "rs_env \<Rightarrow> 'e log_codec \<Rightarrow> meta_codec \<Rightarrow> u32 \<Rightarrow> 'e log_node \<Rightarrow> (rs_error + unit) \<times> 'e log_node" where
  "force_local_recover E c mc ng =
     sbind (bump_terms_into E c mc ng) (\<lambda>_.
     in_store (apply_with (re_store E) (bdelete recover_permit_key new_batch)))"

definition bump_terms_for_local_resume :: "rs_env \<Rightarrow> 'e log_codec \<Rightarrow> meta_codec \<Rightarrow> u32 \<Rightarrow> 'e log_node \<Rightarrow> (rs_error + unit) \<times> 'e log_node" where
  "bump_terms_for_local_resume E c mc ng = bump_terms_into E c mc ng"

end
