(* ===== verification/Raft_Safety.thy ===== *)
theory Raft_Safety
  imports Raft_Store
begin

text \<open>
  What the raft log of a group promises: whatever was written and synced is what \<open>Load\<close>
  returns, from the cache, after a restart and after a power cut; the migration of an old log
  loses nothing at any point where it may stop; a spent recovery permit means that every group
  has the raised term.
\<close>

section \<open>The cache is what the segment log holds\<close>

lemma append_log_seq:
  fixes n :: "'h seg_node"
  assumes "append_log env c hs ents sync n = (Inr (), n')"
  shows "sl_seq (sn_log n') = sl_seq (sn_log n) \<or> sl_seq (sn_log n') = sl_seq (sn_log n) + 1"
proof -
  have w: "write_active env op b m = (Inr (), m') \<Longrightarrow> sl_seq (sn_log m') = sl_seq (sn_log m)" for op b and m m' :: "'h seg_node"
    by (auto simp: write_active_def Let_def split: if_splits)
  have y: "sync_active env op m = (Inr (), m') \<Longrightarrow> sl_seq (sn_log m') = sl_seq (sn_log m)" for op and m m' :: "'h seg_node"
    by (auto simp: sync_active_def seg_io_def split: if_splits)
  have io: "seg_io env op f m = (Inr (), m') \<Longrightarrow> m' = f m" for op f and m m' :: "'h seg_node"
    by (auto simp: seg_io_def split: if_splits)
  have cr: "create_segment env q m = (Inr (), m') \<Longrightarrow> sn_log m' = sn_log m" for q and m m' :: "'h seg_node"
    by (auto simp: create_segment_def split: if_splits option.splits)
  have pr: "prealloc_active env op m = (Inr (), m') \<Longrightarrow> sl_seq (sn_log m') = sl_seq (sn_log m)" for op and m m' :: "'h seg_node"
    by (auto simp: prealloc_active_def split: if_splits)
  have rw: "rewrite_hs env c m = (Inr (), m') \<Longrightarrow> sl_seq (sn_log m') = sl_seq (sn_log m)" for m m' :: "'h seg_node"
    by (auto simp: rewrite_hs_def sbind_ok split: option.splits dest!: w y)
  have ro: "rotate env c m = (Inr (), m') \<Longrightarrow> sl_seq (sn_log m') = sl_seq (sn_log m) + 1" for m m' :: "'h seg_node"
    by (auto simp: rotate_def Let_def sbind_ok smod_def dest!: io cr pr rw)
  obtain buf where "build_buf c hs ents = Inr buf" "sl_open (sn_log n)"
    using assms by (auto simp: append_log_def split: if_splits sum.splits)
  then have "\<exists>m1. (if buf = [] then sret () else write_active env OWriteAt buf) n = (Inr (), m1) \<and>
      (\<exists>m2. (if sync then sync_active env OSync else sret ()) (on_log (note_written c hs ents) m1) = (Inr (), m2) \<and>
        maybe_rotate env c m2 = (Inr (), n'))"
    using assms by (simp add: append_log_def sbind_ok smod_def split del: if_split)
  then obtain m1 m2 where m: "(if buf = [] then sret () else write_active env OWriteAt buf) n = (Inr (), m1)"
      "(if sync then sync_active env OSync else sret ()) (on_log (note_written c hs ents) m1) = (Inr (), m2)"
      "maybe_rotate env c m2 = (Inr (), n')" by blast
  have "sl_seq (sn_log m1) = sl_seq (sn_log n)" using m(1) w by (cases "buf = []") (auto simp: sret_def)
  moreover have "sl_seq (sn_log m2) = sl_seq (sn_log m1)"
    using m(2) y by (cases sync) (fastforce simp: sret_def note_written_def)+
  ultimately have "sl_seq (sn_log m2) = sl_seq (sn_log n)" "maybe_rotate env c m2 = (Inr (), n')" using m(3) by simp_all
  then show ?thesis using ro by (auto simp: maybe_rotate_def split: if_splits)
qed

text \<open>
  \<open>log_holds k hs ents n\<close>: an intact open log whose files replay to \<open>hs\<close> and \<open>ents\<close>,
  in its \<open>k\<close>th segment at most.  For a group: the cache says the same.
\<close>

definition log_holds ::
    "'e log_codec \<Rightarrow> seg_env \<Rightarrow> nat \<Rightarrow> hard_state option \<Rightarrow> 'e list \<Rightarrow> hard_state seg_node \<Rightarrow> bool" where
  "log_holds c env k hs ents n \<longleftrightarrow>
     codec_ok c \<and> hs_small c (sg_max_bytes env) \<and> unat (sl_seq (sn_log n)) \<le> k \<and>
     (\<exists>segs rs lst. log_ok c (sg_max_bytes env) segs rs n \<and> carried c segs rs \<and>
        replay_recs c (all_recs segs rs) = (hs, ents, lst))"

definition group_holds ::
    "'e log_codec \<Rightarrow> seg_env \<Rightarrow> nat \<Rightarrow> hard_state option \<Rightarrow> 'e list \<Rightarrow> u32 \<Rightarrow> 'e log_node \<Rightarrow> bool" where
  "group_holds c env k hs ents g s \<longleftrightarrow>
     (\<exists>l. ln_open s g = Some (l, hs, ents) \<and> log_holds c env k hs ents \<lparr>sn_dir = ln_dirs s g, sn_log = l\<rparr>)"

lemma log_holds_append:
  assumes "log_holds c env k hs0 old n" "append_log env c hs ents sync n = (Inr (), n')"
    and "list_all (fits c) (recs_of hs ents)" "ascending c ents" "Suc k < 2 ^ 64"
  shows "log_holds c env (Suc k) (if hs = None then hs0 else hs) (splice c old ents) n' \<and> (sync \<longrightarrow> durable n')"
proof -
  let ?M = "sg_max_bytes env"
  obtain segs rs lst where log: "log_ok c ?M segs rs n" "carried c segs rs" "replay_recs c (all_recs segs rs) = (hs0, old, lst)"
      and ok: "codec_ok c" "hs_small c ?M" "unat (sl_seq (sn_log n)) \<le> k"
    using assms(1) by (auto simp: log_holds_def)
  have nw: "unat (sl_seq (sn_log n) + 1) = Suc (unat (sl_seq (sn_log n)))"
    using ok(3) assms(5) by (simp add: unat_word_ariths)
  then have room: "sl_seq (sn_log n) < sl_seq (sn_log n) + 1" by (simp add: word_less_nat_alt)
  obtain segs' rs' where log': "log_ok c ?M segs' rs' n'" "carried c segs' rs'" "sync \<longrightarrow> durable n'"
      "replay_recs c (all_recs segs' rs') = replay_recs c (all_recs segs rs @ recs_of hs ents)"
    using append_log_ok [OF log(1) assms(2,3) ok(2) room log(2)] by blast
  have "\<exists>lst'. replay_recs c (all_recs segs' rs') = ((if hs = None then hs0 else hs), splice c old ents, lst')"
    using replay_write [OF log(3) assms(4), of hs] log'(4) by auto
  moreover have "unat (sl_seq (sn_log n')) \<le> Suc k"
    using append_log_seq [OF assms(2)] nw ok(3) by auto
  ultimately show ?thesis using ok(1,2) log'(1-3) unfolding log_holds_def by blast
qed

lemma log_holds_ascending: "log_holds c env k hs ents n \<Longrightarrow> ascending c ents"
  unfolding log_holds_def using view_ok_replay by (metis view_ok.simps)

lemma cut_cache:
  "ascending c old \<Longrightarrow> (if ents = [] then old else cut_tail c (ent_index c (hd ents)) old @ ents) = splice c old ents"
  by (simp add: splice_def cut_tail_filter)

section \<open>Opening what is on disk\<close>

definition calm :: "seg_env \<Rightarrow> seg_env" where
  "calm env = env\<lparr>sg_fails := \<lambda>_. False\<rparr>"

lemma calm [simp]: "Seg_Files.quiet (calm env)" "sg_max_bytes (calm env) = sg_max_bytes env" "\<not> sg_fails (calm env) i"
    "sg_prealloc (calm env) = sg_prealloc env"
  by (simp_all add: calm_def Seg_Files.quiet_def)

text \<open>Whatever \<open>m\<close> does successfully, \<open>m'\<close> does too.\<close>

definition as_well :: "('s \<Rightarrow> ('e + 'a) \<times> 's) \<Rightarrow> ('s \<Rightarrow> ('e + 'a) \<times> 's) \<Rightarrow> bool" where
  "as_well m m' \<longleftrightarrow> (\<forall>s x t. m s = (Inr x, t) \<longrightarrow> m' s = (Inr x, t))"

lemma as_well_refl: "as_well m m"
  by (simp add: as_well_def)

lemma as_well_sbind: "as_well m m' \<Longrightarrow> (\<And>x. as_well (f x) (f' x)) \<Longrightarrow> as_well (sbind m f) (sbind m' f')"
  by (auto simp: as_well_def sbind_ok)

lemma scan_seg_calm: "as_well (scan_seg env c l q r) (scan_seg (calm env) c l q r)"
proof -
  have "scan_seg (calm env) c l q r dir = (Inr x, t)" if ok: "scan_seg env c l q r dir = (Inr x, t)" for dir x t
  proof -
    obtain f where f: "kv_get dir (seg_name q) = Some (SegFile f)" "\<not> sg_fails env (ORead q)"
      using ok by (auto simp: scan_seg_def split: option.splits dirent.splits if_splits)
    obtain r' off why where l: "scan_loop c q (sf_data f) 0 (if l then r else r\<lparr>rp_max := kv_set q 0 (rp_max r)\<rparr>) = (r', off, why)"
      by (cases "scan_loop c q (sf_data f) 0 (if l then r else r\<lparr>rp_max := kv_set q 0 (rp_max r)\<rparr>)")
    show ?thesis
      using ok f l by (cases why) (simp_all add: scan_seg_def Let_def dir_op_def sret_def sbind_def split: if_splits)
  qed
  then show ?thesis by (simp add: as_well_def)
qed

lemma scan_segs_calm: "as_well (scan_segs env c qs rn) (scan_segs (calm env) c qs rn)"
  by (induction env c qs rn rule: scan_segs.induct) (simp_all add: as_well_refl as_well_sbind scan_seg_calm)

lemma open_steps_calm:
  "as_well (dir_op env i h) (dir_op (calm env) i h)" "as_well (slift (scan_seg_seqs env)) (slift (scan_seg_seqs (calm env)))"
  "as_well (open_active env q b) (open_active (calm env) q b)"
  by (auto simp: as_well_def dir_op_def slift_def scan_seg_seqs_def open_active_def split: if_splits option.splits sum.splits)

lemma prealloc_calm: "as_well (prealloc_active env i) (prealloc_active (calm env) i)"
  by (auto simp: as_well_def prealloc_active_def split: if_splits)

lemma open_log_calm: "open_log env c dir = (Inr x, d) \<Longrightarrow> open_log (calm env) c dir = (Inr x, d)"
proof -
  have last: "as_well (\<lambda>dir. case prealloc_active env OPreallocate \<lparr>sn_dir = dir, sn_log = l\<rparr> of
               (Inl e, n) \<Rightarrow> (Inl e, sn_dir n) | (Inr _, n) \<Rightarrow> (Inr (sn_log n, h, es), sn_dir n))
     (\<lambda>dir. case prealloc_active (calm env) OPreallocate \<lparr>sn_dir = dir, sn_log = l\<rparr> of
               (Inl e, n) \<Rightarrow> (Inl e, sn_dir n) | (Inr _, n) \<Rightarrow> (Inr (sn_log n, h, es), sn_dir n))" for l h es
    using prealloc_calm [of env OPreallocate] by (fastforce simp: as_well_def split: prod.splits sum.splits)
  have "as_well (open_log env c) (open_log (calm env) c)"
    unfolding open_log_def Let_def
    by (intro as_well_sbind open_steps_calm scan_segs_calm) (auto intro!: as_well_sbind open_steps_calm last split: prod.split)
  then show "open_log env c dir = (Inr x, d) \<Longrightarrow> open_log (calm env) c dir = (Inr x, d)" unfolding as_well_def by blast
qed

text \<open>\<open>disk_holds k hs ents dir\<close>: what is on disk, if anything, replays to \<open>hs\<close> and \<open>ents\<close>.\<close>

definition disk_holds :: "'e log_codec \<Rightarrow> nat \<Rightarrow> nat \<Rightarrow> hard_state option \<Rightarrow> 'e list \<Rightarrow> seg_dir \<Rightarrow> bool" where
  "disk_holds c M k hs ents dir \<longleftrightarrow>
     codec_ok c \<and> hs_small c M \<and>
     (dir = [] \<and> hs = None \<and> ents = [] \<or>
      (\<exists>segs seq rs lst. dir_ok c M segs seq rs dir \<and> carried c segs rs \<and> unat seq \<le> k \<and>
         replay_recs c (all_recs segs rs) = (hs, ents, lst)))"

definition group_stores ::
    "'e log_codec \<Rightarrow> seg_env \<Rightarrow> nat \<Rightarrow> hard_state option \<Rightarrow> 'e list \<Rightarrow> u32 \<Rightarrow> 'e log_node \<Rightarrow> bool" where
  "group_stores c env k hs ents g s \<longleftrightarrow>
     group_holds c env k hs ents g s \<or> ln_open s g = None \<and> disk_holds c (sg_max_bytes env) k hs ents (ln_dirs s g)"

lemma log_holds_disk: "log_holds c env k hs ents n \<Longrightarrow> disk_holds c (sg_max_bytes env) k hs ents (sn_dir n)"
  unfolding log_holds_def disk_holds_def using log_dir_ok by blast

lemma log_holds_cut_disk:
  "log_holds c env k hs ents n \<Longrightarrow> durable n \<Longrightarrow> power_cut (sn_dir n) d \<Longrightarrow> disk_holds c (sg_max_bytes env) k hs ents d"
  unfolding log_holds_def disk_holds_def using power_cut_dir_ok log_files_ok by blast

lemma disk_holds_mono: "disk_holds c M k hs ents d \<Longrightarrow> k \<le> k' \<Longrightarrow> disk_holds c M k' hs ents d"
  unfolding disk_holds_def by (meson le_trans)

text \<open>Opening a group that has no segment directory, whatever may fail.\<close>

lemma get_log_fresh:
  assumes "codec_ok c" "hs_small c (sg_max_bytes (re_seg E))" "ln_dirs s g = []" "ln_open s g = None"
    and "get_log E c g s = (Inr (), s')"
  shows "group_holds c (re_seg E) 1 None [] g s'"
proof -
  obtain l hs ents d where o1: "open_log (re_seg E) c [] = (Inr (l, hs, ents), d)"
      "ln_dirs s' g = d" "ln_open s' g = Some (l, hs, ents)"
    using assms(3-5) by (auto simp: get_log_def split: sum.splits prod.splits)
  obtain l' d' where "open_log (calm (re_seg E)) c [] = (Inr (l', None, []), d')"
      "log_ok c (sg_max_bytes (calm (re_seg E))) [] [] \<lparr>sn_dir = d', sn_log = l'\<rparr>" "sl_seq l' = 1"
    by (rule open_fresh [OF calm(1), of "[]" "re_seg E" c]) (auto simp: dir_seqs_def List.map_filter_simps kv_get_def)
  then have "hs = None" "ents = []" "log_ok c (sg_max_bytes (re_seg E)) [] [] \<lparr>sn_dir = d, sn_log = l\<rparr>" "sl_seq l = 1"
    using open_log_calm [OF o1(1)] by auto
  then show ?thesis using o1 assms(1,2)
    by (auto simp: group_holds_def log_holds_def carried_def all_recs_def replay_recs_def intro!: exI [of _ "[]"])
qed

lemma get_log_holds:
  assumes "group_stores c (re_seg E) k hs ents g s" "get_log E c g s = (Inr (), s')" "1 \<le> k"
  shows "group_holds c (re_seg E) k hs ents g s'"
proof (cases "ln_open s g")
  case (Some x)
  then show ?thesis using assms by (auto simp: get_log_def group_stores_def)
next
  case None
  let ?M = "sg_max_bytes (re_seg E)"
  have disk: "disk_holds c ?M k hs ents (ln_dirs s g)" and ok: "codec_ok c" "hs_small c ?M"
    using None assms(1) by (auto simp: group_stores_def group_holds_def disk_holds_def)
  then consider (fresh) "ln_dirs s g = []" "hs = None" "ents = []"
    | (old) segs seq rs lst where "dir_ok c ?M segs seq rs (ln_dirs s g)" "carried c segs rs" "unat seq \<le> k"
        "replay_recs c (all_recs segs rs) = (hs, ents, lst)"
    by (auto simp: disk_holds_def)
  then show ?thesis
  proof cases
    case fresh
    then have "group_holds c (re_seg E) 1 None [] g s'" using get_log_fresh [OF ok fresh(1) None assms(2)] by simp
    then show ?thesis using fresh assms(3) by (auto simp: group_holds_def log_holds_def dest: le_trans)
  next
    case old
    obtain l h es d where o1: "open_log (re_seg E) c (ln_dirs s g) = (Inr (l, h, es), d)"
        "ln_dirs s' g = d" "ln_open s' g = Some (l, h, es)"
      using None assms(2) by (auto simp: get_log_def split: sum.splits prod.splits)
    obtain l' d' where o2: "open_log (calm (re_seg E)) c (ln_dirs s g) = (Inr (l', hs, ents), d')"
        "log_ok c ?M segs rs \<lparr>sn_dir = d', sn_log = l'\<rparr>" "sl_seq l' = seq"
      using open_intact [of "calm (re_seg E)" c segs seq rs "ln_dirs s g"] old(1,4) ok(1) by (metis calm(1,2) fst_conv snd_conv)
    have "l = l' \<and> h = hs \<and> es = ents \<and> d = d'" using open_log_calm [OF o1(1)] o2(1) by simp
    then show ?thesis using o1 o2 old ok by (auto simp: group_holds_def log_holds_def)
  qed
qed

lemma persist_open:
  assumes "group_holds c (re_seg E) k hs0 old g s" "persist E c g hs ents sync s = (Inr (), s')"
    and "list_all (fits c) (recs_of hs ents)" "ascending c ents" "Suc k < 2 ^ 64"
  shows "group_holds c (re_seg E) (Suc k) (if hs = None then hs0 else hs) (splice c old ents) g s' \<and>
    (sync \<longrightarrow> (\<forall>d. power_cut (ln_dirs s' g) d \<longrightarrow>
       disk_holds c (sg_max_bytes (re_seg E)) (Suc k) (if hs = None then hs0 else hs) (splice c old ents) d))"
proof -
  obtain l where l: "ln_open s g = Some (l, hs0, old)" "log_holds c (re_seg E) k hs0 old \<lparr>sn_dir = ln_dirs s g, sn_log = l\<rparr>"
    using assms(1) by (auto simp: group_holds_def)
  obtain n' where n': "append_log (re_seg E) c hs ents sync \<lparr>sn_dir = ln_dirs s g, sn_log = l\<rparr> = (Inr (), n')"
      "ln_dirs s' g = sn_dir n'" "ln_open s' g = Some (sn_log n', if hs = None then hs0 else hs,
        if ents = [] then old else cut_tail c (ent_index c (hd ents)) old @ ents)"
    using assms(2) l(1)
    by (auto simp: persist_def sbind_ok smod_def get_log_def in_log_def refresh_cache_def split: prod.splits sum.splits)
  have same: "\<lparr>sn_dir = sn_dir n', sn_log = sn_log n'\<rparr> = n'" by simp
  show ?thesis
    using log_holds_append [OF l(2) n'(1) assms(3-5)] log_holds_cut_disk n'(2,3) cut_cache [OF log_holds_ascending [OF l(2)], of ents]
    by (auto simp: group_holds_def same)
qed

lemma persist_stored:
  assumes "group_stores c (re_seg E) k hs0 old g s" "persist E c g hs ents sync s = (Inr (), s')" "1 \<le> k"
    and "list_all (fits c) (recs_of hs ents)" "ascending c ents" "Suc k < 2 ^ 64"
  shows "group_holds c (re_seg E) (Suc k) (if hs = None then hs0 else hs) (splice c old ents) g s' \<and>
    (sync \<longrightarrow> (\<forall>d. power_cut (ln_dirs s' g) d \<longrightarrow>
       disk_holds c (sg_max_bytes (re_seg E)) (Suc k) (if hs = None then hs0 else hs) (splice c old ents) d))"
proof -
  obtain s1 where s1: "get_log E c g s = (Inr (), s1)" using assms(2) by (auto simp: persist_def sbind_ok)
  note h1 = get_log_holds [OF assms(1) s1 assms(3)]
  then have "get_log E c g s1 = (Inr (), s1)" by (auto simp: get_log_def group_holds_def)
  then have p1: "persist E c g hs ents sync s1 = (Inr (), s')" using assms(2) s1 by (simp add: persist_def sbind_def)
  show ?thesis by (rule persist_open [OF h1 p1 assms(4-6)])
qed

lemma splice_append: "ascending c (old @ new) \<Longrightarrow> splice c old new = old @ new"
  by (cases new) (auto simp: splice_def ascending_def sorted_wrt_append filter_id_conv)

lemma ascending_parts: "ascending c (xs @ ys) \<Longrightarrow> ascending c xs \<and> ascending c ys"
  by (simp add: ascending_def sorted_wrt_append)

lemma fits_entries: "list_all (fits c) (recs_of hs ents) \<Longrightarrow> set es \<subseteq> set ents \<Longrightarrow> h = hs \<or> h = None \<Longrightarrow> list_all (fits c) (recs_of h es)"
  by (auto simp: recs_of_def list_all_iff split: option.splits)

lemma persist_chunks_holds:
  assumes "group_stores c (re_seg E) k hs0 old g s" "1 \<le> k" "persist_chunks E c g hs ents s = (Inr (), s')"
    and "list_all (fits c) (recs_of hs ents)" "ascending c (old @ ents)" "k + length ents + 1 < 2 ^ 64"
  shows "\<exists>k'. group_holds c (re_seg E) k' (if hs = None then hs0 else hs) (old @ ents) g s' \<and>
    (\<forall>d. power_cut (ln_dirs s' g) d \<longrightarrow> disk_holds c (sg_max_bytes (re_seg E)) k' (if hs = None then hs0 else hs) (old @ ents) d)"
  using assms
proof (induction "length ents" arbitrary: ents hs hs0 old k s rule: less_induct)
  case less
  let ?chunk = "take migrate_chunk_entries ents"
  let ?rest = "drop migrate_chunk_entries ents"
  let ?hs = "if hs = None then hs0 else hs"
  have split: "ascending c (old @ ?chunk)" "ascending c ((old @ ?chunk) @ ?rest)"
    using ascending_parts [of c "old @ ?chunk" ?rest] less.prems(5) by simp_all
  obtain s1 where s1: "persist E c g hs ?chunk (?rest = []) s = (Inr (), s1)"
      "(if ?rest = [] then sret () else persist_chunks E c g None ?rest) s1 = (Inr (), s')"
    using less.prems(3) by (auto simp: persist_chunks.simps [of E c g hs ents] Let_def sbind_ok)
  have fit: "list_all (fits c) (recs_of hs ?chunk)" "list_all (fits c) (recs_of None ?rest)"
    by (rule fits_entries [OF less.prems(4)]; simp add: set_take_subset set_drop_subset)+
  have "Suc k < 2 ^ 64" using less.prems(6) by simp
  note p = persist_stored [OF less.prems(1) s1(1) less.prems(2) fit(1) conjunct2 [OF ascending_parts [OF split(1)]] this,
      unfolded splice_append [OF split(1)]]
  show ?case
  proof (cases "?rest = []")
    case True
    then have "s1 = s'" "?chunk = ents" using s1(2) by (auto simp: sret_def)
    then show ?thesis using p True by auto
  next
    case False
    then have len: "migrate_chunk_entries < length ents" "0 < migrate_chunk_entries" by (simp_all add: migrate_chunk_entries_def)
    then have l: "length ?rest < length ents" "Suc k + length ?rest + 1 < 2 ^ 64" using less.prems(6) by simp_all
    have h: "group_stores c (re_seg E) (Suc k) ?hs (old @ ?chunk) g s1" using p by (simp add: group_stores_def)
    have k: "1 \<le> Suc k" by simp
    have r: "persist_chunks E c g None ?rest s1 = (Inr (), s')" using False s1(2) by simp
    note less.hyps [OF l(1) h k r fit(2) split(2) l(2)]
    then show ?thesis by simp
  qed
qed

text \<open>What \<open>Persist\<close> leaves alone.\<close>

definition elsewhere :: "u32 \<Rightarrow> 'e log_node \<Rightarrow> 'e log_node \<Rightarrow> bool" where
  "elsewhere g s s' \<longleftrightarrow> db s' = db s \<and> (\<forall>h. h \<noteq> g \<longrightarrow> ln_dirs s' h = ln_dirs s h \<and> ln_open s' h = ln_open s h)"

lemma elsewhere_trans: "elsewhere g s t \<Longrightarrow> elsewhere g t u \<Longrightarrow> elsewhere g s u"
  by (simp add: elsewhere_def)

lemma elsewhere_refl [simp]: "elsewhere g s s"
  by (simp add: elsewhere_def)

lemma elsewhere_get_log: "get_log E c g s = (r, s') \<Longrightarrow> elsewhere g s s'"
  by (auto simp: get_log_def elsewhere_def split: option.splits sum.splits prod.splits)

lemma elsewhere_in_log: "in_log f g s = (r, s') \<Longrightarrow> elsewhere g s s'"
  by (auto simp: in_log_def elsewhere_def split: option.splits prod.splits)

lemma elsewhere_refresh: "elsewhere g s (refresh_cache c g hs ents s)"
  by (auto simp: refresh_cache_def elsewhere_def split: option.splits)

lemma elsewhere_persist: "persist E c g hs ents sync s = (r, s') \<Longrightarrow> elsewhere g s s'"
  unfolding persist_def sbind_def smod_def
  by (auto split: prod.splits sum.splits intro: elsewhere_trans elsewhere_refresh dest!: elsewhere_get_log elsewhere_in_log)

lemma elsewhere_wipe: "wipe_log E g s = (r, s') \<Longrightarrow> elsewhere g s s'"
  by (auto simp: wipe_log_def Let_def elsewhere_def split: option.splits sum.splits)

lemma wipe_log_ok: "wipe_log E g s = (Inr (), s') \<Longrightarrow> ln_dirs s' g = [] \<and> ln_open s' g = None"
  by (auto simp: wipe_log_def Let_def split: option.splits sum.splits)


lemma elsewhere_chunks: "persist_chunks E c g hs ents s = (r, s') \<Longrightarrow> elsewhere g s s'"
proof (induction "length ents" arbitrary: ents hs s rule: less_induct)
  case less
  let ?rest = "drop migrate_chunk_entries ents"
  obtain r1 s1 where p: "persist E c g hs (take migrate_chunk_entries ents) (?rest = []) s = (r1, s1)"
    by (cases "persist E c g hs (take migrate_chunk_entries ents) (?rest = []) s")
  have e1: "elsewhere g s s1" by (rule elsewhere_persist [OF p])
  show ?case
  proof (cases "is_ok r1 \<and> ?rest \<noteq> []")
    case True
    then have "persist_chunks E c g None ?rest s1 = (r, s')"
      using less.prems p by (auto simp: persist_chunks.simps [of E c g hs ents] Let_def sbind_def elim!: is_okE)
    moreover have "length ?rest < length ents" using True by (auto simp: migrate_chunk_entries_def)
    ultimately show ?thesis using less.hyps e1 elsewhere_trans by blast
  next
    case False
    then have "s' = s1"
      using less.prems p by (cases r1) (auto simp: persist_chunks.simps [of E c g hs ents] Let_def sbind_def sret_def)
    then show ?thesis using e1 by simp
  qed
qed


section \<open>A group through writes, restarts and power cuts\<close>

text \<open>
  \<open>log_life M g n dur hs ents s\<close>: what can happen to the log of group \<open>g\<close>, with whatever
  environment each step meets.  \<open>hs\<close> and \<open>ents\<close> are what raft has written, \<open>dur\<close> says that all of
  it was synced, \<open>n\<close> counts the writes.
\<close>

inductive log_life ::
    "'e log_codec \<Rightarrow> nat \<Rightarrow> u32 \<Rightarrow> nat \<Rightarrow> bool \<Rightarrow> hard_state option \<Rightarrow> 'e list \<Rightarrow> 'e log_node \<Rightarrow> bool" for c M g where
  start: "ln_dirs s g = [] \<Longrightarrow> ln_open s g = None \<Longrightarrow> log_life c M g 1 True None [] s"
| append: "log_life c M g n dur hs0 old s \<Longrightarrow> sg_max_bytes (re_seg E) = M \<Longrightarrow>
    persist E c g hs ents sync s = (Inr (), s') \<Longrightarrow> list_all (fits c) (recs_of hs ents) \<Longrightarrow> ascending c ents \<Longrightarrow>
    log_life c M g (Suc n) sync (if hs = None then hs0 else hs) (splice c old ents) s'"
| opened: "log_life c M g n dur hs ents s \<Longrightarrow> sg_max_bytes (re_seg E) = M \<Longrightarrow> get_log E c g s = (Inr (), s') \<Longrightarrow>
    log_life c M g n False hs ents s'"
| restart: "log_life c M g n dur hs ents s \<Longrightarrow> log_life c M g n dur hs ents (close_logs s)"
| power: "log_life c M g n True hs ents s \<Longrightarrow> power_cut (ln_dirs s g) d \<Longrightarrow>
    log_life c M g n False hs ents (close_logs (s\<lparr>ln_dirs := (ln_dirs s)(g := d)\<rparr>))"
| other: "log_life c M g n dur hs ents s \<Longrightarrow> ln_dirs s' g = ln_dirs s g \<Longrightarrow> ln_open s' g = ln_open s g \<Longrightarrow>
    log_life c M g n dur hs ents s'"

lemma log_life_stores:
  assumes "log_life c M g n dur hs ents s" "codec_ok c" "hs_small c M" "n < 2 ^ 64"
  shows "1 \<le> n \<and> (\<forall>env. sg_max_bytes env = M \<longrightarrow> group_stores c env n hs ents g s) \<and> (dur \<longrightarrow> (\<forall>d. power_cut (ln_dirs s g) d \<longrightarrow> disk_holds c M n hs ents d))"
  using assms
proof (induction rule: log_life.induct)
  case (start s)
  then show ?case by (auto simp: group_stores_def disk_holds_def elim: power_cut.cases)
next
  case (append n dur hs0 old s E hs ents sync s')
  then have "1 \<le> n" "group_stores c (re_seg E) n hs0 old g s" by auto
  from persist_stored [OF this(2) append.hyps(3) this(1) append.hyps(4,5) append.prems(3)]
  show ?case using append.hyps(2) by (auto simp: group_stores_def group_holds_def log_holds_def)
next
  case (opened n dur hs ents s E s')
  then have "1 \<le> n" "group_stores c (re_seg E) n hs ents g s" by auto
  from get_log_holds [OF this(2) opened.hyps(3) this(1)] this(1)
  show ?case using opened.hyps(2) by (auto simp: group_stores_def group_holds_def log_holds_def)
next
  case (restart n dur hs ents s)
  then show ?case by (fastforce simp: group_stores_def group_holds_def close_logs_def dest: log_holds_disk)
next
  case (power n hs ents s d)
  then show ?case by (auto simp: group_stores_def close_logs_def)
next
  case (other n dur hs ents s s')
  then show ?case by (auto simp: group_stores_def group_holds_def)
qed

text \<open>What \<open>Load\<close> makes of a group that is in its segment log.\<close>

definition load_view :: "hard_state option \<Rightarrow> hard_state" where
  "load_view hs = (case hs of None \<Rightarrow> empty_hs | Some h \<Rightarrow> h)"

lemma load_snap_meta_cong:
  "kv_get (db s) (snap_key g) = kv_get (db s') (snap_key g) \<Longrightarrow> load_snap_meta E mc s g = load_snap_meta E mc s' g"
  by (simp add: load_snap_meta_def load_with_def st_get_def)

lemma ask_store_ok: "ask_store f s = (Inr x, t) \<longleftrightarrow> f s = Inr x \<and> t = s"
  by (auto simp: ask_store_def in_store_def slift_def split: sum.splits)

lemma load_stored:
  assumes "group_stores c (re_seg E) k hs ents g s" "1 \<le> k" "legacy_pending (re_store E) g s = Inr False"
    and "load E c mc g s = (Inr x, s')"
  shows "\<exists>m. load_snap_meta (re_store E) mc s g = Inr m \<and> x = (load_view hs, ents, m)"
proof -
  obtain s1 m where m: "get_log E c g s = (Inr (), s1)" "load_snap_meta (re_store E) mc s1 g = Inr m"
      "x = (case ln_open s1 g of None \<Rightarrow> (empty_hs, [], m)
                 | Some (_, hs, ents) \<Rightarrow> ((case hs of None \<Rightarrow> empty_hs | Some h \<Rightarrow> h), ents, m))"
    using assms(3,4)
    by (auto simp: load_def ask_store_ok sbind_ok sget_def sret_def)
  have "db s1 = db s" using elsewhere_get_log [OF m(1)] by (simp add: elsewhere_def)
  then have "load_snap_meta (re_store E) mc s g = Inr m"
    using m(2) load_snap_meta_cong [of s1 g s] by simp
  moreover obtain l where "ln_open s1 g = Some (l, hs, ents)"
    using get_log_holds [OF assms(1) m(1) assms(2)] by (auto simp: group_holds_def)
  ultimately show ?thesis using m(3) by (simp add: load_view_def)
qed



section \<open>Migration\<close>

text \<open>All that a group's old log and anchor depend on.\<close>

lemma group_keys_cong:
  assumes "kv_get (db s') (hs_key g) = kv_get (db s) (hs_key g)" "kv_get (db s') (snap_key g) = kv_get (db s) (snap_key g)"
    and "kv_range (ent_prefix g) (prefix_upper_bound (ent_prefix g)) (db s') = kv_range (ent_prefix g) (prefix_upper_bound (ent_prefix g)) (db s)"
  shows "legacy_pending E g s' = legacy_pending E g s" "load_legacy E c mc g s' = load_legacy E c mc g s"
    "load_snap_meta E mc s' g = load_snap_meta E mc s g"
proof -
  have hs: "st_get E s' (hs_key g) = st_get E s (hs_key g)" by (simp add: st_get_def assms(1))
  have sc: "st_scan E s' (ent_prefix g) (prefix_upper_bound (ent_prefix g)) l f = st_scan E s (ent_prefix g) (prefix_upper_bound (ent_prefix g)) l f"
    for l and f :: "'z callback" by (rule ext) (simp add: st_scan_def assms(3))
  have sc2: "st_scan E s' (ent_prefix g) (prefix_upper_bound (ent_prefix g)) l f = st_scan E s (ent_prefix g) (prefix_upper_bound (ent_prefix g)) l f"
    for l and f :: "'y callback" by (rule ext) (simp add: st_scan_def assms(3))
  show m: "load_snap_meta E mc s' g = load_snap_meta E mc s g" by (rule load_snap_meta_cong) (rule assms(2))
  show "legacy_pending E g s' = legacy_pending E g s" unfolding legacy_pending_def hs sc ..
  show "load_legacy E c mc g s' = load_legacy E c mc g s" unfolding load_legacy_def hs sc m ..
qed

lemma db_cong:
  assumes "db s = db s'"
  shows "legacy_pending E g s = legacy_pending E g s'" "load_legacy E c mc g s = load_legacy E c mc g s'"
    "load_snap_meta E mc s g = load_snap_meta E mc s' g"
  by (rule group_keys_cong; simp add: assms)+

lemma in_store_db: "in_store (apply_with E b) s = (r, s') \<Longrightarrow>
    s' = s \<or> s' = set_db (apply_batch b (db s)) s"
  using apply_with_db by (fastforce simp: in_store_def split: sum.splits prod.splits)

lemma in_store_ok: "in_store (apply_with E b) s = (Inr u, s') \<Longrightarrow> s' = set_db (apply_batch b (db s)) s"
  using apply_with_ok by (fastforce simp: in_store_def split: sum.splits prod.splits)

text \<open>After the last batch no old key is left, and the anchor is where it was.\<close>

definition ent_keys_proper :: "u32 \<Rightarrow> kv \<Rightarrow> bool" where
  "ent_keys_proper g m \<longleftrightarrow> (\<forall>(k, v)\<in>set m. prefix (ent_prefix g) k \<longrightarrow> (\<exists>i. k = ent_key g i))"

lemma ent_range:
  obtains u where "prefix_upper_bound (ent_prefix g) = Some u" "\<And>k. prefix (ent_prefix g) k \<Longrightarrow> k < u" "\<And>i. ent_key g 0 \<le> ent_key g i"
    "\<And>k. ent_key g 0 \<le> k \<Longrightarrow> k < u \<Longrightarrow> prefix (ent_prefix g) k"
proof -
  have "prefix_upper_bound (ent_prefix g) \<noteq> None"
    using prefix_upper_bound_some [of "ent_prefix g"] by (auto simp: ent_prefix_def group_key_def raft_prefix_def)
  then obtain u where u: "prefix_upper_bound (ent_prefix g) = Some u" by blast
  note iff = prefix_upper_bound_exact [OF u]
  have "ent_key g 0 \<le> ent_key g i" for i
    using put_u64_less [of i 0] by (simp add: ent_key_def string_append_le not_less)
  moreover have "prefix (ent_prefix g) k" if "ent_key g 0 \<le> k" "k < u" for k
    using iff [of k] that by (metis ent_key_def order_trans string_le_append)
  ultimately show thesis using that u iff by blast
qed

lemma after_drop:
  assumes "db s' = apply_batch (drop_legacy_batch g) (db s)" "ent_keys_proper g (db s)"
  shows "legacy_pending E g s' = Inr x \<Longrightarrow> \<not> x" "load_snap_meta E mc s' g = load_snap_meta E mc s g"
proof -
  obtain u where u: "prefix_upper_bound (ent_prefix g) = Some u" "\<And>k. prefix (ent_prefix g) k \<Longrightarrow> k < u" "\<And>i. ent_key g 0 \<le> ent_key g i"
      "\<And>k. ent_key g 0 \<le> k \<Longrightarrow> k < u \<Longrightarrow> prefix (ent_prefix g) k"
    by (rule ent_range) blast
  have d: "db s' = kv_del_range (ent_key g 0) u (kv_del (hs_key g) (db s))"
    using assms(1) u(1) by (simp add: drop_legacy_batch_def kv_simps)
  have "\<not> prefix (ent_prefix g) k" if "(k, v) \<in> set (db s')" for k v
    using that assms(2) u(2,3) by (fastforce simp: d kv_del_range_def kv_del_def ent_keys_proper_def)
  then have empty: "kv_range (ent_prefix g) (prefix_upper_bound (ent_prefix g)) (db s') = []"
    unfolding kv_range_def in_range_prefix by (auto simp: filter_empty_conv)
  have "kv_get (db s') (hs_key g) = None" by (simp add: d kv_simps)
  then show "legacy_pending E g s' = Inr x \<Longrightarrow> \<not> x"
    by (auto simp: legacy_pending_def st_get_def st_scan_def empty split: if_splits prod.splits sum.splits)
  have "\<not> prefix (ent_prefix g) (snap_key g)" unfolding snap_key_def by (rule ent_not_named) simp
  then have "kv_get (db s') (snap_key g) = kv_get (db s) (snap_key g)"
    using u(4) by (auto simp: d kv_simps)
  then show "load_snap_meta E mc s' g = load_snap_meta E mc s g" by (rule load_snap_meta_cong)
qed

lemma migrate_cases:
  assumes "codec_ok c" "hs_small c (sg_max_bytes (re_seg E))" 
    and "legacy_pending (re_store E) g s = Inr True" "load_legacy (re_store E) c mc g s = Inr (hs, ents, m)"
    and "list_all (fits c) (recs_of (Some hs) ents)" "ascending c ents" "length ents + 2 < 2 ^ 64"
    and "migrate_log E c mc g s = (r, s')"
  shows "db s' = db s \<and> r \<noteq> Inr () \<or>
    db s' = apply_batch (drop_legacy_batch g) (db s) \<and>
    (\<exists>k. group_holds c (re_seg E) k (Some hs) ents g s' \<and>
      (\<forall>d. power_cut (ln_dirs s' g) d \<longrightarrow> disk_holds c (sg_max_bytes (re_seg E)) k (Some hs) ents d))"
proof -
  obtain rw s1 where w: "wipe_log E g s = (rw, s1)" by fastforce
  have db1: "db s1 = db s" using elsewhere_wipe [OF w] by (simp add: elsewhere_def)
  consider (wipe) e where "rw = Inl e" | (chunks) "rw = Inr ()" by (cases rw) auto
  then show ?thesis
  proof cases
    case wipe
    then show ?thesis using assms(3,8) w db1 by (auto simp add: migrate_log_def sbind_def ask_store_def in_store_def slift_def)
  next
    case chunks
    obtain rc s2 where c2: "persist_chunks E c g (Some hs) ents s1 = (rc, s2)" by fastforce
    have db2: "db s2 = db s" using elsewhere_chunks [OF c2] db1 by (simp add: elsewhere_def)
    have ll: "load_legacy (re_store E) c mc g s1 = Inr (hs, ents, m)" using assms(4) db_cong(2) [OF db1] by metis
    have r: "(case rc of Inl e \<Rightarrow> (Inl e, s2) | Inr u \<Rightarrow> in_store (apply_with (re_store E) (drop_legacy_batch g)) s2) = (r, s')"
      using assms(3,8) w chunks c2 ll
      by (simp add: migrate_log_def sbind_def ask_store_def in_store_def slift_def split: sum.splits)
    show ?thesis
    proof (cases rc)
      case (Inl e)
      then show ?thesis using r db2 by auto
    next
      case (Inr u)
      have fresh: "ln_dirs s1 g = []" "ln_open s1 g = None" using wipe_log_ok w chunks by auto
      have stores: "group_stores c (re_seg E) 1 None [] g s1"
        using fresh assms(1,2) by (simp add: group_stores_def disk_holds_def)
      have st: "persist_chunks E c g (Some hs) ents s1 = (Inr (), s2)" using c2 Inr by simp
      obtain k where k: "group_holds c (re_seg E) k (Some hs) ents g s2"
          "\<forall>d. power_cut (ln_dirs s2 g) d \<longrightarrow> disk_holds c (sg_max_bytes (re_seg E)) k (Some hs) ents d"
        using persist_chunks_holds [OF stores _ st assms(5)] assms(6,7) by auto
      have a: "in_store (apply_with (re_store E) (drop_legacy_batch g)) s2 = (r, s')" using r Inr by simp
      then have "r = Inr () \<Longrightarrow> s' = set_db (apply_batch (drop_legacy_batch g) (db s2)) s2" using in_store_ok by blast
      then show ?thesis using k db2 in_store_db [OF a] by (cases "r = Inr ()") (auto simp: group_holds_def set_db_def)
    qed
  qed
qed


lemma load_legacy_meta: "load_legacy E c mc g s = Inr (hs, ents, m) \<Longrightarrow> load_snap_meta E mc s g = Inr m"
proof -
  obtain r es where "st_scan E s (ent_prefix g) (prefix_upper_bound (ent_prefix g)) 0 (collect_entry c) [] = (r, es)" by fastforce
  then show "load_legacy E c mc g s = Inr (hs, ents, m) \<Longrightarrow> load_snap_meta E mc s g = Inr m"
    by (cases r) (auto simp: load_legacy_def ebind_Inr)
qed

text \<open>The process ends, by a crash or a power cut, and the data directory is opened again.\<close>

definition after_crash :: "u32 \<Rightarrow> seg_dir \<Rightarrow> 'e log_node \<Rightarrow> 'e log_node" where
  "after_crash g d s = close_logs (s\<lparr>ln_dirs := (ln_dirs s)(g := d)\<rparr>)"

text \<open>C11: Moving the log of a group from the store into segment files never loses anything.  However the
  move ends (success, an error of the file system or the store at any point, a power cut after that, on
  any disk state the cut may leave), the next \<open>Load\<close> gives the same hard state, entries and anchor as
  before the move; and when the move reported success nothing is left to move.\<close>

theorem migration_loses_nothing:
  assumes "codec_ok c" "hs_small c (sg_max_bytes (re_seg E))" "ent_keys_proper g (db s)"
    and "legacy_pending (re_store E) g s = Inr True" "load E c mc g s = (Inr (hs, ents, m), s0)"
    and "list_all (fits c) (recs_of (Some hs) ents)" "ascending c ents" "length ents + 2 < 2 ^ 64"
    and "migrate_log E c mc g s = (r, s')"
    and "d = ln_dirs s' g \<or> power_cut (ln_dirs s' g) d"
    and "load E c mc g (after_crash g d s') = (Inr (hs', ents', m'), s'')"
  shows "hs' = hs \<and> ents' = ents \<and> m' = m \<and> (r = Inr () \<longrightarrow> legacy_pending (re_store E) g s' \<noteq> Inr True)"
proof -
  have ll: "load_legacy (re_store E) c mc g s = Inr (hs, ents, m)" using assms(4,5) by (auto simp: load_def sbind_ok ask_store_ok)
  let ?t = "after_crash g d s'"
  have dbt: "db ?t = db s'" by (simp add: after_crash_def close_logs_def)
  note mc = migrate_cases [OF assms(1,2,4) ll assms(6-9)]
  show ?thesis
  proof (cases "db s' = db s \<and> r \<noteq> Inr ()")
    case True
    then have "db ?t = db s" using dbt by simp
    then have "legacy_pending (re_store E) g ?t = Inr True" "load_legacy (re_store E) c mc g ?t = Inr (hs, ents, m)"
      using assms(4) ll db_cong by metis+
    then show ?thesis using True assms(11) by (auto simp: load_def sbind_ok ask_store_ok)
  next
    case False
    then obtain k where k: "db s' = apply_batch (drop_legacy_batch g) (db s)" "group_holds c (re_seg E) k (Some hs) ents g s'"
        "\<forall>d. power_cut (ln_dirs s' g) d \<longrightarrow> disk_holds c (sg_max_bytes (re_seg E)) k (Some hs) ents d"
      using mc by blast
    have "disk_holds c (sg_max_bytes (re_seg E)) (max 1 k) (Some hs) ents d"
      using assms(10) k(2,3) log_holds_disk disk_holds_mono [of _ _ k _ _ _ "max 1 k"] by (fastforce simp: group_holds_def)
    then have st: "group_stores c (re_seg E) (max 1 k) (Some hs) ents g ?t"
      by (simp add: group_stores_def after_crash_def close_logs_def)
    have db: "db ?t = apply_batch (drop_legacy_batch g) (db s)" using dbt k(1) by simp
    obtain p where "legacy_pending (re_store E) g ?t = Inr p" using assms(11) by (auto simp: load_def sbind_ok ask_store_ok)
    then have "legacy_pending (re_store E) g ?t = Inr False" using after_drop(1) [OF db assms(3)] by (cases p) auto
    from load_stored [OF st _ this assms(11)]
    have "hs' = hs \<and> ents' = ents \<and> load_snap_meta (re_store E) mc ?t g = Inr m'" by (auto simp: load_view_def)
    moreover have "load_snap_meta (re_store E) mc ?t g = load_snap_meta (re_store E) mc s g" by (rule after_drop(2) [OF db assms(3)])
    moreover have "load_snap_meta (re_store E) mc s g = Inr m"
      by (rule load_legacy_meta [OF ll])
    moreover have "legacy_pending (re_store E) g s' \<noteq> Inr True" using after_drop(1) [OF k(1) assms(3)] by blast
    ultimately show ?thesis by simp
  qed
qed


section \<open>Raising the terms\<close>

text \<open>What \<open>Load\<close> gives for a group, wherever its log is.\<close>

definition log_state ::
    "rs_env \<Rightarrow> 'e log_codec \<Rightarrow> meta_codec \<Rightarrow> nat \<Rightarrow> u32 \<Rightarrow> hard_state \<Rightarrow> 'e list \<Rightarrow> snap_meta option \<Rightarrow> 'e log_node \<Rightarrow> bool" where
  "log_state E c mc k g hs ents m s \<longleftrightarrow>
     legacy_pending (re_store E) g s = Inr True \<and> load_legacy (re_store E) c mc g s = Inr (hs, ents, m) \<or>
     legacy_pending (re_store E) g s = Inr False \<and> load_snap_meta (re_store E) mc s g = Inr m \<and>
       (\<exists>h. hs = load_view h \<and> group_stores c (re_seg E) k h ents g s)"

lemma log_state_load:
  assumes "log_state E c mc k g hs ents m s" "1 \<le> k" "load E c mc g s = (Inr x, s')"
  shows "x = (hs, ents, m)"
  using assms load_stored [OF _ assms(2) _ assms(3)] by (fastforce simp: log_state_def load_def sbind_ok ask_store_ok)

lemma kv_range_set: "\<not> in_range lo hi k \<Longrightarrow> kv_range lo hi (kv_set k v m) = kv_range lo hi m"
  by (induction k v m rule: kv_set.induct) (auto simp: kv_range_def)

lemma ent_range_hs: "\<not> in_range (ent_prefix g) (prefix_upper_bound (ent_prefix g)) (hs_key h)"
  unfolding in_range_prefix hs_key_def by (rule ent_not_named) simp

lemma other_group_set:
  assumes "db s' = kv_set (hs_key h) d (db s)" "h \<noteq> g"
  shows "legacy_pending E g s' = legacy_pending E g s" "load_legacy E c mc g s' = load_legacy E c mc g s"
    "load_snap_meta E mc s' g = load_snap_meta E mc s g"
  by (rule group_keys_cong; simp add: assms(1) assms(2) [symmetric] kv_simps kv_range_set ent_range_hs)+

lemma kv_range_del: "\<not> in_range lo hi k \<Longrightarrow> kv_range lo hi (kv_del k m) = kv_range lo hi m"
  by (induction m) (auto simp: kv_range_def kv_del_def)

lemma own_group_set:
  assumes "db s' = kv_set (hs_key g) d (db s)" "dec_hs c d = Some h" "\<not> rd_fail E (hs_key g)" "load_legacy E c mc g s = Inr (hs, ents, m)"
  shows "legacy_pending E g s' = Inr True" "load_legacy E c mc g s' = Inr (h, ents, m)"
proof -
  have sc: "st_scan E s' (ent_prefix g) (prefix_upper_bound (ent_prefix g)) l f = st_scan E s (ent_prefix g) (prefix_upper_bound (ent_prefix g)) l f"
    for l and f :: "'z callback"
    by (rule ext) (simp add: st_scan_def assms(1) kv_range_set [OF ent_range_hs])
  have m: "load_snap_meta E mc s' g = load_snap_meta E mc s g" by (rule load_snap_meta_cong) (simp add: assms kv_simps)
  show "legacy_pending E g s' = Inr True" using assms(1,3) by (simp add: legacy_pending_def st_get_def kv_simps)
  obtain r es where "st_scan E s (ent_prefix g) (prefix_upper_bound (ent_prefix g)) 0 (collect_entry c) [] = (r, es)" by fastforce
  then show "load_legacy E c mc g s' = Inr (h, ents, m)"
    using assms by (cases r) (auto simp: load_legacy_def ebind_Inr st_get_def kv_simps sc m)
qed

lemma log_state_elsewhere:
  assumes "log_state E c mc k g hs ents m s" "db s' = db s" "ln_dirs s' g = ln_dirs s g" "ln_open s' g = ln_open s g"
  shows "log_state E c mc k g hs ents m s'"
  using assms(1,3,4) by (simp add: log_state_def group_stores_def group_holds_def db_cong [OF assms(2)])

lemma elsewhere_load: "load E c mc g s = (r, s') \<Longrightarrow> elsewhere g s s'"
  by (auto simp: load_def ask_store_def in_store_def slift_def sget_def sret_def elim!: sbind_cases split: if_splits sum.splits
      dest!: elsewhere_get_log)


text \<open>One group: its term is raised, and nothing else of it or of another group changes.\<close>

lemma bump_group_own:
  assumes "log_state E c mc k g hs ents m s" "bump_group E c mc g s = (Inr (), s')" "codec_ok c" "\<And>h. fits c (Hs h)"
    "1 \<le> k" "Suc k < 2 ^ 64"
  shows "log_state E c mc (Suc k) g (bump_hs hs) ents m s'"
proof -
  obtain x s1 where l: "load E c mc g s = (Inr x, s1)" using assms(2) by (auto simp: bump_group_def sbind_ok)
  have x: "x = (hs, ents, m)" by (rule log_state_load [OF assms(1,5) l])
  have db1: "db s1 = db s" using elsewhere_load [OF l] by (simp add: elsewhere_def)
  have rest: "(if legacy_pending (re_store E) g s1 = Inr True then
         (case enc_hs c (bump_hs hs) of
            None \<Rightarrow> sfail (RsStore ErrMarshal)
          | Some d \<Rightarrow> in_store (apply_with (re_store E) (bset (hs_key g) d new_batch))) s1
       else persist E c g (Some (bump_hs hs)) [] True s1) = (Inr (), s')"
    using assms(2) l x by (auto simp: bump_group_def sbind_ok ask_store_ok)
  show ?thesis
  proof (cases "legacy_pending (re_store E) g s = Inr True")
    case True
    then have p: "legacy_pending (re_store E) g s1 = Inr True" "load_legacy (re_store E) c mc g s = Inr (hs, ents, m)"
      using assms(1) by (auto simp: log_state_def db_cong [OF db1])
    obtain d where d: "enc_hs c (bump_hs hs) = Some d" "in_store (apply_with (re_store E) (bset (hs_key g) d new_batch)) s1 = (Inr (), s')"
      using rest p(1) by (auto simp: sfail_def split: option.splits)
    have "db s' = kv_set (hs_key g) d (db s)" using in_store_ok [OF d(2)] db1 by (simp add: kv_simps)
    moreover have "\<not> rd_fail (re_store E) (hs_key g)" using True by (auto simp: legacy_pending_def st_get_def)
    moreover have "dec_hs c d = Some (bump_hs hs)" using assms(3) d(1) by (simp add: codec_ok_def)
    ultimately show ?thesis using own_group_set p(2) by (metis log_state_def)
  next
    case False
    then have st: "legacy_pending (re_store E) g s = Inr False" "load_snap_meta (re_store E) mc s g = Inr m"
      and "\<exists>h. hs = load_view h \<and> group_stores c (re_seg E) k h ents g s"
      using assms(1) by (auto simp: log_state_def)
    then obtain h where h: "group_stores c (re_seg E) k h ents g s" by blast
    have st1: "get_log E c g s = (Inr (), s1)"
      using l st(1) by (auto simp: load_def sbind_ok ask_store_ok sget_def sret_def)
    have gs: "group_stores c (re_seg E) k h ents g s1"
      using get_log_holds [OF h st1 assms(5)] by (simp add: group_stores_def)
    have p: "persist E c g (Some (bump_hs hs)) [] True s1 = (Inr (), s')"
      using rest False by (simp add: db_cong [OF db1])
    have "group_stores c (re_seg E) (Suc k) (Some (bump_hs hs)) ents g s'"
      using persist_stored [OF gs p assms(5) _ _ assms(6)] assms(4) by (simp add: recs_of_def ascending_def splice_def group_stores_def)
    moreover have "db s' = db s" using elsewhere_persist [OF p] db1 by (simp add: elsewhere_def)
    ultimately show ?thesis using st
      by (auto simp: log_state_def db_cong [of s' s] load_view_def intro!: exI [of _ "Some (bump_hs hs)"])
  qed
qed

lemma bump_group_db:
  assumes "bump_group E c mc g s = (r, s')"
  shows "db s' = db s \<or> (\<exists>d. db s' = kv_set (hs_key g) d (db s))"
    "\<forall>h. h \<noteq> g \<longrightarrow> ln_dirs s' h = ln_dirs s h \<and> ln_open s' h = ln_open s h"
proof -
  obtain rl s1 where l: "load E c mc g s = (rl, s1)" by fastforce
  then have e: "elsewhere g s s1" by (rule elsewhere_load)
  have d: "elsewhere g s1 s' \<or> (\<exists>d u. in_store (apply_with (re_store E) (bset (hs_key g) d new_batch)) s1 = (u, s'))"
  proof (cases rl)
    case (Inl e)
    then show ?thesis using assms l by (simp add: bump_group_def sbind_def)
  next
    case (Inr x)
    have a: "ask_store (legacy_pending (re_store E) g) s1 =
        (case legacy_pending (re_store E) g s1 of Inl e \<Rightarrow> Inl (RsStore e) | Inr b \<Rightarrow> Inr b, s1)"
      by (simp add: ask_store_def in_store_def slift_def split: sum.split)
    show ?thesis
      using assms l Inr elsewhere_persist [of E c g "Some (bump_hs (fst x))" "[]" True s1 r s']
      by (cases "legacy_pending (re_store E) g s1"; cases "enc_hs c (bump_hs (fst x))")
        (auto simp: bump_group_def sbind_def a sfail_def split: prod.splits if_splits)
  qed
  show "db s' = db s \<or> (\<exists>d. db s' = kv_set (hs_key g) d (db s))"
    "\<forall>h. h \<noteq> g \<longrightarrow> ln_dirs s' h = ln_dirs s h \<and> ln_open s' h = ln_open s h"
    using d e in_store_db by (fastforce simp: elsewhere_def kv_simps set_db_def)+
qed


lemma bump_group_other:
  assumes "bump_group E c mc g s = (r, s')" "h \<noteq> g" "log_state E c mc k h hs ents m s"
  shows "log_state E c mc k h hs ents m s'"
proof -
  note same = bump_group_db(2) [OF assms(1), rule_format, OF assms(2)]
  from bump_group_db(1) [OF assms(1)] show ?thesis
  proof
    assume "db s' = db s"
    then show ?thesis using log_state_elsewhere [OF assms(3)] same by blast
  next
    assume "\<exists>d. db s' = kv_set (hs_key g) d (db s)"
    then obtain d where d: "db s' = kv_set (hs_key g) d (db s)" by blast
    show ?thesis using assms(3) same
      by (simp add: log_state_def group_stores_def group_holds_def other_group_set [OF d assms(2) [symmetric]])
  qed
qed

lemma bump_groups_all:
  assumes "bump_groups E c mc gs s = (Inr (), s')" "distinct gs" "codec_ok c" "\<And>h. fits c (Hs h)" "1 \<le> k" "Suc k < 2 ^ 64"
    and "\<And>g. g \<in> set gs \<Longrightarrow> log_state E c mc k g (H g) (T g) (M g) s"
  shows "g \<in> set gs \<Longrightarrow> log_state E c mc (Suc k) g (bump_hs (H g)) (T g) (M g) s'"
    and "h \<notin> set gs \<Longrightarrow> log_state E c mc k' h hs ents m s \<Longrightarrow> log_state E c mc k' h hs ents m s'"
  using assms
proof (induction gs arbitrary: s g h k' hs ents m)
  case (Cons x gs)
  {
    case 1
    obtain s1 where s1: "bump_group E c mc x s = (Inr (), s1)" "bump_groups E c mc gs s1 = (Inr (), s')"
      using 1 by (auto simp: sbind_ok)
    have own: "log_state E c mc (Suc k) x (bump_hs (H x)) (T x) (M x) s1"
      using bump_group_own [OF _ s1(1)] 1 by auto
    have others: "y \<in> set gs \<Longrightarrow> log_state E c mc k y (H y) (T y) (M y) s1" for y
      by (rule bump_group_other [OF s1(1)]) (use 1 in auto)
    show ?case
    proof (cases "g = x")
      case True
      then show ?thesis using Cons.IH(2) [OF _ own s1(2)] others 1 by auto
    next
      case False
      then show ?thesis using Cons.IH(1) [OF _ s1(2)] others 1 by auto
    qed
  next
    case 2
    obtain s1 where s1: "bump_group E c mc x s = (Inr (), s1)" "bump_groups E c mc gs s1 = (Inr (), s')"
      using 2 by (auto simp: sbind_ok)
    have others: "y \<in> set gs \<Longrightarrow> log_state E c mc k y (H y) (T y) (M y) s1" for y
      by (rule bump_group_other [OF s1(1)]) (use 2 in auto)
    show ?case using Cons.IH(2) [OF _ bump_group_other [OF s1(1) _ 2(2)] s1(2)] others 2 by auto
  }
qed (simp_all add: sret_def)

lemma permit_not_group: "\<not> prefix (group_key g name) recover_permit_key"
proof -
  obtain ch r where "fmt_nat (unat g) = ch # r" "is_digit ch" by (rule fmt_nat_hd)
  then show ?thesis by (auto simp: recover_permit_key_def group_key_def raft_prefix_def is_digit_def)
qed

lemma permit_not_hs: "recover_permit_key \<noteq> hs_key g"
  using permit_not_group [of g "''hs''"] by (auto simp: hs_key_def)

lemma bump_groups_permit: "bump_groups E c mc gs s = (r, s') \<Longrightarrow> kv_get (db s') recover_permit_key = kv_get (db s) recover_permit_key"
proof (induction gs arbitrary: s)
  case (Cons x gs)
  obtain r1 s1 where s1: "bump_group E c mc x s = (r1, s1)" by fastforce
  then have "kv_get (db s1) recover_permit_key = kv_get (db s) recover_permit_key"
    using bump_group_db(1) [OF s1] permit_not_hs by (auto simp: kv_simps)
  then show ?case using Cons s1 by (cases r1) (auto simp: sbind_def)
qed (simp add: sret_def)

lemma unat_group: "i \<le> unat ng \<Longrightarrow> unat (of_nat i :: u32) = i" for ng :: u32
proof -
  assume "i \<le> unat ng"
  then have "i < 2 ^ LENGTH(32)" using unsigned_less [of ng] by (metis le_less_trans)
  then show ?thesis by (simp add: unat_of_nat take_bit_nat_eq_self)
qed

lemma group_ids_distinct: "distinct (group_ids ng)"
proof -
  have "inj_on (of_nat :: nat \<Rightarrow> u32) {0..<Suc (unat ng)}"
    by (rule inj_on_inverseI [of _ unat]) (simp add: unat_group [of _ ng])
  then show ?thesis by (simp add: group_ids_def distinct_map del: upt_Suc)
qed

lemma group_ids_mem: "g \<in> set (group_ids ng) \<longleftrightarrow> g \<le> ng"
proof
  assume "g \<le> ng"
  then have "unat g \<in> {0..<Suc (unat ng)}" by (simp add: word_le_nat_alt)
  moreover have "g = of_nat (unat g)" by simp
  ultimately show "g \<in> set (group_ids ng)" unfolding group_ids_def set_map set_upt by (rule rev_image_eqI)
next
  assume "g \<in> set (group_ids ng)"
  then obtain i where "g = of_nat i" "i \<le> unat ng" by (auto simp: group_ids_def simp del: upt_Suc)
  then show "g \<le> ng" by (simp add: word_le_nat_alt unat_group)
qed

lemma log_state_del_permit:
  assumes "log_state E c mc k g hs ents m s" "db s' = kv_del recover_permit_key (db s)" "ln_dirs s' g = ln_dirs s g" "ln_open s' g = ln_open s g"
  shows "log_state E c mc k g hs ents m s'"
proof -
  have "recover_permit_key \<noteq> snap_key g" "\<not> prefix (ent_prefix g) recover_permit_key"
    using permit_not_group [of g "''snap''"] permit_not_group [of g "''ent/''"] by (auto simp: ent_prefix_def snap_key_def)
  then have k: "kv_get (db s') (hs_key g) = kv_get (db s) (hs_key g)" "kv_get (db s') (snap_key g) = kv_get (db s) (snap_key g)"
    "kv_range (ent_prefix g) (prefix_upper_bound (ent_prefix g)) (db s') = kv_range (ent_prefix g) (prefix_upper_bound (ent_prefix g)) (db s)"
    using permit_not_hs [of g] by (auto simp: assms(2) kv_simps in_range_prefix intro!: kv_range_del)
  show ?thesis using assms(1,3,4) by (simp add: log_state_def group_stores_def group_holds_def group_keys_cong [OF k])
qed

text \<open>C16: A signed recovery permit is gone from the store only when the terms of all groups have been
  raised: if \<open>ForceLocalRecover\<close> leaves the permit key changed, whatever it returned, then every group up
  to \<open>ng\<close> loads with its term raised by one, its vote cleared, and its commit index, entries and anchor
  untouched.\<close>

theorem permit_spent_after_bump:
  assumes "codec_ok c" "\<And>h. fits c (Hs h)" "1 \<le> k" "Suc k < 2 ^ 64"
    and "\<And>g. g \<le> ng \<Longrightarrow> log_state E c mc k g (H g) (T g) (M g) s"
    and "force_local_recover E c mc ng s = (r, s')"
    and "kv_get (db s') recover_permit_key \<noteq> kv_get (db s) recover_permit_key"
    and "g \<le> ng" "load E c mc g s' = (Inr (hs, ents, m), s'')"
  shows "hs = \<lparr>hs_term = hs_term (H g) + 1, hs_vote = 0, hs_commit = hs_commit (H g)\<rparr> \<and> ents = T g \<and> m = M g"
proof -
  obtain rb s1 where b: "bump_groups E c mc (group_ids ng) s = (rb, s1)" by fastforce
  have keep: "kv_get (db s1) recover_permit_key = kv_get (db s) recover_permit_key" by (rule bump_groups_permit [OF b])
  have run: "(case rb of Inl e \<Rightarrow> (Inl e, s1) | Inr _ \<Rightarrow> in_store (apply_with (re_store E) (bdelete recover_permit_key new_batch)) s1) = (r, s')"
    using assms(6) b by (simp add: force_local_recover_def bump_terms_into_def sbind_def split: sum.splits)
  then have ok: "rb = Inr ()" and s': "s' = set_db (kv_del recover_permit_key (db s1)) s1"
    using keep assms(7) in_store_db [of "re_store E" "bdelete recover_permit_key new_batch" s1 r s']
    by (auto simp: kv_simps split: sum.splits)
  have "log_state E c mc (Suc k) g (bump_hs (H g)) (T g) (M g) s1"
    by (rule bump_groups_all(1) [of E c mc "group_ids ng" s]) (use b ok assms(1-5,8) group_ids_distinct in \<open>auto simp: group_ids_mem\<close>)
  then have "log_state E c mc (Suc k) g (bump_hs (H g)) (T g) (M g) s'"
    by (rule log_state_del_permit) (simp_all add: s' set_db_def)
  from log_state_load [OF this _ assms(9)] show ?thesis by (simp add: bump_hs_def)
qed

end
