(* ===== verification/Recovery.thy ===== *)
theory Recovery
  imports Raft_Safety
begin

text \<open>
  \<^verbatim>\<open>internal/cluster/recovery.go\<close>, and what \<^verbatim>\<open>manager.go\<close> does with its answer: \<open>NewManager\<close> up to the
  raft groups, and \<open>buildGroup\<close> up to the raft node.
\<close>

section \<open>The decision\<close>

datatype ack_mode = AckQuorumFsync | AckQuorumMem

datatype recovery_path = CleanResume | Fresh | LocalResume | LocalForced | Rejoin

fun path_name :: "recovery_path \<Rightarrow> bytes" where
  "path_name CleanResume = ''clean-resume''"
| "path_name Fresh = ''fresh''"
| "path_name LocalResume = ''local-resume''"
| "path_name LocalForced = ''local-forced''"
| "path_name Rejoin = ''rejoin''"

text \<open>The texts that explain a decision, one name for each.\<close>

datatype recovery_reason = WasClean | NoRaftState | SameBoot | FsyncMode | PermitMatches | PermitOfAnotherBoot | NoEvidence

record recovery_input =
  ri_clean :: bool
  ri_has_raft :: bool
  ri_mode :: ack_mode
  ri_gen_now :: bytes
  ri_gen_now_ok :: bool
  ri_gen_stored :: bytes
  ri_gen_stored_ok :: bool
  ri_permit_gen :: bytes
  ri_permit_ok :: bool

definition same_machine_boot :: "recovery_input \<Rightarrow> bool" where
  "same_machine_boot i \<longleftrightarrow> ri_gen_now_ok i \<and> ri_gen_stored_ok i \<and> ri_gen_now i = ri_gen_stored i"

definition permit_valid :: "recovery_input \<Rightarrow> bool" where
  "permit_valid i \<longleftrightarrow> ri_permit_ok i \<and> ri_gen_now_ok i \<and> ri_permit_gen i = ri_gen_now i"

definition decide_recovery :: "recovery_input \<Rightarrow> recovery_path \<times> recovery_reason" where
  "decide_recovery i =
     (if ri_clean i then (CleanResume, WasClean)
      else if \<not> ri_has_raft i then (Fresh, NoRaftState)
      else if same_machine_boot i then (LocalResume, SameBoot)
      else if ri_mode i = AckQuorumFsync then (LocalResume, FsyncMode)
      else if permit_valid i then (LocalForced, PermitMatches)
      else if ri_permit_ok i then (Rejoin, PermitOfAnotherBoot)
      else (Rejoin, NoEvidence))"

fun needs_term_bump :: "recovery_path \<Rightarrow> ack_mode \<Rightarrow> bool" where
  "needs_term_bump LocalForced mode = True"
| "needs_term_bump LocalResume mode = (mode = AckQuorumMem)"
| "needs_term_bump _ mode = False"

section \<open>What is on disk\<close>

text \<open>\<open>groupHasSegFiles\<close>: a segment file that is not empty; \<open>stat\<close> says which \<open>Info\<close> fails.\<close>

fun seg_files_in :: "(bytes \<Rightarrow> bool) \<Rightarrow> seg_dir \<Rightarrow> rs_error + bool" where
  "seg_files_in stat [] = Inr False"
| "seg_files_in stat ((name, SubDir) # rest) = seg_files_in stat rest"
| "seg_files_in stat ((name, SegFile f) # rest) =
     (if \<not> suffix seg_suffix name then seg_files_in stat rest
      else if stat name then Inl (RsSeg (IoErr OReadDir))
      else if 0 < length (sf_data f) then Inr True
      else seg_files_in stat rest)"

record 'e boot_env =
  be_rs :: rs_env
  be_stat :: "bytes \<Rightarrow> bool"
  be_ent_term :: "'e \<Rightarrow> u64"
  be_ent_conf :: "'e \<Rightarrow> conf_entry"

definition group_has_seg_files :: "'e boot_env \<Rightarrow> seg_dir \<Rightarrow> rs_error + bool" where
  "group_has_seg_files E dir =
     (if sg_fails (re_seg (be_rs E)) OReadDir then Inl (RsSeg (IoErr OReadDir)) else seg_files_in (be_stat E) dir)"

fun any_group_state :: "'e boot_env \<Rightarrow> u32 list \<Rightarrow> 'e log_node \<Rightarrow> rs_error + bool" where
  "any_group_state E [] s = Inr False"
| "any_group_state E (g # gs) s =
     (case st_get (re_store (be_rs E)) s (hs_key g) of
        Inl e \<Rightarrow> Inl (RsStore e)
      | Inr (Some _) \<Rightarrow> Inr True
      | Inr None \<Rightarrow>
          ebind (group_has_seg_files E (ln_dirs s g)) (\<lambda>has. if has then Inr True else any_group_state E gs s))"

definition disk_has_raft_state :: "'e boot_env \<Rightarrow> u32 \<Rightarrow> 'e log_node \<Rightarrow> rs_error + bool" where
  "disk_has_raft_state E ng s =
     (case raft_applied (re_store (be_rs E)) s meta_group of
        Inl e \<Rightarrow> Inl (RsStore e)
      | Inr app \<Rightarrow> if app \<noteq> 0 then Inr True else any_group_state E (group_ids ng) s)"

fun any_key_in :: "env \<Rightarrow> key_range list \<Rightarrow> 'z node_scheme \<Rightarrow> err + bool" where
  "any_key_in E [] s = Inr False"
| "any_key_in E (r # rs) s =
     (case st_scan E s (kr_lower r) (kr_upper r) 1 (\<lambda>found k v. (Inr False, True)) False of
        (Inl e, found) \<Rightarrow> Inl e
      | (Inr u, found) \<Rightarrow> if found then Inr True else any_key_in E rs s)"

definition store_has_fsm_keys :: "env \<Rightarrow> 'z node_scheme \<Rightarrow> err + bool" where
  "store_has_fsm_keys E =
     any_key_in E [\<lparr>kr_lower = [], kr_upper = Some raft_prefix\<rparr>, \<lparr>kr_lower = raft_prefix_end, kr_upper = None\<rparr>]"

section \<open>Starting a node\<close>

definition recovery_input_of ::
    "bool \<Rightarrow> bool \<Rightarrow> ack_mode \<Rightarrow> bytes option \<Rightarrow> bytes option \<Rightarrow> recover_permit option \<Rightarrow> recovery_input" where
  "recovery_input_of clean has mode now disk permit =
     \<lparr>ri_clean = clean, ri_has_raft = has, ri_mode = mode,
      ri_gen_now = (case now of None \<Rightarrow> [] | Some g \<Rightarrow> g), ri_gen_now_ok = (now \<noteq> None),
      ri_gen_stored = (case disk of None \<Rightarrow> [] | Some g \<Rightarrow> g), ri_gen_stored_ok = (disk \<noteq> None),
      ri_permit_gen = (case permit of None \<Rightarrow> [] | Some p \<Rightarrow> pm_gen p), ri_permit_ok = (permit \<noteq> None)\<rparr>"

definition act_on_path ::
    "'e boot_env \<Rightarrow> 'e log_codec \<Rightarrow> meta_codec \<Rightarrow> u32 \<Rightarrow> recovery_path \<Rightarrow> 'e log_node \<Rightarrow> (rs_error + unit) \<times> 'e log_node" where
  "act_on_path E c mc ng path =
     (case path of
        CleanResume \<Rightarrow> sret ()
      | LocalResume \<Rightarrow> sret ()
      | LocalForced \<Rightarrow> force_local_recover (be_rs E) c mc ng
      | Rejoin \<Rightarrow> sfail RsUnclean
      | Fresh \<Rightarrow>
          sbind (ask_store (store_has_fsm_keys (re_store (be_rs E)))) (\<lambda>pre.
            if pre then in_store (mark_pre_raft (re_store (be_rs E))) else sret ()))"

fun migrate_groups :: "rs_env \<Rightarrow> 'e log_codec \<Rightarrow> meta_codec \<Rightarrow> u32 list \<Rightarrow> nat \<Rightarrow> 'e log_node \<Rightarrow> (rs_error + nat) \<times> 'e log_node" where
  "migrate_groups E c mc [] migrated = sret migrated"
| "migrate_groups E c mc (g # gs) migrated =
     sbind (ask_store (legacy_pending (re_store E) g)) (\<lambda>pending.
     sbind (migrate_log E c mc g) (\<lambda>_.
     migrate_groups E c mc gs (if pending then migrated + 1 else migrated)))"

definition replays :: "recovery_path \<Rightarrow> bool" where
  "replays path \<longleftrightarrow> path \<in> {CleanResume, LocalResume, LocalForced}"

text \<open>\<open>NewManager\<close> from \<open>EnsureGroups\<close> to \<open>SaveBootGen\<close>; \<open>now\<close> is the generation of the machine, if known.\<close>

definition recover_node ::
    "'e boot_env \<Rightarrow> 'e log_codec \<Rightarrow> meta_codec \<Rightarrow> u32 \<Rightarrow> ack_mode \<Rightarrow> bytes option \<Rightarrow> 'e log_node
      \<Rightarrow> (rs_error + recovery_path) \<times> 'e log_node" where
  "recover_node E c mc ng mode now =
     sbind (in_store (ensure_groups (re_store (be_rs E)) ng)) (\<lambda>_.
     sbind (in_store (consume_clean_shutdown (re_store (be_rs E)))) (\<lambda>clean.
     sbind (slift (disk_has_raft_state E ng)) (\<lambda>has.
     sbind (ask_store (load_boot_gen (re_store (be_rs E)))) (\<lambda>gen.
     sbind (ask_store (load_recover_permit (re_store (be_rs E)))) (\<lambda>permit.
       let path = fst (decide_recovery (recovery_input_of clean has mode now gen permit)) in
       sbind (act_on_path E c mc ng path) (\<lambda>_.
       sbind (if path = LocalResume \<and> needs_term_bump path mode then bump_terms_for_local_resume (be_rs E) c mc ng else sret ()) (\<lambda>_.
       sbind (migrate_groups (be_rs E) c mc (group_ids ng) 0) (\<lambda>_.
       sbind (case now of None \<Rightarrow> sret () | Some gen \<Rightarrow> in_store (save_boot_gen (re_store (be_rs E)) gen)) (\<lambda>_.
       sret path)))))))))"

section \<open>Building a group\<close>

text \<open>The \<open>MemoryStorage\<close> of the raft library, which is not part of this repository.\<close>

record ('e, 'm) raft_storage =
  rg_new :: 'm
  rg_apply_snapshot :: "snap_meta \<Rightarrow> 'm \<Rightarrow> err + 'm"
  rg_append :: "'e list \<Rightarrow> 'm \<Rightarrow> err + 'm"
  rg_set_hs :: "hard_state \<Rightarrow> 'm \<Rightarrow> err + 'm"

definition stored_conf ::
    "'e boot_env \<Rightarrow> 'e log_codec \<Rightarrow> meta_codec \<Rightarrow> u32 \<Rightarrow> hard_state \<Rightarrow> 'e list \<Rightarrow> 'z node_scheme \<Rightarrow> err + conf_state" where
  "stored_conf E c mc g hs ents s =
     ebind (load_conf_state (re_store (be_rs E)) mc s g) (\<lambda>conf.
       case conf of
         Some cs \<Rightarrow> Inr cs
       | None \<Rightarrow> conf_state_from_entries (List.map (\<lambda>e. (ent_index c e, be_ent_conf E e)) ents) (hs_commit hs) empty_conf)"

text \<open>The storage as \<open>buildGroup\<close> seeds it from what \<open>Load\<close> gives.\<close>

definition seed_storage ::
    "'e boot_env \<Rightarrow> ('e, 'm) raft_storage \<Rightarrow> 'e log_codec \<Rightarrow> meta_codec \<Rightarrow> u32 \<Rightarrow> hard_state \<Rightarrow> 'e list \<Rightarrow> snap_meta option
      \<Rightarrow> 'z node_scheme \<Rightarrow> err + 'm" where
  "seed_storage E R c mc g hs ents m s =
     ebind
       (case m of
          Some meta \<Rightarrow>
            ebind (if cs_voters (mt_conf meta) = [] then stored_conf E c mc g hs ents s else Inr (mt_conf meta)) (\<lambda>cs.
            ebind (rg_apply_snapshot R \<lparr>mt_index = mt_index meta, mt_term = mt_term meta, mt_conf = cs\<rparr> (rg_new R)) (\<lambda>st.
              if ents = [] then Inr st else rg_append R ents st))
        | None \<Rightarrow>
            if ents = [] then Inr (rg_new R)
            else
              ebind (stored_conf E c mc g hs ents s) (\<lambda>cs.
              ebind (rg_apply_snapshot R
                \<lparr>mt_index = ent_index c (hd ents) - 1, mt_term = be_ent_term E (hd ents), mt_conf = cs\<rparr> (rg_new R)) (\<lambda>st.
                rg_append R ents st)))
       (\<lambda>st. if hs = empty_hs then Inr st else rg_set_hs R hs st)"

text \<open>\<open>buildGroup\<close>: the storage and the applied index a group starts with.\<close>

definition build_group ::
    "'e boot_env \<Rightarrow> ('e, 'm) raft_storage \<Rightarrow> 'e log_codec \<Rightarrow> meta_codec \<Rightarrow> u32 \<Rightarrow> u32 \<Rightarrow> bool \<Rightarrow> 'e log_node
      \<Rightarrow> (rs_error + 'm \<times> u64) \<times> 'e log_node" where
  "build_group E R c mc ng g clean =
     (if \<not> clean then sret (rg_new R, 0)
      else
        sbind (load (be_rs E) c mc g) (\<lambda>(hs, ents, m).
        sbind (ask_store (seed_storage E R c mc g hs ents m)) (\<lambda>st.
        sbind (ask_store (\<lambda>s. raft_applied (re_store (be_rs E)) s g)) (\<lambda>applied.
        sbind (ask_store (\<lambda>s. load_installing (re_store (be_rs E)) mc s g)) (\<lambda>inst.
          case inst of
            None \<Rightarrow> sret (st, applied)
          | Some meta \<Rightarrow>
              sbind (in_store (wipe_group_keys (re_store (be_rs E)) g ng)) (\<lambda>_.
              sbind (reset_group_progress (be_rs E) g) (\<lambda>_.
                sret (rg_new R, 0))))))))"

fun build_groups ::
    "'e boot_env \<Rightarrow> ('e, 'm) raft_storage \<Rightarrow> 'e log_codec \<Rightarrow> meta_codec \<Rightarrow> u32 \<Rightarrow> bool \<Rightarrow> u32 list \<Rightarrow> 'e log_node
      \<Rightarrow> (rs_error + (u32 \<times> 'm \<times> u64) list) \<times> 'e log_node" where
  "build_groups E R c mc ng clean [] = sret []"
| "build_groups E R c mc ng clean (g # gs) =
     sbind (build_group E R c mc ng g clean) (\<lambda>x.
     sbind (build_groups E R c mc ng clean gs) (\<lambda>xs. sret ((g, x) # xs)))"

definition default_data_groups :: "u32 \<Rightarrow> u32" where
  "default_data_groups n = (if n = 0 then 3 else n)"

definition new_manager ::
    "'e boot_env \<Rightarrow> ('e, 'm) raft_storage \<Rightarrow> 'e log_codec \<Rightarrow> meta_codec \<Rightarrow> u32 \<Rightarrow> ack_mode \<Rightarrow> bytes option \<Rightarrow> 'e log_node
      \<Rightarrow> (rs_error + recovery_path \<times> (u32 \<times> 'm \<times> u64) list) \<times> 'e log_node" where
  "new_manager E R c mc ng mode now =
     sbind (recover_node E c mc (default_data_groups ng) mode now) (\<lambda>path.
     sbind (build_groups E R c mc (default_data_groups ng) (replays path) (group_ids (default_data_groups ng))) (\<lambda>gs.
       sret (path, gs)))"


section \<open>The report of \<open>sq recover\<close>\<close>

definition inspect_group_state ::
    "'e boot_env \<Rightarrow> 'e log_codec \<Rightarrow> meta_codec \<Rightarrow> u32 \<Rightarrow> 'e log_node
      \<Rightarrow> (rs_error + hard_state \<times> 'e list \<times> snap_meta option \<times> bool) \<times> 'e log_node" where
  "inspect_group_state E c mc g =
     sbind (ask_store (legacy_pending (re_store (be_rs E)) g)) (\<lambda>pending.
       if pending then
         sbind (ask_store (load_legacy (re_store (be_rs E)) c mc g)) (\<lambda>(hs, ents, m). sret (hs, ents, m, False))
       else
         sbind (slift (\<lambda>s. group_has_seg_files E (ln_dirs s g))) (\<lambda>has.
           if \<not> has then
             sbind (ask_store (\<lambda>s. load_snap_meta (re_store (be_rs E)) mc s g)) (\<lambda>m. sret (empty_hs, [], m, False))
           else
             sbind (load (be_rs E) c mc g) (\<lambda>(hs, ents, m). sret (hs, ents, m, True))))"

record group_report =
  gp_group :: u32
  gp_applied :: u64
  gp_last_index :: u64
  gp_last_term :: u64
  gp_snap_index :: u64
  gp_term :: u64
  gp_commit :: u64

definition group_report_of ::
    "'e boot_env \<Rightarrow> 'e log_codec \<Rightarrow> u32 \<Rightarrow> u64 \<Rightarrow> hard_state \<Rightarrow> 'e list \<Rightarrow> snap_meta option \<Rightarrow> group_report" where
  "group_report_of E c g applied hs ents m =
     \<lparr>gp_group = g, gp_applied = applied,
      gp_last_index = (if ents = [] then 0 else ent_index c (last ents)),
      gp_last_term = (if ents = [] then 0 else be_ent_term E (last ents)),
      gp_snap_index = (case m of None \<Rightarrow> 0 | Some meta \<Rightarrow> mt_index meta),
      gp_term = hs_term hs, gp_commit = hs_commit hs\<rparr>"

text \<open>The loop over the groups: the reports, and whether any group shows raft state.\<close>

fun inspect_groups ::
    "'e boot_env \<Rightarrow> 'e log_codec \<Rightarrow> meta_codec \<Rightarrow> u32 list \<Rightarrow> bool \<Rightarrow> group_report list \<Rightarrow> 'e log_node
      \<Rightarrow> (rs_error + bool \<times> group_report list) \<times> 'e log_node" where
  "inspect_groups E c mc [] has reports = sret (has, reports)"
| "inspect_groups E c mc (g # gs) has reports =
     sbind (inspect_group_state E c mc g) (\<lambda>(hs, ents, m, seg).
     sbind (ask_store (\<lambda>s. raft_applied (re_store (be_rs E)) s g)) (\<lambda>applied.
     inspect_groups E c mc gs (has \<or> applied \<noteq> 0 \<or> hs \<noteq> empty_hs \<or> seg)
       (reports @ [group_report_of E c g applied hs ents m])))"

record recovery_report =
  rr_path :: bytes
  rr_reason :: recovery_reason
  rr_needs_permit :: bool
  rr_gen_now :: "bytes option"
  rr_gen_stored :: "bytes option"
  rr_mode :: ack_mode
  rr_permit :: "recover_permit option"
  rr_groups :: "group_report list"

text \<open>\<open>InspectRecovery\<close>, whose open logs are closed on every way out.\<close>

definition inspect_recovery ::
    "'e boot_env \<Rightarrow> 'e log_codec \<Rightarrow> meta_codec \<Rightarrow> u32 \<Rightarrow> ack_mode \<Rightarrow> bytes option \<Rightarrow> 'e log_node
      \<Rightarrow> (rs_error + recovery_report) \<times> 'e log_node" where
  "inspect_recovery E c mc ng mode now s =
     (case (sbind (ask_store (\<lambda>s. st_get (re_store (be_rs E)) s clean_shutdown_key)) (\<lambda>clean.
            sbind (ask_store (load_boot_gen (re_store (be_rs E)))) (\<lambda>gen.
            sbind (ask_store (load_recover_permit (re_store (be_rs E)))) (\<lambda>permit.
            sbind (inspect_groups E c mc (group_ids ng) False []) (\<lambda>(has, reports).
              let (path, reason) = decide_recovery (recovery_input_of (clean \<noteq> None) has mode now gen permit)
              in sret \<lparr>rr_path = path_name path, rr_reason = reason, rr_needs_permit = (path = Rejoin),
                   rr_gen_now = now, rr_gen_stored = gen, rr_mode = mode, rr_permit = permit, rr_groups = reports\<rparr>))))) s of
        (r, s') \<Rightarrow> (r, close_logs s'))"

definition grant_recover_permit :: "env \<Rightarrow> bytes \<Rightarrow> bytes option \<Rightarrow> 'z node_scheme \<Rightarrow> (err + unit) \<times> 'z node_scheme" where
  "grant_recover_permit E at gen s =
     (case gen of
        None \<Rightarrow> (Inl ErrNoBootGen, s)
      | Some g \<Rightarrow> save_recover_permit E \<lparr>pm_granted_at = at, pm_gen = g\<rparr> s)"

end
