(* ===== verification/Recovery_Safety.thy ===== *)
theory Recovery_Safety
  imports Recovery
begin

text \<open>
  The gate after an unclean shutdown: a refused start leaves everything a later start decides by as
  it was, until an operator signs; what a start after a half done installation, or after a half
  done reset, gives to raft.
\<close>

section \<open>Only the decision refuses\<close>

definition never_refuses :: "('s \<Rightarrow> (rs_error + 'a) \<times> 's) \<Rightarrow> bool" where
  "never_refuses m \<longleftrightarrow> (\<forall>s s'. m s \<noteq> (Inl RsUnclean, s'))"

lemma never_refuses_sbind [intro]: "never_refuses m \<Longrightarrow> (\<And>x. never_refuses (f x)) \<Longrightarrow> never_refuses (sbind m f)"
  unfolding never_refuses_def by (metis sbind_cases sum.inject(1))

lemma never_refuses_simple [intro, simp]:
  "never_refuses (in_store f)" "never_refuses (ask_store h)" "never_refuses (sret x)" "never_refuses (smod k)" "never_refuses (sget q)"
  "e \<noteq> RsUnclean \<Longrightarrow> never_refuses (sfail e)"
  by (auto simp: never_refuses_def in_store_def ask_store_def sret_def smod_def sget_def sfail_def split: prod.splits sum.splits)

lemma never_refuses_log [intro, simp]: "never_refuses (get_log E c g)" "never_refuses (in_log f' g)" "never_refuses (wipe_log E g)"
  by (auto simp: never_refuses_def get_log_def in_log_def wipe_log_def Let_def split: option.splits prod.splits sum.splits)

lemma never_refuses_persist [intro, simp]: "never_refuses (persist E c g hs ents b)"
  unfolding persist_def by (intro never_refuses_sbind) simp_all

lemma never_refuses_chunks [intro, simp]: "never_refuses (persist_chunks E c g hs ents)"
proof (induction "length ents" arbitrary: hs ents rule: less_induct)
  case less
  have "drop migrate_chunk_entries ents \<noteq> [] \<Longrightarrow> length (drop migrate_chunk_entries ents) < length ents"
    by (auto simp: migrate_chunk_entries_def)
  then show ?case
    unfolding persist_chunks.simps [of E c g hs ents] Let_def using less by (intro never_refuses_sbind) auto
qed

lemma never_refuses_load [intro, simp]: "never_refuses (load E c mc g)"
  unfolding load_def by (auto intro!: never_refuses_sbind)

lemma never_refuses_bump [intro, simp]: "never_refuses (bump_groups E c mc gs)"
  by (induction gs) (auto simp: bump_group_def intro!: never_refuses_sbind split: prod.split option.split)

lemma never_refuses_force [intro, simp]: "never_refuses (force_local_recover E c mc ng)" "never_refuses (bump_terms_for_local_resume E c mc ng)"
  unfolding force_local_recover_def bump_terms_for_local_resume_def bump_terms_into_def by (auto intro!: never_refuses_sbind)

lemma never_refuses_migrate [intro, simp]: "never_refuses (migrate_groups E c mc gs n)"
  by (induction gs arbitrary: n) (auto simp: migrate_log_def intro!: never_refuses_sbind split: prod.split)

section \<open>What a start reads before it decides\<close>

lemma ensure_groups_again:
  assumes "in_store (ensure_groups E ng) s = (Inr (), s')"
  shows "in_store (ensure_groups E ng) s' = (Inr (), s')" "ln_dirs s' = ln_dirs s" "ln_open s' = ln_open s"
    "k \<noteq> groups_key \<Longrightarrow> kv_get (db s') k = kv_get (db s) k"
proof -
  have "in_store (ensure_groups E ng) s' = (Inr (), s') \<and> ln_dirs s' = ln_dirs s \<and> ln_open s' = ln_open s \<and>
      (\<forall>k. k \<noteq> groups_key \<longrightarrow> kv_get (db s') k = kv_get (db s) k)"
  proof (cases "st_get E s groups_key")
    case (Inl e)
    then show ?thesis using assms by (simp add: in_store_def ensure_groups_def)
  next
    case (Inr d)
    show ?thesis
    proof (cases d)
      case None
      then have "in_store (apply_with E (bset groups_key (put_u32 ng) new_batch)) s = (Inr (), s')"
        using assms Inr by (simp add: in_store_def ensure_groups_def)
      from in_store_ok [OF this] have s': "s' = set_db (kv_set groups_key (put_u32 ng) (db s)) s" by (simp add: kv_simps)
      have "st_get E s' groups_key = Inr (Some (put_u32 ng))"
        using Inr by (auto simp: st_get_def s' kv_simps split: if_splits)
      then show ?thesis by (simp add: in_store_def ensure_groups_def s') (simp add: set_db_def kv_simps)
    next
      case (Some b)
      then show ?thesis using assms Inr by (auto simp: in_store_def ensure_groups_def split: if_splits)
    qed
  qed
  then show "in_store (ensure_groups E ng) s' = (Inr (), s')" "ln_dirs s' = ln_dirs s" "ln_open s' = ln_open s"
    "k \<noteq> groups_key \<Longrightarrow> kv_get (db s') k = kv_get (db s) k" by auto
qed

lemma refused_step:
  "sbind m f s = (Inl RsUnclean, s') \<Longrightarrow> never_refuses m \<Longrightarrow> \<exists>x t. m s = (Inr x, t) \<and> f x t = (Inl RsUnclean, s')"
  unfolding never_refuses_def by (metis sbind_cases sum.inject(1))

definition after_decision ::
    "'e boot_env \<Rightarrow> 'e log_codec \<Rightarrow> meta_codec \<Rightarrow> u32 \<Rightarrow> ack_mode \<Rightarrow> bytes option \<Rightarrow> recovery_path \<Rightarrow> 'e log_node
      \<Rightarrow> (rs_error + recovery_path) \<times> 'e log_node" where
  "after_decision E c mc ng mode now path =
     sbind (act_on_path E c mc ng path) (\<lambda>_.
     sbind (if path = LocalResume \<and> needs_term_bump path mode then bump_terms_for_local_resume (be_rs E) c mc ng else sret ()) (\<lambda>_.
     sbind (migrate_groups (be_rs E) c mc (group_ids ng) 0) (\<lambda>_.
     sbind (case now of None \<Rightarrow> sret () | Some gen \<Rightarrow> in_store (save_boot_gen (re_store (be_rs E)) gen)) (\<lambda>_.
     sret path))))"

lemma recover_node_after:
  "recover_node E c mc ng mode now =
     sbind (in_store (ensure_groups (re_store (be_rs E)) ng)) (\<lambda>_.
     sbind (in_store (consume_clean_shutdown (re_store (be_rs E)))) (\<lambda>clean.
     sbind (slift (disk_has_raft_state E ng)) (\<lambda>has.
     sbind (ask_store (load_boot_gen (re_store (be_rs E)))) (\<lambda>gen.
     sbind (ask_store (load_recover_permit (re_store (be_rs E)))) (\<lambda>permit. after_decision E c mc ng mode now
       (fst (decide_recovery (recovery_input_of clean has mode now gen permit))))))))"
  by (simp add: recover_node_def after_decision_def Let_def)

lemma after_decision_refuses:
  assumes "after_decision E c mc ng mode now path s = (Inl RsUnclean, s')"
  shows "path = Rejoin \<and> s' = s"
proof (cases "path = Rejoin")
  case True
  then show ?thesis using assms by (simp add: after_decision_def act_on_path_def sbind_def sfail_def)
next
  case False
  then have "never_refuses (act_on_path E c mc ng path)"
    by (cases path) (auto simp: act_on_path_def intro!: never_refuses_sbind)
  then have "never_refuses (after_decision E c mc ng mode now path)"
    unfolding after_decision_def by (auto intro!: never_refuses_sbind split: option.split)
  then show ?thesis using assms by (simp add: never_refuses_def)
qed

lemma disk_reads: "disk_has_raft_state E ng s \<noteq> Inl RsUnclean"
proof -
  have f: "seg_files_in st d \<noteq> Inl RsUnclean" for st d
    by (induction st d rule: seg_files_in.induct) auto
  have "any_group_state E gs s \<noteq> Inl RsUnclean" for gs
    by (induction gs) (auto simp: group_has_seg_files_def f ebind_Inl split: sum.splits option.splits)
  then show ?thesis by (auto simp: disk_has_raft_state_def split: sum.splits)
qed

text \<open>A start that is refused, and only that, decides for the way back through the cluster.\<close>

lemma refused_iff:
  "recover_node E c mc ng mode now s = (Inl RsUnclean, s') \<longleftrightarrow>
     in_store (ensure_groups (re_store (be_rs E)) ng) s = (Inr (), s') \<and> st_get (re_store (be_rs E)) s' clean_shutdown_key = Inr None \<and>
     (\<exists>has gen permit. disk_has_raft_state E ng s' = Inr has \<and> load_boot_gen (re_store (be_rs E)) s' = Inr gen \<and>
        load_recover_permit (re_store (be_rs E)) s' = Inr permit \<and>
        fst (decide_recovery (recovery_input_of False has mode now gen permit)) = Rejoin)" (is "?run \<longleftrightarrow> ?cond")
proof
  assume c: ?cond
  then have "in_store (consume_clean_shutdown (re_store (be_rs E))) s' = (Inr False, s')"
    by (simp add: in_store_def consume_clean_shutdown_def)
  then show ?run using c
    by (auto simp: recover_node_def sbind_def ask_store_def in_store_def slift_def act_on_path_def sfail_def Let_def)
next
  assume r: ?run
  let ?S = "re_store (be_rs E)"
  note step = refused_step [OF _ never_refuses_simple(1)] refused_step [OF _ never_refuses_simple(2)]
  obtain s1 where s1: "in_store (ensure_groups ?S ng) s = (Inr (), s1)" and r1: "sbind (in_store (consume_clean_shutdown ?S)) (\<lambda>clean.
     sbind (slift (disk_has_raft_state E ng)) (\<lambda>has.
     sbind (ask_store (load_boot_gen ?S)) (\<lambda>gen.
     sbind (ask_store (load_recover_permit ?S)) (\<lambda>permit. after_decision E c mc ng mode now
       (fst (decide_recovery (recovery_input_of clean has mode now gen permit))))))) s1 = (Inl RsUnclean, s')"
    using step(1) [OF r [unfolded recover_node_after]] by auto
  obtain clean s2 where s2: "in_store (consume_clean_shutdown ?S) s1 = (Inr clean, s2)" and r2: "sbind (slift (disk_has_raft_state E ng)) (\<lambda>has.
     sbind (ask_store (load_boot_gen ?S)) (\<lambda>gen.
     sbind (ask_store (load_recover_permit ?S)) (\<lambda>permit. after_decision E c mc ng mode now
       (fst (decide_recovery (recovery_input_of clean has mode now gen permit)))))) s2 = (Inl RsUnclean, s')"
    using step(1) [OF r1] by blast
  have "disk_has_raft_state E ng s2 \<noteq> Inl RsUnclean" by (rule disk_reads)
  then obtain has where has: "disk_has_raft_state E ng s2 = Inr has" and r3: "sbind (ask_store (load_boot_gen ?S)) (\<lambda>gen.
     sbind (ask_store (load_recover_permit ?S)) (\<lambda>permit. after_decision E c mc ng mode now
       (fst (decide_recovery (recovery_input_of clean has mode now gen permit))))) s2 = (Inl RsUnclean, s')"
    using r2 by (cases "disk_has_raft_state E ng s2") (auto simp: sbind_def slift_def)
  obtain gen where gen: "load_boot_gen ?S s2 = Inr gen" and r4: "sbind (ask_store (load_recover_permit ?S)) (\<lambda>permit. after_decision E c mc ng mode now
       (fst (decide_recovery (recovery_input_of clean has mode now gen permit)))) s2 = (Inl RsUnclean, s')"
    using step(2) [OF r3] by (auto simp: ask_store_ok)
  obtain permit where permit: "load_recover_permit ?S s2 = Inr permit" and r5: "after_decision E c mc ng mode now
       (fst (decide_recovery (recovery_input_of clean has mode now gen permit))) s2 = (Inl RsUnclean, s')"
    using step(2) [OF r4] by (auto simp: ask_store_ok)
  have rejoin: "fst (decide_recovery (recovery_input_of clean has mode now gen permit)) = Rejoin" "s' = s2"
    using r5 after_decision_refuses by blast+
  then have "\<not> clean" by (auto simp: decide_recovery_def recovery_input_of_def split: if_splits)
  then have "st_get ?S s1 clean_shutdown_key = Inr None \<and> s2 = s1"
    using s2 by (auto simp: in_store_def consume_clean_shutdown_def split: sum.splits option.splits prod.splits)
  then show ?cond using s1 has gen permit rejoin \<open>\<not> clean\<close> by auto
qed


lemma refused_at:
  assumes "recover_node E c mc ng mode now s = (Inl RsUnclean, s')"
  shows "recover_node E c mc ng mode now s' = (Inl RsUnclean, s')"
    "ln_dirs s' = ln_dirs s" "k \<noteq> groups_key \<Longrightarrow> kv_get (db s') k = kv_get (db s) k"
proof -
  have c: "in_store (ensure_groups (re_store (be_rs E)) ng) s = (Inr (), s')" using assms unfolding refused_iff by blast
  note e = ensure_groups_again [OF c]
  show "recover_node E c mc ng mode now s' = (Inl RsUnclean, s')" using assms e(1) unfolding refused_iff by blast
  show "ln_dirs s' = ln_dirs s" "k \<noteq> groups_key \<Longrightarrow> kv_get (db s') k = kv_get (db s) k" using e by auto
qed

lemma signed_starts:
  assumes "now \<noteq> Some []" "CHR 0x0A \<notin> set at" "grant_recover_permit (re_store (be_rs E)) at now s = (Inr (), t)"
  shows "recover_node E c mc ng mode now t \<noteq> (Inl RsUnclean, t')"
proof
  assume r: "recover_node E c mc ng mode now t = (Inl RsUnclean, t')"
  obtain g where g: "now = Some g" "g \<noteq> []" "save_recover_permit (re_store (be_rs E)) \<lparr>pm_granted_at = at, pm_gen = g\<rparr> s = (Inr (), t)"
    using assms(1,3) by (auto simp: grant_recover_permit_def split: option.splits)
  have "db t = kv_set recover_permit_key (at @ CHR 0x0A # g) (db s)"
    using apply_with_ok g(3) by (fastforce simp: save_recover_permit_def kv_simps)
  moreover have "recover_permit_key \<noteq> groups_key" by (simp add: recover_permit_key_def groups_key_def)
  ultimately have p: "kv_get (db t') recover_permit_key = Some (at @ CHR 0x0A # g)"
    using refused_at(3) [OF r] by (simp add: kv_simps)
  obtain permit has gen where l: "load_recover_permit (re_store (be_rs E)) t' = Inr permit"
      "fst (decide_recovery (recovery_input_of False has mode now gen permit)) = Rejoin"
    using r unfolding refused_iff by blast
  have "permit = Some \<lparr>pm_granted_at = at, pm_gen = g\<rparr>"
    using l(1) p permit_roundtrip [of "\<lparr>pm_granted_at = at, pm_gen = g\<rparr>"] assms(2) g(2)
    by (auto simp: load_recover_permit_def st_get_def split: if_splits)
  then show False
    using l(2) g(1) by (auto simp: decide_recovery_def recovery_input_of_def permit_valid_def split: if_splits)
qed

text \<open>C17: A node that refuses to start keeps refusing, and loses nothing by it: after \<open>NewManager\<close> has
  returned the error for an unclean shutdown, a second start on the state it left is refused again and
  changes nothing, the logs of all groups are untouched, and so is every key but the record of the
  group count.  Once the operator has signed a permit for the boot the node is in, it is not refused.\<close>

theorem refused_until_signed:
  assumes "recover_node E c mc ng mode now s = (Inl RsUnclean, s')"
  shows "recover_node E c mc ng mode now s' = (Inl RsUnclean, s') \<and>
    ln_dirs s' = ln_dirs s \<and> (\<forall>k. k \<noteq> groups_key \<longrightarrow> kv_get (db s') k = kv_get (db s) k) \<and>
    (\<forall>at t t'. now \<noteq> Some [] \<and> CHR 0x0A \<notin> set at \<and> grant_recover_permit (re_store (be_rs E)) at now s' = (Inr (), t) \<longrightarrow>
      recover_node E c mc ng mode now t \<noteq> (Inl RsUnclean, t'))"
  using refused_at [OF assms] signed_starts by blast

section \<open>Building a group with a marker\<close>

lemma reset_get:
  "kv_get (apply_batch (reset_batch g) m) k =
     (if k = applied_key g then Some (put_u64 0)
      else if k \<in> {snap_key g, snap_install_key g, hs_key g} \<or> in_range (ent_key g 0) (prefix_upper_bound (ent_prefix g)) k then None
      else kv_get m k)"
proof -
  obtain u where u: "prefix_upper_bound (ent_prefix g) = Some u" "\<And>k. ent_key g 0 \<le> k \<Longrightarrow> k < u \<Longrightarrow> prefix (ent_prefix g) k"
    by (rule ent_range) blast
  have "\<not> prefix (ent_prefix g) (applied_key g)" unfolding applied_key_def by (rule ent_not_named) simp
  then have "\<not> (ent_key g 0 \<le> applied_key g \<and> applied_key g < u)" using u(2) by blast
  then show ?thesis by (auto simp: reset_batch_def kv_simps u(1) in_range_def)
qed

text \<open>With the marker found, the group's keys go, its progress is reset, and its log is wiped.\<close>

lemma marker_cong: "kv_get (db s) (snap_install_key g) = kv_get (db s') (snap_install_key g) \<Longrightarrow>
    load_installing E mc s g = load_installing E mc s' g"
  by (simp add: load_installing_def load_with_def st_get_def)

lemma build_marked:
  assumes "reads_ok (re_store (be_rs E))" "writes_ok (re_store (be_rs E))" "kv_ok (db s)" "parsable g ng (db s)"
    and "load_installing (re_store (be_rs E)) mc s g = Inr (Some meta)" "build_group E R c mc ng g True s = (r, s')"
    and "is_ok r \<or> kv_get (db s') (snap_install_key g) = None"
  shows "\<exists>x s1 s2. load (be_rs E) c mc g s = (Inr x, s1) \<and> ln_dirs s2 = ln_dirs s1 \<and> ln_open s2 = ln_open s1 \<and>
    (\<forall>k. kv_get (db s2) k =
      (if k = applied_key g then Some (put_u64 0)
       else if in_group g ng k \<or> k \<in> {snap_key g, snap_install_key g, hs_key g} \<or>
            in_range (ent_key g 0) (prefix_upper_bound (ent_prefix g)) k then None
       else kv_get (db s) k)) \<and>
    (case wipe_log (be_rs E) g s2 of (Inl e, t) \<Rightarrow> (Inl e, t) | (Inr u, t) \<Rightarrow> (Inr (rg_new R, 0), t)) = (r, s')"
proof -
  let ?S = "re_store (be_rs E)"
  have marked: "kv_get (db s) (snap_install_key g) \<noteq> None"
    using assms(5) by (auto simp: load_installing_def load_with_def st_get_def ebind_Inr split: if_splits option.splits)
  have same: "db s' = db s \<Longrightarrow> is_ok r" using assms(7) marked by auto
  obtain x s1 where l: "load (be_rs E) c mc g s = (Inr x, s1)" and r1: "(case x of (hs, ents, m) \<Rightarrow>
        sbind (ask_store (seed_storage E R c mc g hs ents m)) (\<lambda>st.
        sbind (ask_store (\<lambda>s. raft_applied ?S s g)) (\<lambda>applied.
        sbind (ask_store (\<lambda>s. load_installing ?S mc s g)) (\<lambda>inst.
          case inst of
            None \<Rightarrow> sret (st, applied)
          | Some meta \<Rightarrow>
              sbind (in_store (wipe_group_keys ?S g ng)) (\<lambda>_.
              sbind (reset_group_progress (be_rs E) g) (\<lambda>_. sret (rg_new R, 0))))))) s1 = (r, s')"
  proof -
    obtain rl s1 where l: "load (be_rs E) c mc g s = (rl, s1)" by fastforce
    have d: "db s1 = db s" using elsewhere_load [OF l] by (simp add: elsewhere_def)
    show thesis
    proof (cases rl)
      case (Inl e)
      then have "r = Inl e" "s' = s1" using assms(6) l by (simp_all add: build_group_def sbind_def)
      then show thesis using same d by auto
    next
      case (Inr x)
      then show thesis using that [of x s1] assms(6) l by (simp add: build_group_def sbind_def)
    qed
  qed
  have db1: "db s1 = db s" using elsewhere_load [OF l] by (simp add: elsewhere_def)
  obtain hs ents m where x: "x = (hs, ents, m)" by (cases x)
  have inst: "load_installing ?S mc s1 g = Inr (Some meta)" using assms(5) marker_cong [of s1 g s] db1 by simp
  have r2: "sbind (in_store (wipe_group_keys ?S g ng)) (\<lambda>_.
      sbind (reset_group_progress (be_rs E) g) (\<lambda>_. sret (rg_new R, 0))) s1 = (r, s')"
  proof (cases "seed_storage E R c mc g hs ents m s1")
    case (Inl e)
    then have "r = Inl (RsStore e)" "s' = s1" using r1 x by (simp_all add: sbind_def ask_store_def in_store_def slift_def)
    then show ?thesis using same db1 by auto
  next
    case (Inr st)
    show ?thesis
    proof (cases "raft_applied ?S s1 g")
      case (Inl e)
      then have "r = Inl (RsStore e)" "s' = s1" using r1 x Inr by (simp_all add: sbind_def ask_store_def in_store_def slift_def)
      then show ?thesis using same db1 by auto
    next
      case (Inr a)
      then show ?thesis using r1 x inst \<open>seed_storage E R c mc g hs ents m s1 = Inr st\<close>
        by (simp add: sbind_def ask_store_def in_store_def slift_def)
    qed
  qed
  obtain b where w: "wipe_group_keys ?S g ng s1 = (Inr (), set_db (apply_batch b (db s1)) s1)"
      "\<And>k. kv_get (apply_batch b (db s1)) k = (if in_group g ng k then None else kv_get (db s1) k)"
    by (rule wipe_exact [of ?S s1 g ng]) (use assms(1-4) db1 in auto)
  let ?s2 = "set_db (apply_batch (reset_batch g) (apply_batch b (db s1))) s1"
  have reset: "in_store (apply_with ?S (reset_batch g)) (set_db (apply_batch b (db s1)) s1) = (Inr (), ?s2)"
    by (simp add: in_store_def apply_with_succeeds [OF assms(2)] set_db_def)
  have "(case wipe_log (be_rs E) g ?s2 of (Inl e, t) \<Rightarrow> (Inl e, t) | (Inr u, t) \<Rightarrow> (Inr (rg_new R, 0), t)) = (r, s')"
    using r2 w(1) reset by (simp add: sbind_def in_store_def reset_group_progress_def sret_def split: prod.splits sum.splits)
  moreover have "kv_get (db ?s2) k =
      (if k = applied_key g then Some (put_u64 0)
       else if in_group g ng k \<or> k \<in> {snap_key g, snap_install_key g, hs_key g} \<or>
            in_range (ent_key g 0) (prefix_upper_bound (ent_prefix g)) k then None
       else kv_get (db s) k)" for k
    using w(2) [of k, unfolded db1] unfolding db_set_db reset_get db1 by auto
  ultimately show ?thesis using l by (intro exI [of _ x] exI [of _ s1] exI [of _ ?s2]) (simp add: set_db_def)
qed

text \<open>C14: A group that finds the marker of an unfinished snapshot installation starts from nothing: it gets
  the empty raft storage with applied index 0, its segment files are gone, and in the store exactly the
  keys of the group, its anchor, marker, hard state and old entries are removed and its applied index is
  zero, while every key of other groups is what it was.\<close>

theorem restart_clears_half_install:
  assumes "reads_ok (re_store (be_rs E))" "writes_ok (re_store (be_rs E))" "kv_ok (db s)" "parsable g ng (db s)"
    and "load_installing (re_store (be_rs E)) mc s g = Inr (Some meta)" "build_group E R c mc ng g True s = (Inr start, s')"
  shows "start = (rg_new R, 0) \<and> ln_dirs s' g = [] \<and> ln_open s' g = None \<and>
    (\<forall>k. kv_get (db s') k =
      (if k = applied_key g then Some (put_u64 0)
       else if in_group g ng k \<or> k \<in> {snap_key g, snap_install_key g, hs_key g} \<or>
            in_range (ent_key g 0) (prefix_upper_bound (ent_prefix g)) k then None
       else kv_get (db s) k))"
proof -
  obtain s1 s2 x where b: "\<And>k. kv_get (db s2) k =
      (if k = applied_key g then Some (put_u64 0)
       else if in_group g ng k \<or> k \<in> {snap_key g, snap_install_key g, hs_key g} \<or>
            in_range (ent_key g 0) (prefix_upper_bound (ent_prefix g)) k then None
       else kv_get (db s) k)"
    "(case wipe_log (be_rs E) g s2 of (Inl e, t) \<Rightarrow> (Inl e, t) | (Inr u, t) \<Rightarrow> (Inr (rg_new R, 0), t)) = (Inr start, s')"
    using build_marked [OF assms] by auto
  have w: "wipe_log (be_rs E) g s2 = (Inr (), s')" "start = (rg_new R, 0)" using b(2) by (auto split: prod.splits sum.splits)
  then show ?thesis using wipe_log_ok [OF w(1)] elsewhere_wipe [OF w(1)] b(1) by (auto simp: elsewhere_def)
qed


text \<open>The log of the group is in its segment files, not in the store.\<close>

definition migrated :: "u32 \<Rightarrow> kv \<Rightarrow> bool" where
  "migrated g m \<longleftrightarrow> kv_get m (hs_key g) = None \<and> (\<forall>k. prefix (ent_prefix g) k \<longrightarrow> kv_get m k = None)"

lemma migrated_pending: "migrated g (db s) \<Longrightarrow> legacy_pending E g s = Inr p \<Longrightarrow> \<not> p"
proof -
  assume m: "migrated g (db s)"
  have "\<not> prefix (ent_prefix g) k" if "(k, v) \<in> set (db s)" for k v
  proof
    assume "prefix (ent_prefix g) k"
    then have "map_of (db s) k = None" using m by (simp add: migrated_def kv_get_def)
    then show False using that by (simp add: map_of_eq_None_iff rev_image_eqI)
  qed
  then have "kv_range (ent_prefix g) (prefix_upper_bound (ent_prefix g)) (db s) = []"
    unfolding kv_range_def in_range_prefix by (auto simp: filter_empty_conv)
  then show "legacy_pending E g s = Inr p \<Longrightarrow> \<not> p"
    using m by (auto simp: migrated_def legacy_pending_def st_get_def st_scan_def split: if_splits prod.splits sum.splits)
qed

lemma wipe_log_fails:
  assumes "wipe_log E g s = (Inl e, s')" "\<And>d d'. re_remove E d = Some d' \<Longrightarrow> d' = d"
  shows "ln_dirs s' = ln_dirs s \<and> ln_open s' g = None \<and> db s' = db s"
  using assms by (auto simp: wipe_log_def Let_def fun_upd_idem split: option.splits sum.splits)

text \<open>C15: When the batch of \<open>ResetGroupProgress\<close> is durable but removing the segment files fails (or the
  process ends between the two), the next start does not begin from nothing: no marker is left, the
  state machine of the group is empty and its applied index 0, and yet raft is seeded with a snapshot
  just below the first entry of the old log, so the entries before it are never applied.\<close>

theorem half_reset_skips_prefix:
  assumes "reads_ok (re_store (be_rs E))" "writes_ok (re_store (be_rs E))" "kv_ok (db s)" "parsable g ng (db s)" "migrated g (db s)"
    and "load_installing (re_store (be_rs E)) mc s g = Inr (Some meta)"
    and "group_stores c (re_seg (be_rs E)) k (Some hs) ents g s" "1 \<le> k" "ents \<noteq> []"
    and "\<And>d d'. re_remove (be_rs E) d = Some d' \<Longrightarrow> d' = d"
    and "build_group E R c mc ng g True s = (Inl e, s')" "kv_get (db s') (snap_install_key g) = None"
    and "sg_max_bytes (re_seg (be_rs E')) = sg_max_bytes (re_seg (be_rs E))"
    and "build_group E' R c mc ng g True (close_logs s') = (Inr (st, applied), t)"
  shows "applied = 0 \<and> (\<forall>k. in_group g ng k \<longrightarrow> kv_get (db t) k = None) \<and>
    (\<exists>cs m1 m2. rg_apply_snapshot R \<lparr>mt_index = ent_index c (hd ents) - 1, mt_term = be_ent_term E' (hd ents), mt_conf = cs\<rparr> (rg_new R) = Inr m1 \<and>
       rg_append R ents m1 = Inr m2 \<and> (if hs = empty_hs then st = m2 else rg_set_hs R hs m2 = Inr st))"
proof -
  obtain x s1 s2 where b0: "load (be_rs E) c mc g s = (Inr x, s1)" "ln_dirs s2 = ln_dirs s1" "ln_open s2 = ln_open s1"
    "\<forall>k. kv_get (db s2) k =
      (if k = applied_key g then Some (put_u64 0)
       else if in_group g ng k \<or> k \<in> {snap_key g, snap_install_key g, hs_key g} \<or>
            in_range (ent_key g 0) (prefix_upper_bound (ent_prefix g)) k then None
       else kv_get (db s) k)"
    "(case wipe_log (be_rs E) g s2 of (Inl e, t) \<Rightarrow> (Inl e, t) | (Inr u, t) \<Rightarrow> (Inr (rg_new R, 0 :: u64), t)) = (Inl e, s')"
    using build_marked [OF assms(1-4,6,11) disjI2 [OF assms(12)]] by (elim exE conjE) (rule that)
  note b = b0(1-3) b0(4) [rule_format] b0(5)
  have w0: "wipe_log (be_rs E) g s2 = (Inl e, s')" using b(5) by (auto split: prod.splits sum.splits)
  have w: "ln_dirs s' = ln_dirs s1" "ln_open s' g = None" "db s' = db s2"
    using wipe_log_fails [OF w0 assms(10)] b(2) by auto
  let ?r = "close_logs s'"
  have db: "db ?r = db s2" by (simp add: close_logs_def w(3))
  have "\<not> prefix (ent_prefix g) (applied_key g)" unfolding applied_key_def by (rule ent_not_named) simp
  then have mig: "migrated g (db ?r)"
    using assms(5) unfolding db migrated_def b(4) by auto
  have g1: "get_log (be_rs E) c g s = (Inr (), s1)"
    using b(1) migrated_pending [OF assms(5)] by (auto simp: load_def sbind_ok ask_store_ok sget_def sret_def split: if_splits)
  have "group_holds c (re_seg (be_rs E)) k (Some hs) ents g s1" by (rule get_log_holds [OF assms(7) g1 assms(8)])
  then have "disk_holds c (sg_max_bytes (re_seg (be_rs E))) k (Some hs) ents (ln_dirs s1 g)"
    by (auto simp: group_holds_def dest: log_holds_disk)
  then have st: "group_stores c (re_seg (be_rs E')) k (Some hs) ents g ?r"
    by (simp add: group_stores_def close_logs_def w(1) assms(13))
  obtain y t1 where l: "load (be_rs E') c mc g ?r = (Inr y, t1)"
    using assms(14) by (auto simp: build_group_def sbind_ok)
  have "legacy_pending (re_store (be_rs E')) g ?r = Inr False"
    using l migrated_pending [OF mig] by (fastforce simp: load_def sbind_ok ask_store_ok)
  from load_stored [OF st assms(8) this l]
  obtain m where m: "load_snap_meta (re_store (be_rs E')) mc ?r g = Inr m" "y = (hs, ents, m)" by (auto simp: load_view_def)
  have "kv_get (db ?r) (snap_key g) = None" unfolding db b(4) by simp
  then have none: "m = None" using m(1) by (auto simp: load_snap_meta_def load_with_def st_get_def split: if_splits)
  have dbt: "db t1 = db ?r" using elsewhere_load [OF l] by (simp add: elsewhere_def)
  have inst: "load_installing (re_store (be_rs E')) mc t1 g = Inr i \<Longrightarrow> i = None" for i
    using dbt db b(4) [of "snap_install_key g"] by (auto simp: load_installing_def load_with_def st_get_def split: if_splits)
  have app: "raft_applied (re_store (be_rs E')) t1 g = Inr a \<Longrightarrow> a = 0" for a
    using dbt db b(4) [of "applied_key g"] by (auto simp: raft_applied_def st_get_def split: if_splits)
  obtain a i where run: "seed_storage E' R c mc g hs ents None t1 = Inr st" "raft_applied (re_store (be_rs E')) t1 g = Inr a"
      "load_installing (re_store (be_rs E')) mc t1 g = Inr i" "applied = a" "t = t1"
    using assms(14) l m(2) none inst by (fastforce simp: build_group_def sbind_ok ask_store_ok sret_def)
  have "kv_get (db t) k = None" if "in_group g ng k" for k
    using that raft_not_in_group unfolding run(5) dbt db b(4) by (auto simp: applied_key_def group_key_def raft_prefix_def)
  moreover have "\<exists>cs m1 m2. rg_apply_snapshot R \<lparr>mt_index = ent_index c (hd ents) - 1, mt_term = be_ent_term E' (hd ents), mt_conf = cs\<rparr> (rg_new R) = Inr m1 \<and>
       rg_append R ents m1 = Inr m2 \<and> (if hs = empty_hs then st = m2 else rg_set_hs R hs m2 = Inr st)"
    using run(1) assms(9) by (auto simp: seed_storage_def ebind_Inr split: if_splits)
  ultimately show ?thesis using app run by blast
qed

section \<open>A segment nobody wrote to\<close>

text \<open>
  Where the file system preallocates, opening the log of a group that never had one leaves a
  segment of zeros, and \<open>groupHasSegFiles\<close> takes its size for content.
\<close>

lemma empty_segment_counts:
  assumes "0 < M" "\<not> be_stat E (seg_name 1)" "\<not> sg_fails (re_seg (be_rs E)) OReadDir"
  obtains l d where "open_log (some_env M True) c [] = (Inr (l, None, []), d)" "group_has_seg_files E d = Inr True"
proof -
  have "suffix seg_suffix (seg_name 1)" by (simp add: seg_name_def suffix_def Let_def)
  then have "group_has_seg_files E (on_file (seg_name 1) (file_alloc M) (link_all [(seg_name 1, SegFile new_file)])) = Inr True"
    using assms by (simp add: group_has_seg_files_def on_file_def link_all_def kv_get_def file_alloc_def new_file_def zeros_def)
  moreover have "\<exists>l. open_log (some_env M True) c [] =
      (Inr (l, None, []), on_file (seg_name 1) (file_alloc M) (link_all [(seg_name 1, SegFile new_file)]))"
    by (simp add: open_log_def sbind_def slift_def sret_def dir_op_def scan_seg_seqs_def open_active_def open_create_def
        prealloc_active_def List.map_filter_simps kv_get_def empty_replay_def)
  ultimately show thesis using that by blast
qed

end
