(* ===== verification/Raft_Demo.thy ===== *)
theory Raft_Demo
  imports Raft_Safety
begin

text \<open>
  Concrete raft logs, on which the theorems of \<open>Raft_Safety\<close> are applied: entries are an index and
  a byte, nothing fails, and the group is new, in the key value store, or both are absent.
\<close>

definition raft_codec_demo :: "(u64 \<times> char) log_codec" where
  "raft_codec_demo =
     \<lparr>enc_entry = \<lambda>(i, x). Some (put_u64 i @ [x]),
      dec_entry = \<lambda>b. if length b = 9 then Some (be_u64 (take 8 b), last b) else None,
      ent_index = fst,
      enc_hs = \<lambda>h. Some (put_u64 (hs_term h) @ put_u64 (hs_vote h) @ put_u64 (hs_commit h)),
      dec_hs = \<lambda>b. if length b = 24 then
        Some \<lparr>hs_term = be_u64 (take 8 b), hs_vote = be_u64 (take 8 (drop 8 b)), hs_commit = be_u64 (drop 16 b)\<rparr> else None\<rparr>"

lemma raft_codec_demo [simp]: "codec_ok raft_codec_demo" "hs_small raft_codec_demo 128" "fits raft_codec_demo r"
proof -
  show "codec_ok raft_codec_demo" "hs_small raft_codec_demo 128"
    by (auto simp: codec_ok_def hs_small_def raft_codec_demo_def frame_header_len_def)
  show "fits raft_codec_demo r"
  proof (cases r)
    case (Ent e)
    then show ?thesis by (cases e) (simp add: fits_def raft_codec_demo_def max_frame_len_def)
  qed (simp add: fits_def raft_codec_demo_def max_frame_len_def)
qed

lemma demo_all_fits [simp]: "list_all (fits raft_codec_demo) rs"
  by (simp add: list_all_iff)

definition demo_env :: rs_env where
  "demo_env = \<lparr>re_store = standalone, re_seg = some_env 128 True, re_remove = \<lambda>_. None\<rparr>"

lemma demo_env [simp]: "re_store demo_env = standalone" "re_seg demo_env = some_env 128 True" "re_remove demo_env d = None"
  by (simp_all add: demo_env_def)

lemma open_empty:
  fixes c :: "('e, 'h) raft_codec"
  obtains l d where "open_log (some_env M True) c [] = (Inr (l, None, []), d)" "log_ok c M [] [] \<lparr>sn_dir = d, sn_log = l\<rparr>" "sl_seq l = 1"
    "kv_get d (seg_name 2) = None"
proof -
  have e: "dir_seqs [] = []" by (simp add: dir_seqs_def List.map_filter_simps)
  obtain l d where o: "open_log (some_env M True) c [] = (Inr (l, None, []), d)"
      "log_ok c (sg_max_bytes (some_env M True)) [] [] \<lparr>sn_dir = d, sn_log = l\<rparr>" "sl_seq l = 1"
    by (rule open_fresh [OF some_env(1) kv_ok_Nil e kv_get_Nil, of M True c])
  have "kv_get d (seg_name 2) = None"
    using o(1) demo_names
    by (auto simp: open_log_def sbind_def slift_def sret_def dir_op_def scan_seg_seqs_def open_active_def open_create_def
        prealloc_active_def List.map_filter_simps kv_get_def on_file_def empty_replay_def link_all_def split: option.splits)
  then show thesis using that o by simp
qed

text \<open>A new group takes its first write.\<close>

lemma first_persist:
  assumes "ln_dirs s g = []" "ln_open s g = None"
  obtains s' where "persist demo_env raft_codec_demo g hs ents sync s = (Inr (), s')"
proof -
  obtain l d where o: "open_log (some_env 128 True) raft_codec_demo [] = (Inr (l, None, []), d)"
      "log_ok raft_codec_demo 128 [] [] \<lparr>sn_dir = d, sn_log = l\<rparr>" "sl_seq l = 1" "kv_get d (seg_name 2) = None"
    by (rule open_empty [of 128 raft_codec_demo])
  obtain n where n: "append_log (some_env 128 True) raft_codec_demo hs ents sync \<lparr>sn_dir = d, sn_log = l\<rparr> = (Inr (), n)"
    using append_succeeds [OF _ o(2), of "some_env 128 True" hs ents sync] o(3,4) by auto
  have "\<exists>s'. persist demo_env raft_codec_demo g hs ents sync s = (Inr (), s')"
    using assms o(1) n by (simp add: persist_def sbind_def smod_def get_log_def in_log_def)
  then show thesis using that by blast
qed

text \<open>Opening succeeds when nothing fails.\<close>

lemma get_log_succeeds:
  assumes "group_stores c (re_seg demo_env) k hs ents g s"
  shows "\<exists>s'. get_log demo_env c g s = (Inr (), s')"
proof (cases "ln_open s g")
  case None
  then have "disk_holds c 128 k hs ents (ln_dirs s g)"
    using assms by (auto simp: group_stores_def group_holds_def)
  then consider "ln_dirs s g = []"
    | segs seq rs where "codec_ok c" "dir_ok c (sg_max_bytes (some_env 128 True)) segs seq rs (ln_dirs s g)"
    by (auto simp: disk_holds_def)
  then have "\<exists>l h es d. open_log (some_env 128 True) c (ln_dirs s g) = (Inr (l, h, es), d)"
  proof cases
    case 1
    then show ?thesis using open_empty [of 128 c] by metis
  next
    case 2
    then show ?thesis using open_intact [of "some_env 128 True" c segs seq rs] by (metis some_env(1))
  qed
  then show ?thesis using None by (auto simp: get_log_def)
qed (simp add: get_log_def)

lemma load_succeeds:
  assumes "group_stores c (re_seg demo_env) k hs ents g s" "legacy_pending standalone g s = Inr False"
    "kv_get (db s) (snap_key g) = None"
  shows "\<exists>x s'. load demo_env c mc g s = (Inr x, s')"
proof -
  obtain s1 where s1: "get_log demo_env c g s = (Inr (), s1)" using get_log_succeeds [OF assms(1)] by blast
  have "db s1 = db s" using elsewhere_get_log [OF s1] by (simp add: elsewhere_def)
  then have "load_snap_meta standalone mc s1 g = Inr None"
    using assms(3) by (simp add: load_snap_meta_def load_with_def st_get_def standalone_def)
  then show ?thesis
    using s1 assms(2) by (simp add: load_def sbind_def ask_store_def in_store_def slift_def sget_def sret_def) (metis prod_cases3)
qed

definition new_log_node :: "kv \<Rightarrow> (u64 \<times> char) log_node" where
  "new_log_node m = \<lparr>db = m, sent = [], ln_dirs = \<lambda>_. [], ln_open = \<lambda>_. None\<rparr>"

lemma new_log_node [simp]: "db (new_log_node m) = m" "ln_dirs (new_log_node m) g = []" "ln_open (new_log_node m) g = None"
  by (simp_all add: new_log_node_def)

lemma no_legacy: "db s = [] \<Longrightarrow> legacy_pending standalone g s = Inr False"
  by (simp add: legacy_pending_def st_get_def st_scan_def standalone_def kv_simps kv_range_def)

abbreviation "a_state \<equiv> \<lparr>hs_term = 3, hs_vote = 1, hs_commit = 1\<rparr>"

text \<open>An old data directory: a hard state and one entry in the key value store.\<close>

definition old_kv :: kv where
  "old_kv = apply_batch (bset (ent_key 1 1) (put_u64 1 @ ''x'')
     (bset (hs_key 1) (put_u64 3 @ put_u64 1 @ put_u64 1) new_batch)) []"

lemma old_kv:
  "kv_get old_kv k = (if k = ent_key 1 1 then Some (put_u64 1 @ ''x'') else if k = hs_key 1 then Some (put_u64 3 @ put_u64 1 @ put_u64 1) else None)"
  "kv_ok old_kv"
  by (simp_all only: old_kv_def apply_bset kv_get_set apply_batch_Nil kv_get_Nil kv_ok_set kv_ok_Nil)

lemma hs_not_ent: "hs_key 1 \<noteq> ent_key 1 i" "\<not> prefix (ent_prefix 1) (hs_key 1)" "snap_key 1 \<noteq> ent_key 1 i"
  by (auto simp: hs_key_def ent_key_def ent_prefix_def snap_key_def group_key_def)

lemma old_range: "kv_range (ent_prefix 1) (prefix_upper_bound (ent_prefix 1)) old_kv = [(ent_key 1 1, put_u64 1 @ ''x'')]"
proof (rule kv_ext)
  have one: "kv_get [(a, b)] k = (if k = a then Some b else None)" for a b :: bytes and k by (simp add: kv_get_def)
  show "kv_get (kv_range (ent_prefix 1) (prefix_upper_bound (ent_prefix 1)) old_kv) k = kv_get [(ent_key 1 1, put_u64 1 @ ''x'')] k" for k
    using hs_not_ent(2) unfolding one kv_get_range old_kv(1) in_range_prefix by (auto simp: ent_key_def)
  show "kv_ok (kv_range (ent_prefix 1) (prefix_upper_bound (ent_prefix 1)) old_kv)" by (rule kv_ok_range [OF old_kv(2)])
qed (simp add: kv_ok_def)

lemma standalone_reads: "\<exists>b. legacy_pending standalone g s = Inr b"
proof -
  obtain r b where "st_scan standalone s (ent_prefix g) (prefix_upper_bound (ent_prefix g)) 1 (\<lambda>found k v. (Inr False, True)) False = (r, b)"
    by fastforce
  moreover from this have "r = Inr ()"
    by (cases "kv_range (ent_prefix g) (prefix_upper_bound (ent_prefix g)) (db s)") (auto simp: st_scan_def standalone_def)
  ultimately show ?thesis by (auto simp: legacy_pending_def st_get_def standalone_def split: option.split)
qed

text \<open>After one synced write and a power cut the group opens.\<close>

lemma load_after_cut:
  assumes "persist demo_env raft_codec_demo 1 (Some a_state) [(1, CHR ''x'')] True s0 = (Inr (), s)" "ln_dirs s0 1 = []" "ln_open s0 1 = None"
    and "ln_dirs t 1 = ln_dirs s 1" "ln_open t 1 = ln_open s 1" "power_cut (ln_dirs t 1) d"
    and "legacy_pending standalone 1 (after_crash 1 d t) = Inr False" "kv_get (db t) (snap_key 1) = None"
  shows "log_life raft_codec_demo 128 1 2 False (Some a_state) [(1, CHR ''x'')] (after_crash 1 d t)"
    "\<exists>x s'. load demo_env raft_codec_demo demo_codec 1 (after_crash 1 d t) = (Inr x, s')"
proof -
  have M: "sg_max_bytes (re_seg demo_env) = 128" by simp
  have "log_life raft_codec_demo 128 1 1 True None [] s0" by (rule log_life.start [OF assms(2,3)])
  from log_life.append [OF this M assms(1)] have "log_life raft_codec_demo 128 1 2 True (Some a_state) [(1, CHR ''x'')] s"
    by (simp add: ascending_def splice_def numeral_2_eq_2)
  then have "log_life raft_codec_demo 128 1 2 True (Some a_state) [(1, CHR ''x'')] t" by (rule log_life.other [OF _ assms(4,5)])
  then show life: "log_life raft_codec_demo 128 1 2 False (Some a_state) [(1, CHR ''x'')] (after_crash 1 d t)"
    unfolding after_crash_def by (rule log_life.power [OF _ assms(6)])
  have st: "group_stores raft_codec_demo (re_seg demo_env) 2 (Some a_state) [(1, CHR ''x'')] 1 (after_crash 1 d t)"
    using log_life_stores [OF life] by simp
  have "db (after_crash 1 d t) = db t" by (simp add: after_crash_def close_logs_def)
  then show "\<exists>x s'. load demo_env raft_codec_demo demo_codec 1 (after_crash 1 d t) = (Inr x, s')"
    using load_succeeds [OF st assms(7)] assms(8) by simp
qed

lemma old_legacy:
  "legacy_pending standalone 1 (new_log_node old_kv) = Inr True"
  "load_legacy standalone raft_codec_demo demo_codec 1 (new_log_node old_kv) = Inr (a_state, [(1, CHR ''x'')], None)"
  using hs_not_ent
  by (simp_all add: legacy_pending_def load_legacy_def load_snap_meta_def load_with_def st_get_def st_scan_def standalone_def old_kv old_range
      collect_entry_def raft_codec_demo_def)


theorem migration_loses_nothing_witness:
  "\<exists>s' d s''. migrate_log demo_env raft_codec_demo demo_codec 1 (new_log_node old_kv) = (Inr (), s') \<and>
     power_cut (ln_dirs s' 1) d \<and> load demo_env raft_codec_demo demo_codec 1 (after_crash 1 d s') = (Inr (a_state, [(1, CHR ''x'')], None), s'')"
proof -
  let ?s = "new_log_node old_kv"
  have wipe: "wipe_log demo_env 1 ?s = (Inr (), ?s)"
    by (simp add: wipe_log_def new_log_node_def fun_upd_idem)
  obtain s1 where s1: "persist demo_env raft_codec_demo 1 (Some a_state) [(1, CHR ''x'')] True ?s = (Inr (), s1)"
    by (rule first_persist [of ?s 1]) simp_all
  then have chunks: "persist_chunks demo_env raft_codec_demo 1 (Some a_state) [(1, CHR ''x'')] ?s = (Inr (), s1)"
    by (simp add: persist_chunks.simps migrate_chunk_entries_def sbind_def sret_def)
  let ?s' = "set_db (apply_batch (drop_legacy_batch 1) (db s1)) s1"
  have mig: "migrate_log demo_env raft_codec_demo demo_codec 1 ?s = (Inr (), ?s')"
    using old_legacy wipe chunks
    by (simp add: migrate_log_def sbind_def ask_store_def in_store_def slift_def apply_with_def rep_apply_standalone)
  obtain d where d: "power_cut (ln_dirs ?s' 1) d" using power_cut_exists by blast
  have proper: "ent_keys_proper 1 (db ?s)"
  proof -
    have "k = ent_key 1 1" if "(k, v) \<in> set old_kv" "prefix (ent_prefix 1) k" for k v
      using that hs_not_ent(2) kv_mem [OF old_kv(2), of k v] by (auto simp: old_kv(1) split: if_splits)
    then show ?thesis by (auto simp: ent_keys_proper_def)
  qed
  have db: "db (after_crash 1 d ?s') = apply_batch (drop_legacy_batch 1) old_kv"
    using elsewhere_persist [OF s1] by (simp add: elsewhere_def after_crash_def close_logs_def)
  obtain b where b: "legacy_pending standalone 1 (after_crash 1 d ?s') = Inr b" using standalone_reads by blast
  then have leg: "legacy_pending standalone 1 (after_crash 1 d ?s') = Inr False"
    using after_drop(1) [of "after_crash 1 d ?s'" 1 ?s] db proper by (cases b) auto
  have snap: "kv_get (db ?s') (snap_key 1) = None"
    using db hs_not_ent(3) raft_keys_distinct by (auto simp: drop_legacy_batch_def kv_simps old_kv(1) after_crash_def close_logs_def)
  have new: "ln_dirs ?s 1 = []" "ln_open ?s 1 = None" "ln_dirs ?s' 1 = ln_dirs s1 1" "ln_open ?s' 1 = ln_open s1 1"
    by (simp_all add: set_db_def)
  obtain x s'' where l: "load demo_env raft_codec_demo demo_codec 1 (after_crash 1 d ?s') = (Inr x, s'')"
    using load_after_cut(2) [OF s1 new d leg snap] by blast
  obtain h es m where x: "x = (h, es, m)" by (cases x)
  have ld: "load demo_env raft_codec_demo demo_codec 1 ?s = (Inr (a_state, [(1, CHR ''x'')], None), ?s)"
    using old_legacy by (simp add: load_def sbind_def ask_store_def in_store_def slift_def)
  have p: "legacy_pending (re_store demo_env) 1 ?s = Inr True" using old_legacy(1) by simp
  have "h = a_state \<and> es = [(1, CHR ''x'')] \<and> m = None"
    using migration_loses_nothing [OF _ _ proper p ld _ _ _ mig disjI2 [OF d] l [unfolded x]] by (simp add: ascending_def)
  then show ?thesis using mig d l x by blast
qed


text \<open>A new data directory with a permit, and one group.\<close>

definition permit_kv :: kv where
  "permit_kv = [(recover_permit_key, ''now'')]"

lemma permit_kv: "kv_get permit_kv k = (if k = recover_permit_key then Some ''now'' else None)"
  "kv_range (ent_prefix g) (prefix_upper_bound (ent_prefix g)) permit_kv = []"
  using permit_not_group [of g "''ent/''"]
  by (auto simp: permit_kv_def kv_get_def kv_range_def in_range_prefix ent_prefix_def)

theorem permit_spent_after_bump_witness:
  "\<exists>s' s''. force_local_recover demo_env raft_codec_demo demo_codec 0 (new_log_node permit_kv) = (Inr (), s') \<and>
     kv_get (db s') recover_permit_key = None \<and>
     load demo_env raft_codec_demo demo_codec 0 s' = (Inr (\<lparr>hs_term = 1, hs_vote = 0, hs_commit = 0\<rparr>, [], None), s'')"
proof -
  let ?s = "new_log_node permit_kv"
  have leg: "legacy_pending standalone g ?s = Inr False" for g
    using permit_not_hs [of g] by (simp add: legacy_pending_def st_get_def st_scan_def standalone_def permit_kv)
  have snap: "load_snap_meta standalone demo_codec ?s g = Inr None" "kv_get permit_kv (snap_key g) = None" for g
    using permit_not_group [of g "''snap''"]
    by (auto simp: load_snap_meta_def load_with_def st_get_def standalone_def permit_kv snap_key_def)
  have st: "group_stores raft_codec_demo (re_seg demo_env) 1 None [] g ?s" for g
    by (simp add: group_stores_def disk_holds_def)
  have ls: "log_state demo_env raft_codec_demo demo_codec 1 g empty_hs [] None ?s" for g
    using leg snap(1) st by (auto simp: log_state_def load_view_def intro!: exI [of _ None])
  obtain x s1 where l: "load demo_env raft_codec_demo demo_codec 0 ?s = (Inr x, s1)"
    using load_succeeds [OF st [of 0] leg [of 0]] snap(2) by fastforce
  have x: "x = (empty_hs, [], None)" by (rule log_state_load [OF ls [of 0] _ l]) simp
  have g1: "get_log demo_env raft_codec_demo 0 ?s = (Inr (), s1)"
    using l leg by (auto simp: load_def sbind_ok ask_store_ok sget_def sret_def)
  obtain s2 where "persist demo_env raft_codec_demo 0 (Some (bump_hs empty_hs)) [] True ?s = (Inr (), s2)"
    by (rule first_persist [of ?s 0]) simp_all
  moreover have "group_holds raft_codec_demo (re_seg demo_env) 1 None [] 0 s1" by (rule get_log_holds [OF st g1]) simp
  then have "get_log demo_env raft_codec_demo 0 s1 = (Inr (), s1)" by (auto simp: get_log_def group_holds_def)
  ultimately have s2: "persist demo_env raft_codec_demo 0 (Some (bump_hs empty_hs)) [] True s1 = (Inr (), s2)"
    using g1 by (simp add: persist_def sbind_def)
  have db1: "db s1 = permit_kv" using elsewhere_get_log [OF g1] by (simp add: elsewhere_def)
  have db2: "db s2 = permit_kv" using elsewhere_persist [OF s2] db1 by (simp add: elsewhere_def)
  have "legacy_pending standalone 0 s1 = Inr False" using leg [of 0] db_cong(1) [of s1 ?s] db1 by simp
  then have bump: "bump_group demo_env raft_codec_demo demo_codec 0 ?s = (Inr (), s2)"
    using l x s2 by (simp add: bump_group_def sbind_def ask_store_def in_store_def slift_def)
  let ?s' = "set_db (kv_del recover_permit_key permit_kv) s2"
  have force: "force_local_recover demo_env raft_codec_demo demo_codec 0 ?s = (Inr (), ?s')"
    using bump db2 by (simp add: force_local_recover_def bump_terms_into_def group_ids_def sbind_def sret_def in_store_def apply_with_def
        rep_apply_standalone kv_simps)
  have spent: "kv_get (db ?s') recover_permit_key = None" by (simp add: kv_simps)
  have "log_state demo_env raft_codec_demo demo_codec (Suc 1) 0 (bump_hs empty_hs) [] None s2"
    by (rule bump_group_own [OF ls bump]) simp_all
  then have own: "log_state demo_env raft_codec_demo demo_codec 2 0 (bump_hs empty_hs) [] None s2"
    by (simp only: numeral_2_eq_2 One_nat_def)
  have dirs: "ln_dirs ?s' 0 = ln_dirs s2 0" "ln_open ?s' 0 = ln_open s2 0" "db ?s' = kv_del recover_permit_key (db s2)"
    by (simp_all add: set_db_def db2)
  note own' = log_state_del_permit [OF own dirs(3,1,2)]
  have empty: "db ?s' = []" by (simp add: permit_kv_def kv_del_def)
  note leg' = no_legacy [OF empty]
  obtain h where h: "group_stores raft_codec_demo (re_seg demo_env) 2 h [] 0 ?s'"
    using own' leg' by (auto simp: log_state_def)
  obtain y s'' where l2: "load demo_env raft_codec_demo demo_codec 0 ?s' = (Inr y, s'')"
    using load_succeeds [OF h leg'] empty by (fastforce simp: kv_simps)
  obtain hs es m where y: "y = (hs, es, m)" by (cases y)
  have ne: "kv_get (db ?s') recover_permit_key \<noteq> kv_get (db ?s) recover_permit_key" by (simp add: kv_simps permit_kv)
  have "hs = \<lparr>hs_term = hs_term empty_hs + 1, hs_vote = 0, hs_commit = hs_commit empty_hs\<rparr> \<and> es = [] \<and> m = None"
    by (rule permit_spent_after_bump [of raft_codec_demo 1 0 demo_env demo_codec "\<lambda>_. empty_hs" "\<lambda>_. []" "\<lambda>_. None", OF _ _ _ _ ls force ne _ l2 [unfolded y]])
      simp_all
  then show ?thesis using force spent l2 y by (auto simp: empty_hs_def)
qed

end
