(* ===== verification/Recovery_Demo.thy ===== *)
theory Recovery_Demo
  imports Recovery_Safety Raft_Demo
begin

text \<open>Concrete starts, on which the theorems of \<open>Recovery_Safety\<close> are applied.\<close>

definition demo_boot :: "(seg_dir \<Rightarrow> seg_dir option) \<Rightarrow> (u64 \<times> char) boot_env" where
  "demo_boot rm = \<lparr>be_rs = demo_env\<lparr>re_remove := rm\<rparr>, be_stat = \<lambda>_. False, be_ent_term = \<lambda>_. 2, be_ent_conf = \<lambda>_. NoConf\<rparr>"

lemma demo_boot [simp]: "re_store (be_rs (demo_boot rm)) = standalone" "re_seg (be_rs (demo_boot rm)) = some_env 128 True"
  "re_remove (be_rs (demo_boot rm)) = rm" "be_ent_term (demo_boot rm) e = 2" "be_ent_conf (demo_boot rm) e = NoConf"
  by (simp_all add: demo_boot_def)

section \<open>A refused start\<close>

text \<open>An applied index, the generation of another boot, no marker of a clean shutdown.\<close>

definition unclean_kv :: kv where
  "unclean_kv = apply_batch (bset groups_key (put_u32 1) (bset boot_gen_key ''boot-1'' (bset (applied_key 0) (put_u64 5) new_batch))) []"

lemma unclean_kv: "kv_get unclean_kv k =
    (if k = groups_key then Some (put_u32 1) else if k = boot_gen_key then Some ''boot-1''
     else if k = applied_key 0 then Some (put_u64 5) else None)"
  by (simp only: unclean_kv_def apply_bset kv_get_set apply_batch_Nil kv_get_Nil)

theorem refused_until_signed_witness:
  "\<exists>s' t. recover_node (demo_boot (\<lambda>_. None)) raft_codec_demo demo_codec 1 AckQuorumMem (Some ''boot-2'') (new_log_node unclean_kv) = (Inl RsUnclean, s') \<and>
     recover_node (demo_boot (\<lambda>_. None)) raft_codec_demo demo_codec 1 AckQuorumMem (Some ''boot-2'') s' = (Inl RsUnclean, s') \<and>
     grant_recover_permit standalone ''now'' (Some ''boot-2'') s' = (Inr (), t) \<and>
     (\<forall>t'. recover_node (demo_boot (\<lambda>_. None)) raft_codec_demo demo_codec 1 AckQuorumMem (Some ''boot-2'') t \<noteq> (Inl RsUnclean, t'))"
proof -
  let ?s = "new_log_node unclean_kv"
  have k: "groups_key \<noteq> clean_shutdown_key" "boot_gen_key \<noteq> clean_shutdown_key" "clean_shutdown_key \<noteq> applied_key 0" "groups_key \<noteq> applied_key 0"
    "boot_gen_key \<noteq> applied_key 0" "recover_permit_key \<noteq> groups_key" "recover_permit_key \<noteq> boot_gen_key" "recover_permit_key \<noteq> applied_key 0"
    "groups_key \<noteq> boot_gen_key"
    by (simp_all add: raft_key_defs raft_prefix_def fmt_nat.simps)
  have run: "recover_node (demo_boot (\<lambda>_. None)) raft_codec_demo demo_codec 1 AckQuorumMem (Some ''boot-2'') ?s = (Inl RsUnclean, ?s)"
    unfolding refused_iff
    using k by (auto simp: in_store_def ensure_groups_def st_get_def standalone_def unclean_kv disk_has_raft_state_def raft_applied_def meta_group_def
      load_boot_gen_def load_recover_permit_def decide_recovery_def recovery_input_of_def same_machine_boot_def permit_valid_def)
  let ?t = "set_db (kv_set recover_permit_key (''now'' @ CHR 0x0A # ''boot-2'') (db ?s)) ?s"
  have "grant_recover_permit standalone ''now'' (Some ''boot-2'') ?s = (Inr (), ?t)"
    by (simp add: grant_recover_permit_def save_recover_permit_def apply_with_def rep_apply_standalone kv_simps)
  moreover from this have "grant_recover_permit (re_store (be_rs (demo_boot (\<lambda>_. None)))) ''now'' (Some ''boot-2'') ?s = (Inr (), ?t)" by simp
  moreover have "CHR 0x0A \<notin> set ''now''" "Some ''boot-2'' \<noteq> Some []" by simp_all
  ultimately show ?thesis using run refused_until_signed [OF run] by blast
qed


section \<open>A half installed group\<close>

text \<open>The storage of raft remembers the snapshot it starts from and the entries above it.\<close>

definition demo_storage :: "(u64 \<times> char, u64 option \<times> (u64 \<times> char) list) raft_storage" where
  "demo_storage = \<lparr>rg_new = (None, []), rg_apply_snapshot = \<lambda>m st. Inr (Some (mt_index m), []), rg_append = \<lambda>es st. Inr (fst st, es),
     rg_set_hs = \<lambda>h st. Inr st\<rparr>"

lemma demo_storage [simp]: "rg_new demo_storage = (None, [])" "rg_apply_snapshot demo_storage m st = Inr (Some (mt_index m), [])"
  "rg_append demo_storage es st = Inr (fst st, es)" "rg_set_hs demo_storage h st = Inr st"
  by (simp_all add: demo_storage_def)

definition half_kv :: kv where
  "half_kv = kv_set (snap_install_key 1) ''m'' [(msg_key ''t'' 0 9, ''old'')]"

lemma half_kv: "kv_get half_kv k = (if k = snap_install_key 1 then Some ''m'' else if k = msg_key ''t'' 0 9 then Some ''old'' else None)"
  "kv_ok half_kv" "parsable 1 1 half_kv"
proof -
  show "kv_get half_kv k = (if k = snap_install_key 1 then Some ''m'' else if k = msg_key ''t'' 0 9 then Some ''old'' else None)"
    by (simp add: half_kv_def kv_simps) (simp add: kv_get_def)
  have "db (new_log_node half_kv) = kv_set (snap_install_key 1) ''m'' [(msg_key ''t'' 0 9, ''old'')]" by (simp add: half_kv_def)
  from demo_wipe [OF this] have "kv_ok (db (new_log_node half_kv)) \<and> parsable 1 1 (db (new_log_node half_kv))" by metis
  then show "kv_ok half_kv" "parsable 1 1 half_kv" by simp_all
qed

lemma not_msg: "prefix raft_prefix k \<Longrightarrow> k \<noteq> msg_key ''t'' 0 9"
  by (auto simp: msg_key_def msg_prefix_def raft_prefix_def)

lemma ent_prefix_raft: "prefix (ent_prefix 1) k \<Longrightarrow> prefix raft_prefix k"
  by (auto simp: prefix_def ent_prefix_def group_key_def raft_prefix_def)

lemma half_kv_none: "prefix raft_prefix k \<Longrightarrow> k \<noteq> snap_install_key 1 \<Longrightarrow> kv_get half_kv k = None"
  using not_msg by (simp add: half_kv(1))

lemma half_migrated: "migrated 1 half_kv"
proof -
  have "\<not> prefix (ent_prefix 1) (snap_install_key 1)" unfolding snap_install_key_def by (rule ent_not_named) simp
  then show ?thesis using half_kv_none ent_prefix_raft unfolding migrated_def by auto
qed

lemma half_marker: "db s = half_kv \<Longrightarrow> load_installing standalone demo_codec s 1 = Inr (Some \<lparr>mt_index = 7, mt_term = 2, mt_conf = empty_conf\<rparr>)"
  by (simp add: load_installing_def load_with_def st_get_def standalone_def demo_codec_def half_kv(1))

lemma remove_unused: "load (demo_env\<lparr>re_remove := rm\<rparr>) c mc g s = load demo_env c mc g s"
proof -
  have r: "re_store (demo_env\<lparr>re_remove := rm\<rparr>) = re_store demo_env" "re_seg (demo_env\<lparr>re_remove := rm\<rparr>) = re_seg demo_env" by simp_all
  have g: "get_log (demo_env\<lparr>re_remove := rm\<rparr>) c = get_log demo_env c" by (intro ext) (simp only: get_log_def r)
  show ?thesis unfolding load_def g r ..
qed

text \<open>Nothing of raft is in the store but the marker and the applied index zero.\<close>

definition bare :: "kv \<Rightarrow> bool" where
  "bare m \<longleftrightarrow> (\<forall>k. prefix raft_prefix k \<longrightarrow> k \<notin> {snap_install_key 1, applied_key 1} \<longrightarrow> kv_get m k = None) \<and>
     kv_get m (applied_key 1) \<in> {None, Some (put_u64 0)}"

lemma bare_half: "bare half_kv"
  using half_kv_none by (auto simp: bare_def)

lemma bare_loads:
  assumes "bare (db s)" "group_stores raft_codec_demo (re_seg demo_env) k h ents 1 s" "1 \<le> k"
  obtains hs es m s1 st where "load (be_rs (demo_boot rm)) raft_codec_demo demo_codec 1 s = (Inr (hs, es, m), s1)" "db s1 = db s"
    "group_holds raft_codec_demo (re_seg demo_env) k h ents 1 s1"
    "seed_storage (demo_boot rm) demo_storage raft_codec_demo demo_codec 1 hs es m s1 = Inr st" "raft_applied standalone s1 1 = Inr 0"
proof -
  have none: "prefix raft_prefix k \<Longrightarrow> k \<notin> {snap_install_key 1, applied_key 1} \<Longrightarrow> kv_get (db s) k = None" for k
    using assms(1) by (simp add: bare_def)
  have "\<not> prefix (ent_prefix 1) (snap_install_key 1)" "\<not> prefix (ent_prefix 1) (applied_key 1)"
    unfolding snap_install_key_def applied_key_def by (rule ent_not_named; simp)+
  then have mig: "migrated 1 (db s)" using none ent_prefix_raft unfolding migrated_def by auto
  obtain p where p: "legacy_pending standalone 1 s = Inr p" using standalone_reads by blast
  have leg: "legacy_pending standalone 1 s = Inr False" using migrated_pending [OF mig p] p by simp
  have snap: "kv_get (db s) (snap_key 1) = None" by (rule none) simp_all
  obtain x s1 where l: "load demo_env raft_codec_demo demo_codec 1 s = (Inr x, s1)"
    using load_succeeds [OF assms(2) leg snap] by blast
  have g1: "get_log demo_env raft_codec_demo 1 s = (Inr (), s1)"
    using l leg by (auto simp: load_def sbind_ok ask_store_ok sget_def sret_def)
  have db1: "db s1 = db s" using elsewhere_load [OF l] by (simp add: elsewhere_def)
  have holds: "group_holds raft_codec_demo (re_seg demo_env) k h ents 1 s1" by (rule get_log_holds [OF assms(2) g1 assms(3)])
  obtain hs es m where x: "x = (hs, es, m)" by (cases x)
  have "kv_get (db s) (conf_key 1) = None" by (rule none) simp_all
  then have conf: "load_conf_state standalone demo_codec s1 1 = Inr None"
    using db1 by (simp add: load_conf_state_def load_with_def st_get_def standalone_def)
  have app: "raft_applied standalone s1 1 = Inr 0"
    using assms(1) db1 by (auto simp: bare_def raft_applied_def st_get_def standalone_def)
  have confs: "conf_state_from_entries (List.map (\<lambda>e. (ent_index raft_codec_demo e, NoConf)) es') n cs = Inr cs" for es' n cs
    by (induction es') auto
  have sc: "stored_conf (demo_boot rm) raft_codec_demo demo_codec 1 hs' es' s1 = Inr empty_conf" for hs' es'
    using conf confs by (simp add: stored_conf_def)
  have "\<exists>st. seed_storage (demo_boot rm) demo_storage raft_codec_demo demo_codec 1 hs es m s1 = Inr st"
    by (cases m; cases "es = []"; cases "hs = empty_hs") (auto simp: seed_storage_def sc)
  then show thesis using that l x db1 holds app remove_unused [of rm raft_codec_demo demo_codec 1 s] by (auto simp: demo_boot_def)
qed

text \<open>A start that finds the marker of \<open>half_kv\<close> comes to wiping the log.\<close>

lemma half_build:
  assumes "db s = half_kv" "group_stores raft_codec_demo (re_seg demo_env) k h ents 1 s" "1 \<le> k"
  obtains s1 s2 where "group_holds raft_codec_demo (re_seg demo_env) k h ents 1 s1" "ln_dirs s2 = ln_dirs s1" "ln_open s2 = ln_open s1"
    "kv_get (db s2) (snap_install_key 1) = None" "bare (db s2)"
    "build_group (demo_boot rm) demo_storage raft_codec_demo demo_codec 1 1 True s =
      (case wipe_log (be_rs (demo_boot rm)) 1 s2 of (Inl e, t) \<Rightarrow> (Inl e, t) | (Inr u, t) \<Rightarrow> (Inr ((None, []), 0), t))"
proof -
  obtain hs es m s1 st where l: "load (be_rs (demo_boot rm)) raft_codec_demo demo_codec 1 s = (Inr (hs, es, m), s1)" "db s1 = db s"
    "group_holds raft_codec_demo (re_seg demo_env) k h ents 1 s1"
    "seed_storage (demo_boot rm) demo_storage raft_codec_demo demo_codec 1 hs es m s1 = Inr st" "raft_applied standalone s1 1 = Inr 0"
    using bare_loads [OF _ assms(2,3)] bare_half assms(1) by metis
  have db1: "db s1 = half_kv" using l(2) assms(1) by simp
  have ok: "kv_ok (db s1)" "parsable 1 1 (db s1)" by (simp_all add: db1 half_kv)
  obtain b where w: "wipe_group_keys standalone 1 1 s1 = (Inr (), set_db (apply_batch b (db s1)) s1)"
      "\<And>k. kv_get (apply_batch b (db s1)) k = (if in_group 1 1 k then None else kv_get (db s1) k)"
    by (rule wipe_exact [OF standalone_ok ok]) blast
  let ?s2 = "set_db (apply_batch (reset_batch 1) (apply_batch b (db s1))) s1"
  have "build_group (demo_boot rm) demo_storage raft_codec_demo demo_codec 1 1 True s =
      (case wipe_log (be_rs (demo_boot rm)) 1 ?s2 of (Inl e, t) \<Rightarrow> (Inl e, t) | (Inr u, t) \<Rightarrow> (Inr ((None, []), 0), t))"
    using l w(1) half_marker [OF db1]
    by (simp add: build_group_def sbind_def ask_store_def in_store_def slift_def reset_group_progress_def sret_def
        apply_with_def rep_apply_standalone set_db_def split: prod.split sum.split)
  moreover have "bare (db ?s2)"
    using half_kv_none w(2) [unfolded db1] unfolding bare_def db_set_db reset_get db1 by auto
  ultimately show thesis using that [OF l(3), of ?s2] by (simp add: set_db_def reset_get)
qed

lemma wipe_outcome:
  assumes "group_holds raft_codec_demo (re_seg demo_env) k h ents 1 s" "d = ln_dirs s 1"
  shows "rm d = None \<Longrightarrow> \<exists>t. wipe_log (be_rs (demo_boot rm)) 1 s = (Inr (), t)"
    "rm d = Some d \<Longrightarrow> \<exists>t. wipe_log (be_rs (demo_boot rm)) 1 s = (Inl RsRemove, t) \<and> db t = db s"
  using assms by (auto simp: wipe_log_def group_holds_def close_log_def Let_def)

lemma demo_in_group: "in_group 1 1 (msg_key ''t'' 0 9)"
proof -
  have "prefix msg_prefix (msg_key ''t'' 0 9)" by (simp add: msg_key_def)
  then show ?thesis using demo_key_group [of 9] by (auto simp: in_group_def group_families_def meta_group_def data_families_def)
qed

theorem restart_clears_half_install_witness:
  "\<exists>s'. build_group (demo_boot (\<lambda>_. None)) demo_storage raft_codec_demo demo_codec 1 1 True (new_log_node half_kv) = (Inr ((None, []), 0), s') \<and>
    ln_dirs s' 1 = [] \<and> kv_get (db s') (msg_key ''t'' 0 9) = None"
proof -
  let ?s = "new_log_node half_kv"
  have g: "group_stores raft_codec_demo (re_seg demo_env) 1 None [] 1 ?s" by (simp add: group_stores_def disk_holds_def)
  obtain s1 s2 where b: "group_holds raft_codec_demo (re_seg demo_env) 1 None [] 1 s1" "ln_dirs s2 = ln_dirs s1" "ln_open s2 = ln_open s1"
    "build_group (demo_boot (\<lambda>_. None)) demo_storage raft_codec_demo demo_codec 1 1 True ?s =
      (case wipe_log (be_rs (demo_boot (\<lambda>_. None))) 1 s2 of (Inl e, t) \<Rightarrow> (Inl e, t) | (Inr u, t) \<Rightarrow> (Inr ((None, []), 0), t))"
    by (rule half_build [OF new_log_node(1) g order_refl, of "\<lambda>_. None"]) blast
  then have "group_holds raft_codec_demo (re_seg demo_env) 1 None [] 1 s2" by (simp add: group_holds_def)
  then obtain t where run: "build_group (demo_boot (\<lambda>_. None)) demo_storage raft_codec_demo demo_codec 1 1 True ?s = (Inr ((None, []), 0), t)"
    using wipe_outcome(1) [of 1 None "[]" s2 _ "\<lambda>_. None"] b(4) by auto
  have m: "load_installing (re_store (be_rs (demo_boot (\<lambda>_. None)))) demo_codec ?s 1 = Inr (Some \<lparr>mt_index = 7, mt_term = 2, mt_conf = empty_conf\<rparr>)"
    using half_marker [of ?s] by simp
  have "in_group 1 1 (msg_key ''t'' 0 9)" by (rule demo_in_group)
  moreover have "msg_key ''t'' 0 9 \<noteq> applied_key 1" using not_msg [of "applied_key 1"] by auto
  ultimately show ?thesis
    using restart_clears_half_install [OF _ _ _ _ m run] run standalone_ok half_kv(2,3) by auto
qed

text \<open>
  The log starts at entry 5, whatever was before it is in the snapshot; the start stops between the
  two steps of the reset.
\<close>

theorem half_reset_skips_prefix_witness:
  "\<exists>s s' t. db s = half_kv \<and>
     build_group (demo_boot Some) demo_storage raft_codec_demo demo_codec 1 1 True s = (Inl RsRemove, s') \<and>
     build_group (demo_boot (\<lambda>_. None)) demo_storage raft_codec_demo demo_codec 1 1 True (close_logs s') = (Inr ((Some 4, [(5, CHR ''x'')]), 0), t) \<and>
     kv_get (db t) (msg_key ''t'' 0 9) = None"
proof -
  let ?s0 = "new_log_node half_kv"
  obtain s where p: "persist demo_env raft_codec_demo 1 (Some a_state) [(5, CHR ''x'')] True ?s0 = (Inr (), s)"
    by (rule first_persist [of ?s0 1]) simp_all
  have db: "db s = half_kv" using elsewhere_persist [OF p] by (simp add: elsewhere_def)
  have g0: "group_stores raft_codec_demo (re_seg demo_env) 1 None [] 1 ?s0" by (simp add: group_stores_def disk_holds_def)
  have "group_holds raft_codec_demo (re_seg demo_env) (Suc 1) (if Some a_state = None then None else Some a_state)
      (splice raft_codec_demo [] [(5, CHR ''x'')]) 1 s"
    by (rule conjunct1 [OF persist_stored [OF g0 p]]) (simp_all add: ascending_def)
  then have st: "group_stores raft_codec_demo (re_seg demo_env) 2 (Some a_state) [(5, CHR ''x'')] 1 s"
    by (simp add: splice_def numeral_2_eq_2 group_stores_def)
  have two: "1 \<le> (2 :: nat)" by simp
  obtain s1 s2 where b: "group_holds raft_codec_demo (re_seg demo_env) 2 (Some a_state) [(5, CHR ''x'')] 1 s1" "ln_dirs s2 = ln_dirs s1"
    "ln_open s2 = ln_open s1" "kv_get (db s2) (snap_install_key 1) = None" "bare (db s2)"
    "build_group (demo_boot Some) demo_storage raft_codec_demo demo_codec 1 1 True s =
      (case wipe_log (be_rs (demo_boot Some)) 1 s2 of (Inl e, t) \<Rightarrow> (Inl e, t) | (Inr u, t) \<Rightarrow> (Inr ((None, []), 0), t))"
    by (rule half_build [OF db st two, of Some]) blast
  then have "group_holds raft_codec_demo (re_seg demo_env) 2 (Some a_state) [(5, CHR ''x'')] 1 s2" by (simp add: group_holds_def)
  from wipe_outcome(2) [OF this refl, of Some] obtain s' where w: "wipe_log (be_rs (demo_boot Some)) 1 s2 = (Inl RsRemove, s')" by auto
  have s': "ln_dirs s' = ln_dirs s2" "ln_open s' 1 = None" "db s' = db s2" using wipe_log_fails [OF w] by simp_all
  have crash: "build_group (demo_boot Some) demo_storage raft_codec_demo demo_codec 1 1 True s = (Inl RsRemove, s')" using b(6) w by simp
  let ?r = "close_logs s'"
  have "disk_holds raft_codec_demo (sg_max_bytes (re_seg demo_env)) 2 (Some a_state) [(5, CHR ''x'')] (ln_dirs s1 1)"
    using b(1) by (auto simp: group_holds_def dest: log_holds_disk)
  then have str: "group_stores raft_codec_demo (re_seg demo_env) 2 (Some a_state) [(5, CHR ''x'')] 1 ?r"
    by (simp add: group_stores_def close_logs_def s'(1) b(2))
  have bare: "bare (db ?r)" by (simp add: close_logs_def s'(3) b(5))
  obtain hs es m t st where l: "load (be_rs (demo_boot (\<lambda>_. None))) raft_codec_demo demo_codec 1 ?r = (Inr (hs, es, m), t)" "db t = db ?r"
    "seed_storage (demo_boot (\<lambda>_. None)) demo_storage raft_codec_demo demo_codec 1 hs es m t = Inr st" "raft_applied standalone t 1 = Inr 0"
    by (rule bare_loads [OF bare str two, of "\<lambda>_. None"]) blast
  have "load_installing standalone demo_codec t 1 = Inr None"
    using l(2) b(4) s'(3) by (simp add: load_installing_def load_with_def st_get_def standalone_def close_logs_def)
  then have again: "build_group (demo_boot (\<lambda>_. None)) demo_storage raft_codec_demo demo_codec 1 1 True ?r = (Inr (st, 0), t)"
    using l by (simp add: build_group_def sbind_def ask_store_def in_store_def slift_def sret_def)
  have E: "reads_ok (re_store (be_rs (demo_boot Some)))" "writes_ok (re_store (be_rs (demo_boot Some)))" "kv_ok (db s)" "parsable 1 1 (db s)"
    "migrated 1 (db s)" "load_installing (re_store (be_rs (demo_boot Some))) demo_codec s 1 = Inr (Some \<lparr>mt_index = 7, mt_term = 2, mt_conf = empty_conf\<rparr>)"
    "kv_get (db s') (snap_install_key 1) = None"
    "group_stores raft_codec_demo (re_seg (be_rs (demo_boot Some))) 2 (Some a_state) [(5, CHR ''x'')] 1 s"
    using standalone_ok half_kv(2,3) half_migrated half_marker [OF db] b(4) s'(3) st by (simp_all add: db)
  note hr = half_reset_skips_prefix [OF E(1-6,8) two _ _ crash E(7) _ again]
  have "in_group 1 1 (msg_key ''t'' 0 9)" by (rule demo_in_group)
  then have "st = (Some 4, [(5, CHR ''x'')]) \<and> kv_get (db t) (msg_key ''t'' 0 9) = None"
    using hr by (auto simp: raft_codec_demo_def split: if_splits)
  then show ?thesis using db crash again by blast
qed

end
