(* ===== verification/Spec2Isabelle.thy ===== *)
theory Spec2Isabelle
  imports Sql_Grammar Sql_Eval Deliver Delivery_Safety Delay Txn Seg_Contract
    Recovery_Demo
begin

text \<open>
  A verification library for sq, a message queue broker in Go that speaks the RocketMQ 5 protocol on
  top of the Pebble key value store.  The library models the message path of the broker (how messages
  are encoded and keyed, appended to queues, delivered to consumer groups and acknowledged, held back
  until they are due, staged in transactions) and the durable half of its raft layer: the segmented
  log of a group, the store of raft state above it, snapshots, and the decision how a node starts
  after a crash.

  \<^bold>\<open>Parts and how they interact.\<close>  All state but the raft logs is one ordered map from byte keys to byte
  values.  The registry of topics and groups (\<open>internal/core/meta\<close>) is a write-through cache of part of
  it.  The producer (\<open>internal/core/produce\<close>) appends to the logs of queues, the deliverer
  (\<open>internal/core/deliver\<close>) hands messages out and keeps inflight records and cursors, the delay
  scheduler (\<open>internal/core/delay\<close>) and the transaction manager (\<open>internal/core/txn\<close>) keep messages aside
  and pass them to the producer.  All of them write batches through the replicator, which decides
  whether a batch is refused, durable, or ordered with an unknown end.  Below it every raft group has a
  log of segment files (\<open>internal/cluster/seglog\<close>) that the log store (\<open>raftstore.go\<close>) opens, appends to,
  truncates and reads back; a group that is far behind gets a snapshot, the group's share of the map,
  in chunks from a view the sender has registered (\<open>snapshot.go\<close>, \<open>snapstream.go\<close>, \<open>snapinstall.go\<close>);
  and \<open>recovery.go\<close> decides with \<open>NewManager\<close> what of all this may be trusted at a start.

  \<^bold>\<open>Theories and what they model.\<close>
    \<^item> \<open>Prelude\<close>: byte strings, big endian numbers, errors as sums, the state and error monad
      (\<open>sbind\<close>, \<open>sret\<close>, \<open>slift\<close>) in which the handlers are written, and the calculus of the relations
      that every handler keeps (\<open>moves\<close>, \<open>keeps\<close>).
    \<^item> \<open>Keys\<close> (\<open>internal/store/keys.go\<close>): every key builder, parser and scan bound.  The locales
      \<open>key_codec\<close> and \<open>offset_family\<close> state what a family of keys owes its users; each family is an
      interpretation.
    \<^item> \<open>Store\<close> (\<open>internal/store/store.go\<close>, \<open>internal/replication/replication.go\<close>): the ordered map
      (locale \<open>ordered_map\<close>), batches, scans, read views, the outcomes of commits and forwarded calls.
    \<^item> \<open>GoStd\<close>: the parts of Go's \<open>strconv\<close>, \<open>time\<close> and floating point order that the code uses.
    \<^item> \<open>Sql_Lex\<close>, \<open>Sql_Parse\<close>, \<open>Sql_Grammar\<close>, \<open>Sql_Eval\<close> (\<open>sql92_token.go\<close>, \<open>sql92_parse.go\<close>,
      \<open>sql92_eval.go\<close>, \<open>filter.go\<close>): the filter language, from characters to the three valued answer.
    \<^item> \<open>Types\<close>, \<open>Json\<close>, \<open>Encoding\<close> (\<open>internal/core/types.go\<close>, \<open>encoding.go\<close>): messages, inflight
      records, both wire formats (locale \<open>codec\<close>); \<open>Json\<close> is the part of \<open>encoding/json\<close> they use.
    \<^item> \<open>Meta\<close> (\<open>internal/core/meta/meta.go\<close>): the registry (locale \<open>write_through\<close>).
    \<^item> \<open>Produce\<close> (\<open>internal/core/produce/produce.go\<close>): appends, batches, delayed appends, waking.
    \<^item> \<open>Handover\<close>: the write-then-delete order that dead-lettering, the scheduler and commits share
      (locale \<open>handover\<close>, interpreted on \<open>write_dead_letter\<close> and \<open>enqueue\<close>).
    \<^item> \<open>Deliver\<close> (\<open>internal/core/deliver/deliver.go\<close>, \<open>lease.go\<close>), \<open>Delay\<close>
      (\<open>internal/core/delay/delay.go\<close>), \<open>Txn\<close> (\<open>internal/core/txn/txn.go\<close>): one definition per method,
      the inner loops and callbacks as definitions of their own.
    \<^item> \<open>Lease_Table\<close>, \<open>Delivery_Safety\<close>: the table of leases that the inflight records of a queue
      implement, and what a whole take (scan, redelivery, fetch, commit) and any sequence of calls
      promise a consumer group.
    \<^item> \<open>Seg_Frame\<close>, \<open>Seg_Log\<close> (\<open>internal/cluster/seglog\<close>: \<open>frame.go\<close>, \<open>seglog.go\<close>, \<open>falloc_linux.go\<close>):
      frames and the log over a model of files in which writes, sizes and names become durable
      separately; a power cut (\<open>power_cut\<close>) keeps what was synced and any part of the rest.
      \<open>Seg_Replay\<close>, \<open>Seg_Files\<close>, \<open>Seg_Safety\<close>, \<open>Seg_Contract\<close>: what is read back, the invariant of an
      open log, and its contract.
    \<^item> \<open>Snap_Stream\<close>, \<open>Snap_Registry\<close>, \<open>Snap_Install\<close> (\<open>snapstream.go\<close>, \<open>snapshot.go\<close>, \<open>snapinstall.go\<close>,
      \<open>installSnapshot\<close> of \<open>group.go\<close>, \<open>handleFetchSnapshot\<close> of \<open>manager.go\<close>): which keys belong to a
      group, the enumeration in chunks, the registered views and their collection, the installation.
    \<^item> \<open>Raft_Meta\<close>, \<open>Raft_Store\<close>, \<open>Raft_Safety\<close> (\<open>raftstore.go\<close>, \<open>bootgen.go\<close>): the raft metadata in the
      map, the logs of all groups with the cache that \<open>Load\<close> answers from, the migration of the old
      form, and what survives.  \<open>Raft_Demo\<close> holds the concrete logs of the witnesses.
    \<^item> \<open>Recovery\<close>, \<open>Recovery_Safety\<close> (\<open>recovery.go\<close>, \<open>NewManager\<close> and \<open>buildGroup\<close> of \<open>manager.go\<close>): the
      decision, what is done with it, the report and the permit of \<open>sq recover\<close>.  \<open>Recovery_Demo\<close> holds
      the concrete starts of the witnesses.

  \<^bold>\<open>State and concurrency.\<close>  A component's state is a record that extends the one it uses (\<open>node\<close>,
  \<open>meta_node\<close>, \<open>prod_node\<close>, \<open>deliver_node\<close>, \<open>txn_node\<close>; \<open>raft_group\<close> and \<open>log_node\<close> extend \<open>node\<close>).  A critical
  section of the source's locks is one function; calls that wait outside the lock are split in the
  section and the wait.  The step relations \<open>prod_step\<close>, \<open>delay_step\<close>, \<open>txn_step\<close>, \<open>reg_step\<close> and \<open>log_life\<close>
  interleave the sections in any order, with any environment (\<open>env\<close>: disk errors, commit outcomes,
  leadership, peers' answers; \<open>seg_env\<close>, \<open>rs_env\<close>: failing file operations) at each step and with
  restarts; invariants are proved by rule induction over their closures.  The clock is an argument,
  in whole milliseconds (nanoseconds in the registry of views), read once per section; random bytes
  are arguments.  Loops that wait (\<open>Receive\<close>, the schedulers' \<open>Run\<close>) run over a schedule of turns that
  stands for the clock, the wakers and the cancellation of the context.

  \<^bold>\<open>What the lemmas show.\<close>  Codecs: each decoder inverts its encoder and accepts nothing else, and the
  scans meet exactly the entries they are meant to.  Filters: the parser accepts exactly the grammar
  and always ends, and evaluation is three valued logic with unknown for missing attributes.
  Registry: the cache is always what the store says.  Producer: an append refines an abstract
  log; offsets and sequence numbers are never given out twice.  Delivery: a take leases exclusively and
  skips nothing that matches, ordered messages are delivered one at a time, acknowledging is exact,
  stale handles are harmless, a dead letter is written before its source goes.  Scheduler: nothing is
  moved early or lost, and a recall that reports success is never false.  Transactions: the two keys
  of a half message are always a pair, the operations implement those of an abstract table, decided
  transactions stay decided, and checks are bounded.  Segment log: what was appended is what is read
  back, synced records survive a power cut, truncation keeps what is live, damage is refused.  Raft
  store: a group's log outlives restarts and power cuts, migration loses nothing, a permit is spent
  only with all terms raised.  Snapshots: an installation gives exactly the sender's share of the map
  and one that is cut short stays marked; a view is never closed under a reader nor kept past its hard
  limit.  Recovery: a refused node keeps refusing until it is signed for, a half done installation
  starts from nothing, and a half done reset does not.

  \<^bold>\<open>Fuel and bounds.\<close>  The parser and the JSON reader take fuel, and it is proved that the length of the
  input is enough.  Pulling a snapshot counts down from \<open>maxSnapshotChunks\<close>, as the code does; the
  lemma that it succeeds asks for a group of at most 65535 full chunks, 256 GiB and pairs of at most
  1 GiB.  Offsets and sequence numbers are 64 bit words; the lemmas that speak of fresh ones assume
  that the counters do not wrap (\<open>room\<close>), those of the segment log that fewer than \<open>2 ^ 64\<close> segments
  are opened.  The loops over groups visit \<open>group_ids\<close>, all of \<open>0 .. dataGroups\<close>; for \<open>2 ^ 32 - 1\<close> data
  groups the loop of the source would not end, and the list stops.  Times are integers with the int64
  range as a hypothesis where keys depend on it; the wrap of the scan bound at the last millisecond is
  modelled.

  \<^bold>\<open>Not modelled.\<close>  The raft algorithm is the etcd library; the loop that feeds it (\<open>group.go\<close>), the read
  barrier, leader balancing and the TCP transport run on goroutines around it, and their effect on the
  modelled parts is the outcome a commit, a forward or a control call can have, each an argument.
  \<open>MemoryStorage\<close> and the protobuf encodings are parameters with their documented laws.  Pebble is the
  ordered map.  The gRPC front end, the admin console, metrics, configuration and process start-up
  translate, count or wire and keep no state of the message path.  Logging is left out everywhere.
\<close>

end
